(* ===== verification/Prelude.thy ===== *)
theory Prelude
  imports Main "HOL-Library.Word" "HOL-Library.Multiset"
begin

text \<open>
  Shared vocabulary of the development: the machine types of the sources, the little-endian
  memory image that \<open>std::memcpy\<close> and \<open>reinterpret_cast\<close> observe on the supported targets,
  a contract (locale \<open>codec\<close>) for values that are written to and read back from a byte stream,
  and the standard-library algorithms the sources call (\<open>std::sort\<close>, \<open>std::lower_bound\<close>,
  \<open>std::upper_bound\<close>) together with the contract (locale \<open>weak_order\<close>) under which the C++
  standard says what they return.
\<close>

unbundle bit_operations_syntax

section \<open>Machine types and bytes\<close>

type_synonym byte = "8 word"
type_synonym u16 = "16 word"
type_synonym u32 = "32 word"
type_synonym u64 = "64 word"

named_theorems codec_simps \<open>unfolding and evaluation rules of the byte codecs\<close>
named_theorems search_simps \<open>characterisations of the binary searches\<close>

text \<open>The memory image of an unsigned integer of \<open>n\<close> bytes, least significant byte first.\<close>

fun le_bytes :: "nat \<Rightarrow> nat \<Rightarrow> byte list" where
  "le_bytes 0 x = []"
| "le_bytes (Suc n) x = word_of_nat (x mod 256) # le_bytes n (x div 256)"

fun le_nat :: "byte list \<Rightarrow> nat" where
  "le_nat [] = 0"
| "le_nat (b # bs) = unat b + 256 * le_nat bs"

lemma length_le_bytes [simp]: "length (le_bytes n x) = n"
  by (induction n arbitrary: x) auto

lemma le_nat_le_bytes_mod: "le_nat (le_bytes n x) = x mod 256 ^ n"
proof (induction n arbitrary: x)
  case 0
  then show ?case by simp
next
  case (Suc n)
  have "le_nat (le_bytes (Suc n) x) = x mod 256 + 256 * (x div 256 mod 256 ^ n)"
    by (simp add: Suc.IH unat_of_nat take_bit_eq_mod)
  also have "\<dots> = x mod 256 ^ Suc n"
    by (simp add: mod_mult2_eq)
  finally show ?case .
qed

lemma le_nat_le_bytes: "x < 256 ^ n \<Longrightarrow> le_nat (le_bytes n x) = x"
  by (simp add: le_nat_le_bytes_mod)

lemma le_nat_bound: "le_nat bs < 256 ^ length bs"
proof (induction bs)
  case Nil
  then show ?case by simp
next
  case (Cons b bs)
  have "unat b < 256" using unsigned_less [of b, where 'a=nat] by simp
  then show ?case using Cons.IH by simp
qed

lemma le_bytes_le_nat: "le_bytes (length bs) (le_nat bs) = bs"
proof (induction bs)
  case Nil
  then show ?case by simp
next
  case (Cons b bs)
  have b: "unat b < 256" using unsigned_less [of b, where 'a=nat] by simp
  then have "(unat b + 256 * le_nat bs) div 256 = le_nat bs" by simp
  with b Cons.IH show ?case by simp
qed

text \<open>Taking \<open>n\<close> bytes off the front of a buffer; \<open>None\<close> where the buffer is too short.\<close>

definition get_bytes :: "nat \<Rightarrow> byte list \<Rightarrow> (byte list \<times> byte list) option" where
  "get_bytes n bs = (if n \<le> length bs then Some (take n bs, drop n bs) else None)"

definition put_u16 :: "u16 \<Rightarrow> byte list" where "put_u16 w = le_bytes 2 (unat w)"
definition put_u32 :: "u32 \<Rightarrow> byte list" where "put_u32 w = le_bytes 4 (unat w)"
definition put_u64 :: "u64 \<Rightarrow> byte list" where "put_u64 w = le_bytes 8 (unat w)"

definition get_u8 :: "byte list \<Rightarrow> (byte \<times> byte list) option" where
  "get_u8 bs = (case bs of [] \<Rightarrow> None | b # r \<Rightarrow> Some (b, r))"

definition get_u16 :: "byte list \<Rightarrow> (u16 \<times> byte list) option" where
  "get_u16 bs = map_option (\<lambda>(v, r). (word_of_nat (le_nat v), r)) (get_bytes 2 bs)"

definition get_u32 :: "byte list \<Rightarrow> (u32 \<times> byte list) option" where
  "get_u32 bs = map_option (\<lambda>(v, r). (word_of_nat (le_nat v), r)) (get_bytes 4 bs)"

definition get_u64 :: "byte list \<Rightarrow> (u64 \<times> byte list) option" where
  "get_u64 bs = map_option (\<lambda>(v, r). (word_of_nat (le_nat v), r)) (get_bytes 8 bs)"

lemma length_put [simp]:
  "length (put_u16 a) = 2" "length (put_u32 b) = 4" "length (put_u64 c) = 8"
  by (simp_all add: put_u16_def put_u32_def put_u64_def)

lemma le_nat_put [simp]:
  "le_nat (put_u16 a) = unat a" "le_nat (put_u32 b) = unat b" "le_nat (put_u64 c) = unat c"
  using unsigned_less [of a, where 'a=nat] unsigned_less [of b, where 'a=nat] unsigned_less [of c, where 'a=nat]
  by (simp_all add: put_u16_def put_u32_def put_u64_def le_nat_le_bytes)

lemma get_bytes_append [simp]: "length v = n \<Longrightarrow> get_bytes n (v @ r) = Some (v, r)"
  by (simp add: get_bytes_def)

lemma get_bytes_short: "length bs < n \<Longrightarrow> get_bytes n bs = None"
  by (simp add: get_bytes_def)

lemma get_bytes_SomeD:
  "get_bytes n bs = Some (v, r) \<Longrightarrow> bs = v @ r \<and> length v = n"
  by (auto simp: get_bytes_def split: if_splits)

lemma get_put [codec_simps]:
  "get_u8 (b # r) = Some (b, r)"
  "get_u16 (put_u16 x @ r) = Some (x, r)"
  "get_u32 (put_u32 y @ r) = Some (y, r)"
  "get_u64 (put_u64 z @ r) = Some (z, r)"
  by (simp_all add: get_u8_def get_u16_def get_u32_def get_u64_def)

lemma get_short:
  "bs = [] \<Longrightarrow> get_u8 bs = None"
  "length bs < 2 \<Longrightarrow> get_u16 bs = None"
  "length bs < 4 \<Longrightarrow> get_u32 bs = None"
  "length bs < 8 \<Longrightarrow> get_u64 bs = None"
  by (simp_all add: get_u8_def get_u16_def get_u32_def get_u64_def get_bytes_short)

lemma get_rest_length:
  "get_u8 bs = Some (a, r) \<Longrightarrow> length bs = Suc (length r)"
  "get_u16 bs = Some (b, r) \<Longrightarrow> length bs = length r + 2"
  "get_u32 bs = Some (c, r) \<Longrightarrow> length bs = length r + 4"
  "get_u64 bs = Some (d, r) \<Longrightarrow> length bs = length r + 8"
  by (auto simp: get_u8_def get_u16_def get_u32_def get_u64_def get_bytes_def
      split: list.splits if_splits)

lemma unat_word_of_nat64: "n < 2 ^ 64 \<Longrightarrow> unat (word_of_nat n :: u64) = n"
  by (simp add: unat_of_nat take_bit_nat_eq_self)

lemma unat_word_of_nat32: "n < 2 ^ 32 \<Longrightarrow> unat (word_of_nat n :: u32) = n"
  by (simp add: unat_of_nat take_bit_nat_eq_self)

text \<open>Fields of a memory block, read at an offset.\<close>

definition u16_at :: "byte list \<Rightarrow> nat \<Rightarrow> u16" where
  "u16_at bs k = word_of_nat (le_nat (take 2 (drop k bs)))"

definition u32_at :: "byte list \<Rightarrow> nat \<Rightarrow> u32" where
  "u32_at bs k = word_of_nat (le_nat (take 4 (drop k bs)))"

definition u64_at :: "byte list \<Rightarrow> nat \<Rightarrow> u64" where
  "u64_at bs k = word_of_nat (le_nat (take 8 (drop k bs)))"

lemma at_put [codec_simps]:
  "length p = k \<Longrightarrow> u16_at (p @ put_u16 a @ r) k = a"
  "length p = k \<Longrightarrow> u32_at (p @ put_u32 b @ r) k = b"
  "length p = k \<Longrightarrow> u64_at (p @ put_u64 c @ r) k = c"
  by (simp_all add: u16_at_def u32_at_def u64_at_def)

lemma get_complete:
  "n \<le> length bs \<Longrightarrow> get_bytes n bs = Some (take n bs, drop n bs)"
  "1 \<le> length bs \<Longrightarrow> get_u8 bs = Some (hd bs, drop 1 bs)"
  "2 \<le> length bs \<Longrightarrow> get_u16 bs = Some (u16_at bs 0, drop 2 bs)"
  "4 \<le> length bs \<Longrightarrow> get_u32 bs = Some (u32_at bs 0, drop 4 bs)"
  "8 \<le> length bs \<Longrightarrow> get_u64 bs = Some (u64_at bs 0, drop 8 bs)"
  by (simp add: get_bytes_def, cases bs, simp_all add: get_bytes_def get_u8_def get_u16_def
      get_u32_def get_u64_def u16_at_def u32_at_def u64_at_def)

section \<open>Values on a byte stream\<close>

text \<open>Reading \<open>n\<close> values one after the other, the loop of every deserialiser.\<close>

fun get_many :: "(byte list \<Rightarrow> ('a \<times> byte list) option) \<Rightarrow> nat \<Rightarrow> byte list
    \<Rightarrow> ('a list \<times> byte list) option" where
  "get_many dec 0 bs = Some ([], bs)"
| "get_many dec (Suc n) bs =
     (case dec bs of None \<Rightarrow> None
      | Some (x, r) \<Rightarrow> (case get_many dec n r of None \<Rightarrow> None
          | Some (xs, r') \<Rightarrow> Some (x # xs, r')))"

text \<open>
  The contract of a value that is written to and read back from a byte stream: reading what
  was written gives the value and leaves the rest of the stream.
\<close>

locale codec =
  fixes enc :: "'a \<Rightarrow> byte list"
    and dec :: "byte list \<Rightarrow> ('a \<times> byte list) option"
    and ok :: "'a \<Rightarrow> bool"
  assumes dec_enc: "ok x \<Longrightarrow> dec (enc x @ rest) = Some (x, rest)"
begin

lemma get_many_enc:
  "list_all ok xs \<Longrightarrow> get_many dec (length xs) (concat (map enc xs) @ rest) = Some (xs, rest)"
  by (induction xs) (simp_all add: dec_enc)

lemma enc_inj: "ok x \<Longrightarrow> ok y \<Longrightarrow> enc x = enc y \<Longrightarrow> x = y"
  using dec_enc [of x "[]"] dec_enc [of y "[]"] by simp

end

text \<open>A codec of fixed width: a stream that is too short is refused, never misread.\<close>

locale fixed_codec = codec +
  fixes width :: nat
  assumes length_enc: "length (enc x) = width"
    and dec_short: "length bs < width \<Longrightarrow> dec bs = None"
    and dec_rest: "dec bs = Some (y, r) \<Longrightarrow> length bs = length r + width"
begin

lemma length_concat_enc: "length (concat (map enc xs)) = length xs * width"
  by (induction xs) (simp_all add: length_enc)

lemma get_many_short: "length bs < n * width \<Longrightarrow> get_many dec n bs = None"
proof (induction n arbitrary: bs)
  case 0
  then show ?case by simp
next
  case (Suc n)
  show ?case
  proof (cases "dec bs")
    case None
    then show ?thesis by simp
  next
    case (Some p)
    obtain y r where p: "p = (y, r)" by (cases p)
    with Some have "length bs = length r + width" by (simp add: dec_rest)
    with Suc.prems have "length r < n * width" by simp
    with Suc.IH have "get_many dec n r = None" by blast
    with Some p show ?thesis by simp
  qed
qed

end

section \<open>Ordered ranges: \<open>std::sort\<close>, \<open>std::lower_bound\<close>, \<open>std::upper_bound\<close>\<close>

text \<open>
  \<open>std::sort\<close> sorts with respect to a strict comparator. The order it gives elements that
  the comparator does not separate is left open by the standard; the model keeps their
  relative order.
\<close>

fun sort_insert :: "('a \<Rightarrow> 'a \<Rightarrow> bool) \<Rightarrow> 'a \<Rightarrow> 'a list \<Rightarrow> 'a list" where
  "sort_insert lt x [] = [x]"
| "sort_insert lt x (y # ys) = (if lt y x then y # sort_insert lt x ys else x # y # ys)"

definition std_sort :: "('a \<Rightarrow> 'a \<Rightarrow> bool) \<Rightarrow> 'a list \<Rightarrow> 'a list" where
  "std_sort lt xs = foldr (sort_insert lt) xs []"

lemma mset_sort_insert [simp]: "mset (sort_insert lt x ys) = add_mset x (mset ys)"
  by (induction ys) auto

lemma mset_std_sort [simp]: "mset (std_sort lt xs) = mset xs"
  by (induction xs) (simp_all add: std_sort_def)

lemma set_std_sort [simp]: "set (std_sort lt xs) = set xs"
  by (metis mset_std_sort set_mset_mset)

lemma length_std_sort [simp]: "length (std_sort lt xs) = length xs"
  by (metis mset_std_sort size_mset)

text \<open>The contract of a comparator (a strict weak ordering, \<open>[alg.sorting]\<close>).\<close>

locale weak_order =
  fixes lt :: "'a \<Rightarrow> 'a \<Rightarrow> bool"
  assumes lt_asym: "lt x y \<Longrightarrow> \<not> lt y x"
    and not_lt_trans: "\<not> lt y x \<Longrightarrow> \<not> lt z y \<Longrightarrow> \<not> lt z x"
begin

lemma sorted_sort_insert:
  "sorted_wrt (\<lambda>a b. \<not> lt b a) ys \<Longrightarrow> sorted_wrt (\<lambda>a b. \<not> lt b a) (sort_insert lt x ys)"
proof (induction ys)
  case Nil
  then show ?case by simp
next
  case (Cons y ys)
  have set: "set (sort_insert lt x ys) = insert x (set ys)"
    by (metis mset_sort_insert set_mset_add_mset_insert set_mset_mset)
  show ?case
  proof (cases "lt y x")
    case True
    with Cons lt_asym show ?thesis by (simp add: set)
  next
    case False
    have "\<not> lt z x" if "z \<in> set ys" for z
      using that Cons.prems False not_lt_trans [of y x z] by simp
    with False Cons.prems show ?thesis by simp
  qed
qed

lemma sorted_std_sort: "sorted_wrt (\<lambda>a b. \<not> lt b a) (std_sort lt xs)"
  by (induction xs) (simp_all add: std_sort_def sorted_sort_insert)

lemma sort_insert_id: "sorted_wrt (\<lambda>a b. \<not> lt b a) (x # xs) \<Longrightarrow> sort_insert lt x xs = x # xs"
  by (cases xs) auto

lemma std_sort_id: "sorted_wrt (\<lambda>a b. \<not> lt b a) xs \<Longrightarrow> std_sort lt xs = xs"
proof (induction xs)
  case Nil
  then show ?case by (simp add: std_sort_def)
next
  case (Cons x xs)
  then have "std_sort lt xs = xs" by simp
  then have "std_sort lt (x # xs) = sort_insert lt x xs" by (simp add: std_sort_def)
  with Cons.prems show ?case by (simp add: sort_insert_id)
qed

end

text \<open>
  The halving search behind \<open>std::lower_bound\<close> and \<open>std::upper_bound\<close>: the first index in
  \<open>[lo, hi)\<close> at which \<open>p\<close> fails, for a range where every index that satisfies \<open>p\<close> comes
  before every index that does not.
\<close>

function bin_search :: "(nat \<Rightarrow> bool) \<Rightarrow> nat \<Rightarrow> nat \<Rightarrow> nat" where
  "bin_search p lo hi =
     (if lo < hi then
        let mid = lo + (hi - lo) div 2
        in if p mid then bin_search p (mid + 1) hi else bin_search p lo mid
      else lo)"
  by pat_completeness auto
termination
  by (relation "measure (\<lambda>(p, lo, hi). hi - lo)") auto

declare bin_search.simps [simp del]

lemma bin_search_eq:
  assumes "lo \<le> k" "k \<le> hi" "\<And>i. lo \<le> i \<Longrightarrow> i < hi \<Longrightarrow> p i \<longleftrightarrow> i < k"
  shows "bin_search p lo hi = k"
  using assms
proof (induction p lo hi rule: bin_search.induct)
  case (1 p lo hi)
  show ?case
  proof (cases "lo < hi")
    case False
    with "1.prems" show ?thesis by (simp add: bin_search.simps)
  next
    case True
    define mid where "mid = lo + (hi - lo) div 2"
    have mid: "lo \<le> mid" "mid < hi" using True by (auto simp: mid_def)
    show ?thesis
    proof (cases "p mid")
      case True
      with "1.prems"(3) mid have "mid < k" by blast
      with True "1.IH"(1) [OF \<open>lo < hi\<close> mid_def] "1.prems" mid
      have "bin_search p (mid + 1) hi = k" by simp
      with True \<open>lo < hi\<close> show ?thesis
        by (subst bin_search.simps) (simp add: mid_def [symmetric] Let_def)
    next
      case False
      with "1.prems"(3) mid have "k \<le> mid" by (meson not_le)
      with False "1.IH"(2) [OF \<open>lo < hi\<close> mid_def] "1.prems" mid
      have "bin_search p lo mid = k" by simp
      with False \<open>lo < hi\<close> show ?thesis
        by (subst bin_search.simps) (simp add: mid_def [symmetric] Let_def)
    qed
  qed
qed

definition lower_bound :: "('a \<Rightarrow> bool) \<Rightarrow> 'a list \<Rightarrow> nat" where
  "lower_bound below xs = bin_search (\<lambda>i. below (xs ! i)) 0 (length xs)"

text \<open>A range is partitioned by a predicate when what satisfies it comes first.\<close>

definition partitioned :: "('a \<Rightarrow> bool) \<Rightarrow> 'a list \<Rightarrow> bool" where
  "partitioned p xs \<longleftrightarrow> sorted_wrt (\<lambda>a b. p b \<longrightarrow> p a) xs"

lemma partitioned_takeWhile: "partitioned p xs \<Longrightarrow> takeWhile p xs = filter p xs"
  by (induction xs) (auto simp: partitioned_def filter_empty_conv)

lemma partitioned_dropWhile: "partitioned p xs \<Longrightarrow> dropWhile p xs = filter (\<lambda>x. \<not> p x) xs"
  by (induction xs) (auto simp: partitioned_def intro!: filter_True [symmetric])

lemma partitioned_nth:
  assumes "partitioned p xs" "i < length xs"
  shows "p (xs ! i) \<longleftrightarrow> i < length (takeWhile p xs)"
proof -
  have "takeWhile p xs @ dropWhile p xs = xs" by simp
  moreover have "\<forall>x \<in> set (dropWhile p xs). \<not> p x"
    using assms(1) by (simp add: partitioned_dropWhile)
  ultimately show ?thesis
    using assms(2)
    by (metis (no_types, lifting) in_set_conv_nth length_append nat_add_left_cancel_less
        add_diff_inverse_nat nth_append nth_mem set_takeWhileD)
qed

lemma lower_bound_eq [search_simps]:
  "partitioned below xs \<Longrightarrow> lower_bound below xs = length (takeWhile below xs)"
  unfolding lower_bound_def
  by (rule bin_search_eq) (auto simp: partitioned_nth length_takeWhile_le)

lemma drop_lower_bound:
  "partitioned below xs \<Longrightarrow> drop (lower_bound below xs) xs = dropWhile below xs"
  by (simp add: lower_bound_eq dropWhile_eq_drop)

section \<open>Lists\<close>

lemma takeWhile_filter_sorted:
  "sorted_wrt R xs \<Longrightarrow> (\<And>a b. a \<in> set xs \<Longrightarrow> b \<in> set xs \<Longrightarrow> R a b \<Longrightarrow> p b \<Longrightarrow> p a) \<Longrightarrow> takeWhile p xs = filter p xs"
  by (rule partitioned_takeWhile) (simp add: partitioned_def, metis (no_types, lifting) sorted_wrt_mono_rel)

end
