(* ===== verification/Core_Types.thy ===== *)
theory Core_Types
  imports Prelude
begin

text \<open>
  The shared types of \<open>src/src/core\<close>: column types with their numeric tags, status codes
  and messages, the configuration constants, and the timestamp allocator and watermark of
  \<open>src/src/mvcc\<close>. A \<open>StatusOr<T>\<close> is \<open>Status_Code + 'a\<close>, the error on the left; the
  free-text message of a \<open>Status\<close> is not part of the model, since \<open>operator==\<close> ignores it.
\<close>

section \<open>Identifiers and constants (\<open>core/types.hpp\<close>, \<open>core/config.hpp\<close>)\<close>

type_synonym RowId = u64
type_synonym Timestamp = u64
type_synonym TxId = u64
type_synonym PageId = u64
type_synonym TableId = u32
type_synonym Lsn = u64

definition kTxIdFlag :: u64 where "kTxIdFlag = push_bit 63 1"
definition kInvalidTxId :: u64 where "kInvalidTxId = 0"
definition kMaxPendingRows :: nat where "kMaxPendingRows = 1000000"
definition kGcMaxBytesPerSec :: nat where "kGcMaxBytesPerSec = 500 * 1024 * 1024"

datatype ColumnType = kInt32 | kInt64 | kFloat64 | kBool | kVarChar | kTimestamp

fun column_type_tag :: "ColumnType \<Rightarrow> byte" where
  "column_type_tag kInt32 = 0"
| "column_type_tag kInt64 = 1"
| "column_type_tag kFloat64 = 2"
| "column_type_tag kBool = 3"
| "column_type_tag kVarChar = 4"
| "column_type_tag kTimestamp = 5"

text \<open>
  The bytes of one column: \<open>data\<close> with \<open>size\<close> is a byte list. The tag is kept as a byte, since
  recovery casts any byte of a log record to the enumeration.
\<close>

record ColumnData =
  cd_type :: byte
  cd_data :: "byte list"
  cd_nulls :: "byte list option"

section \<open>Status codes (\<open>core/types.hpp\<close>, \<open>core/error.hpp\<close>)\<close>

datatype Status_Code = kOk | kNotFound | kOutOfMemory | kInvalidArgument | kCorruptedData
  | kIoError | kNotSupported | kAlreadyExists | kNotVisible | kFatal | kNoSpace

type_synonym 'a StatusOr = "Status_Code + 'a"

fun status_code :: "Status_Code \<Rightarrow> nat" where
  "status_code kOk = 0"
| "status_code kNotFound = 1"
| "status_code kOutOfMemory = 2"
| "status_code kInvalidArgument = 3"
| "status_code kCorruptedData = 4"
| "status_code kIoError = 5"
| "status_code kNotSupported = 6"
| "status_code kAlreadyExists = 7"
| "status_code kNotVisible = 8"
| "status_code kFatal = 9"
| "status_code kNoSpace = 10"

fun status_message :: "Status_Code \<Rightarrow> string" where
  "status_message kOk = ''ok''"
| "status_message kNotFound = ''not found''"
| "status_message kOutOfMemory = ''out of memory''"
| "status_message kInvalidArgument = ''invalid argument''"
| "status_message kCorruptedData = ''corrupted data''"
| "status_message kIoError = ''I/O error''"
| "status_message kNotSupported = ''not supported''"
| "status_message kAlreadyExists = ''already exists''"
| "status_message kNotVisible = ''version not visible''"
| "status_message kFatal = ''fatal error''"
| "status_message kNoSpace = ''no space left on device''"

section \<open>Timestamps and watermark (\<open>mvcc/version_index.hpp\<close>)\<close>

record TimestampAllocator =
  next_ts :: u64

definition ts_init :: TimestampAllocator where "ts_init = \<lparr>next_ts = 0\<rparr>"

text \<open>\<open>fetch_add(1) + 1\<close>: the counter and the returned value both wrap modulo \<open>2^64\<close>.\<close>

definition allocate_ts :: "TimestampAllocator \<Rightarrow> Timestamp \<times> TimestampAllocator" where
  "allocate_ts a = (next_ts a + 1, a\<lparr>next_ts := next_ts a + 1\<rparr>)"

definition ts_current :: "TimestampAllocator \<Rightarrow> Timestamp" where
  "ts_current a = next_ts a"

definition set_next :: "Timestamp \<Rightarrow> TimestampAllocator \<Rightarrow> TimestampAllocator" where
  "set_next ts a = a\<lparr>next_ts := ts - 1\<rparr>"

text \<open>The watermark is read by the collector; no operation of the sources writes it.\<close>

record GlobalWatermarks =
  min_active_read_ts :: u64

definition watermarks_init :: GlobalWatermarks where
  "watermarks_init = \<lparr>min_active_read_ts = 0\<rparr>"

lemma kTxIdFlag_value: "kTxIdFlag = 9223372036854775808"
  by (simp add: kTxIdFlag_def)

section \<open>The transaction flag\<close>

lemma bit63_iff: "bit (x :: u64) 63 \<longleftrightarrow> 2 ^ 63 \<le> unat x"
proof -
  have "unat x < 2 ^ 64" using unsigned_less [of x, where 'a=nat] by simp
  then have "unat x div 2 ^ 63 < 2" by simp
  then have "odd (unat x div 2 ^ 63) \<longleftrightarrow> unat x div 2 ^ 63 \<noteq> 0"
    by (metis One_nat_def dvd_0_right even_Suc less_2_cases odd_one)
  also have "\<dots> \<longleftrightarrow> 2 ^ 63 \<le> unat x"
    by (simp add: div_eq_0_iff not_less)
  finally have "odd (unat x div 2 ^ 63) \<longleftrightarrow> 2 ^ 63 \<le> unat x" .
  moreover have "bit x 63 \<longleftrightarrow> odd (unat x div 2 ^ 63)"
    using bit_unsigned_iff [where 'a=nat, of x 63] by (simp add: bit_iff_odd [of "unat x"])
  ultimately show ?thesis by simp
qed

text \<open>The flag bit splits the timestamp space in half: below it, a committed version.\<close>

lemma flag_clear_iff: "x AND kTxIdFlag = 0 \<longleftrightarrow> x < kTxIdFlag"
proof -
  have "x AND kTxIdFlag = 0 \<longleftrightarrow> \<not> bit x 63"
    unfolding kTxIdFlag_def push_bit_of_1 by (rule and_exp_eq_0_iff_not_bit)
  then show ?thesis
    by (simp add: bit63_iff word_less_nat_alt kTxIdFlag_value not_le)
qed

lemma flag_or: "\<not> tx OR kTxIdFlag < kTxIdFlag"
proof -
  have "bit (tx OR kTxIdFlag) 63"
    by (simp only: bit_or_iff kTxIdFlag_def push_bit_of_1 bit_exp_iff) simp
  then show ?thesis by (simp add: bit63_iff word_less_nat_alt kTxIdFlag_value)
qed

text \<open>A transaction id below the flag is recovered from the marked timestamp.\<close>

lemma flag_strip: "tx < kTxIdFlag \<Longrightarrow> (tx OR kTxIdFlag) AND NOT kTxIdFlag = tx"
proof -
  assume "tx < kTxIdFlag"
  then have "tx AND kTxIdFlag = 0" by (simp add: flag_clear_iff)
  moreover have "(tx OR kTxIdFlag) AND NOT kTxIdFlag = tx AND NOT kTxIdFlag"
    by (rule bit_eqI) (auto simp: bit_simps)
  moreover have "tx = (tx AND kTxIdFlag) OR (tx AND NOT kTxIdFlag)"
    by (rule bit_eqI) (auto simp: bit_simps)
  ultimately show ?thesis by simp
qed

lemma flag_or_inject:
  "tx < kTxIdFlag \<Longrightarrow> tx' < kTxIdFlag \<Longrightarrow> tx OR kTxIdFlag = tx' OR kTxIdFlag \<longleftrightarrow> tx = tx'"
  by (metis flag_strip)

lemmas flag_simps = flag_clear_iff flag_or flag_strip flag_or_inject

end
