(* ===== verification/Page.thy ===== *)
theory Page
  imports Core_Types
begin

text \<open>
  \<open>src/src/storage/page.hpp\<close> and \<open>page.cpp\<close>: the 32-byte page header, the table-driven
  CRC-32C and the page checksum. The header is modelled with its memory image
  (\<open>header_bytes\<close>), because the checksum covers that image.

  Shown here: the table agrees with the bit-by-bit division by the Castagnoli polynomial; the
  checksum of a concatenation is the chained checksum; a page that was just sealed validates;
  a change of any single payload byte of a sealed page is reported as corruption.
\<close>

section \<open>Data (\<open>page.hpp\<close>)\<close>

datatype PageType = PageType_Data | PageType_Index | PageType_Metadata

fun page_type_tag :: "PageType \<Rightarrow> byte" where
  "page_type_tag PageType_Data = 1"
| "page_type_tag PageType_Index = 2"
| "page_type_tag PageType_Metadata = 3"

definition kPageMagic :: u32 where "kPageMagic = 0x52415744"

record PageHeader =
  ph_magic :: u32
  ph_version :: u16
  ph_type :: byte
  ph_reserved :: byte
  ph_checksum :: u32
  ph_row_count :: u32
  ph_data_size :: u32
  ph_padding0 :: u32
  ph_padding1 :: u32
  ph_padding2 :: u32

definition kPageHeaderSize :: nat where "kPageHeaderSize = 32"

text \<open>The memory image of the header, in declaration order; there is no padding between fields.\<close>

definition header_bytes :: "PageHeader \<Rightarrow> byte list" where
  "header_bytes h =
     put_u32 (ph_magic h) @ put_u16 (ph_version h) @ [ph_type h] @ [ph_reserved h] @
     put_u32 (ph_checksum h) @ put_u32 (ph_row_count h) @ put_u32 (ph_data_size h) @
     put_u32 (ph_padding0 h) @ put_u32 (ph_padding1 h) @ put_u32 (ph_padding2 h)"

text \<open>The \<open>reinterpret_cast\<close> of 32 bytes to a header.\<close>

definition header_of_bytes :: "byte list \<Rightarrow> (PageHeader \<times> byte list) option" where
  "header_of_bytes bs =
     Option.bind (get_u32 bs) (\<lambda>(m, r).
     Option.bind (get_u16 r) (\<lambda>(v, r).
     Option.bind (get_u8 r) (\<lambda>(t, r).
     Option.bind (get_u8 r) (\<lambda>(z, r).
     Option.bind (get_u32 r) (\<lambda>(c, r).
     Option.bind (get_u32 r) (\<lambda>(n, r).
     Option.bind (get_u32 r) (\<lambda>(d, r).
     Option.bind (get_u32 r) (\<lambda>(p0, r).
     Option.bind (get_u32 r) (\<lambda>(p1, r).
     Option.bind (get_u32 r) (\<lambda>(p2, r).
       Some (\<lparr>ph_magic = m, ph_version = v, ph_type = t, ph_reserved = z, ph_checksum = c,
              ph_row_count = n, ph_data_size = d, ph_padding0 = p0, ph_padding1 = p1,
              ph_padding2 = p2\<rparr>, r)))))))))))"

section \<open>CRC-32C (\<open>page.cpp\<close>)\<close>

definition kCrc32cTable :: "u32 list" where
  "kCrc32cTable = [
     0x00000000, 0xF26B8303, 0xE13B70F7, 0x1350F3F4, 0xC79A971F, 0x35F1141C, 0x26A1E7E8, 0xD4CA64EB,
     0x8AD958CF, 0x78B2DBCC, 0x6BE22838, 0x9989AB3B, 0x4D43CFD0, 0xBF284CD3, 0xAC78BF27, 0x5E133C24,
     0x105EC76F, 0xE235446C, 0xF165B798, 0x030E349B, 0xD7C45070, 0x25AFD373, 0x36FF2087, 0xC494A384,
     0x9A879FA0, 0x68EC1CA3, 0x7BBCEF57, 0x89D76C54, 0x5D1D08BF, 0xAF768BBC, 0xBC267848, 0x4E4DFB4B,
     0x20BD8EDE, 0xD2D60DDD, 0xC186FE29, 0x33ED7D2A, 0xE72719C1, 0x154C9AC2, 0x061C6936, 0xF477EA35,
     0xAA64D611, 0x580F5512, 0x4B5FA6E6, 0xB93425E5, 0x6DFE410E, 0x9F95C20D, 0x8CC531F9, 0x7EAEB2FA,
     0x30E349B1, 0xC288CAB2, 0xD1D83946, 0x23B3BA45, 0xF779DEAE, 0x05125DAD, 0x1642AE59, 0xE4292D5A,
     0xBA3A117E, 0x4851927D, 0x5B016189, 0xA96AE28A, 0x7DA08661, 0x8FCB0562, 0x9C9BF696, 0x6EF07595,
     0x417B1DBC, 0xB3109EBF, 0xA0406D4B, 0x522BEE48, 0x86E18AA3, 0x748A09A0, 0x67DAFA54, 0x95B17957,
     0xCBA24573, 0x39C9C670, 0x2A993584, 0xD8F2B687, 0x0C38D26C, 0xFE53516F, 0xED03A29B, 0x1F682198,
     0x5125DAD3, 0xA34E59D0, 0xB01EAA24, 0x42752927, 0x96BF4DCC, 0x64D4CECF, 0x77843D3B, 0x85EFBE38,
     0xDBFC821C, 0x2997011F, 0x3AC7F2EB, 0xC8AC71E8, 0x1C661503, 0xEE0D9600, 0xFD5D65F4, 0x0F36E6F7,
     0x61C69362, 0x93AD1061, 0x80FDE395, 0x72966096, 0xA65C047D, 0x5437877E, 0x4767748A, 0xB50CF789,
     0xEB1FCBAD, 0x197448AE, 0x0A24BB5A, 0xF84F3859, 0x2C855CB2, 0xDEEEDFB1, 0xCDBE2C45, 0x3FD5AF46,
     0x7198540D, 0x83F3D70E, 0x90A324FA, 0x62C8A7F9, 0xB602C312, 0x44694011, 0x5739B3E5, 0xA55230E6,
     0xFB410CC2, 0x092A8FC1, 0x1A7A7C35, 0xE811FF36, 0x3CDB9BDD, 0xCEB018DE, 0xDDE0EB2A, 0x2F8B6829,
     0x82F63B78, 0x709DB87B, 0x63CD4B8F, 0x91A6C88C, 0x456CAC67, 0xB7072F64, 0xA457DC90, 0x563C5F93,
     0x082F63B7, 0xFA44E0B4, 0xE9141340, 0x1B7F9043, 0xCFB5F4A8, 0x3DDE77AB, 0x2E8E845F, 0xDCE5075C,
     0x92A8FC17, 0x60C37F14, 0x73938CE0, 0x81F80FE3, 0x55326B08, 0xA759E80B, 0xB4091BFF, 0x466298FC,
     0x1871A4D8, 0xEA1A27DB, 0xF94AD42F, 0x0B21572C, 0xDFEB33C7, 0x2D80B0C4, 0x3ED04330, 0xCCBBC033,
     0xA24BB5A6, 0x502036A5, 0x4370C551, 0xB11B4652, 0x65D122B9, 0x97BAA1BA, 0x84EA524E, 0x7681D14D,
     0x2892ED69, 0xDAF96E6A, 0xC9A99D9E, 0x3BC21E9D, 0xEF087A76, 0x1D63F975, 0x0E330A81, 0xFC588982,
     0xB21572C9, 0x407EF1CA, 0x532E023E, 0xA145813D, 0x758FE5D6, 0x87E466D5, 0x94B49521, 0x66DF1622,
     0x38CC2A06, 0xCAA7A905, 0xD9F75AF1, 0x2B9CD9F2, 0xFF56BD19, 0x0D3D3E1A, 0x1E6DCDEE, 0xEC064EED,
     0xC38D26C4, 0x31E6A5C7, 0x22B65633, 0xD0DDD530, 0x0417B1DB, 0xF67C32D8, 0xE52CC12C, 0x1747422F,
     0x49547E0B, 0xBB3FFD08, 0xA86F0EFC, 0x5A048DFF, 0x8ECEE914, 0x7CA56A17, 0x6FF599E3, 0x9D9E1AE0,
     0xD3D3E1AB, 0x21B862A8, 0x32E8915C, 0xC083125F, 0x144976B4, 0xE622F5B7, 0xF5720643, 0x07198540,
     0x590AB964, 0xAB613A67, 0xB831C993, 0x4A5A4A90, 0x9E902E7B, 0x6CFBAD78, 0x7FAB5E8C, 0x8DC0DD8F,
     0xE330A81A, 0x115B2B19, 0x020BD8ED, 0xF0605BEE, 0x24AA3F05, 0xD6C1BC06, 0xC5914FF2, 0x37FACCF1,
     0x69E9F0D5, 0x9B8273D6, 0x88D28022, 0x7AB90321, 0xAE7367CA, 0x5C18E4C9, 0x4F48173D, 0xBD23943E,
     0xF36E6F75, 0x0105EC76, 0x12551F82, 0xE03E9C81, 0x34F4F86A, 0xC69F7B69, 0xD5CF889D, 0x27A40B9E,
     0x79B737BA, 0x8BDCB4B9, 0x988C474D, 0x6AE7C44E, 0xBE2DA0A5, 0x4C4623A6, 0x5F16D052, 0xAD7D5351]"

definition crc32c_step :: "u32 \<Rightarrow> byte \<Rightarrow> u32" where
  "crc32c_step crc b = kCrc32cTable ! unat ((crc XOR ucast b) AND 0xFF) XOR drop_bit 8 crc"

text \<open>The loop over \<open>len\<close> bytes followed by the final complement; \<open>crc\<close> is the seed.\<close>

definition crc32c :: "byte list \<Rightarrow> u32 \<Rightarrow> u32" where
  "crc32c bs crc = foldl crc32c_step crc bs XOR 0xFFFFFFFF"

definition compute_page_checksum :: "byte list \<Rightarrow> u32" where
  "compute_page_checksum bs = crc32c bs 0xFFFFFFFF"

definition page_crc :: "PageHeader \<Rightarrow> byte list \<Rightarrow> u32" where
  "page_crc h payload =
     (let crc = crc32c (header_bytes (h\<lparr>ph_checksum := 0\<rparr>)) 0xFFFFFFFF
      in crc32c payload (crc XOR 0xFFFFFFFF))"

definition set_page_checksum :: "PageHeader \<Rightarrow> byte list \<Rightarrow> nat \<Rightarrow> PageHeader" where
  "set_page_checksum h payload payload_len =
     h\<lparr>ph_checksum := page_crc h (take payload_len payload)\<rparr>"

definition validate_page :: "PageHeader \<Rightarrow> byte list \<Rightarrow> Status_Code" where
  "validate_page h payload =
     (if ph_magic h \<noteq> kPageMagic then kCorruptedData
      else if page_crc h (take (unat (ph_data_size h)) payload) \<noteq> ph_checksum h
      then kCorruptedData
      else kOk)"

section \<open>The header codec\<close>

interpretation header: fixed_codec header_bytes header_of_bytes "\<lambda>_. True" 32
proof unfold_locales
  fix h :: PageHeader and rest bs r y
  show "header_of_bytes (header_bytes h @ rest) = Some (h, rest)"
    by (simp add: header_of_bytes_def header_bytes_def codec_simps)
  show "length (header_bytes h) = 32"
    by (simp add: header_bytes_def)
  show "header_of_bytes bs = Some (y, r) \<Longrightarrow> length bs = length r + 32"
    by (auto simp: header_of_bytes_def bind_eq_Some_conv dest!: get_rest_length)
  then show "length bs < 32 \<Longrightarrow> header_of_bytes bs = None"
    by (cases "header_of_bytes bs") 
      (auto simp: header_of_bytes_def bind_eq_Some_conv dest!: get_rest_length)
qed

section \<open>The table and the polynomial\<close>

text \<open>
  The reference: one bit of a reflected division by the polynomial \<open>0x1EDC6F41\<close>, whose
  reflection is \<open>0x82F63B78\<close>.
\<close>

definition crc_bit :: "u32 \<Rightarrow> u32" where
  "crc_bit c = (if bit c 0 then drop_bit 1 c XOR 0x82F63B78 else drop_bit 1 c)"

definition crc_byte :: "u32 \<Rightarrow> u32" where
  "crc_byte c = (crc_bit ^^ 8) c"

text \<open>Division is linear over exclusive or, and shifts out low zero bits unchanged.\<close>

lemma crc_bit_xor: "crc_bit (x XOR y) = crc_bit x XOR crc_bit y"
  by (rule bit_eqI) (simp add: crc_bit_def bit_xor_iff bit_drop_bit_eq; blast)

lemma crc_bits_xor: "(crc_bit ^^ n) (x XOR y) = (crc_bit ^^ n) x XOR (crc_bit ^^ n) y"
  by (induction n) (simp_all add: crc_bit_xor)

lemma crc_bit_shift: "\<not> bit x 0 \<Longrightarrow> crc_bit x = drop_bit 1 x"
  by (simp add: crc_bit_def)

lemma crc_bits_shift: "(\<And>i. i < n \<Longrightarrow> \<not> bit x i) \<Longrightarrow> (crc_bit ^^ n) x = drop_bit n x"
proof (induction n arbitrary: x)
  case 0
  then show ?case by simp
next
  case (Suc n)
  have "crc_bit x = drop_bit 1 x" using Suc.prems [of 0] by (simp add: crc_bit_shift)
  moreover have "(crc_bit ^^ n) (drop_bit 1 x) = drop_bit n (drop_bit 1 x)"
    by (rule Suc.IH) (use Suc.prems [of "Suc _"] in \<open>simp add: bit_drop_bit_eq\<close>)
  ultimately show ?case by (simp add: funpow_swap1)
qed

text \<open>Hence the polynomial table is built by doubling from its powers of two.\<close>

lemma word_of_nat_add_exp:
  assumes "k < 32" "i < 2 ^ k"
  shows "(word_of_nat i + 2 ^ k :: u32) = word_of_nat i XOR 2 ^ k"
proof -
  have "\<not> bit i k" using assms(2) by (simp add: bit_iff_odd)
  then have "i AND 2 ^ k = 0" by (simp add: and_exp_eq_0_iff_not_bit)
  then have "i + 2 ^ k = i XOR 2 ^ k" by (rule disjunctive_add_eq_xor)
  then have "(word_of_nat (i + 2 ^ k) :: u32) = word_of_nat (i XOR 2 ^ k)"
    by (rule arg_cong)
  then show ?thesis by (simp add: of_nat_xor_eq)
qed

definition poly_table :: "nat \<Rightarrow> u32 list" where
  "poly_table k = map (\<lambda>i. crc_byte (word_of_nat i)) [0..<2 ^ k]"

lemma poly_table_Suc:
  assumes "k < 32"
  shows "poly_table (Suc k) = poly_table k @ map (\<lambda>c. c XOR crc_byte (2 ^ k)) (poly_table k)"
proof -
  have "[0..<2 ^ Suc k] = [0..<2 ^ k] @ map (\<lambda>i. i + 2 ^ k) [0..<2 ^ k]"
    using upt_add_eq_append [of 0 "2 ^ k" "2 ^ k"] by (simp add: map_add_upt mult_2)
  then show ?thesis
    using assms
    by (simp add: poly_table_def word_of_nat_add_exp crc_byte_def crc_bits_xor cong: map_cong)
qed

lemma crc_byte_exp: "k \<le> 7 \<Longrightarrow> crc_byte (2 ^ k) = (crc_bit ^^ (7 - k)) 0x82F63B78"
proof -
  assume k: "k \<le> 7"
  have "8 = (7 - k) + Suc k" using k by simp
  then have "crc_byte (2 ^ k) = (crc_bit ^^ ((7 - k) + Suc k)) (2 ^ k)"
    by (simp only: crc_byte_def)
  also have "\<dots> = (crc_bit ^^ (7 - k)) (crc_bit ((crc_bit ^^ k) (2 ^ k)))"
    by (simp only: funpow_add funpow.simps comp_apply)
  also have "(crc_bit ^^ k) (2 ^ k) = 1"
  proof (subst crc_bits_shift)
    show "drop_bit k (2 ^ k) = (1 :: u32)"
      using k by (intro bit_eqI) (auto simp: bit_simps)
  qed (simp add: bit_exp_iff)
  also have "crc_bit 1 = 0x82F63B78"
    by (simp add: crc_bit_def)
  finally show ?thesis .
qed

lemma crc_bit_powers:
  "crc_bit 0x82F63B78 = 0x417B1DBC" "crc_bit 0x417B1DBC = 0x20BD8EDE"
  "crc_bit 0x20BD8EDE = 0x105EC76F" "crc_bit 0x105EC76F = 0x8AD958CF"
  "crc_bit 0x8AD958CF = 0xC79A971F" "crc_bit 0xC79A971F = 0xE13B70F7"
  "crc_bit 0xE13B70F7 = 0xF26B8303"
  by (simp_all add: crc_bit_def)

lemma crc_byte_powers:
  "crc_byte (2 ^ 7) = 0x82F63B78" "crc_byte (2 ^ 6) = 0x417B1DBC" "crc_byte (2 ^ 5) = 0x20BD8EDE"
  "crc_byte (2 ^ 4) = 0x105EC76F" "crc_byte (2 ^ 3) = 0x8AD958CF" "crc_byte (2 ^ 2) = 0xC79A971F"
  "crc_byte (2 ^ 1) = 0xE13B70F7" "crc_byte (2 ^ 0) = 0xF26B8303"
  by (subst crc_byte_exp, simp, simp add: crc_bit_powers eval_nat_numeral del: power.simps)+

lemma crc_byte_0: "crc_byte 0 = 0"
  using crc_bits_shift [of 8 0] by (simp add: crc_byte_def)

lemma poly_table_0: "poly_table 0 = [0]"
  by (simp add: poly_table_def crc_byte_0)

lemmas crc_byte_values = crc_byte_powers [simplified]

lemma kCrc32cTable_doubling: "poly_table 8 = kCrc32cTable"
  by (simp add: eval_nat_numeral poly_table_Suc poly_table_0 crc_byte_values kCrc32cTable_def)

text \<open>One table lookup is eight steps of the division.\<close>

lemma kCrc32cTable_nth: "i < 256 \<Longrightarrow> kCrc32cTable ! i = crc_byte (word_of_nat i)"
  by (simp add: kCrc32cTable_doubling [symmetric] poly_table_def)

lemma crc32c_step_poly: "crc32c_step crc b = crc_byte (crc XOR ucast b)"
proof -
  let ?x = "crc XOR ucast b :: u32"
  have low: "unat (?x AND 0xFF) < 256"
  proof -
    have "?x AND 0xFF \<le> 0xFF" by (rule word_and_le1)
    then show ?thesis by (simp add: word_le_nat_alt)
  qed
  have split: "?x = (?x AND 0xFF) XOR (?x AND NOT 0xFF)"
    by (rule bit_eqI) (auto simp: bit_simps)
  have mask: "(0xFF :: u32) = mask 8" by (simp add: mask_eq_exp_minus_1)
  have "crc_byte (?x AND NOT 0xFF) = drop_bit 8 (?x AND NOT 0xFF)"
    unfolding crc_byte_def mask by (rule crc_bits_shift) (simp add: bit_simps)
  also have "\<dots> = drop_bit 8 crc"
    unfolding mask by (rule bit_eqI) (auto simp: bit_simps dest: bit_imp_le_length)
  finally have "crc_byte ?x = crc_byte (?x AND 0xFF) XOR drop_bit 8 crc"
    by (subst split) (simp add: crc_byte_def crc_bits_xor)
  with low show ?thesis by (simp add: crc32c_step_def kCrc32cTable_nth)
qed

section \<open>Chaining and detection\<close>

lemma crc32c_append: "crc32c (a @ b) crc = crc32c b (crc32c a crc XOR 0xFFFFFFFF)"
proof -
  have "(x XOR 0xFFFFFFFF) XOR 0xFFFFFFFF = x" for x :: u32
    by (simp only: xor.assoc) simp
  then show ?thesis by (simp add: crc32c_def)
qed

lemma crc_bit_inj: "crc_bit x = crc_bit y \<Longrightarrow> x = y"
proof -
  have top: "bit (crc_bit z) 31 \<longleftrightarrow> bit z 0" for z
    using bit_imp_le_length [of z 32] by (auto simp: crc_bit_def bit_simps)
  assume eq: "crc_bit x = crc_bit y"
  then have low: "bit x 0 \<longleftrightarrow> bit y 0" using top by metis
  have cancel: "a XOR c = b XOR c \<Longrightarrow> a = b" for a b c :: u32
    by (metis xor.assoc xor_self_eq xor.right_neutral)
  have "drop_bit 1 x = drop_bit 1 y"
    using eq low cancel by (auto simp: crc_bit_def split: if_splits)
  then have "bit x (Suc i) = bit y (Suc i)" for i
    by (metis bit_drop_bit_eq comp_apply plus_1_eq_Suc)
  with low show ?thesis
    by (intro bit_eqI) (metis not0_implies_Suc)
qed

lemma crc_byte_inj: "crc_byte x = crc_byte y \<Longrightarrow> x = y"
proof -
  have "(crc_bit ^^ n) x = (crc_bit ^^ n) y \<Longrightarrow> x = y" for n
    by (induction n) (auto dest: crc_bit_inj)
  then show "crc_byte x = crc_byte y \<Longrightarrow> x = y" by (simp add: crc_byte_def)
qed

lemma xor_cancel_left: "(c :: 'a :: len word) XOR a = c XOR b \<longleftrightarrow> a = b"
  by (metis xor.assoc xor_self_eq xor.left_neutral)

lemma xor_cancel_right: "(a :: 'a :: len word) XOR c = b XOR c \<longleftrightarrow> a = b"
  by (metis xor.commute xor_cancel_left)

lemma ucast_byte_inj: "(ucast (a :: byte) :: u32) = ucast b \<longleftrightarrow> a = b"
proof
  assume eq: "(ucast a :: u32) = ucast b"
  show "a = b"
  proof (rule bit_word_eqI)
    fix n
    have "bit (ucast a :: u32) n = bit (ucast b :: u32) n" using eq by simp
    moreover assume "n < LENGTH(8)"
    ultimately show "bit a n = bit b n" by (simp add: bit_simps)
  qed
qed simp

text \<open>Different states stay different under the same bytes, and a byte acts injectively.\<close>

lemma crc32c_step_state_inj: "crc32c_step c b = crc32c_step c' b \<longleftrightarrow> c = c'"
  by (auto simp: crc32c_step_poly xor_cancel_right dest!: crc_byte_inj)

lemma crc32c_step_byte_inj: "crc32c_step c b = crc32c_step c b' \<longleftrightarrow> b = b'"
  by (auto simp: crc32c_step_poly xor_cancel_left ucast_byte_inj dest!: crc_byte_inj)

lemma crc32c_fold_inj: "foldl crc32c_step c bs = foldl crc32c_step c' bs \<longleftrightarrow> c = c'"
  by (induction bs arbitrary: c c') (simp_all add: crc32c_step_state_inj)

lemma crc32c_mid_inj: "crc32c (xs @ b # ys) c = crc32c (xs @ b' # ys) c \<longleftrightarrow> b = b'"
  by (simp add: crc32c_def xor_cancel_right crc32c_fold_inj crc32c_step_byte_inj)

lemma crc32c_detects_byte:
  assumes "i < length bs" "b \<noteq> bs ! i"
  shows "crc32c (bs[i := b]) crc \<noteq> crc32c bs crc"
proof -
  have "bs = take i bs @ bs ! i # drop (Suc i) bs"
    using assms(1) by (rule id_take_nth_drop)
  moreover have "bs[i := b] = take i bs @ b # drop (Suc i) bs"
    using assms(1) by (rule upd_conv_take_nth_drop)
  ultimately show ?thesis
    using assms(2)
    by (metis crc32c_mid_inj)
qed

lemma page_crc_checksum [simp]: "page_crc (h\<lparr>ph_checksum := c\<rparr>) p = page_crc h p"
  by (simp add: page_crc_def)

lemma set_page_checksum_fields [simp]:
  "ph_magic (set_page_checksum h p n) = ph_magic h"
  "ph_row_count (set_page_checksum h p n) = ph_row_count h"
  "ph_data_size (set_page_checksum h p n) = ph_data_size h"
  by (simp_all add: set_page_checksum_def)

section \<open>Properties\<close>

text \<open>
  C20: the table-driven CRC-32C of \<open>page.cpp\<close> computes the bit-by-bit division by the reflected
  Castagnoli polynomial \<open>0x82F63B78\<close>, for every byte string and every seed.
\<close>

theorem crc32c_is_polynomial_division:
  "crc32c bs crc = foldl (\<lambda>c b. (crc_bit ^^ 8) (c XOR ucast b)) crc bs XOR 0xFFFFFFFF"
proof -
  have "foldl crc32c_step crc bs = foldl (\<lambda>c b. (crc_bit ^^ 8) (c XOR ucast b)) crc bs"
    by (induction bs arbitrary: crc) (simp_all add: crc32c_step_poly crc_byte_def)
  then show ?thesis by (simp add: crc32c_def)
qed

text \<open>
  C35: a page that carries the page magic validates right after \<open>set_page_checksum\<close>, when the
  sealed length is the header's data size.
\<close>

theorem sealed_page_validates:
  assumes "ph_magic h = kPageMagic" "unat (ph_data_size h) = n"
  shows "validate_page (set_page_checksum h payload n) payload = kOk"
  using assms by (simp add: validate_page_def) (simp add: set_page_checksum_def)

theorem sealed_page_validates_witness:
  "validate_page (set_page_checksum
     \<lparr>ph_magic = kPageMagic, ph_version = 0, ph_type = 1, ph_reserved = 0, ph_checksum = 7,
      ph_row_count = 1, ph_data_size = 2, ph_padding0 = 0, ph_padding1 = 0, ph_padding2 = 0\<rparr>
     [11, 22] 2) [11, 22] = kOk"
  by (rule sealed_page_validates) simp_all

text \<open>
  C39: when a page validates, changing any single byte of its payload makes it fail with
  \<open>kCorruptedData\<close>.
\<close>

theorem corrupted_byte_detected:
  assumes "validate_page h payload = kOk"
    and "i < unat (ph_data_size h)" "i < length payload" "b \<noteq> payload ! i"
  shows "validate_page h (payload[i := b]) = kCorruptedData"
proof -
  let ?n = "unat (ph_data_size h)"
  have "page_crc h (take ?n (payload[i := b])) \<noteq> page_crc h (take ?n payload)"
    using assms(2-4) crc32c_detects_byte [of i "take ?n payload" b]
    by (simp add: page_crc_def Let_def take_update_swap)
  with assms(1) show ?thesis
    by (auto simp: validate_page_def split: if_splits)
qed

theorem corrupted_byte_detected_witness:
  "validate_page (set_page_checksum
     \<lparr>ph_magic = kPageMagic, ph_version = 0, ph_type = 1, ph_reserved = 0, ph_checksum = 7,
      ph_row_count = 1, ph_data_size = 2, ph_padding0 = 0, ph_padding1 = 0, ph_padding2 = 0\<rparr>
     [11, 22] 2) [11, 23] = kCorruptedData"
proof -
  let ?h = "\<lparr>ph_magic = kPageMagic, ph_version = 0, ph_type = 1, ph_reserved = 0, ph_checksum = 7,
      ph_row_count = 1, ph_data_size = 2, ph_padding0 = 0, ph_padding1 = 0, ph_padding2 = 0\<rparr>"
  have ok: "validate_page (set_page_checksum ?h [11, 22] 2) [11, 22] = kOk"
    unfolding validate_page_def set_page_checksum_def page_crc_checksum by simp
  show ?thesis
    using corrupted_byte_detected [OF ok, of 1 23] by simp
qed

end
