(* ===== verification/Version_Index.thy ===== *)
theory Version_Index
  imports Core_Types
begin

text \<open>
  \<open>src/src/mvcc/version_index.hpp\<close> and \<open>version_index.cpp\<close>: the multi-version index of a
  table, a vector of (row, timestamp, page offset) entries that is sorted on demand.
  \<open>mutable\<close> members make the \<open>const\<close> operations change the representation, so every
  operation here returns the index as well. The \<open>sorting_\<close> flag only arbitrates between
  threads that sort at the same time; single operations run with it clear.

  Shown here: what a search returns, in terms of the set of entries alone; which readers a
  commit and a rollback are visible to; that pruning keeps every read at or above its cutoff;
  that the in-place compaction is the group-wise specification; the serialisation round trip.
\<close>

section \<open>Data\<close>

record IndexEntry =
  ie_row_id :: RowId
  ie_ts :: Timestamp
  ie_offset :: u64
  ie_row_size :: u16

record VersionIndex =
  vi_entries :: "IndexEntry list"
  vi_dirty :: bool

text \<open>The offset of a tombstone (\<open>VersionIndex::kNotFound\<close>, \<open>Table::kNotFoundPage\<close>).\<close>

definition kNotFoundOff :: u64 where "kNotFoundOff = -1"

definition vi_init :: VersionIndex where "vi_init = \<lparr>vi_entries = [], vi_dirty = False\<rparr>"

section \<open>Operations\<close>

definition insert_bulk :: "IndexEntry list \<Rightarrow> VersionIndex \<Rightarrow> VersionIndex" where
  "insert_bulk es vi = vi\<lparr>vi_entries := vi_entries vi @ es, vi_dirty := True\<rparr>"

text \<open>The comparator of \<open>std::sort\<close>: by row, the newest version of a row first.\<close>

definition entry_lt :: "IndexEntry \<Rightarrow> IndexEntry \<Rightarrow> bool" where
  "entry_lt a b =
     (if ie_row_id a \<noteq> ie_row_id b then ie_row_id a < ie_row_id b else ie_ts a > ie_ts b)"

definition ensure_sorted :: "VersionIndex \<Rightarrow> VersionIndex" where
  "ensure_sorted vi =
     (if \<not> vi_dirty vi then vi
      else vi\<lparr>vi_entries := std_sort entry_lt (vi_entries vi), vi_dirty := False\<rparr>)"

definition row_lower_bound :: "RowId \<Rightarrow> IndexEntry list \<Rightarrow> nat" where
  "row_lower_bound rid es = lower_bound (\<lambda>e. ie_row_id e < rid) es"

text \<open>The scan of \<open>search\<close> from the first entry of the row, with the best version so far.\<close>

fun search_scan :: "RowId \<Rightarrow> Timestamp \<Rightarrow> TxId \<Rightarrow> u64 \<Rightarrow> u64 \<Rightarrow> bool \<Rightarrow> IndexEntry list
    \<Rightarrow> u64 StatusOr" where
  "search_scan rid max_ts cur best_offset best_ts found [] =
     (if found then Inr best_offset else Inl kNotFound)"
| "search_scan rid max_ts cur best_offset best_ts found (e # es) =
     (if ie_row_id e \<noteq> rid then (if found then Inr best_offset else Inl kNotFound)
      else if ie_ts e AND kTxIdFlag = 0 then
        (if ie_ts e \<le> max_ts \<and> best_ts \<le> ie_ts e
         then search_scan rid max_ts cur (ie_offset e) (ie_ts e) True es
         else search_scan rid max_ts cur best_offset best_ts found es)
      else if ie_ts e AND NOT kTxIdFlag = cur \<and> cur \<noteq> kInvalidTxId then Inr (ie_offset e)
      else search_scan rid max_ts cur best_offset best_ts found es)"

definition search :: "RowId \<Rightarrow> Timestamp \<Rightarrow> TxId \<Rightarrow> VersionIndex
    \<Rightarrow> u64 StatusOr \<times> VersionIndex" where
  "search rid max_ts cur vi0 =
     (let vi = ensure_sorted vi0; es = vi_entries vi
      in if es = [] then (Inl kNotFound, vi)
         else (search_scan rid max_ts cur kNotFoundOff 0 False
                 (drop (row_lower_bound rid es) es), vi))"

text \<open>The inner loop of \<open>commit_rows\<close>: the first entry of the row with the target timestamp.\<close>

fun commit_scan :: "RowId \<Rightarrow> u64 \<Rightarrow> Timestamp \<Rightarrow> IndexEntry list \<Rightarrow> IndexEntry list" where
  "commit_scan rid target commit_ts [] = []"
| "commit_scan rid target commit_ts (e # es) =
     (if ie_row_id e \<noteq> rid then e # es
      else if ie_ts e = target then e\<lparr>ie_ts := commit_ts\<rparr> # es
      else e # commit_scan rid target commit_ts es)"

definition commit_row :: "u64 \<Rightarrow> Timestamp \<Rightarrow> RowId \<Rightarrow> IndexEntry list \<Rightarrow> IndexEntry list" where
  "commit_row target commit_ts rid es =
     (let k = row_lower_bound rid es
      in take k es @ commit_scan rid target commit_ts (drop k es))"

definition commit_rows :: "RowId list \<Rightarrow> TxId \<Rightarrow> Timestamp \<Rightarrow> VersionIndex \<Rightarrow> VersionIndex" where
  "commit_rows rids tx_id commit_ts vi0 =
     (let vi = ensure_sorted vi0
      in vi\<lparr>vi_entries := fold (commit_row (tx_id OR kTxIdFlag) commit_ts) rids (vi_entries vi)\<rparr>)"

definition max_timestamp :: "VersionIndex \<Rightarrow> Timestamp \<times> VersionIndex" where
  "max_timestamp vi0 =
     (let vi = ensure_sorted vi0
      in (foldl (\<lambda>mt e. if ie_ts e > mt then ie_ts e else mt) 0 (vi_entries vi), vi))"

subsection \<open>Pruning\<close>

text \<open>
  One round of the compaction loop at read position \<open>i\<close>: the end of the row's group and the
  number of its leading entries that stay.
\<close>

definition group_end :: "IndexEntry list \<Rightarrow> nat \<Rightarrow> nat" where
  "group_end arr i = i + length (takeWhile (\<lambda>e. ie_row_id e = ie_row_id (arr ! i)) (drop i arr))"

definition keeper_pos :: "Timestamp \<Rightarrow> IndexEntry list \<Rightarrow> nat \<Rightarrow> nat \<Rightarrow> nat" where
  "keeper_pos cutoff arr i ge =
     i + length (takeWhile (\<lambda>e. \<not> ie_ts e \<le> cutoff) (take (ge - i) (drop i arr)))"

definition keep_count :: "Timestamp \<Rightarrow> IndexEntry list \<Rightarrow> nat \<Rightarrow> nat" where
  "keep_count cutoff arr i =
     (let ge = group_end arr i; kp = keeper_pos cutoff arr i ge
      in if kp = ge then ge - i
         else if ie_offset (arr ! kp) = kNotFoundOff then 0
         else kp - i + 1)"

text \<open>\<open>std::memmove\<close> of \<open>n\<close> entries inside one vector: every source entry is read before it is
  overwritten.\<close>

definition memmove_entries :: "'a list \<Rightarrow> nat \<Rightarrow> nat \<Rightarrow> nat \<Rightarrow> 'a list" where
  "memmove_entries arr dst src n =
     map (\<lambda>j. if dst \<le> j \<and> j < dst + n then arr ! (src + (j - dst)) else arr ! j)
       [0..<length arr]"

lemma length_memmove_entries [simp]: "length (memmove_entries arr dst src n) = length arr"
  by (simp add: memmove_entries_def)

function prune_loop :: "Timestamp \<Rightarrow> IndexEntry list \<Rightarrow> nat \<Rightarrow> nat \<Rightarrow> IndexEntry list \<times> nat" where
  "prune_loop cutoff arr wr i =
     (if i < length arr then
        let kc = keep_count cutoff arr i;
            arr' = (if wr \<noteq> i \<and> kc > 0 then memmove_entries arr wr i kc else arr)
        in prune_loop cutoff arr' (wr + kc) (group_end arr i)
      else (arr, wr))"
  by pat_completeness auto
termination
proof (relation "measure (\<lambda>(c, arr, w, i). length arr - i)", simp, goal_cases)
  case (1 cutoff arr wr i kc arr')
  have "i < group_end arr i"
    using 1(1) by (simp add: group_end_def Cons_nth_drop_Suc [symmetric])
  with 1 show ?case by (auto split: if_splits)
qed

declare prune_loop.simps [simp del]

definition prune :: "Timestamp \<Rightarrow> VersionIndex \<Rightarrow> nat \<times> VersionIndex" where
  "prune cutoff vi0 =
     (let vi = ensure_sorted vi0; es = vi_entries vi
      in if es = [] then (0, vi)
         else let (arr, wr) = prune_loop cutoff es 0 0
              in (length es - wr, vi\<lparr>vi_entries := take wr arr\<rparr>))"


subsection \<open>Serialisation\<close>

definition kVindexMagic :: u32 where "kVindexMagic = 0x56495844"

definition entry_bytes :: "IndexEntry \<Rightarrow> byte list" where
  "entry_bytes e =
     put_u64 (ie_row_id e) @ put_u64 (ie_ts e) @ put_u64 (ie_offset e) @ put_u16 (ie_row_size e)"

definition vi_serialize :: "VersionIndex \<Rightarrow> byte list \<times> VersionIndex" where
  "vi_serialize vi0 =
     (let vi = ensure_sorted vi0; es = vi_entries vi
      in (put_u32 kVindexMagic @ put_u32 1 @ put_u64 (word_of_nat (length es)) @
          concat (map entry_bytes es), vi))"

text \<open>
  Reading one entry into a slot of the vector: the four \<open>get\<close> calls of the loop body stop at
  the first one that runs past the end, leaving the fields read so far in the slot.
\<close>

definition get_entry_into :: "IndexEntry \<Rightarrow> byte list \<Rightarrow> IndexEntry \<times> byte list \<times> bool" where
  "get_entry_into e bs =
     (case get_u64 bs of None \<Rightarrow> (e, bs, False) | Some (v, bs) \<Rightarrow>
      let e = e\<lparr>ie_row_id := v\<rparr> in
      (case get_u64 bs of None \<Rightarrow> (e, bs, False) | Some (v, bs) \<Rightarrow>
       let e = e\<lparr>ie_ts := v\<rparr> in
       (case get_u64 bs of None \<Rightarrow> (e, bs, False) | Some (v, bs) \<Rightarrow>
        let e = e\<lparr>ie_offset := v\<rparr> in
        (case get_u16 bs of None \<Rightarrow> (e, bs, False) | Some (v, bs) \<Rightarrow>
         (e\<lparr>ie_row_size := v\<rparr>, bs, True)))))"

fun get_entries_into :: "IndexEntry list \<Rightarrow> byte list \<Rightarrow> IndexEntry list \<times> byte list \<times> bool" where
  "get_entries_into [] bs = ([], bs, True)"
| "get_entries_into (e # es) bs =
     (case get_entry_into e bs of (e', r, ok) \<Rightarrow>
       if ok then (case get_entries_into es r of (es', r', ok') \<Rightarrow> (e' # es', r', ok'))
       else (e' # es, r, False))"

definition zero_entry :: IndexEntry where
  "zero_entry = \<lparr>ie_row_id = 0, ie_ts = 0, ie_offset = 0, ie_row_size = 0\<rparr>"

definition resize_entries :: "nat \<Rightarrow> IndexEntry list \<Rightarrow> IndexEntry list" where
  "resize_entries n es = take n es @ replicate (n - length es) zero_entry"

text \<open>
  \<open>std::vector::resize\<close> throws \<open>length_error\<close> beyond \<open>max_size()\<close> (\<open>2^63 - 1\<close> bytes of 32-byte
  entries); \<open>None\<close> is that exception, which \<open>deserialize\<close> does not catch. Failure to
  allocate below that bound is not modelled.
\<close>

definition kMaxEntries :: nat where "kMaxEntries = (2 ^ 63 - 1) div 32"

definition vi_deserialize :: "byte list \<Rightarrow> VersionIndex \<Rightarrow> (nat StatusOr \<times> VersionIndex) option" where
  "vi_deserialize bs vi =
     (case get_u32 bs of None \<Rightarrow> Some (Inl kCorruptedData, vi) | Some (magic, r1) \<Rightarrow>
      if magic \<noteq> kVindexMagic then Some (Inl kCorruptedData, vi) else
      (case get_u32 r1 of None \<Rightarrow> Some (Inl kCorruptedData, vi) | Some (ver, r2) \<Rightarrow>
       if ver \<noteq> 1 then Some (Inl kCorruptedData, vi) else
       (case get_u64 r2 of None \<Rightarrow> Some (Inl kCorruptedData, vi) | Some (n, r3) \<Rightarrow>
        if kMaxEntries < unat n then None else
        (case get_entries_into (resize_entries (unat n) (vi_entries vi)) r3 of (es, r4, ok) \<Rightarrow>
          if ok then Some (Inr (length bs - length r4), vi\<lparr>vi_entries := es, vi_dirty := False\<rparr>)
          else Some (Inl kCorruptedData, vi\<lparr>vi_entries := es\<rparr>)))))"

section \<open>The comparator and the representation invariant\<close>

interpretation ent: weak_order entry_lt
  by unfold_locales (auto simp: entry_lt_def split: if_splits)

abbreviation entries_sorted :: "IndexEntry list \<Rightarrow> bool" where
  "entries_sorted es \<equiv> sorted_wrt (\<lambda>a b. \<not> entry_lt b a) es"

definition rows_sorted :: "IndexEntry list \<Rightarrow> bool" where
  "rows_sorted es \<longleftrightarrow> sorted_wrt (\<lambda>a b. ie_row_id a \<le> ie_row_id b) es"

text \<open>A clean index is ordered by row; the order of the versions of a row is not needed.\<close>

definition vi_inv :: "VersionIndex \<Rightarrow> bool" where
  "vi_inv vi \<longleftrightarrow> (\<not> vi_dirty vi \<longrightarrow> rows_sorted (vi_entries vi))"

lemma entries_sorted_rows: "entries_sorted es \<Longrightarrow> rows_sorted es"
  unfolding rows_sorted_def
  by (rule sorted_wrt_mono_rel) (auto simp: entry_lt_def split: if_splits)

lemma vi_inv_init [simp]: "vi_inv vi_init"
  by (simp add: vi_inv_def vi_init_def rows_sorted_def)

lemma ensure_sorted_inv:
  "vi_inv vi \<Longrightarrow> rows_sorted (vi_entries (ensure_sorted vi)) \<and> \<not> vi_dirty (ensure_sorted vi)"
  by (auto simp: ensure_sorted_def vi_inv_def intro: entries_sorted_rows ent.sorted_std_sort)

lemma ensure_sorted_clean: "\<not> vi_dirty vi \<Longrightarrow> ensure_sorted vi = vi"
  by (simp add: ensure_sorted_def)

lemma ensure_sorted_mset [simp]: "mset (vi_entries (ensure_sorted vi)) = mset (vi_entries vi)"
  by (simp add: ensure_sorted_def)

lemma ensure_sorted_set [simp]: "set (vi_entries (ensure_sorted vi)) = set (vi_entries vi)"
  by (simp add: ensure_sorted_def)

lemma insert_bulk_inv: "vi_inv (insert_bulk es vi)"
  by (simp add: vi_inv_def insert_bulk_def)

lemma rows_sorted_partitioned: "rows_sorted es \<Longrightarrow> partitioned (\<lambda>e. ie_row_id e < rid) es"
  unfolding rows_sorted_def partitioned_def
  by (rule sorted_wrt_mono_rel) auto

lemma drop_row_lower_bound:
  "rows_sorted es \<Longrightarrow> drop (row_lower_bound rid es) es = filter (\<lambda>e. rid \<le> ie_row_id e) es"
  unfolding row_lower_bound_def
  by (simp add: drop_lower_bound rows_sorted_partitioned partitioned_dropWhile not_less)

lemma rows_sorted_filter: "rows_sorted es \<Longrightarrow> rows_sorted (filter p es)"
  unfolding rows_sorted_def by (rule sorted_wrt_filter)

section \<open>What a search returns\<close>

text \<open>
  The abstract view of a search: the entries of the row that the reader's own transaction
  wrote, and the committed entries no newer than the reader's timestamp.
\<close>

definition own_version :: "RowId \<Rightarrow> TxId \<Rightarrow> IndexEntry \<Rightarrow> bool" where
  "own_version rid cur e \<longleftrightarrow>
     ie_row_id e = rid \<and> \<not> ie_ts e < kTxIdFlag \<and> ie_ts e AND NOT kTxIdFlag = cur \<and> cur \<noteq> kInvalidTxId"

definition committed_version :: "RowId \<Rightarrow> Timestamp \<Rightarrow> IndexEntry \<Rightarrow> bool" where
  "committed_version rid max_ts e \<longleftrightarrow>
     ie_row_id e = rid \<and> ie_ts e < kTxIdFlag \<and> ie_ts e \<le> max_ts"

fun newest_from :: "IndexEntry option \<Rightarrow> IndexEntry list \<Rightarrow> IndexEntry option" where
  "newest_from acc [] = acc"
| "newest_from acc (e # es) =
     newest_from (case acc of None \<Rightarrow> Some e
       | Some b \<Rightarrow> if ie_ts b \<le> ie_ts e then Some e else Some b) es"

definition visible_version :: "RowId \<Rightarrow> Timestamp \<Rightarrow> TxId \<Rightarrow> IndexEntry list \<Rightarrow> IndexEntry option" where
  "visible_version rid max_ts cur es =
     (case filter (own_version rid cur) es of e # _ \<Rightarrow> Some e
      | [] \<Rightarrow> newest_from None (filter (committed_version rid max_ts) es))"

lemma search_scan_acc:
  assumes "\<forall>e \<in> set es. ie_row_id e = rid"
  shows "search_scan rid max_ts cur (case acc of None \<Rightarrow> kNotFoundOff | Some b \<Rightarrow> ie_offset b)
           (case acc of None \<Rightarrow> 0 | Some b \<Rightarrow> ie_ts b) (acc \<noteq> None) es =
         (case filter (own_version rid cur) es of e # _ \<Rightarrow> Inr (ie_offset e)
          | [] \<Rightarrow> (case newest_from acc (filter (committed_version rid max_ts) es) of
                None \<Rightarrow> Inl kNotFound | Some e \<Rightarrow> Inr (ie_offset e)))"
  using assms
proof (induction es arbitrary: acc)
  case Nil
  then show ?case by (auto split: option.splits)
next
  case (Cons e es)
  define acc' where "acc' = (case acc of None \<Rightarrow> Some e
       | Some b \<Rightarrow> if ie_ts b \<le> ie_ts e then Some e else Some b)"
  from Cons.prems have rid: "ie_row_id e = rid" and IHp: "\<forall>e \<in> set es. ie_row_id e = rid" by auto
  show ?case
  proof (cases "ie_ts e < kTxIdFlag \<and> ie_ts e \<le> max_ts")
    case True
    have own: "\<not> own_version rid cur e" using True by (simp add: own_version_def)
    have com: "committed_version rid max_ts e" using True rid by (simp add: committed_version_def)
    show ?thesis
      using True rid own com Cons.IH [OF IHp, of acc'] Cons.IH [OF IHp, of acc]
      by (cases acc; cases "filter (own_version rid cur) es") (auto simp: flag_clear_iff acc'_def)
  next
    case False
    then have com: "\<not> committed_version rid max_ts e" by (simp add: committed_version_def)
    have own: "own_version rid cur e \<longleftrightarrow>
        \<not> ie_ts e < kTxIdFlag \<and> ie_ts e AND NOT kTxIdFlag = cur \<and> cur \<noteq> kInvalidTxId"
      using rid by (simp add: own_version_def)
    show ?thesis
      using False rid com own Cons.IH [OF IHp, of acc]
      by (cases "own_version rid cur e") (auto simp: flag_clear_iff cong: list.case_cong)
  qed
qed

text \<open>Only the entries of the row matter, and in an ordered list they are contiguous.\<close>

lemma search_scan_row_prefix:
  "\<forall>e \<in> set xs. ie_row_id e = rid \<Longrightarrow> ys = [] \<or> ie_row_id (hd ys) \<noteq> rid \<Longrightarrow>
   search_scan rid m cur bo bt f (xs @ ys) = search_scan rid m cur bo bt f xs"
  by (induction xs arbitrary: bo bt f) (cases ys; auto)+

lemma rows_split:
  assumes "rows_sorted es"
  shows "\<exists>ys. filter (\<lambda>e. rid \<le> ie_row_id e) es = filter (\<lambda>e. ie_row_id e = rid) es @ ys
              \<and> (ys = [] \<or> ie_row_id (hd ys) \<noteq> rid)"
proof -
  let ?xs = "filter (\<lambda>e. rid \<le> ie_row_id e) es"
  have sorted: "rows_sorted ?xs" using assms by (rule rows_sorted_filter)
  have "takeWhile (\<lambda>e. ie_row_id e = rid) ?xs = filter (\<lambda>e. ie_row_id e = rid) ?xs"
    by (rule takeWhile_filter_sorted [OF sorted [unfolded rows_sorted_def]]) auto
  also have "\<dots> = filter (\<lambda>e. ie_row_id e = rid) es"
    by (auto intro: filter_cong)
  finally have "?xs = filter (\<lambda>e. ie_row_id e = rid) es @ dropWhile (\<lambda>e. ie_row_id e = rid) ?xs"
    by (metis takeWhile_dropWhile_id)
  moreover have "dropWhile (\<lambda>e. ie_row_id e = rid) ?xs \<noteq> [] \<Longrightarrow>
      ie_row_id (hd (dropWhile (\<lambda>e. ie_row_id e = rid) ?xs)) \<noteq> rid"
    by (rule hd_dropWhile)
  ultimately show ?thesis by blast
qed

lemma version_row [simp]:
  "ie_row_id e = rid \<and> own_version rid cur e \<longleftrightarrow> own_version rid cur e"
  "ie_row_id e = rid \<and> committed_version rid m e \<longleftrightarrow> committed_version rid m e"
  by (auto simp: own_version_def committed_version_def)

lemma search_eq:
  assumes "vi_inv vi"
  shows "fst (search rid m cur vi) =
    (case visible_version rid m cur (vi_entries (ensure_sorted vi)) of
       None \<Rightarrow> Inl kNotFound | Some e \<Rightarrow> Inr (ie_offset e))"
proof -
  let ?es = "vi_entries (ensure_sorted vi)"
  let ?row = "filter (\<lambda>e. ie_row_id e = rid) ?es"
  have rs: "rows_sorted ?es" using assms by (simp add: ensure_sorted_inv)
  obtain ys where ys: "filter (\<lambda>e. rid \<le> ie_row_id e) ?es = ?row @ ys"
      "ys = [] \<or> ie_row_id (hd ys) \<noteq> rid"
    using rows_split [OF rs] by blast
  have "search_scan rid m cur kNotFoundOff 0 False (drop (row_lower_bound rid ?es) ?es)
      = search_scan rid m cur kNotFoundOff 0 False ?row"
    using ys by (simp add: drop_row_lower_bound rs search_scan_row_prefix)
  also have "\<dots> = (case visible_version rid m cur ?es of
       None \<Rightarrow> Inl kNotFound | Some e \<Rightarrow> Inr (ie_offset e))"
    using search_scan_acc [of ?row rid m cur None]
    by (auto simp: visible_version_def split: list.splits)
  finally show ?thesis
    by (auto simp: search_def Let_def visible_version_def)
qed

text \<open>The newest of a list of entries.\<close>

lemma newest_from_None_iff: "newest_from acc es = None \<longleftrightarrow> acc = None \<and> es = []"
  by (induction es arbitrary: acc) (auto split: option.splits)

lemma newest_from_Some:
  "newest_from acc es = Some e \<Longrightarrow>
   (e \<in> set es \<or> acc = Some e) \<and> (\<forall>x \<in> set es. ie_ts x \<le> ie_ts e) \<and>
   (\<forall>b. acc = Some b \<longrightarrow> ie_ts b \<le> ie_ts e)"
proof (induction es arbitrary: acc)
  case Nil
  then show ?case by simp
next
  case (Cons x es)
  let ?acc = "case acc of None \<Rightarrow> Some x
       | Some b \<Rightarrow> if ie_ts b \<le> ie_ts x then Some x else Some b"
  have "newest_from ?acc es = Some e" using Cons.prems by simp
  note IH = Cons.IH [OF this]
  show ?case
    using IH by (cases acc) (auto split: if_splits)
qed

lemma newest_None_Some:
  "newest_from None es = Some e \<Longrightarrow> e \<in> set es \<and> (\<forall>x \<in> set es. ie_ts x \<le> ie_ts e)"
  using newest_from_Some [of None] by blast

lemma no_own_invalid [simp]: "filter (own_version rid kInvalidTxId) es = []"
  by (simp add: own_version_def filter_empty_conv)

text \<open>What the visible version is, in any order of the entries.\<close>

lemma visible_version_cases:
  "case visible_version rid m cur es of
      None \<Rightarrow> \<forall>e \<in> set es. \<not> own_version rid cur e \<and> \<not> committed_version rid m e
    | Some e \<Rightarrow> e \<in> set es \<and>
        (if \<exists>e' \<in> set es. own_version rid cur e' then own_version rid cur e
         else committed_version rid m e \<and>
           (\<forall>e' \<in> set es. committed_version rid m e' \<longrightarrow> ie_ts e' \<le> ie_ts e))"
proof (cases "filter (own_version rid cur) es")
  case (Cons e xs)
  then have "e \<in> set (filter (own_version rid cur) es)" by (simp only: list.set_intros)
  then have "e \<in> set es" "own_version rid cur e" by (simp_all only: set_filter mem_Collect_eq)
  with Cons show ?thesis by (auto simp: visible_version_def)
next
  case Nil
  let ?com = "filter (committed_version rid m) es"
  from Nil have own: "\<forall>e \<in> set es. \<not> own_version rid cur e" by (simp add: filter_empty_conv)
  show ?thesis
  proof (cases "newest_from None ?com")
    case None
    then have "?com = []" by (simp add: newest_from_None_iff)
    with None Nil own show ?thesis by (simp add: visible_version_def filter_empty_conv)
  next
    case (Some e)
    with newest_None_Some [OF this] Nil own show ?thesis by (auto simp: visible_version_def)
  qed
qed

lemma search_newest:
  assumes "vi_inv vi"
  shows "case fst (search rid m kInvalidTxId vi) of
      Inl code \<Rightarrow> code = kNotFound \<and> \<not> (\<exists>e \<in> set (vi_entries vi). committed_version rid m e)
    | Inr off \<Rightarrow> \<exists>e \<in> set (vi_entries vi). committed_version rid m e \<and> ie_offset e = off
        \<and> (\<forall>e' \<in> set (vi_entries vi). committed_version rid m e' \<longrightarrow> ie_ts e' \<le> ie_ts e)"
  using visible_version_cases [of "vi_entries (ensure_sorted vi)" rid kInvalidTxId m]
  by (auto simp: search_eq [OF assms] own_version_def split: option.splits)

section \<open>Commit and rollback\<close>

fun upd_first :: "('a \<Rightarrow> bool) \<Rightarrow> ('a \<Rightarrow> 'a) \<Rightarrow> 'a list \<Rightarrow> 'a list" where
  "upd_first p f [] = []"
| "upd_first p f (x # xs) = (if p x then f x # xs else x # upd_first p f xs)"

lemma upd_first_none: "\<forall>x \<in> set xs. \<not> p x \<Longrightarrow> upd_first p f xs = xs"
  by (induction xs) auto

lemma upd_first_append:
  "\<forall>x \<in> set xs. \<not> p x \<Longrightarrow> upd_first p f (xs @ ys) = xs @ upd_first p f ys"
  by (induction xs) auto

lemma commit_scan_upd:
  "rows_sorted es \<Longrightarrow> \<forall>e \<in> set es. rid \<le> ie_row_id e \<Longrightarrow>
   commit_scan rid target c es =
   upd_first (\<lambda>e. ie_row_id e = rid \<and> ie_ts e = target) (\<lambda>e. e\<lparr>ie_ts := c\<rparr>) es"
proof (induction es)
  case Nil
  then show ?case by simp
next
  case (Cons e es)
  have rest: "rows_sorted es" "\<forall>x \<in> set es. rid \<le> ie_row_id x" "\<forall>x \<in> set es. ie_row_id e \<le> ie_row_id x"
    using Cons.prems by (auto simp: rows_sorted_def)
  show ?case
  proof (cases "ie_row_id e = rid")
    case True
    with rest Cons.IH show ?thesis by simp
  next
    case False
    with Cons.prems(2) rest(3) have "\<forall>x \<in> set es. ie_row_id x \<noteq> rid" by fastforce
    with False show ?thesis by (simp add: upd_first_none)
  qed
qed

lemma commit_row_upd:
  assumes "rows_sorted es"
  shows "commit_row target c rid es =
    upd_first (\<lambda>e. ie_row_id e = rid \<and> ie_ts e = target) (\<lambda>e. e\<lparr>ie_ts := c\<rparr>) es"
proof -
  let ?k = "row_lower_bound rid es"
  have part: "partitioned (\<lambda>e. ie_row_id e < rid) es" using assms by (rule rows_sorted_partitioned)
  have take: "take ?k es = filter (\<lambda>e. ie_row_id e < rid) es"
    unfolding row_lower_bound_def
    by (simp add: lower_bound_eq part partitioned_takeWhile [symmetric] takeWhile_eq_take [symmetric])
  have drop: "drop ?k es = filter (\<lambda>e. rid \<le> ie_row_id e) es"
    using assms by (rule drop_row_lower_bound)
  have "commit_scan rid target c (drop ?k es) =
      upd_first (\<lambda>e. ie_row_id e = rid \<and> ie_ts e = target) (\<lambda>e. e\<lparr>ie_ts := c\<rparr>) (drop ?k es)"
    using drop rows_sorted_filter [OF assms] by (intro commit_scan_upd) auto
  then have "commit_row target c rid es = take ?k es @
      upd_first (\<lambda>e. ie_row_id e = rid \<and> ie_ts e = target) (\<lambda>e. e\<lparr>ie_ts := c\<rparr>) (drop ?k es)"
    by (simp add: commit_row_def Let_def)
  also have "\<dots> = upd_first (\<lambda>e. ie_row_id e = rid \<and> ie_ts e = target) (\<lambda>e. e\<lparr>ie_ts := c\<rparr>)
      (take ?k es @ drop ?k es)"
    by (rule upd_first_append [symmetric]) (auto simp: take)
  finally show ?thesis by simp
qed

lemma rows_sorted_map_row: "map ie_row_id es = map ie_row_id es' \<Longrightarrow> rows_sorted es \<longleftrightarrow> rows_sorted es'"
  unfolding rows_sorted_def by (simp flip: sorted_wrt_map [of "(\<le>)" ie_row_id])

lemma map_row_upd_first: "map ie_row_id (upd_first p (\<lambda>e. e\<lparr>ie_ts := c\<rparr>) es) = map ie_row_id es"
  by (induction es) auto

lemma commit_row_sorted: "rows_sorted es \<Longrightarrow> rows_sorted (commit_row target c rid es)"
  using rows_sorted_map_row [OF map_row_upd_first] by (simp add: commit_row_upd)

lemma fold_commit_sorted: "rows_sorted es \<Longrightarrow> rows_sorted (fold (commit_row target c) rids es)"
  by (induction rids arbitrary: es) (simp_all add: commit_row_sorted)

lemma commit_rows_inv: "vi_inv vi \<Longrightarrow> vi_inv (commit_rows rids tx c vi)"
  by (simp add: vi_inv_def commit_rows_def Let_def fold_commit_sorted ensure_sorted_inv)

text \<open>
  A transaction that wrote each row at most once: then committing re-stamps exactly its entries
  of the listed rows.
\<close>

definition written_once :: "u64 \<Rightarrow> IndexEntry list \<Rightarrow> bool" where
  "written_once target es \<longleftrightarrow> distinct (map ie_row_id (filter (\<lambda>e. ie_ts e = target) es))"

definition restamp :: "RowId set \<Rightarrow> u64 \<Rightarrow> Timestamp \<Rightarrow> IndexEntry \<Rightarrow> IndexEntry" where
  "restamp R target c e =
     (if ie_row_id e \<in> R \<and> ie_ts e = target then e\<lparr>ie_ts := c\<rparr> else e)"

lemma upd_first_restamp:
  assumes "written_once target es"
  shows "upd_first (\<lambda>e. ie_row_id e = rid \<and> ie_ts e = target) (\<lambda>e. e\<lparr>ie_ts := c\<rparr>) es =
    map (restamp {rid} target c) es"
  using assms
proof (induction es)
  case Nil
  then show ?case by simp
next
  case (Cons e es)
  have once: "written_once target es"
    using Cons.prems by (simp add: written_once_def split: if_splits)
  show ?case
  proof (cases "ie_row_id e = rid \<and> ie_ts e = target")
    case True
    with Cons.prems have "\<forall>x \<in> set es. \<not> (ie_row_id x = rid \<and> ie_ts x = target)"
      by (auto simp: written_once_def image_iff)
    then have "map (restamp {rid} target c) es = es"
      by (intro map_idI) (auto simp: restamp_def)
    moreover have "restamp {rid} target c e = e\<lparr>ie_ts := c\<rparr>"
      using True by (simp add: restamp_def)
    ultimately show ?thesis using True by simp
  next
    case False
    with once Cons.IH show ?thesis by (auto simp: restamp_def)
  qed
qed

lemma restamp_once:
  assumes "written_once target es" "c \<noteq> target"
  shows "written_once target (map (restamp R target c) es)"
proof -
  have "map ie_row_id (filter (\<lambda>e. ie_ts e = target) (map (restamp R target c) es)) =
      filter (\<lambda>r. r \<notin> R) (map ie_row_id (filter (\<lambda>e. ie_ts e = target) es))"
    using assms(2) by (induction es) (auto simp: restamp_def)
  with assms(1) show ?thesis by (simp add: written_once_def)
qed

lemma fold_commit_restamp:
  "rows_sorted es \<Longrightarrow> written_once target es \<Longrightarrow> c \<noteq> target \<Longrightarrow>
   fold (commit_row target c) rids es = map (restamp (set rids) target c) es"
proof (induction rids arbitrary: es)
  case Nil
  then show ?case by (simp add: restamp_def)
next
  case (Cons r rids)
  have row: "commit_row target c r es = map (restamp {r} target c) es"
    using Cons.prems by (simp add: commit_row_upd upd_first_restamp)
  have "fold (commit_row target c) (r # rids) es =
      map (restamp (set rids) target c) (map (restamp {r} target c) es)"
    using Cons.IH [of "map (restamp {r} target c) es"] Cons.prems row restamp_once
      commit_row_sorted [OF Cons.prems(1), of target c r]
    by simp
  also have "\<dots> = map (restamp (set (r # rids)) target c) es"
    using Cons.prems(3) by (auto simp: restamp_def)
  finally show ?case .
qed

lemma commit_rows_entries:
  assumes "vi_inv vi" "written_once (tx OR kTxIdFlag) (vi_entries vi)" "c \<noteq> tx OR kTxIdFlag"
  shows "vi_entries (commit_rows rids tx c vi) =
    map (restamp (set rids) (tx OR kTxIdFlag) c) (vi_entries (ensure_sorted vi))"
proof -
  have "written_once (tx OR kTxIdFlag) (vi_entries (ensure_sorted vi))"
    using assms(2) ensure_sorted_mset [of vi] unfolding written_once_def
    by (metis mset_eq_imp_distinct_iff mset_filter mset_map)
  with assms show ?thesis
    by (simp add: commit_rows_def Let_def fold_commit_restamp ensure_sorted_inv)
qed

lemma commit_rows_clean:
  "vi_inv vi \<Longrightarrow> ensure_sorted (commit_rows rids tx c vi) = commit_rows rids tx c vi"
  using ensure_sorted_inv [of vi] by (simp add: ensure_sorted_clean commit_rows_def Let_def)

section \<open>Pruning: the compaction loop and what it keeps\<close>

text \<open>The specification of the loop: what stays of the versions of one row, group by group.\<close>

definition kept :: "Timestamp \<Rightarrow> IndexEntry list \<Rightarrow> IndexEntry list" where
  "kept cutoff g =
     (let k = length (takeWhile (\<lambda>e. \<not> ie_ts e \<le> cutoff) g)
      in if k = length g then g
         else if ie_offset (g ! k) = kNotFoundOff then []
         else take (k + 1) g)"

function prune_groups :: "Timestamp \<Rightarrow> IndexEntry list \<Rightarrow> IndexEntry list" where
  "prune_groups cutoff [] = []"
| "prune_groups cutoff (e # es) =
     kept cutoff (takeWhile (\<lambda>x. ie_row_id x = ie_row_id e) (e # es)) @
     prune_groups cutoff (dropWhile (\<lambda>x. ie_row_id x = ie_row_id e) (e # es))"
  by pat_completeness auto
termination
  by (relation "measure (\<lambda>(c, es). length es)") (auto simp: length_dropWhile_le le_imp_less_Suc)

lemma memmove_entries_eq:
  assumes "dst + n \<le> length arr" "src + n \<le> length arr"
  shows "memmove_entries arr dst src n = take dst arr @ take n (drop src arr) @ drop (dst + n) arr"
  using assms by (intro nth_equalityI) (auto simp: memmove_entries_def nth_append)

lemma group_take:
  "i < length arr \<Longrightarrow> take (group_end arr i - i) (drop i arr) =
     takeWhile (\<lambda>x. ie_row_id x = ie_row_id (arr ! i)) (drop i arr)"
  by (simp add: group_end_def takeWhile_eq_take [symmetric])

lemma group_drop:
  "drop (group_end arr i) arr = dropWhile (\<lambda>x. ie_row_id x = ie_row_id (arr ! i)) (drop i arr)"
  by (simp add: group_end_def dropWhile_eq_drop add.commute)

lemma group_end_le: "i < length arr \<Longrightarrow> i < group_end arr i \<and> group_end arr i \<le> length arr"
proof -
  assume i: "i < length arr"
  have "length (takeWhile (\<lambda>e. ie_row_id e = ie_row_id (arr ! i)) (drop i arr)) \<le> length arr - i"
    by (metis length_drop length_takeWhile_le)
  with i show ?thesis
    by (simp add: group_end_def) (simp add: Cons_nth_drop_Suc [symmetric])
qed

lemma keep_count_kept:
  assumes "i < length arr"
  shows "take (keep_count cutoff arr i) (drop i arr) =
           kept cutoff (takeWhile (\<lambda>x. ie_row_id x = ie_row_id (arr ! i)) (drop i arr))
       \<and> keep_count cutoff arr i \<le> group_end arr i - i"
proof -
  define g where "g = takeWhile (\<lambda>x. ie_row_id x = ie_row_id (arr ! i)) (drop i arr)"
  define k where "k = length (takeWhile (\<lambda>e. \<not> ie_ts e \<le> cutoff) g)"
  have ge: "group_end arr i = i + length g" by (simp add: group_end_def g_def)
  have g: "take (length g) (drop i arr) = g" by (simp add: g_def takeWhile_eq_take [symmetric])
  have kp: "keeper_pos cutoff arr i (i + length g) = i + k"
    by (simp add: keeper_pos_def g k_def)
  have kle: "k \<le> length g" unfolding k_def by (rule length_takeWhile_le)
  have kc: "keep_count cutoff arr i = (if k = length g then length g
      else if ie_offset (arr ! (i + k)) = kNotFoundOff then 0 else Suc k)"
    by (simp add: keep_count_def Let_def ge kp)
  have kept: "kept cutoff g = (if k = length g then g
      else if ie_offset (g ! k) = kNotFoundOff then [] else take (Suc k) g)"
    by (simp add: kept_def Let_def k_def)
  have nth: "arr ! (i + k) = g ! k" if "k < length g"
    using that assms g by (metis nth_drop nth_take less_or_eq_imp_le)
  have tk: "take (Suc k) (drop i arr) = take (Suc k) g" if "k < length g"
    using that g by (metis Suc_leI min.absorb1 take_take)
  have "take (keep_count cutoff arr i) (drop i arr) = kept cutoff g
      \<and> keep_count cutoff arr i \<le> length g"
    using kle nth tk g by (cases "k = length g") (simp_all add: kc kept)
  then show ?thesis by (simp add: ge g_def)
qed

lemma memmove_down:
  assumes "dst \<le> src" "src + n \<le> ge" "ge \<le> length arr"
  shows "take (dst + n) (memmove_entries arr dst src n) = take dst arr @ take n (drop src arr)"
    and "drop ge (memmove_entries arr dst src n) = drop ge arr"
proof -
  have eq: "memmove_entries arr dst src n = take dst arr @ take n (drop src arr) @ drop (dst + n) arr"
    using assms by (intro memmove_entries_eq) auto
  show "take (dst + n) (memmove_entries arr dst src n) = take dst arr @ take n (drop src arr)"
    "drop ge (memmove_entries arr dst src n) = drop ge arr"
    unfolding eq using assms by simp_all
qed

lemma prune_loop_groups:
  assumes "wr \<le> i" "i \<le> length arr" "prune_loop cutoff arr wr i = (arr', wr')"
  shows "take wr' arr' = take wr arr @ prune_groups cutoff (drop i arr) \<and> wr' \<le> length arr'
     \<and> length arr' = length arr"
  using assms
proof (induction cutoff arr wr i rule: prune_loop.induct)
  case (1 cutoff arr wr i)
  show ?case
  proof (cases "i < length arr")
    case False
    with "1.prems" show ?thesis by (subst (asm) prune_loop.simps) auto
  next
    case True
    define kc where "kc = keep_count cutoff arr i"
    define a where "a = (if wr \<noteq> i \<and> kc > 0 then memmove_entries arr wr i kc else arr)"
    let ?ge = "group_end arr i"
    note ge = group_end_le [OF True]
    have kept: "take kc (drop i arr) =
        kept cutoff (takeWhile (\<lambda>x. ie_row_id x = ie_row_id (arr ! i)) (drop i arr))"
      and kc: "i + kc \<le> ?ge"
      using keep_count_kept [OF True, of cutoff] ge by (auto simp: kc_def)
    have a: "take (wr + kc) a = take wr arr @ take kc (drop i arr)"
      and d: "drop ?ge a = drop ?ge arr" and len: "length a = length arr"
      using "1.prems"(1) kc ge memmove_down [of wr i kc ?ge arr]
      by (auto simp: a_def take_add)
    have step: "prune_loop cutoff a (wr + kc) ?ge = (arr', wr')"
      using "1.prems"(3) unfolding prune_loop.simps [of cutoff arr wr i] Let_def
      by (simp only: True if_True kc_def a_def)
    have "take wr' arr' = take (wr + kc) a @ prune_groups cutoff (drop ?ge a)
        \<and> wr' \<le> length arr' \<and> length arr' = length a"
      using "1.prems"(1) kc ge len by (intro "1.IH" [OF True kc_def a_def _ _ step]) simp_all
    moreover have "prune_groups cutoff (drop i arr) =
        take kc (drop i arr) @ prune_groups cutoff (drop ?ge arr)"
    proof -
      have c: "drop i arr = arr ! i # drop (Suc i) arr"
        using True by (simp add: Cons_nth_drop_Suc)
      show ?thesis unfolding kept group_drop by (simp only: c prune_groups.simps(2))
    qed
    ultimately show ?thesis using a d len by simp
  qed
qed

lemma prune_entries:
  "vi_entries (snd (prune cutoff vi)) = prune_groups cutoff (vi_entries (ensure_sorted vi))"
  "fst (prune cutoff vi) = length (vi_entries vi) - length (vi_entries (snd (prune cutoff vi)))"
  "vi_dirty (snd (prune cutoff vi)) = vi_dirty (ensure_sorted vi)"
proof -
  let ?es = "vi_entries (ensure_sorted vi)"
  obtain arr wr where loop: "prune_loop cutoff ?es 0 0 = (arr, wr)" by fastforce
  have spec: "take wr arr = prune_groups cutoff ?es" "wr \<le> length arr"
    using prune_loop_groups [OF _ _ loop] by simp_all
  have len: "length ?es = length (vi_entries vi)"
    by (metis ensure_sorted_mset size_mset)
  have wr: "length (prune_groups cutoff ?es) = wr"
    using spec by (metis length_take min.absorb2)
  show "vi_entries (snd (prune cutoff vi)) = prune_groups cutoff ?es"
    using spec loop by (auto simp: prune_def Let_def)
  show "fst (prune cutoff vi) = length (vi_entries vi) - length (vi_entries (snd (prune cutoff vi)))"
    using spec loop len wr by (auto simp: prune_def Let_def)
  show "vi_dirty (snd (prune cutoff vi)) = vi_dirty (ensure_sorted vi)"
    using loop by (auto simp: prune_def Let_def)
qed

text \<open>Pruning acts on the versions of each row alone.\<close>

lemma kept_Nil [simp]: "kept cutoff [] = []"
  by (simp add: kept_def)

lemma set_kept: "set (kept cutoff g) \<subseteq> set g"
  by (auto simp: kept_def Let_def dest: in_set_takeD)

lemma set_prune_groups: "set (prune_groups cutoff es) \<subseteq> set es"
proof (induction cutoff es rule: prune_groups.induct)
  case (2 cutoff e es)
  have "set (kept cutoff (takeWhile (\<lambda>x. ie_row_id x = ie_row_id e) (e # es))) \<subseteq> set (e # es)"
    using set_kept set_takeWhileD by fastforce
  moreover have "set (prune_groups cutoff (dropWhile (\<lambda>x. ie_row_id x = ie_row_id e) (e # es))) \<subseteq> set (e # es)"
    using "2.IH" set_dropWhileD by fastforce
  ultimately show ?case by (simp only: prune_groups.simps set_append) blast
qed simp

lemma filter_row_all: "\<forall>e \<in> set g. ie_row_id e = r \<Longrightarrow>
   filter (\<lambda>e. ie_row_id e = rid) g = (if r = rid then g else [])"
  by (induction g) auto

lemma filter_row_kept: "\<forall>e \<in> set g. ie_row_id e = r \<Longrightarrow>
   filter (\<lambda>e. ie_row_id e = rid) (kept cutoff g) = (if r = rid then kept cutoff g else [])"
  using set_kept [of cutoff g] by (intro filter_row_all) blast

lemma filter_row_prune_groups:
  "rows_sorted es \<Longrightarrow> filter (\<lambda>e. ie_row_id e = rid) (prune_groups cutoff es) =
     kept cutoff (filter (\<lambda>e. ie_row_id e = rid) es)"
proof (induction cutoff es rule: prune_groups.induct)
  case (2 cutoff e es)
  let ?p = "\<lambda>x. ie_row_id x = ie_row_id e" and ?f = "filter (\<lambda>x. ie_row_id x = rid)"
  define g where "g = takeWhile ?p (e # es)"
  define r where "r = dropWhile ?p (e # es)"
  have split: "e # es = g @ r" by (simp only: g_def r_def takeWhile_dropWhile_id)
  have g: "\<forall>x \<in> set g. ie_row_id x = ie_row_id e"
    unfolding g_def by (blast dest: set_takeWhileD)
  have rs: "rows_sorted r"
    using "2.prems" unfolding rows_sorted_def r_def by (rule sorted_wrt_dropWhile)
  have "\<forall>x \<in> set (e # es). ie_row_id e \<le> ie_row_id x"
    using "2.prems" by (auto simp: rows_sorted_def)
  then have "partitioned ?p (e # es)"
    unfolding partitioned_def
    by (intro sorted_wrt_mono_rel [OF _ "2.prems" [unfolded rows_sorted_def]]) fastforce
  then have rne: "\<forall>x \<in> set r. ie_row_id x \<noteq> ie_row_id e"
    unfolding r_def by (simp only: partitioned_dropWhile) auto
  have "?f (prune_groups cutoff (e # es)) = ?f (kept cutoff g) @ kept cutoff (?f r)"
    using "2.IH" rs by (simp only: prune_groups.simps(2) filter_append g_def r_def)
  also have "\<dots> = kept cutoff (?f (g @ r))"
  proof (cases "ie_row_id e = rid")
    case True
    with rne have "?f r = []" by (simp add: filter_empty_conv)
    with True show ?thesis using filter_row_kept [OF g] filter_row_all [OF g] by simp
  next
    case False
    then show ?thesis using filter_row_kept [OF g] filter_row_all [OF g] by simp
  qed
  finally show ?case by (simp only: split)
qed simp

lemma rows_sorted_kept: "rows_sorted g \<Longrightarrow> rows_sorted (kept cutoff g)"
  unfolding rows_sorted_def kept_def Let_def
  by (simp add: sorted_wrt_take)

lemma rows_sorted_prune_groups: "rows_sorted es \<Longrightarrow> rows_sorted (prune_groups cutoff es)"
proof (induction cutoff es rule: prune_groups.induct)
  case (2 cutoff e es)
  let ?p = "\<lambda>x. ie_row_id x = ie_row_id e"
  let ?g = "takeWhile ?p (e # es)" and ?r = "dropWhile ?p (e # es)"
  have sub: "set (kept cutoff ?g) \<subseteq> set ?g" "set (prune_groups cutoff ?r) \<subseteq> set ?r"
    by (rule set_kept, rule set_prune_groups)
  have "rows_sorted (?g @ ?r)" using "2.prems" by simp
  then have parts: "rows_sorted ?g" "rows_sorted ?r"
      "\<forall>x \<in> set ?g. \<forall>y \<in> set ?r. ie_row_id x \<le> ie_row_id y"
    unfolding rows_sorted_def sorted_wrt_append by blast+
  have "rows_sorted (kept cutoff ?g @ prune_groups cutoff ?r)"
    using rows_sorted_kept [OF parts(1)] "2.IH" [OF parts(2)] parts(3) sub
    unfolding rows_sorted_def sorted_wrt_append by blast
  then show ?case by (simp only: prune_groups.simps)
qed (simp add: rows_sorted_def)

lemma prune_inv: "vi_inv vi \<Longrightarrow> vi_inv (snd (prune cutoff vi))"
  by (simp add: vi_inv_def prune_entries rows_sorted_prune_groups ensure_sorted_inv)

section \<open>Pruning keeps the reads at or above its cutoff\<close>

text \<open>What a reader makes of a search: a tombstone counts as no page.\<close>

definition visible_page :: "u64 StatusOr \<Rightarrow> u64 option" where
  "visible_page r = (case r of Inl _ \<Rightarrow> None | Inr off \<Rightarrow> if off = kNotFoundOff then None else Some off)"

text \<open>
  Two versions of a row are in order if the newer one comes first; the order of two
  tombstones does not matter, since either hides the row. Two versions with one timestamp are
  not in order, unless both are tombstones.
\<close>

definition in_order :: "IndexEntry \<Rightarrow> IndexEntry \<Rightarrow> bool" where
  "in_order a b \<longleftrightarrow> ie_ts b < ie_ts a \<or> (ie_offset a = kNotFoundOff \<and> ie_offset b = kNotFoundOff)"

definition versions_ordered :: "IndexEntry list \<Rightarrow> bool" where
  "versions_ordered es \<longleftrightarrow> sorted_wrt (\<lambda>a b. ie_row_id a = ie_row_id b \<longrightarrow> in_order a b) es"

lemma row_in_order:
  assumes "versions_ordered es"
  shows "sorted_wrt in_order (filter (\<lambda>e. ie_row_id e = rid) es)"
proof -
  have "sorted_wrt (\<lambda>a b. ie_row_id a = ie_row_id b \<longrightarrow> in_order a b) (filter (\<lambda>e. ie_row_id e = rid) es)"
    using assms unfolding versions_ordered_def by (rule sorted_wrt_filter)
  then show ?thesis by (rule sorted_wrt_mono_rel [rotated]) auto
qed

lemma newest_from_keep:
  "\<forall>x \<in> set es. ie_ts x < ie_ts b \<Longrightarrow> newest_from (Some b) es = Some b"
  by (induction es) (auto simp: not_le)

lemma newest_from_append: "newest_from acc (xs @ ys) = newest_from (newest_from acc xs) ys"
  by (induction acc xs rule: newest_from.induct) auto

lemma visible_version_row:
  "visible_version rid m cur (filter (\<lambda>e. ie_row_id e = rid) es) = visible_version rid m cur es"
  by (simp add: visible_version_def cong: list.case_cong)

lemma visible_version_some:
  "visible_version rid m cur g = Some e \<Longrightarrow> e \<in> set g"
  using visible_version_cases [of g rid cur m] by (auto split: option.splits)

text \<open>What is older than a version the reader sees does not count.\<close>

lemma visible_version_older:
  assumes com: "committed_version rid m e" and es: "\<forall>x \<in> set es. ie_ts x < ie_ts e"
  shows "visible_version rid m cur (pre @ e # es) = visible_version rid m cur (pre @ [e])"
proof -
  have "filter (own_version rid cur) es = []" "\<not> own_version rid cur e"
    using com es by (auto simp: filter_empty_conv own_version_def committed_version_def)
  then have own: "filter (own_version rid cur) (pre @ e # es) = filter (own_version rid cur) (pre @ [e])"
    by simp
  obtain b where b: "newest_from None (filter (committed_version rid m) (pre @ [e])) = Some b"
    using com newest_from_None_iff [of None "filter (committed_version rid m) (pre @ [e])"] by auto
  with com have "ie_ts e \<le> ie_ts b" using newest_None_Some [OF b] by auto
  with es have "\<forall>x \<in> set (filter (committed_version rid m) es). ie_ts x < ie_ts b" by fastforce
  then have "newest_from None (filter (committed_version rid m) (pre @ e # es)) = Some b"
    using com b newest_from_append [of None "filter (committed_version rid m) (pre @ [e])"
        "filter (committed_version rid m) es"] by (simp add: newest_from_keep)
  with own b show ?thesis by (simp only: visible_version_def)
qed

text \<open>The versions of one row, newest first, cut at the newest one not after the cutoff.\<close>

lemma kept_visible_page:
  assumes ord: "sorted_wrt in_order g" and row: "\<forall>e \<in> set g. ie_row_id e = rid"
    and c: "cutoff \<le> m" "cutoff < kTxIdFlag"
    and final: "\<forall>e \<in> set g. \<forall>e' \<in> set g. ie_offset e = kNotFoundOff \<and> ie_ts e \<le> cutoff \<and>
        ie_ts e < ie_ts e' \<longrightarrow> ie_offset e' = kNotFoundOff"
  shows "visible_page (case visible_version rid m cur (kept cutoff g) of
           None \<Rightarrow> Inl kNotFound | Some e \<Rightarrow> Inr (ie_offset e)) =
         visible_page (case visible_version rid m cur g of
           None \<Rightarrow> Inl kNotFound | Some e \<Rightarrow> Inr (ie_offset e))"
proof -
  define pre where "pre = takeWhile (\<lambda>e. \<not> ie_ts e \<le> cutoff) g"
  define post where "post = dropWhile (\<lambda>e. \<not> ie_ts e \<le> cutoff) g"
  have g: "g = pre @ post" by (simp add: pre_def post_def)
  have kept: "kept cutoff g = (case post of [] \<Rightarrow> g
      | e # _ \<Rightarrow> if ie_offset e = kNotFoundOff then [] else pre @ [e])"
  proof -
    have "kept cutoff g = (if length pre = length g then g
        else if ie_offset (g ! length pre) = kNotFoundOff then [] else take (Suc (length pre)) g)"
      by (simp add: kept_def Let_def pre_def)
    then show ?thesis by (cases post) (simp_all add: g)
  qed
  show ?thesis
  proof (cases post)
    case Nil
    then show ?thesis by (simp add: kept)
  next
    case (Cons e es)
    have "\<not> \<not> ie_ts (hd post) \<le> cutoff"
      unfolding post_def by (rule hd_dropWhile) (use Cons in \<open>simp add: post_def\<close>)
    then have e: "e \<in> set g" "ie_ts e \<le> cutoff" "ie_row_id e = rid"
      using Cons row by (simp_all add: g)
    then have com: "committed_version rid m e" using c by (auto simp: committed_version_def)
    show ?thesis
    proof (cases "ie_offset e = kNotFoundOff")
      case False
      have older: "\<forall>x \<in> set es. ie_ts x < ie_ts e"
        using ord False by (auto simp: g Cons sorted_wrt_append in_order_def)
      have "kept cutoff g = pre @ [e]" "g = pre @ e # es"
        using False kept Cons by (simp, simp add: g)
      with visible_version_older [OF com older, of cur pre] show ?thesis by simp
    next
      case True
      have dead: "ie_offset x = kNotFoundOff" if x: "x \<in> set g" "\<not> ie_ts x < ie_ts e" for x
      proof (cases "ie_ts e < ie_ts x")
        case newer: True
        show ?thesis by (rule final [rule_format, OF e(1) x(1)]) (use True e(2) newer in simp)
      next
        case False
        with x(2) have "\<not> in_order e x \<longrightarrow> ie_offset e \<noteq> kNotFoundOff \<or> ie_offset x \<noteq> kNotFoundOff"
          "ie_ts x = ie_ts e" by (auto simp: in_order_def)
        moreover have "x = e \<or> in_order x e \<or> in_order e x"
          using ord x(1) by (auto simp: g Cons sorted_wrt_append)
        ultimately show ?thesis using True by (auto simp: in_order_def)
      qed
      have "ie_offset x = kNotFoundOff" if x: "visible_version rid m cur g = Some x" for x
      proof (rule dead)
        show "x \<in> set g" by (rule visible_version_some [OF x])
        have "own_version rid cur x \<or> ie_ts e \<le> ie_ts x"
          using visible_version_cases [of g rid cur m] x com e(1) by (auto split: if_splits)
        moreover have "ie_ts e < ie_ts x" if "own_version rid cur x"
          using that com by (auto simp: own_version_def committed_version_def)
        ultimately show "\<not> ie_ts x < ie_ts e" by auto
      qed
      then have "visible_page (case visible_version rid m cur g of
           None \<Rightarrow> Inl kNotFound | Some e \<Rightarrow> Inr (ie_offset e)) = None"
        by (auto simp: visible_page_def split: option.splits)
      moreover have "visible_version rid m cur [] = None" by (simp add: visible_version_def)
      ultimately show ?thesis using True by (simp add: kept Cons visible_page_def)
    qed
  qed
qed

section \<open>Serialisation\<close>

lemma get_entry_into_entry:
  "get_entry_into e0 (entry_bytes e @ rest) = (e, rest, True)"
  by (simp add: get_entry_into_def entry_bytes_def codec_simps)

lemma get_entries_into_entries:
  "length slots = length es \<Longrightarrow>
   get_entries_into slots (concat (map entry_bytes es) @ rest) = (es, rest, True)"
proof (induction es arbitrary: slots)
  case Nil
  then show ?case by simp
next
  case (Cons e es)
  then show ?case by (cases slots) (simp_all add: get_entry_into_entry)
qed

lemma length_resize_entries [simp]: "length (resize_entries n es) = n"
  by (simp add: resize_entries_def)

lemma length_entry_bytes [simp]: "length (entry_bytes e) = 26"
  by (simp add: entry_bytes_def)

lemma length_entries_bytes: "length (concat (map entry_bytes es)) = 26 * length es"
  by (induction es) simp_all

lemma get_entry_into_short: "length bs < 26 \<Longrightarrow> \<not> snd (snd (get_entry_into e bs))"
  by (auto simp: get_entry_into_def Let_def split: option.splits dest!: get_rest_length)

lemma get_entry_into_rest:
  "get_entry_into e bs = (e', r, True) \<Longrightarrow> length bs = length r + 26"
  by (auto simp: get_entry_into_def Let_def split: option.splits dest!: get_rest_length)

lemma get_entries_into_short:
  "length bs < 26 * length slots \<Longrightarrow> \<not> snd (snd (get_entries_into slots bs))"
proof (induction slots arbitrary: bs)
  case Nil
  then show ?case by simp
next
  case (Cons e es)
  obtain e' r ok where step: "get_entry_into e bs = (e', r, ok)" by (cases "get_entry_into e bs")
  show ?case
  proof (cases ok)
    case False
    with step show ?thesis by simp
  next
    case True
    with step Cons.prems have "length r < 26 * length es" by (simp add: get_entry_into_rest)
    then have "\<not> snd (snd (get_entries_into es r))" by (rule Cons.IH)
    with True step show ?thesis by (auto split: prod.splits)
  qed
qed

section \<open>Reads, commits and rollbacks\<close>

lemma visible_committed:
  "visible_version rid m kInvalidTxId es = newest_from None (filter (committed_version rid m) es)"
  by (simp add: visible_version_def)

lemma commit_search:
  assumes "vi_inv vi" "written_once (tx OR kTxIdFlag) (vi_entries vi)" "c \<noteq> tx OR kTxIdFlag"
  shows "fst (search rid m cur (commit_rows rids tx c vi)) =
    (case visible_version rid m cur
        (map (restamp (set rids) (tx OR kTxIdFlag) c) (vi_entries (ensure_sorted vi))) of
       None \<Rightarrow> Inl kNotFound | Some e \<Rightarrow> Inr (ie_offset e))"
  using assms
  by (simp add: search_eq commit_rows_inv commit_rows_clean commit_rows_entries)

text \<open>Re-stamping with a timestamp the reader cannot see leaves what it reads as it was.\<close>

lemma filter_map_same:
  "(\<And>e. e \<in> set es \<Longrightarrow> p (f e) \<longleftrightarrow> p e) \<Longrightarrow> (\<And>e. e \<in> set es \<Longrightarrow> p e \<Longrightarrow> f e = e) \<Longrightarrow>
   filter p (map f es) = filter p es"
  by (induction es) auto

lemma restamp_unseen:
  assumes tx: "tx < kTxIdFlag" "cur \<noteq> tx"
    and unseen: "\<not> (c < kTxIdFlag \<and> c \<le> m)" "\<not> (\<not> c < kTxIdFlag \<and> c AND NOT kTxIdFlag = cur)"
  shows "visible_version rid m cur (map (restamp R (tx OR kTxIdFlag) c) es) = visible_version rid m cur es"
proof -
  have "filter (own_version rid cur) (map (restamp R (tx OR kTxIdFlag) c) es) = filter (own_version rid cur) es"
    using tx unseen by (intro filter_map_same) (auto simp: own_version_def restamp_def flag_strip flag_or split: if_splits)
  moreover have "filter (committed_version rid m) (map (restamp R (tx OR kTxIdFlag) c) es)
      = filter (committed_version rid m) es"
    using unseen by (intro filter_map_same) (auto simp: committed_version_def restamp_def flag_or split: if_splits)
  ultimately show ?thesis by (simp add: visible_version_def cong: list.case_cong)
qed

section \<open>Properties\<close>

text \<open>
  C17: a search finds what the reader may see of a row. If the transaction of the reader has
  written the row itself, it returns the offset of a version that transaction wrote; otherwise (and
  always outside a transaction, with \<open>kInvalidTxId\<close>) that of a committed version no newer than
  the reader's timestamp and at least as new as every other such version. It reports \<open>kNotFound\<close>
  exactly when the row has neither.
\<close>

theorem search_returns_newest_committed:
  assumes "vi_inv vi"
  shows "case fst (search rid m cur vi) of
      Inl code \<Rightarrow> code = kNotFound \<and>
        (\<forall>e \<in> set (vi_entries vi). \<not> own_version rid cur e \<and> \<not> committed_version rid m e)
    | Inr off \<Rightarrow> \<exists>e \<in> set (vi_entries vi). ie_offset e = off \<and>
        (if \<exists>e' \<in> set (vi_entries vi). own_version rid cur e' then own_version rid cur e
         else committed_version rid m e \<and>
           (\<forall>e' \<in> set (vi_entries vi). committed_version rid m e' \<longrightarrow> ie_ts e' \<le> ie_ts e))"
proof (cases "visible_version rid m cur (vi_entries (ensure_sorted vi))")
  case None
  with visible_version_cases [of "vi_entries (ensure_sorted vi)" rid cur m] show ?thesis
    by (simp add: search_eq [OF assms])
next
  case (Some e)
  with visible_version_cases [of "vi_entries (ensure_sorted vi)" rid cur m] show ?thesis
    by (simp add: search_eq [OF assms]) (rule bexI [of _ e]; simp)
qed

theorem search_returns_newest_committed_witness:
  "\<exists>e \<in> {\<lparr>ie_row_id = 7, ie_ts = 3, ie_offset = 100, ie_row_size = 0\<rparr>,
          \<lparr>ie_row_id = 7, ie_ts = 5, ie_offset = 200, ie_row_size = 0\<rparr>}.
     fst (search 7 9 kInvalidTxId (insert_bulk
       [\<lparr>ie_row_id = 7, ie_ts = 3, ie_offset = 100, ie_row_size = 0\<rparr>,
        \<lparr>ie_row_id = 7, ie_ts = 5, ie_offset = 200, ie_row_size = 0\<rparr>] vi_init)) = Inr (ie_offset e)
     \<and> ie_ts e = 5"
proof -
  let ?vi = "insert_bulk
       [\<lparr>ie_row_id = 7, ie_ts = 3, ie_offset = 100, ie_row_size = 0\<rparr>,
        \<lparr>ie_row_id = 7, ie_ts = 5, ie_offset = 200, ie_row_size = 0\<rparr>] vi_init"
  have "vi_inv ?vi" by (rule insert_bulk_inv)
  from search_returns_newest_committed [OF this, of 7 kInvalidTxId 9] show ?thesis
    by (auto simp: insert_bulk_def vi_init_def committed_version_def own_version_def
        kTxIdFlag_value kInvalidTxId_def split: sum.splits if_splits)
qed

text \<open>
  snapshot isolation of a commit. A reader whose timestamp is older than the commit
  timestamp gets, for every row, exactly what it got before the commit.
\<close>

theorem commit_invisible_to_older_snapshots:
  assumes "vi_inv vi" "written_once (tx OR kTxIdFlag) (vi_entries vi)"
    and "tx < kTxIdFlag" "cur \<noteq> tx" "commit_ts < kTxIdFlag" "m < commit_ts"
  shows "fst (search rid m cur (commit_rows rids tx commit_ts vi)) = fst (search rid m cur vi)"
proof -
  have "commit_ts \<noteq> tx OR kTxIdFlag" using assms(5) flag_or [of tx] by auto
  then show ?thesis
    using assms restamp_unseen [of tx cur commit_ts m]
    by (simp add: commit_search search_eq)
qed

theorem commit_invisible_to_older_snapshots_witness:
  "fst (search 7 4 kInvalidTxId (commit_rows [7] 1 5 (insert_bulk
     [\<lparr>ie_row_id = 7, ie_ts = 1 OR kTxIdFlag, ie_offset = 100, ie_row_size = 0\<rparr>] vi_init))) =
   fst (search 7 4 kInvalidTxId (insert_bulk
     [\<lparr>ie_row_id = 7, ie_ts = 1 OR kTxIdFlag, ie_offset = 100, ie_row_size = 0\<rparr>] vi_init))"
  by (rule commit_invisible_to_older_snapshots)
    (simp_all add: vi_inv_def insert_bulk_def vi_init_def written_once_def kTxIdFlag_value
      kInvalidTxId_def word_less_nat_alt)

text \<open>
  a commit publishes what the transaction wrote. A reader at or after the commit timestamp
  finds the version the transaction wrote for a committed row, when the commit timestamp is
  newer than every committed version of that row.
\<close>

theorem commit_visible_to_newer_snapshots:
  assumes "vi_inv vi" "written_once (tx OR kTxIdFlag) (vi_entries vi)" "commit_ts < kTxIdFlag"
    and "e \<in> set (vi_entries vi)" "ie_row_id e = rid" "ie_ts e = tx OR kTxIdFlag" "rid \<in> set rids"
    and "\<forall>e' \<in> set (vi_entries vi). ie_row_id e' = rid \<and> ie_ts e' < kTxIdFlag \<longrightarrow> ie_ts e' < commit_ts"
    and "commit_ts \<le> m"
  shows "fst (search rid m kInvalidTxId (commit_rows rids tx commit_ts vi)) = Inr (ie_offset e)"
proof -
  let ?t = "tx OR kTxIdFlag"
  let ?f = "restamp (set rids) ?t commit_ts"
  let ?es = "vi_entries (ensure_sorted vi)"
  have ne: "commit_ts \<noteq> ?t" using assms(3) flag_or [of tx] by auto
  have fe: "?f e \<in> set (filter (committed_version rid m) (map ?f ?es))"
    using assms by (auto simp: restamp_def committed_version_def)
  then have "filter (committed_version rid m) (map ?f ?es) \<noteq> []"
    by (metis empty_iff list.set(1))
  then obtain x where x: "newest_from None (filter (committed_version rid m) (map ?f ?es)) = Some x"
    by (metis newest_from_None_iff not_None_eq)
  note nx = newest_None_Some [OF x]
  from nx obtain y where y: "y \<in> set (vi_entries vi)" "x = ?f y" "committed_version rid m (?f y)"
    by auto
  have "commit_ts \<le> ie_ts x" using nx fe assms(5-7) by (auto simp: restamp_def)
  then have "ie_row_id y = rid \<and> ie_ts y = ?t"
    using y assms(8) by (auto simp: restamp_def committed_version_def split: if_splits)
  moreover have "\<forall>a \<in> set (filter (\<lambda>e. ie_ts e = ?t) (vi_entries vi)).
      \<forall>b \<in> set (filter (\<lambda>e. ie_ts e = ?t) (vi_entries vi)). ie_row_id a = ie_row_id b \<longrightarrow> a = b"
    using assms(2) unfolding written_once_def distinct_map inj_on_def by blast
  ultimately have "y = e" using y assms(4-6) by auto
  then have "ie_offset x = ie_offset e" using y by (simp add: restamp_def)
  with x ne assms show ?thesis
    by (simp add: commit_search visible_committed)
qed

theorem commit_visible_to_newer_snapshots_witness:
  "fst (search 7 5 kInvalidTxId (commit_rows [7] 1 5 (insert_bulk
     [\<lparr>ie_row_id = 7, ie_ts = 1 OR kTxIdFlag, ie_offset = 100, ie_row_size = 0\<rparr>] vi_init))) = Inr 100"
proof -
  let ?e = "\<lparr>ie_row_id = 7, ie_ts = 1 OR kTxIdFlag, ie_offset = 100, ie_row_size = 0\<rparr>"
  have "fst (search 7 5 kInvalidTxId (commit_rows [7] 1 5 (insert_bulk [?e] vi_init))) = Inr (ie_offset ?e)"
    by (rule commit_visible_to_newer_snapshots)
      (simp_all add: vi_inv_def insert_bulk_def vi_init_def written_once_def kTxIdFlag_value
        word_less_nat_alt)
  then show ?thesis by simp
qed

text \<open>
  a rollback stamps the transaction's versions with the largest timestamp; to every other
  reader, at any timestamp, the rows read as they did before, so nothing the transaction wrote
  ever becomes visible.
\<close>

theorem rollback_invisible:
  assumes "vi_inv vi" "written_once (tx OR kTxIdFlag) (vi_entries vi)"
    and "tx < kTxIdFlag - 1" "cur \<noteq> tx" "cur \<noteq> -1 AND NOT kTxIdFlag"
  shows "fst (search rid m cur (commit_rows rids tx (-1) vi)) = fst (search rid m cur vi)"
proof -
  have tx: "tx < kTxIdFlag" using assms(3) by (simp add: kTxIdFlag_value word_less_nat_alt)
  have big: "\<not> (-1 :: u64) < kTxIdFlag" by (simp add: kTxIdFlag_value)
  have "(-1 :: u64) \<noteq> tx OR kTxIdFlag"
  proof
    assume "(-1 :: u64) = tx OR kTxIdFlag"
    then have "tx = -1 AND NOT kTxIdFlag" using tx by (metis flag_strip)
    with assms(3) show False by (simp add: kTxIdFlag_value)
  qed
  with assms tx big show ?thesis
    using restamp_unseen [of tx cur "-1" m]
    by (simp add: commit_search search_eq)
qed

theorem rollback_invisible_witness:
  "fst (search 7 9 kInvalidTxId (commit_rows [7] 1 (-1) (insert_bulk
     [\<lparr>ie_row_id = 7, ie_ts = 1 OR kTxIdFlag, ie_offset = 100, ie_row_size = 0\<rparr>] vi_init))) =
   fst (search 7 9 kInvalidTxId (insert_bulk
     [\<lparr>ie_row_id = 7, ie_ts = 1 OR kTxIdFlag, ie_offset = 100, ie_row_size = 0\<rparr>] vi_init))"
  by (rule rollback_invisible)
    (simp_all add: vi_inv_def insert_bulk_def vi_init_def written_once_def kTxIdFlag_value
      kInvalidTxId_def word_less_nat_alt)

text \<open>
  An index that is sorted next (any insertion makes it so) has its versions in order, if no row has
  two versions with one timestamp of which one is a page.
\<close>

lemma sorted_versions_ordered:
  assumes "entries_sorted es"
    and "sorted_wrt (\<lambda>a b. ie_row_id a = ie_row_id b \<and> ie_ts a = ie_ts b \<longrightarrow> in_order a b) es"
  shows "versions_ordered es"
  using assms unfolding versions_ordered_def
  by (induction es) (auto simp: entry_lt_def in_order_def)

text \<open>
  C18: garbage collection keeps every snapshot at or above its cutoff. For any row and reader,
  the page read after \<open>prune\<close> is the page read before it, provided that the index has its
  versions in order (as sorting leaves them, and only tombstones of a row with equal timestamps),
  and that a row deleted by the cutoff got no page later. The order is a real condition: see
  \<open>pruned_row_reappears\<close> below.
\<close>

theorem prune_preserves_reads:
  assumes "vi_inv vi" "versions_ordered (vi_entries (ensure_sorted vi))"
    and "\<forall>e \<in> set (vi_entries vi). \<forall>e' \<in> set (vi_entries vi).
       ie_row_id e' = ie_row_id e \<and> ie_offset e = kNotFoundOff \<and> ie_ts e \<le> cutoff \<and> ie_ts e < ie_ts e'
       \<longrightarrow> ie_offset e' = kNotFoundOff"
    and "cutoff \<le> m" "cutoff < kTxIdFlag"
  shows "visible_page (fst (search rid m cur (snd (prune cutoff vi)))) =
         visible_page (fst (search rid m cur vi))"
proof -
  let ?es = "vi_entries (ensure_sorted vi)"
  let ?g = "filter (\<lambda>e. ie_row_id e = rid) ?es"
  have rs: "rows_sorted ?es" using ensure_sorted_inv [OF assms(1)] by simp
  have clean: "ensure_sorted (snd (prune cutoff vi)) = snd (prune cutoff vi)"
    using ensure_sorted_inv [OF assms(1)] by (simp add: ensure_sorted_clean prune_entries)
  have pruned: "fst (search rid m cur (snd (prune cutoff vi))) =
      (case visible_version rid m cur (kept cutoff ?g) of
         None \<Rightarrow> Inl kNotFound | Some e \<Rightarrow> Inr (ie_offset e))"
    using search_eq [OF prune_inv [OF assms(1)], of rid m cur]
      visible_version_row [of rid m cur "prune_groups cutoff ?es"]
      filter_row_prune_groups [OF rs, of rid cutoff]
    by (simp add: clean prune_entries)
  have "visible_page (case visible_version rid m cur (kept cutoff ?g) of
           None \<Rightarrow> Inl kNotFound | Some e \<Rightarrow> Inr (ie_offset e)) =
         visible_page (case visible_version rid m cur ?g of
           None \<Rightarrow> Inl kNotFound | Some e \<Rightarrow> Inr (ie_offset e))"
    by (rule kept_visible_page [OF row_in_order [OF assms(2)]]) (use assms(3-5) in auto)
  then show ?thesis
    by (simp add: pruned search_eq [OF assms(1)] visible_version_row)
qed

theorem prune_preserves_reads_witness:
  "visible_page (fst (search 7 9 kInvalidTxId (snd (prune 6 (insert_bulk
     [\<lparr>ie_row_id = 7, ie_ts = 3, ie_offset = 100, ie_row_size = 0\<rparr>,
      \<lparr>ie_row_id = 7, ie_ts = 5, ie_offset = kNotFoundOff, ie_row_size = 0\<rparr>,
      \<lparr>ie_row_id = 7, ie_ts = 5, ie_offset = kNotFoundOff, ie_row_size = 0\<rparr>] vi_init))))) =
   visible_page (fst (search 7 9 kInvalidTxId (insert_bulk
     [\<lparr>ie_row_id = 7, ie_ts = 3, ie_offset = 100, ie_row_size = 0\<rparr>,
      \<lparr>ie_row_id = 7, ie_ts = 5, ie_offset = kNotFoundOff, ie_row_size = 0\<rparr>,
      \<lparr>ie_row_id = 7, ie_ts = 5, ie_offset = kNotFoundOff, ie_row_size = 0\<rparr>] vi_init)))"
  by (rule prune_preserves_reads)
    (simp_all add: insert_bulk_def vi_init_def vi_inv_def ensure_sorted_def std_sort_def entry_lt_def
      versions_ordered_def in_order_def kNotFoundOff_def kTxIdFlag_value)

text \<open>
  A row that one transaction inserted and deleted has two versions with its commit timestamp.
  A search takes the last of them, pruning keeps the first: the deleted row can come back.
\<close>

lemma pruned_row_reappears:
  fixes vi :: VersionIndex
  defines "vi \<equiv> insert_bulk [\<lparr>ie_row_id = 7, ie_ts = 5, ie_offset = 100, ie_row_size = 0\<rparr>,
      \<lparr>ie_row_id = 7, ie_ts = 5, ie_offset = kNotFoundOff, ie_row_size = 0\<rparr>] vi_init"
  shows "visible_page (fst (search 7 9 kInvalidTxId vi)) = None \<and>
    visible_page (fst (search 7 9 kInvalidTxId (snd (prune 6 vi)))) = Some 100"
  unfolding assms by code_simp

lemma serialize_deserialize:
  assumes "length (vi_entries vi) \<le> kMaxEntries"
  shows "vi_deserialize (fst (vi_serialize vi)) vi0 =
    Some (Inr (length (fst (vi_serialize vi))),
      vi0\<lparr>vi_entries := vi_entries (ensure_sorted vi), vi_dirty := False\<rparr>)"
proof -
  let ?es = "vi_entries (ensure_sorted vi)"
  have len: "length ?es = length (vi_entries vi)"
    by (metis ensure_sorted_mset size_mset)
  have n: "unat (word_of_nat (length ?es) :: u64) = length ?es"
    using assms len by (simp add: unat_word_of_nat64 kMaxEntries_def)
  show ?thesis
    using assms len n get_entries_into_entries [of "resize_entries (length ?es) (vi_entries vi0)" ?es "[]"]
    by (simp add: vi_serialize_def vi_deserialize_def Let_def codec_simps)
qed

text \<open>
  C33: saving and loading the index. Reading back what \<open>serialize\<close> wrote, into any index, gives
  the sorted entries and reports every byte as consumed.
\<close>

theorem serialize_roundtrip:
  assumes "length (vi_entries vi) \<le> kMaxEntries"
  shows "vi_deserialize (fst (vi_serialize vi)) vi0 =
    Some (Inr (length (fst (vi_serialize vi))),
      vi0\<lparr>vi_entries := vi_entries (ensure_sorted vi), vi_dirty := False\<rparr>)"
  by (rule serialize_deserialize [OF assms])

theorem serialize_roundtrip_witness:
  "vi_deserialize (fst (vi_serialize (insert_bulk
     [\<lparr>ie_row_id = 7, ie_ts = 3, ie_offset = 100, ie_row_size = 0\<rparr>] vi_init))) vi_init =
   Some (Inr (length (fst (vi_serialize (insert_bulk
     [\<lparr>ie_row_id = 7, ie_ts = 3, ie_offset = 100, ie_row_size = 0\<rparr>] vi_init)))),
     vi_init\<lparr>vi_entries := vi_entries (ensure_sorted (insert_bulk
     [\<lparr>ie_row_id = 7, ie_ts = 3, ie_offset = 100, ie_row_size = 0\<rparr>] vi_init)), vi_dirty := False\<rparr>)"
  by (rule serialize_roundtrip) (simp add: insert_bulk_def vi_init_def kMaxEntries_def)

text \<open>
  a truncated index file is refused. Every proper prefix of a serialised index that is
  loaded gives \<open>kCorruptedData\<close>.
\<close>

theorem truncated_index_refused:
  assumes "length (vi_entries vi) \<le> kMaxEntries" "n < length (fst (vi_serialize vi))"
  shows "map_option fst (vi_deserialize (take n (fst (vi_serialize vi))) vi0) = Some (Inl kCorruptedData)"
proof -
  let ?es = "vi_entries (ensure_sorted vi)"
  let ?n = "word_of_nat (length ?es) :: u64"
  have len: "length ?es = length (vi_entries vi)"
    by (metis ensure_sorted_mset size_mset)
  have nn: "unat ?n = length ?es"
    using assms len by (simp add: unat_word_of_nat64 kMaxEntries_def)
  have bytes: "fst (vi_serialize vi) =
      put_u32 kVindexMagic @ put_u32 1 @ put_u64 ?n @ concat (map entry_bytes ?es)"
    by (simp add: vi_serialize_def Let_def)
  have n: "n < 16 + 26 * length ?es"
    using assms(2) by (simp add: bytes length_entries_bytes)
  consider "n < 4" | "4 \<le> n" "n < 8" | "8 \<le> n" "n < 16" | "16 \<le> n" by linarith
  then show ?thesis
  proof cases
    case 1
    then show ?thesis by (simp add: vi_deserialize_def bytes get_short)
  next
    case 2
    then show ?thesis by (simp add: vi_deserialize_def bytes codec_simps get_short)
  next
    case 3
    then show ?thesis by (simp add: vi_deserialize_def bytes codec_simps get_short)
  next
    case 4
    have "\<not> snd (snd (get_entries_into (resize_entries (length ?es) (vi_entries vi0))
        (take (n - 16) (concat (map entry_bytes ?es)))))"
      by (rule get_entries_into_short) (use n 4 in simp)
    with 4 nn assms(1) len show ?thesis
      by (auto simp: vi_deserialize_def bytes codec_simps split: prod.splits)
  qed
qed

theorem truncated_index_refused_witness:
  "map_option fst (vi_deserialize (take 20 (fst (vi_serialize (insert_bulk
     [\<lparr>ie_row_id = 7, ie_ts = 3, ie_offset = 100, ie_row_size = 0\<rparr>] vi_init)))) vi_init)
   = Some (Inl kCorruptedData)"
  by (rule truncated_index_refused)
    (simp_all add: insert_bulk_def vi_init_def kMaxEntries_def vi_serialize_def ensure_sorted_def Let_def
      std_sort_def)

end
