(* ===== verification/Cstring.thy ===== *)
theory Cstring
  imports Prelude "HOL-Library.Char_ord"
begin

text \<open>
  The string routines of the C++ library that the sources call: the ordering of
  \<open>std::string\<close> (\<open>char_traits<char>\<close> compares characters as unsigned bytes), the
  character classes of \<open><cctype>\<close> in the \<open>C\<close> locale, zero-padded decimal output
  (\<open>snprintf\<close> with \<open>%0Nllu\<close>), \<open>std::stoull\<close> with its exceptions, and the
  \<open>stem\<close>/\<open>extension\<close> decomposition of \<open>std::filesystem::path\<close>.
\<close>

section \<open>Characters and bytes\<close>

definition char_byte :: "char \<Rightarrow> byte" where "char_byte c = word_of_nat (of_char c)"
definition byte_char :: "byte \<Rightarrow> char" where "byte_char b = char_of (unat b)"

definition string_bytes :: "string \<Rightarrow> byte list" where "string_bytes s = map char_byte s"
definition bytes_string :: "byte list \<Rightarrow> string" where "bytes_string bs = map byte_char bs"

lemma byte_char_byte [simp]: "byte_char (char_byte c) = c"
proof -
  have "(of_char c :: nat) < 256" by simp
  then show ?thesis by (simp add: byte_char_def char_byte_def unat_of_nat take_bit_nat_eq_self)
qed

lemma char_byte_char [simp]: "char_byte (byte_char b) = b"
proof -
  have "unat b < 256" using unsigned_less [of b, where 'a=nat] by simp
  then have "(of_char (char_of (unat b) :: char) :: nat) = unat b"
    by (simp add: of_char_of)
  then show ?thesis by (simp add: byte_char_def char_byte_def)
qed

lemma bytes_string_bytes [simp]: "bytes_string (string_bytes s) = s"
  by (simp add: bytes_string_def string_bytes_def comp_def map_idI)

lemma string_bytes_string [simp]: "string_bytes (bytes_string bs) = bs"
  by (simp add: bytes_string_def string_bytes_def comp_def map_idI)

lemma length_string_bytes [simp]: "length (string_bytes s) = length s"
  by (simp add: string_bytes_def)

definition is_space :: "char \<Rightarrow> bool" where
  "is_space c \<longleftrightarrow> of_char c = (32 :: nat) \<or> (9 \<le> (of_char c :: nat) \<and> (of_char c :: nat) \<le> 13)"

definition is_digit :: "char \<Rightarrow> bool" where
  "is_digit c \<longleftrightarrow> 48 \<le> (of_char c :: nat) \<and> (of_char c :: nat) \<le> 57"

definition is_upper :: "char \<Rightarrow> bool" where
  "is_upper c \<longleftrightarrow> 65 \<le> (of_char c :: nat) \<and> (of_char c :: nat) \<le> 90"

definition is_lower :: "char \<Rightarrow> bool" where
  "is_lower c \<longleftrightarrow> 97 \<le> (of_char c :: nat) \<and> (of_char c :: nat) \<le> 122"

definition is_alpha :: "char \<Rightarrow> bool" where "is_alpha c \<longleftrightarrow> is_upper c \<or> is_lower c"
definition is_alnum :: "char \<Rightarrow> bool" where "is_alnum c \<longleftrightarrow> is_alpha c \<or> is_digit c"

definition to_lower :: "char \<Rightarrow> char" where
  "to_lower c = (if is_upper c then char_of ((of_char c :: nat) + 32) else c)"

section \<open>The order of \<open>std::string\<close>\<close>

fun str_less :: "string \<Rightarrow> string \<Rightarrow> bool" where
  "str_less [] [] = False"
| "str_less [] (y # ys) = True"
| "str_less (x # xs) [] = False"
| "str_less (x # xs) (y # ys) =
     ((of_char x :: nat) < of_char y \<or> x = y \<and> str_less xs ys)"

lemma of_char_total: "\<not> (of_char x :: nat) < of_char y \<Longrightarrow> \<not> (of_char y :: nat) < of_char x \<Longrightarrow> x = y"
  by (metis of_char_eq_iff linorder_neqE)

lemma str_less_irrefl [simp]: "\<not> str_less s s"
  by (induction s) auto

lemma str_less_asym: "str_less s t \<Longrightarrow> \<not> str_less t s"
  by (induction s t rule: str_less.induct) auto

lemma str_less_total: "\<not> str_less s t \<Longrightarrow> \<not> str_less t s \<Longrightarrow> s = t"
proof (induction s t rule: str_less.induct)
  case (4 x xs y ys)
  then have "x = y" using of_char_total [of x y] by auto
  with 4 show ?case by auto
qed auto

lemma str_less_trans: "str_less s t \<Longrightarrow> str_less t u \<Longrightarrow> str_less s u"
proof (induction s t arbitrary: u rule: str_less.induct)
  case (2 y ys)
  then show ?case by (cases u) auto
next
  case (4 x xs y ys)
  then show ?case by (cases u) auto
qed auto

interpretation strs: weak_order str_less
proof
  fix x y z
  show "str_less x y \<Longrightarrow> \<not> str_less y x" by (rule str_less_asym)
  show "\<not> str_less y x \<Longrightarrow> \<not> str_less z y \<Longrightarrow> \<not> str_less z x"
    by (metis str_less_total str_less_trans)
qed

text \<open>A strictly ascending list of names is the only sorted arrangement of its elements.\<close>

lemma sorted_names_eq:
  "sorted_wrt (\<lambda>a b. \<not> str_less b a) xs \<Longrightarrow> sorted_wrt str_less ys \<Longrightarrow> mset xs = mset ys
   \<Longrightarrow> xs = ys"
proof (induction xs arbitrary: ys)
  case Nil
  then show ?case by simp
next
  case (Cons x xs)
  then obtain y ys' where ys: "ys = y # ys'" by (cases ys) auto
  from Cons.prems(3) have sets: "insert x (set xs) = insert y (set ys')"
    unfolding ys by (metis list.simps(15) mset_eq_setD)
  have "x = y"
  proof (rule ccontr)
    assume "x \<noteq> y"
    with sets have "x \<in> set ys'" "y \<in> set xs" by auto
    with Cons.prems(1,2) have "str_less y x" "\<not> str_less y x" by (auto simp: ys)
    then show False by simp
  qed
  with Cons show ?case by (auto simp: ys)
qed

lemma std_sort_names:
  "sorted_wrt str_less ys \<Longrightarrow> mset xs = mset ys \<Longrightarrow> std_sort str_less xs = ys"
  by (rule sorted_names_eq) (simp_all add: strs.sorted_std_sort)

lemma str_less_append_same: "length xs = length ys \<Longrightarrow>
  str_less (xs @ us) (ys @ vs) \<longleftrightarrow> str_less xs ys \<or> xs = ys \<and> str_less us vs"
  by (induction xs ys rule: list_induct2) auto

section \<open>Decimal numbers\<close>

definition digit_char :: "nat \<Rightarrow> char" where "digit_char d = char_of (48 + d)"
definition char_digit :: "char \<Rightarrow> nat" where "char_digit c = of_char c - 48"

lemma of_digit_char: "d < 10 \<Longrightarrow> of_char (digit_char d) = 48 + d"
  by (simp add: digit_char_def of_char_of)

lemma char_digit_char [simp]: "d < 10 \<Longrightarrow> char_digit (digit_char d) = d"
  by (simp add: char_digit_def of_digit_char)

lemma is_digit_char [simp]: "d < 10 \<Longrightarrow> is_digit (digit_char d)"
  by (simp add: is_digit_def of_digit_char)

text \<open>\<open>%0Nllu\<close> of a number of at most \<open>N\<close> digits.\<close>

fun dec_pad :: "nat \<Rightarrow> nat \<Rightarrow> string" where
  "dec_pad 0 n = []"
| "dec_pad (Suc k) n = dec_pad k (n div 10) @ [digit_char (n mod 10)]"

text \<open>\<open>std::to_string\<close> of an unsigned number.\<close>

fun dec :: "nat \<Rightarrow> string" where
  "dec n = (if n < 10 then [digit_char n] else dec (n div 10) @ [digit_char (n mod 10)])"

declare dec.simps [simp del]

definition digits_val :: "string \<Rightarrow> nat" where
  "digits_val ds = foldl (\<lambda>v c. 10 * v + char_digit c) 0 ds"

definition digits_int :: "string \<Rightarrow> int" where
  "digits_int ds = foldl (\<lambda>v c. 10 * v + int (char_digit c)) 0 ds"

lemma digits_int_eq: "digits_int ds = int (digits_val ds)"
proof -
  have "foldl (\<lambda>v c. 10 * v + int (char_digit c)) (int v) ds =
      int (foldl (\<lambda>v c. 10 * v + char_digit c) v ds)" for v
  proof (induction ds arbitrary: v)
    case (Cons c ds)
    show ?case using Cons.IH [of "10 * v + char_digit c"] by simp
  qed simp
  from this [of 0] show ?thesis by (simp add: digits_int_def digits_val_def)
qed

lemma length_dec_pad [simp]: "length (dec_pad k n) = k"
  by (induction k arbitrary: n) auto

lemma dec_pad_digits: "\<forall>c \<in> set (dec_pad k n). is_digit c"
  by (induction k arbitrary: n) auto

lemma digits_val_snoc: "digits_val (ds @ [c]) = 10 * digits_val ds + char_digit c"
  by (simp add: digits_val_def)

lemma digits_val_dec_pad: "n < 10 ^ k \<Longrightarrow> digits_val (dec_pad k n) = n"
proof (induction k arbitrary: n)
  case 0
  then show ?case by (simp add: digits_val_def)
next
  case (Suc k)
  then have "n div 10 < 10 ^ k" by (simp add: less_mult_imp_div_less)
  with Suc.IH show ?case by (simp add: digits_val_snoc)
qed

lemma lex_div_mod:
  "b < 10 \<Longrightarrow> d < 10 \<Longrightarrow> (a < c \<or> a = c \<and> b < d) \<longleftrightarrow> 10 * a + b < 10 * c + (d :: nat)"
  by arith

lemma dec_pad_less:
  "m < 10 ^ k \<Longrightarrow> n < 10 ^ k \<Longrightarrow> str_less (dec_pad k m) (dec_pad k n) \<longleftrightarrow> m < n"
proof (induction k arbitrary: m n)
  case 0
  then show ?case by simp
next
  case (Suc k)
  have bounds: "m div 10 < 10 ^ k" "n div 10 < 10 ^ k"
    using Suc.prems by (simp_all add: less_mult_imp_div_less)
  have eq: "dec_pad k (m div 10) = dec_pad k (n div 10) \<longleftrightarrow> m div 10 = n div 10"
    using digits_val_dec_pad [OF bounds(1)] digits_val_dec_pad [OF bounds(2)] by metis
  have "str_less (dec_pad (Suc k) m) (dec_pad (Suc k) n)
    \<longleftrightarrow> m div 10 < n div 10 \<or> m div 10 = n div 10 \<and> m mod 10 < n mod 10"
    by (simp add: str_less_append_same Suc.IH [OF bounds] eq of_digit_char)
  also have "\<dots> \<longleftrightarrow> m < n"
    using lex_div_mod [of "m mod 10" "n mod 10" "m div 10" "n div 10"] by simp
  finally show ?case .
qed

text \<open>
  \<open>std::stoull\<close> in base 10: leading white space and one sign are skipped, the longest run of
  digits is converted, a negative number is negated modulo \<open>2^64\<close>; \<open>None\<close> is an exception
  (\<open>invalid_argument\<close> without digits, \<open>out_of_range\<close> from \<open>2^64\<close> on).
\<close>

definition stoull :: "string \<Rightarrow> u64 option" where
  "stoull s =
     (let r = dropWhile is_space s;
          neg = (case r of [] \<Rightarrow> False | c # _ \<Rightarrow> c = CHR ''-'');
          r' = (case r of [] \<Rightarrow> [] | c # t \<Rightarrow> if c = CHR ''-'' \<or> c = CHR ''+'' then t else r);
          ds = takeWhile is_digit r';
          v = digits_int ds
      in if ds = [] then None
         else if 2 ^ 64 \<le> v then None
         else Some (if neg then - word_of_int v else word_of_int v))"

lemma is_digit_not: "is_digit c \<Longrightarrow> \<not> is_space c \<and> c \<noteq> CHR ''-'' \<and> c \<noteq> CHR ''+''"
  by (auto simp: is_digit_def is_space_def)

lemma stoull_digits:
  assumes "ds \<noteq> []" "\<forall>c \<in> set ds. is_digit c" "digits_val ds < 2 ^ 64"
    "r = [] \<or> \<not> is_digit (hd r)"
  shows "stoull (ds @ r) = Some (word_of_nat (digits_val ds))"
proof -
  obtain c t where ds: "ds = c # t" using assms(1) by (cases ds) auto
  with assms(2) have c: "\<not> is_space c" "c \<noteq> CHR ''-''" "c \<noteq> CHR ''+''"
    using is_digit_not by auto
  have "takeWhile is_digit (ds @ r) = ds"
    using assms(2,4) by (cases r) (auto simp: takeWhile_append2)
  moreover have "int (digits_val ds) < 2 ^ 64" using assms(3) by simp
  ultimately show ?thesis using c by (simp add: stoull_def ds Let_def digits_int_eq not_le)
qed

lemma dec_digits: "list_all is_digit (dec n) \<and> dec n \<noteq> []"
proof (induction n rule: dec.induct)
  case (1 n)
  then show ?case by (subst dec.simps, subst (2) dec.simps) auto
qed

lemma digits_val_dec: "digits_val (dec n) = n"
proof (induction n rule: dec.induct)
  case (1 n)
  show ?case
  proof (cases "n < 10")
    case True
    then show ?thesis by (subst dec.simps) (simp add: digits_val_def)
  next
    case False
    then show ?thesis using "1.IH" by (subst dec.simps) (simp add: digits_val_snoc)
  qed
qed

lemma stoull_dec:
  assumes "LENGTH('a::len) \<le> 64"
  shows "stoull (dec (unat (n :: 'a word))) = Some (ucast n)"
proof -
  have "unat n < 2 ^ LENGTH('a)" by (rule unsigned_less)
  also have "\<dots> \<le> 2 ^ 64" using assms by (intro power_increasing) auto
  finally have "digits_val (dec (unat n)) < 2 ^ 64" by (simp add: digits_val_dec)
  then show ?thesis
    using stoull_digits [of "dec (unat n)" "[]"] dec_digits [of "unat n"]
    by (simp add: digits_val_dec list_all_iff)
qed

section \<open>File names\<close>

text \<open>
  \<open>path::extension\<close> and \<open>path::stem\<close> of a file name: split at the last period, unless that
  period is the first character (or the name has none).
\<close>

definition file_ext_len :: "string \<Rightarrow> nat" where
  "file_ext_len s =
     (let after = takeWhile (\<lambda>c. c \<noteq> CHR ''.'') (rev s)
      in if length after + 1 < length s then length after + 1 else 0)"

definition path_extension :: "string \<Rightarrow> string" where
  "path_extension s = drop (length s - file_ext_len s) s"

definition path_stem :: "string \<Rightarrow> string" where
  "path_stem s = take (length s - file_ext_len s) s"

lemma file_ext_len_append:
  assumes "s \<noteq> []" "CHR ''.'' \<notin> set e"
  shows "file_ext_len (s @ CHR ''.'' # e) = length e + 1"
proof -
  have "takeWhile (\<lambda>c. c \<noteq> CHR ''.'') (rev (s @ CHR ''.'' # e)) = rev e"
    using assms(2) by (subst rev_append) (auto simp: takeWhile_append)
  with assms(1) show ?thesis by (simp add: file_ext_len_def)
qed

lemma path_extension_append:
  "s \<noteq> [] \<Longrightarrow> CHR ''.'' \<notin> set e \<Longrightarrow> path_extension (s @ CHR ''.'' # e) = CHR ''.'' # e"
  by (simp add: path_extension_def file_ext_len_append)

lemma path_stem_append:
  "s \<noteq> [] \<Longrightarrow> CHR ''.'' \<notin> set e \<Longrightarrow> path_stem (s @ CHR ''.'' # e) = s"
  by (simp add: path_stem_def file_ext_len_append)

end
