(* ===== verification/Wal.thy ===== *)
theory Wal
  imports Page Cstring
begin

text \<open>
  The write-ahead log of \<open>src/src/recovery/wal.hpp\<close> and \<open>wal.cpp\<close>: the 48-byte record
  header as it lies in memory (with its padding bytes), the segment files of the \<open>wal\<close>
  directory, the writer with segment rotation and removal, and the reader.

  A directory is the list of its regular files, each with a name and its bytes. What the
  operating system decides is an argument (\<open>WalEnv\<close>): the clock, the indeterminate padding
  bytes of the header, whether a file opens, after how many bytes a write fails, whether a
  flush succeeds. \<open>None\<close> as the result of an open is an exception of \<open>std::stoull\<close>.
\<close>

section \<open>Records (\<open>wal.hpp\<close>)\<close>

datatype WalRecordType = WalBegin | WalCommit | WalRollback | WalInsert | WalDelete
  | WalInsertBatch | WalFullPageImage

fun wal_type_tag :: "WalRecordType \<Rightarrow> byte" where
  "wal_type_tag WalBegin = 1"
| "wal_type_tag WalCommit = 2"
| "wal_type_tag WalRollback = 3"
| "wal_type_tag WalInsert = 4"
| "wal_type_tag WalDelete = 5"
| "wal_type_tag WalInsertBatch = 6"
| "wal_type_tag WalFullPageImage = 7"

definition kWalMagic :: u32 where "kWalMagic = 0x57414C52"

text \<open>A header read back may hold any byte in the field of the record type.\<close>

record WalRecordHeader =
  wh_magic :: u32
  wh_lsn :: Lsn
  wh_tx_id :: TxId
  wh_type :: byte
  wh_payload_size :: u32
  wh_checksum :: u32
  wh_time :: u64

record WalRecord =
  rec_header :: WalRecordHeader
  rec_payload :: "byte list"

definition wal_header_bytes :: "(nat \<Rightarrow> byte) \<Rightarrow> WalRecordHeader \<Rightarrow> byte list" where
  "wal_header_bytes pad h =
     put_u32 (wh_magic h) @ [pad 4, pad 5, pad 6, pad 7] @ put_u64 (wh_lsn h) @
     put_u64 (wh_tx_id h) @ [wh_type h] @ [pad 25, pad 26, pad 27] @
     put_u32 (wh_payload_size h) @ put_u32 (wh_checksum h) @
     [pad 36, pad 37, pad 38, pad 39] @ put_u64 (wh_time h)"

definition wal_header_of_bytes :: "byte list \<Rightarrow> (WalRecordHeader \<times> byte list) option" where
  "wal_header_of_bytes bs =
     Option.bind (get_u32 bs) (\<lambda>(m, r).
     Option.bind (get_bytes 4 r) (\<lambda>(_, r).
     Option.bind (get_u64 r) (\<lambda>(l, r).
     Option.bind (get_u64 r) (\<lambda>(x, r).
     Option.bind (get_u8 r) (\<lambda>(t, r).
     Option.bind (get_bytes 3 r) (\<lambda>(_, r).
     Option.bind (get_u32 r) (\<lambda>(n, r).
     Option.bind (get_u32 r) (\<lambda>(c, r).
     Option.bind (get_bytes 4 r) (\<lambda>(_, r).
     Option.bind (get_u64 r) (\<lambda>(p, r).
       Some (\<lparr>wh_magic = m, wh_lsn = l, wh_tx_id = x, wh_type = t, wh_payload_size = n,
              wh_checksum = c, wh_time = p\<rparr>, r)))))))))))"

lemma get_bytes_cons3 [codec_simps]: "get_bytes 3 (a # b # c # r) = Some ([a, b, c], r)"
  by (simp add: get_bytes_def numeral_3_eq_3)

lemma get_bytes_cons4 [codec_simps]: "get_bytes 4 (a # b # c # d # r) = Some ([a, b, c, d], r)"
  by (simp add: get_bytes_def eval_nat_numeral)

lemma get_bytes_rest_length: "get_bytes n bs = Some (v, r) \<Longrightarrow> length bs = length r + n"
  by (auto dest!: get_bytes_SomeD)

interpretation walhdr: fixed_codec "wal_header_bytes pad" wal_header_of_bytes "\<lambda>_. True" 48 for pad
proof unfold_locales
  fix h :: WalRecordHeader and rest bs r y
  show "wal_header_of_bytes (wal_header_bytes pad h @ rest) = Some (h, rest)"
    by (simp add: wal_header_of_bytes_def wal_header_bytes_def codec_simps)
  show "length (wal_header_bytes pad h) = 48"
    by (simp add: wal_header_bytes_def)
  show "wal_header_of_bytes bs = Some (y, r) \<Longrightarrow> length bs = length r + 48"
    by (auto simp: wal_header_of_bytes_def bind_eq_Some_conv
        dest!: get_rest_length get_bytes_rest_length)
  then show "length bs < 48 \<Longrightarrow> wal_header_of_bytes bs = None"
    by (cases "wal_header_of_bytes bs")
      (auto simp: wal_header_of_bytes_def bind_eq_Some_conv
        dest!: get_rest_length get_bytes_rest_length)
qed

section \<open>The segment directory\<close>

type_synonym WalDir = "(string \<times> byte list) list"

record WalEnv =
  env_now :: u64
  env_pad :: "nat \<Rightarrow> byte"
  env_open_ok :: bool
  env_fail :: "nat option"
  env_sync_ok :: bool

text \<open>Opening for append creates the file; every write goes to its end.\<close>

fun dir_append :: "string \<Rightarrow> byte list \<Rightarrow> WalDir \<Rightarrow> WalDir" where
  "dir_append n bs [] = [(n, bs)]"
| "dir_append n bs ((m, c) # d) = (if m = n then (m, c @ bs) # d else (m, c) # dir_append n bs d)"

definition dir_remove :: "string \<Rightarrow> WalDir \<Rightarrow> WalDir" where
  "dir_remove n d = filter (\<lambda>(m, c). m \<noteq> n) d"

definition file_content :: "WalDir \<Rightarrow> string \<Rightarrow> byte list" where
  "file_content d n = (case map_of d n of None \<Rightarrow> [] | Some c \<Rightarrow> c)"

definition segment_name :: "Lsn \<Rightarrow> string" where
  "segment_name l = dec_pad 20 (unat l) @ ''.log''"

definition log_segments :: "WalDir \<Rightarrow> string list" where
  "log_segments d = std_sort str_less (filter (\<lambda>n. path_extension n = ''.log'') (map fst d))"

section \<open>The writer (\<open>wal.cpp\<close>)\<close>

record WalWriter =
  ww_file :: "string option"
  ww_good :: bool
  ww_next_lsn :: Lsn
  ww_seg_start :: Lsn
  ww_seg_size :: nat

definition wal_writer_init :: WalWriter where
  "wal_writer_init =
     \<lparr>ww_file = None, ww_good = True, ww_next_lsn = 1, ww_seg_start = 1, ww_seg_size = 0\<rparr>"

text \<open>The scan of the last segment: 48 bytes at a time, skipping the payloads.\<close>

function scan_next_lsn :: "byte list \<Rightarrow> Lsn \<Rightarrow> Lsn" where
  "scan_next_lsn bs n =
     (case wal_header_of_bytes bs of None \<Rightarrow> n
      | Some (h, r) \<Rightarrow>
          scan_next_lsn (drop (unat (wh_payload_size h)) r)
            (if wh_magic h = kWalMagic \<and> n \<le> wh_lsn h then wh_lsn h + 1 else n))"
  by pat_completeness auto
termination
  by (relation "measure (\<lambda>(bs, n). length bs)") (auto dest!: walhdr.dec_rest)

declare scan_next_lsn.simps [simp del]

definition ww_open :: "WalEnv \<Rightarrow> WalWriter \<Rightarrow> WalDir \<Rightarrow> (Status_Code \<times> WalWriter \<times> WalDir) option" where
  "ww_open env w d =
     (let segs = log_segments d;
          found = (if segs = [] then Some (1, 1)
                   else map_option (\<lambda>s. (s, scan_next_lsn (file_content d (last segs)) (ww_next_lsn w)))
                          (stoull (path_stem (last segs))))
      in case found of None \<Rightarrow> None
         | Some (s, n) \<Rightarrow>
             let w1 = w\<lparr>ww_seg_start := s, ww_next_lsn := n\<rparr>; name = segment_name s
             in if env_open_ok env
                then let d1 = dir_append name [] d
                     in Some (kOk, w1\<lparr>ww_file := Some name, ww_good := True,
                                      ww_seg_size := length (file_content d1 name)\<rparr>, d1)
                else Some (kIoError, w1\<lparr>ww_file := None, ww_good := False\<rparr>, d))"

definition ww_close :: "WalWriter \<Rightarrow> WalWriter" where
  "ww_close w = w\<lparr>ww_file := None\<rparr>"

definition kMaxSegmentSize :: nat where "kMaxSegmentSize = 64 * 1024 * 1024"

definition rotate_if_needed :: "WalEnv \<Rightarrow> WalWriter \<Rightarrow> WalDir \<Rightarrow> WalWriter \<times> WalDir" where
  "rotate_if_needed env w d =
     (if ww_file w \<noteq> None \<and> kMaxSegmentSize \<le> ww_seg_size w then
        let name = segment_name (ww_next_lsn w)
        in if env_open_ok env
           then (w\<lparr>ww_seg_start := ww_next_lsn w, ww_file := Some name, ww_good := True,
                   ww_seg_size := 0\<rparr>, dir_append name [] d)
           else (w\<lparr>ww_seg_start := ww_next_lsn w, ww_file := None, ww_good := False,
                   ww_seg_size := 0\<rparr>, d)
      else (w, d))"

text \<open>
  A failed write clears the stream and seeks back, but the file is open for appending: the
  bytes that reached it stay. On a stream that is already in a failed state nothing is written, and
  \<open>tellp\<close> has returned -1, so seeking back fails again and the stream stays as it is; so does a
  stream without a file. What the stream buffers counts as in the file: a crash that loses it is an append
  that is cut off.
\<close>

definition wal_header :: "WalEnv \<Rightarrow> TxId \<Rightarrow> WalRecordType \<Rightarrow> byte list \<Rightarrow> Lsn \<Rightarrow> WalRecordHeader" where
  "wal_header env tx t payload l =
     \<lparr>wh_magic = kWalMagic, wh_lsn = l, wh_tx_id = tx, wh_type = wal_type_tag t,
      wh_payload_size = word_of_nat (length payload),
      wh_checksum = compute_page_checksum payload, wh_time = env_now env\<rparr>"

definition append_record :: "WalEnv \<Rightarrow> TxId \<Rightarrow> WalRecordType \<Rightarrow> byte list \<Rightarrow> WalWriter \<Rightarrow> WalDir
    \<Rightarrow> Lsn StatusOr \<times> WalWriter \<times> WalDir" where
  "append_record env tx t payload w d =
     (let (w1, d1) = rotate_if_needed env w d;
          bytes = wal_header_bytes (env_pad env) (wal_header env tx t payload (ww_next_lsn w1)) @ payload
      in case ww_file w1 of
           None \<Rightarrow> (Inl kNoSpace, w1\<lparr>ww_good := False\<rparr>, d1)
         | Some name \<Rightarrow>
             if \<not> ww_good w1 then (Inl kNoSpace, w1, d1)
             else (case env_fail env of
                Some k \<Rightarrow> (Inl kNoSpace, w1\<lparr>ww_good := True\<rparr>, dir_append name (take k bytes) d1)
              | None \<Rightarrow> (Inr (ww_next_lsn w1),
                         w1\<lparr>ww_next_lsn := ww_next_lsn w1 + 1,
                            ww_seg_size := ww_seg_size w1 + 48 + length payload\<rparr>,
                         dir_append name bytes d1)))"

definition current_lsn :: "WalWriter \<Rightarrow> Lsn" where "current_lsn w = ww_next_lsn w"

definition append_begin :: "WalEnv \<Rightarrow> TxId \<Rightarrow> WalWriter \<Rightarrow> WalDir \<Rightarrow> Lsn StatusOr \<times> WalWriter \<times> WalDir" where
  "append_begin env tx = append_record env tx WalBegin []"

definition append_commit :: "WalEnv \<Rightarrow> TxId \<Rightarrow> Timestamp \<Rightarrow> WalWriter \<Rightarrow> WalDir
    \<Rightarrow> Lsn StatusOr \<times> WalWriter \<times> WalDir" where
  "append_commit env tx commit_ts = append_record env tx WalCommit (put_u64 commit_ts)"

definition append_rollback :: "WalEnv \<Rightarrow> TxId \<Rightarrow> WalWriter \<Rightarrow> WalDir \<Rightarrow> Lsn StatusOr \<times> WalWriter \<times> WalDir" where
  "append_rollback env tx = append_record env tx WalRollback []"

definition column_bytes :: "ColumnData \<Rightarrow> byte list" where
  "column_bytes col = cd_type col # put_u32 (word_of_nat (length (cd_data col))) @ cd_data col"

definition insert_payload :: "TableId \<Rightarrow> ColumnData list \<Rightarrow> byte list" where
  "insert_payload tid columns =
     put_u32 tid @ put_u32 (word_of_nat (length columns)) @ concat (map column_bytes columns)"

definition append_insert :: "WalEnv \<Rightarrow> TxId \<Rightarrow> TableId \<Rightarrow> ColumnData list \<Rightarrow> WalWriter \<Rightarrow> WalDir
    \<Rightarrow> Lsn StatusOr \<times> WalWriter \<times> WalDir" where
  "append_insert env tx tid columns = append_record env tx WalInsert (insert_payload tid columns)"

definition batch_payload :: "TableId \<Rightarrow> ColumnData list list \<Rightarrow> byte list" where
  "batch_payload tid rows =
     put_u32 tid @ put_u32 (word_of_nat (length rows)) @ put_u32 (word_of_nat (length (hd rows))) @
     concat (map (\<lambda>row. concat (map column_bytes row)) rows)"

definition append_insert_batch :: "WalEnv \<Rightarrow> TxId \<Rightarrow> TableId \<Rightarrow> ColumnData list list \<Rightarrow> WalWriter
    \<Rightarrow> WalDir \<Rightarrow> Lsn StatusOr \<times> WalWriter \<times> WalDir" where
  "append_insert_batch env tx tid rows w d =
     (if rows = [] then (Inr (ww_next_lsn w - 1), w, d)
      else append_record env tx WalInsertBatch (batch_payload tid rows) w d)"

definition delete_payload :: "TableId \<Rightarrow> RowId list \<Rightarrow> byte list" where
  "delete_payload tid row_ids =
     put_u32 tid @ put_u32 (word_of_nat (length row_ids)) @ concat (map put_u64 row_ids)"

definition append_delete :: "WalEnv \<Rightarrow> TxId \<Rightarrow> TableId \<Rightarrow> RowId list \<Rightarrow> WalWriter \<Rightarrow> WalDir
    \<Rightarrow> Lsn StatusOr \<times> WalWriter \<times> WalDir" where
  "append_delete env tx tid row_ids = append_record env tx WalDelete (delete_payload tid row_ids)"

definition full_page_payload :: "TableId \<Rightarrow> PageId \<Rightarrow> u32 \<Rightarrow> byte list \<Rightarrow> byte list" where
  "full_page_payload tid pid file_id bs = put_u32 tid @ put_u64 pid @ put_u32 file_id @ bs"

definition append_full_page :: "WalEnv \<Rightarrow> TableId \<Rightarrow> PageId \<Rightarrow> u32 \<Rightarrow> byte list \<Rightarrow> WalWriter \<Rightarrow> WalDir
    \<Rightarrow> Lsn StatusOr \<times> WalWriter \<times> WalDir" where
  "append_full_page env tid pid file_id bs =
     append_record env kInvalidTxId WalFullPageImage (full_page_payload tid pid file_id bs)"

definition ww_flush :: "WalEnv \<Rightarrow> WalWriter \<Rightarrow> Status_Code \<times> WalWriter" where
  "ww_flush env w =
     (if \<not> ww_good w then (kIoError, w)
      else if env_sync_ok env then (kOk, w) else (kIoError, w\<lparr>ww_good := False\<rparr>))"

text \<open>
  Removing old segments: segment \<open>i\<close> goes when the next one starts at or below \<open>safe_lsn\<close>.
  The flag of the result says that \<open>std::stoull\<close> threw; what was removed before stays removed.
\<close>

fun remove_loop :: "Lsn \<Rightarrow> string list \<Rightarrow> WalDir \<Rightarrow> bool \<times> WalDir" where
  "remove_loop safe (s # t # rest) d =
     (case stoull (path_stem t) of None \<Rightarrow> (True, d)
      | Some next_start \<Rightarrow>
          remove_loop safe (t # rest) (if next_start \<le> safe then dir_remove s d else d))"
| "remove_loop safe _ d = (False, d)"

definition remove_segments_before :: "Lsn \<Rightarrow> WalDir \<Rightarrow> bool \<times> WalDir" where
  "remove_segments_before safe d = remove_loop safe (log_segments d) d"

section \<open>The reader (\<open>wal.cpp\<close>)\<close>

record WalReader =
  rd_segments :: "string list"
  rd_idx :: nat
  rd_file :: "byte list option"
  rd_eof :: bool

definition wal_reader_init :: WalReader where
  "wal_reader_init = \<lparr>rd_segments = [], rd_idx = 0, rd_file = None, rd_eof = False\<rparr>"

fun open_from :: "WalDir \<Rightarrow> string list \<Rightarrow> nat \<Rightarrow> byte list option \<times> nat" where
  "open_from d [] i = (None, i)"
| "open_from d (s # ss) i =
     (case map_of d s of Some c \<Rightarrow> (Some c, Suc i) | None \<Rightarrow> open_from d ss (Suc i))"

definition open_next_segment :: "WalDir \<Rightarrow> WalReader \<Rightarrow> bool \<times> WalReader" where
  "open_next_segment d rd =
     (let (f, i) = open_from d (drop (rd_idx rd) (rd_segments rd)) (rd_idx rd)
      in (f \<noteq> None, rd\<lparr>rd_file := f, rd_eof := False, rd_idx := i\<rparr>))"

text \<open>
  \<open>open\<close> adds the files of the directory to the segments the reader already has and sorts
  them all.
\<close>

definition rd_open :: "WalDir \<Rightarrow> WalReader \<Rightarrow> Status_Code \<times> WalReader" where
  "rd_open d rd =
     (let segs = std_sort str_less
                   (rd_segments rd @ filter (\<lambda>n. path_extension n = ''.log'') (map fst d));
          rd1 = rd\<lparr>rd_segments := segs\<rparr>
      in if segs = [] then (kNotFound, rd1)
         else let (ok, rd2) = open_next_segment d (rd1\<lparr>rd_idx := 0\<rparr>)
              in (if ok then kOk else kNotFound, rd2))"

definition rd_close :: "WalReader \<Rightarrow> WalReader" where
  "rd_close rd = rd\<lparr>rd_file := None\<rparr>"

text \<open>
  One attempt of \<open>next\<close>: \<open>None\<close> when the open segment is at its end (or none is open) and the
  next one has to be opened.
\<close>

definition read_record :: "WalReader \<Rightarrow> (WalRecord StatusOr \<times> WalReader) option" where
  "read_record rd =
     (case rd_file rd of None \<Rightarrow> None
      | Some bs \<Rightarrow>
          if rd_eof rd \<or> bs = [] then None
          else (case wal_header_of_bytes bs of
             None \<Rightarrow> Some (Inl kCorruptedData, rd\<lparr>rd_file := Some [], rd_eof := True\<rparr>)
           | Some (h, r) \<Rightarrow>
               if wh_magic h \<noteq> kWalMagic then Some (Inl kCorruptedData, rd\<lparr>rd_file := Some r\<rparr>)
               else if wh_payload_size h = 0
               then Some (Inr \<lparr>rec_header = h, rec_payload = []\<rparr>, rd\<lparr>rd_file := Some r\<rparr>)
               else (case get_bytes (unat (wh_payload_size h)) r of
                  None \<Rightarrow> Some (Inl kCorruptedData, rd\<lparr>rd_file := Some [], rd_eof := True\<rparr>)
                | Some (p, r') \<Rightarrow>
                    if compute_page_checksum p \<noteq> wh_checksum h
                    then Some (Inl kCorruptedData, rd\<lparr>rd_file := Some r'\<rparr>)
                    else Some (Inr \<lparr>rec_header = h, rec_payload = p\<rparr>, rd\<lparr>rd_file := Some r'\<rparr>))))"

lemma open_from_progress: "open_from d ss i = (Some c, j) \<Longrightarrow> i < j \<and> j \<le> i + length ss"
  by (induction ss arbitrary: i) (fastforce split: option.splits)+

lemma open_next_segment_progress:
  assumes "open_next_segment d rd = (True, rd')"
  shows "rd_segments rd' = rd_segments rd" "rd_idx rd < rd_idx rd'"
    "rd_idx rd' \<le> length (rd_segments rd)"
proof -
  obtain f i where fi: "open_from d (drop (rd_idx rd) (rd_segments rd)) (rd_idx rd) = (f, i)"
    by fastforce
  with assms obtain c where f: "f = Some c" and rd': "rd' = rd\<lparr>rd_file := f, rd_eof := False, rd_idx := i\<rparr>"
    by (auto simp: open_next_segment_def)
  from open_from_progress [OF fi [unfolded f]] have "rd_idx rd < i"
    "i \<le> rd_idx rd + (length (rd_segments rd) - rd_idx rd)" by auto
  with rd' show "rd_segments rd' = rd_segments rd" "rd_idx rd < rd_idx rd'"
    "rd_idx rd' \<le> length (rd_segments rd)" by auto
qed

lemma open_next_segment_measure:
  "open_next_segment d rd = (ok, rd') \<Longrightarrow> ok
   \<Longrightarrow> length (rd_segments rd') - rd_idx rd' < length (rd_segments rd) - rd_idx rd"
  using open_next_segment_progress [of d rd rd'] by (simp add: diff_less_mono2)

function wal_next :: "WalDir \<Rightarrow> WalReader \<Rightarrow> WalRecord StatusOr \<times> WalReader" where
  "wal_next d rd =
     (case read_record rd of Some r \<Rightarrow> r
      | None \<Rightarrow> (case open_next_segment d rd of
                  (True, rd') \<Rightarrow> wal_next d rd'
                | (False, rd') \<Rightarrow> (Inl kNotFound, rd')))"
  by pat_completeness auto
termination
  by (relation "measure (\<lambda>(d, rd). length (rd_segments rd) - rd_idx rd)")
    (auto dest: open_next_segment_measure [OF sym])

declare wal_next.simps [simp del]

text \<open>The loop of recovery over the reader: records until \<open>next\<close> gives an error.\<close>

definition rd_left :: "WalReader \<Rightarrow> nat" where
  "rd_left rd = (case rd_file rd of None \<Rightarrow> 0 | Some bs \<Rightarrow> length bs)"

lemma read_record_progress:
  assumes "read_record rd = Some (Inr r, rd')"
  shows "rd_segments rd' = rd_segments rd \<and> rd_idx rd' = rd_idx rd \<and> rd_left rd' < rd_left rd"
  using assms unfolding read_record_def rd_left_def
  by (auto split: option.splits if_splits dest!: walhdr.dec_rest get_bytes_rest_length)

lemma wal_next_progress:
  "wal_next d rd = (Inr r, rd') \<Longrightarrow>
     length (rd_segments rd') - rd_idx rd' < length (rd_segments rd) - rd_idx rd \<or>
     length (rd_segments rd') - rd_idx rd' = length (rd_segments rd) - rd_idx rd \<and>
     rd_left rd' < rd_left rd"
proof (induction d rd rule: wal_next.induct)
  case (1 d rd)
  show ?case
  proof (cases "read_record rd")
    case (Some q)
    with "1.prems" have "q = (Inr r, rd')" by (subst (asm) wal_next.simps) simp
    with Some read_record_progress [of rd r rd'] show ?thesis by simp
  next
    case None
    obtain ok rd1 where op: "open_next_segment d rd = (ok, rd1)" by fastforce
    with None "1.prems" have ok: ok and nx: "wal_next d rd1 = (Inr r, rd')"
      by (subst (asm) wal_next.simps; simp split: bool.splits)+
    from "1.IH" [OF None op [symmetric] _ nx] ok open_next_segment_measure [OF op]
    show ?thesis by auto
  qed
qed

function read_records :: "WalDir \<Rightarrow> WalReader \<Rightarrow> WalRecord list \<times> Status_Code \<times> WalReader" where
  "read_records d rd =
     (case wal_next d rd of
        (Inl st, rd') \<Rightarrow> ([], st, rd')
      | (Inr r, rd') \<Rightarrow> (let (rs, st, rd'') = read_records d rd' in (r # rs, st, rd'')))"
  by pat_completeness auto
termination
  by (relation "measures [\<lambda>(d, rd). length (rd_segments rd) - rd_idx rd, \<lambda>(d, rd). rd_left rd]")
    (auto dest: wal_next_progress [OF sym])

declare read_records.simps [simp del]

text \<open>What a fresh reader delivers for a directory, with the status that ends the loop.\<close>

definition read_log :: "WalDir \<Rightarrow> WalRecord list \<times> Status_Code" where
  "read_log d =
     (let (st, rd) = rd_open d wal_reader_init
      in if st = kOk then (let (rs, st', rd') = read_records d rd in (rs, st')) else ([], st))"

text \<open>
  The records that the two passes of recovery (\<open>Database::open\<close>) receive from their common
  reader, which is closed after the first pass and opened again for the second.
\<close>

definition wal_passes :: "WalDir \<Rightarrow> WalRecord list \<times> WalRecord list" where
  "wal_passes d =
     (let (st, rd) = rd_open d wal_reader_init
      in if st = kOk
         then let (rs1, _, rd') = read_records d rd;
                  (st', rd'') = rd_open d (rd_close rd')
              in (rs1, if st' = kOk then fst (read_records d rd'') else [])
         else ([], []))"

section \<open>Segment images\<close>

definition record_ok :: "WalRecord \<Rightarrow> bool" where
  "record_ok r \<longleftrightarrow> wh_magic (rec_header r) = kWalMagic \<and>
     unat (wh_payload_size (rec_header r)) = length (rec_payload r) \<and>
     wh_checksum (rec_header r) = compute_page_checksum (rec_payload r)"

inductive seg_image :: "byte list \<Rightarrow> WalRecord list \<Rightarrow> bool" where
  image_nil: "seg_image [] []"
| image_cons: "record_ok r \<Longrightarrow> seg_image bs rs \<Longrightarrow>
    seg_image (wal_header_bytes pad (rec_header r) @ rec_payload r @ bs) (r # rs)"

lemma seg_image_single: "record_ok r \<Longrightarrow> seg_image (wal_header_bytes pad (rec_header r) @ rec_payload r) [r]"
  using image_cons [OF _ image_nil] by simp

lemma seg_image_append: "seg_image bs rs \<Longrightarrow> seg_image cs ss \<Longrightarrow> seg_image (bs @ cs) (rs @ ss)"
  by (induction rule: seg_image.induct) (simp_all add: image_cons)

lemma seg_image_empty: "seg_image bs rs \<Longrightarrow> bs = [] \<longleftrightarrow> rs = []"
  by (cases rule: seg_image.cases) (auto dest: arg_cong [of _ _ length] simp: walhdr.length_enc)

lemma scan_image:
  "seg_image bs rs \<Longrightarrow> scan_next_lsn bs n =
     foldl (\<lambda>n r. if n \<le> wh_lsn (rec_header r) then wh_lsn (rec_header r) + 1 else n) n rs"
proof (induction arbitrary: n rule: seg_image.induct)
  case image_nil
  have "wal_header_of_bytes [] = None" by (simp add: walhdr.dec_short)
  then show ?case by (simp add: scan_next_lsn.simps)
next
  case (image_cons r bs rs pad)
  then show ?case
    by (subst scan_next_lsn.simps) (simp add: walhdr.dec_enc record_ok_def)
qed

section \<open>Reading a log back\<close>

definition rd_at :: "WalReader \<Rightarrow> byte list \<Rightarrow> WalReader" where
  "rd_at rd bs = rd\<lparr>rd_file := Some bs, rd_eof := False\<rparr>"

lemma read_record_image:
  assumes "record_ok r"
  shows "read_record (rd_at rd (wal_header_bytes pad (rec_header r) @ rec_payload r @ bs)) =
    Some (Inr r, rd_at rd bs)"
proof -
  let ?f = "wal_header_bytes pad (rec_header r) @ rec_payload r @ bs"
  have "?f \<noteq> []" using walhdr.length_enc [of pad "rec_header r"] by fastforce
  moreover have "wh_payload_size (rec_header r) = 0 \<longleftrightarrow> rec_payload r = []"
    using assms by (metis length_0_conv record_ok_def unsigned_0 unat_eq_zero)
  ultimately show ?thesis
    using assms by (auto simp: read_record_def rd_at_def walhdr.dec_enc record_ok_def)
qed

lemma read_records_image:
  "seg_image bs rs \<Longrightarrow> read_records d (rd_at rd (bs @ t)) =
     (let (rs', st, rd') = read_records d (rd_at rd t) in (rs @ rs', st, rd'))"
proof (induction rule: seg_image.induct)
  case image_nil
  then show ?case by simp
next
  case (image_cons r bs rs pad)
  have "wal_next d (rd_at rd ((wal_header_bytes pad (rec_header r) @ rec_payload r @ bs) @ t)) =
    (Inr r, rd_at rd (bs @ t))"
    using read_record_image [OF image_cons.hyps(1)] by (subst wal_next.simps) simp
  then show ?case
    by (subst read_records.simps) (simp add: image_cons.IH split: prod.splits)
qed

lemma read_records_hop:
  assumes "drop (rd_idx rd) (rd_segments rd) = n # ns" "map_of d n = Some c"
  shows "read_records d (rd_at rd []) = read_records d (rd_at (rd\<lparr>rd_idx := Suc (rd_idx rd)\<rparr>) c)"
proof -
  have "wal_next d (rd_at rd []) = wal_next d (rd_at (rd\<lparr>rd_idx := Suc (rd_idx rd)\<rparr>) c)"
  proof -
    have "rd\<lparr>rd_file := Some c, rd_eof := False, rd_idx := Suc (rd_idx rd)\<rparr> =
      rd_at (rd\<lparr>rd_idx := Suc (rd_idx rd)\<rparr>) c" by (simp add: rd_at_def)
    moreover have "open_next_segment d (rd_at rd []) =
      (True, rd\<lparr>rd_file := Some c, rd_eof := False, rd_idx := Suc (rd_idx rd)\<rparr>)"
      using assms by (simp add: rd_at_def open_next_segment_def)
    moreover have "read_record (rd_at rd []) = None" by (simp add: read_record_def rd_at_def)
    ultimately show ?thesis by (subst wal_next.simps) simp
  qed
  then show ?thesis
    by (subst (1 2) read_records.simps) simp
qed

lemma read_records_end:
  assumes "drop (rd_idx rd) (rd_segments rd) = []"
  shows "\<exists>rd'. read_records d (rd_at rd []) = ([], kNotFound, rd')"
  using assms
  by (subst read_records.simps, subst wal_next.simps)
    (simp add: read_record_def rd_at_def open_next_segment_def)

text \<open>
  Bytes on which the reader stops: what comes after them in the segment is not delivered.
\<close>

definition refused :: "byte list \<Rightarrow> bool" where
  "refused t \<longleftrightarrow> (\<forall>rd. \<exists>rd'. read_record (rd_at rd t) = Some (Inl kCorruptedData, rd'))"

lemma read_records_refused:
  "refused t \<Longrightarrow> \<exists>rd'. read_records d (rd_at rd t) = ([], kCorruptedData, rd')"
proof -
  assume "refused t"
  then obtain rd' where "read_record (rd_at rd t) = Some (Inl kCorruptedData, rd')"
    unfolding refused_def by blast
  then have "wal_next d (rd_at rd t) = (Inl kCorruptedData, rd')" by (subst wal_next.simps) simp
  then show ?thesis by (subst read_records.simps) simp
qed

text \<open>A record cut short is refused.\<close>

lemma refused_torn:
  assumes "record_ok r" "0 < k" "k < 48 + length (rec_payload r)"
  shows "refused (take k (wal_header_bytes pad (rec_header r) @ rec_payload r))"
proof -
  let ?t = "take k (wal_header_bytes pad (rec_header r) @ rec_payload r)"
  have ne: "?t \<noteq> []"
    using assms(2) walhdr.length_enc [of pad "rec_header r"] by (cases k) fastforce+
  show ?thesis
  proof (cases "k < 48")
    case True
    then have "wal_header_of_bytes ?t = None" by (intro walhdr.dec_short) simp
    with ne show ?thesis by (simp add: refused_def read_record_def rd_at_def)
  next
    case False
    have t: "?t = wal_header_bytes pad (rec_header r) @ take (k - 48) (rec_payload r)"
      using False by (simp add: walhdr.length_enc)
    have n: "unat (wh_payload_size (rec_header r)) = length (rec_payload r)"
      and m: "wh_magic (rec_header r) = kWalMagic" using assms(1) by (simp_all add: record_ok_def)
    have "length (rec_payload r) \<noteq> 0" using assms(3) False by linarith
    with n have "wh_payload_size (rec_header r) \<noteq> 0" by auto
    moreover have "get_bytes (unat (wh_payload_size (rec_header r))) (take (k - 48) (rec_payload r)) = None"
      using assms(3) False n by (intro get_bytes_short) simp
    ultimately show ?thesis
      using ne m unfolding t by (simp add: refused_def read_record_def rd_at_def walhdr.dec_enc)
  qed
qed

text \<open>A record with one changed payload byte is refused, whatever follows it.\<close>

lemma refused_flipped:
  assumes "record_ok r" "i < length (rec_payload r)" "b \<noteq> rec_payload r ! i"
  shows "refused (wal_header_bytes pad (rec_header r) @ (rec_payload r)[i := b] @ rest)"
proof -
  have r: "wh_magic (rec_header r) = kWalMagic"
    "unat (wh_payload_size (rec_header r)) = length (rec_payload r)"
    "wh_checksum (rec_header r) = compute_page_checksum (rec_payload r)"
    using assms(1) by (simp_all add: record_ok_def)
  have "wal_header_bytes pad (rec_header r) \<noteq> []"
    using walhdr.length_enc [of pad "rec_header r"] by fastforce
  moreover have "wh_payload_size (rec_header r) \<noteq> 0" using r(2) assms(2) by auto
  moreover have "compute_page_checksum ((rec_payload r)[i := b]) \<noteq> compute_page_checksum (rec_payload r)"
    unfolding compute_page_checksum_def by (rule crc32c_detects_byte [OF assms(2,3)])
  ultimately show ?thesis
    using r by (simp add: refused_def read_record_def rd_at_def walhdr.dec_enc)
qed

lemma put_u32_bytes:
  "put_u32 w = [word_of_nat (unat w mod 256), word_of_nat (unat w div 256 mod 256),
     word_of_nat (unat w div 256 div 256 mod 256), word_of_nat (unat w div 256 div 256 div 256 mod 256)]"
proof -
  have "(4 :: nat) = Suc (Suc (Suc (Suc 0)))" by simp
  then show ?thesis unfolding put_u32_def by (simp only: le_bytes.simps)
qed

lemma u32_at_bytes:
  "u32_at (a # b # c # d # t) 0 =
     word_of_nat (unat a + 256 * (unat b + 256 * (unat c + 256 * unat d)))"
proof -
  have "take 4 (a # b # c # d # t) = [a, b, c, d]" by (simp add: eval_nat_numeral)
  then show ?thesis by (simp add: u32_at_def)
qed

lemma wal_header_complete:
  "48 \<le> length bs \<Longrightarrow> \<exists>h r. wal_header_of_bytes bs = Some (h, r) \<and> wh_magic h = u32_at bs 0"
  by (simp add: wal_header_of_bytes_def get_complete)

text \<open>A single byte of a failed write in front of a record hides the magic number.\<close>

lemma refused_shifted:
  assumes "wh_magic h = kWalMagic" "wh_magic h' = kWalMagic"
  shows "refused (take 1 (wal_header_bytes pad h @ p) @ wal_header_bytes pad' h' @ rest)"
proof -
  let ?t = "take 1 (wal_header_bytes pad h @ p) @ wal_header_bytes pad' h' @ rest"
  have magic: "put_u32 kWalMagic = [0x52, 0x4C, 0x41, 0x57]"
    by (simp add: put_u32_bytes kWalMagic_def)
  obtain t' where t': "?t = 0x52 # 0x52 # 0x4C # 0x41 # t'"
    using assms by (simp add: wal_header_bytes_def magic)
  have "48 \<le> length ?t" by (simp add: walhdr.length_enc)
  then obtain m r where m: "wal_header_of_bytes ?t = Some (m, r)" "wh_magic m = u32_at ?t 0"
    using wal_header_complete by blast
  have "u32_at (0x52 # 0x52 # 0x4C # 0x41 # t') 0 = 0x414C5252"
    by (simp add: u32_at_bytes)
  with m(2) have "wh_magic m \<noteq> kWalMagic" unfolding t' by (simp add: kWalMagic_def)
  with m(1) have "wal_header_of_bytes ?t = Some (m, r)" "wh_magic m \<noteq> kWalMagic" by blast+
  then show ?thesis
    unfolding t' by (simp add: refused_def read_record_def rd_at_def)
qed

end
