(* ===== verification/Wal_Log.thy ===== *)
theory Wal_Log
  imports Wal
begin

text \<open>
  The correctness of the write-ahead log. The abstract view of a log is a list of segments,
  each with its first LSN and its records; the abstraction relation \<open>wal_inv\<close> ties it to the
  writer and to the bytes of the directory. \<open>wal_reach\<close> is the step relation of a process
  that opens the log, appends, flushes, removes old segments and reopens it, with the history
  of appended records as a ghost; the properties are proved for every reachable state by rule
  induction.
\<close>

section \<open>Segment names\<close>

lemma segment_name_less [simp]: "str_less (segment_name l) (segment_name m) \<longleftrightarrow> l < m"
proof -
  have b: "unat x < 10 ^ 20" for x :: u64
    using unsigned_less [of x, where 'a=nat] by simp
  show ?thesis
    by (simp add: segment_name_def str_less_append_same dec_pad_less [OF b b] word_less_nat_alt)
qed

lemma segment_name_inject [simp]: "segment_name l = segment_name m \<longleftrightarrow> l = m"
  using segment_name_less [of l m] segment_name_less [of m l]
  by (metis linorder_neqE str_less_irrefl)

lemma segment_name_ext [simp]: "path_extension (segment_name l) = ''.log''"
  unfolding segment_name_def
  using path_extension_append [of "dec_pad 20 (unat l)" "''log''"] length_dec_pad [of 20 "unat l"]
  by fastforce

lemma segment_name_stoull [simp]: "stoull (path_stem (segment_name l)) = Some l"
proof -
  let ?p = "dec_pad 20 (unat l)"
  have ne: "?p \<noteq> []" using length_dec_pad [of 20 "unat l"] by fastforce
  have b: "unat l < 2 ^ 64" using unsigned_less [of l, where 'a=nat] by simp
  then have "unat l < 10 ^ 20" by simp
  then have v: "digits_val ?p = unat l" by (rule digits_val_dec_pad)
  have "path_stem (segment_name l) = ?p"
    unfolding segment_name_def using ne path_stem_append [of ?p "''log''"] by simp
  moreover have "stoull (?p @ []) = Some (word_of_nat (digits_val ?p))"
    using ne dec_pad_digits b v by (intro stoull_digits) auto
  ultimately show ?thesis by (simp add: v)
qed

section \<open>The abstraction relation\<close>

type_synonym Segment = "Lsn \<times> WalRecord list"

definition rec_lsn :: "WalRecord \<Rightarrow> Lsn" where "rec_lsn r = wh_lsn (rec_header r)"

definition log_records :: "Segment list \<Rightarrow> WalRecord list" where
  "log_records segs = concat (map snd segs)"

lemma log_records_simps [simp]:
  "log_records [] = []" "log_records (x # xs) = snd x @ log_records xs"
  "log_records (xs @ ys) = log_records xs @ log_records ys"
  by (simp_all add: log_records_def)

text \<open>The LSNs run without a gap from \<open>a\<close> to just below \<open>b\<close>, and each segment is named after
  its first.\<close>

fun chain :: "nat \<Rightarrow> Segment list \<Rightarrow> nat \<Rightarrow> bool" where
  "chain a [] b \<longleftrightarrow> a = b"
| "chain a ((s, rs) # segs) b \<longleftrightarrow>
     unat s = a \<and> map (\<lambda>r. unat (rec_lsn r)) rs = [a..<a + length rs] \<and> chain (a + length rs) segs b"

lemma chain_append: "chain a (xs @ ys) b \<longleftrightarrow> (\<exists>m. chain a xs m \<and> chain m ys b)"
  by (induction a xs b rule: chain.induct) auto

lemma chain_lsns: "chain a segs b \<Longrightarrow> map (\<lambda>r. unat (rec_lsn r)) (log_records segs) = [a..<b] \<and> a \<le> b"
proof (induction a segs b rule: chain.induct)
  case (2 a s rs segs b)
  then have "map (\<lambda>r. unat (rec_lsn r)) (log_records ((s, rs) # segs)) = [a..<a + length rs] @ [a + length rs..<b]"
    and le: "a + length rs \<le> b" by auto
  moreover have "[a..<a + length rs] @ [a + length rs..<b] = [a..<b]"
    using upt_add_eq_append [of a "a + length rs" "b - (a + length rs)"] le by simp
  ultimately show ?case using le by simp
qed simp

lemma chain_bounds:
  "chain a segs b \<Longrightarrow> \<forall>x \<in> set segs. snd x \<noteq> [] \<Longrightarrow> x \<in> set segs \<Longrightarrow> a \<le> unat (fst x) \<and> unat (fst x) < b"
proof (induction a segs b rule: chain.induct)
  case (2 a s rs segs b)
  have le: "a + length rs \<le> b" using "2.prems"(1) chain_lsns by auto
  have pos: "0 < length rs" using "2.prems"(2) by simp
  show ?case
  proof (cases "x = (s, rs)")
    case True
    with "2.prems"(1) have "unat (fst x) = a" by simp
    with le pos show ?thesis by linarith
  next
    case False
    with 2 show ?thesis by fastforce
  qed
qed simp

lemma chain_sorted:
  "chain a segs b \<Longrightarrow> \<forall>x \<in> set segs. snd x \<noteq> [] \<Longrightarrow> sorted_wrt (<) (map fst segs)"
proof (induction a segs b rule: chain.induct)
  case (2 a s rs segs b)
  have "s < fst x" if "x \<in> set segs" for x
  proof -
    have "a + length rs \<le> unat (fst x)" "unat s = a" "0 < length rs"
      using chain_bounds [of "a + length rs" segs b x] that "2.prems" by auto
    then show ?thesis unfolding word_less_nat_alt by linarith
  qed
  with 2 show ?case by auto
qed simp

definition dir_image :: "WalDir \<Rightarrow> Segment list \<Rightarrow> bool" where
  "dir_image d segs \<longleftrightarrow>
     list_all2 (\<lambda>f s. fst f = segment_name (fst s) \<and> seg_image (snd f) (snd s)) d segs"

lemma dir_image_names: "dir_image d segs \<Longrightarrow> map fst d = map (segment_name \<circ> fst) segs"
  unfolding dir_image_def by (induction rule: list_all2_induct) auto

lemma dir_image_snoc:
  "dir_image (d @ [f]) (segs @ [s]) \<longleftrightarrow>
     dir_image d segs \<and> fst f = segment_name (fst s) \<and> seg_image (snd f) (snd s)"
  unfolding dir_image_def by (subst list_all2_rev [symmetric]) (auto simp: list_all2_rev)

lemma dir_append_new: "n \<notin> fst ` set d \<Longrightarrow> dir_append n bs d = d @ [(n, bs)]"
  by (induction d) auto

lemma dir_append_last: "n \<notin> fst ` set d \<Longrightarrow> dir_append n bs (d @ [(n, c)]) = d @ [(n, c @ bs)]"
  by (induction d) auto

lemma map_of_snoc_new: "n \<notin> fst ` set d \<Longrightarrow> map_of (d @ [(n, c)]) n = Some c"
  by (induction d) auto

definition wal_inv :: "WalWriter \<Rightarrow> WalDir \<Rightarrow> Segment list \<Rightarrow> bool" where
  "wal_inv w d segs \<longleftrightarrow>
     (\<exists>init rs d0 c a. segs = init @ [(ww_seg_start w, rs)] \<and>
        d = d0 @ [(segment_name (ww_seg_start w), c)] \<and>
        dir_image d0 init \<and> seg_image c rs \<and> 1 \<le> a \<and> chain a segs (unat (ww_next_lsn w)) \<and>
        (\<forall>x \<in> set init. snd x \<noteq> []) \<and> (rs \<noteq> [] \<or> ww_next_lsn w = 1) \<and>
        ww_file w = Some (segment_name (ww_seg_start w)) \<and> ww_good w \<and> ww_seg_size w = length c)"

lemma wal_inv_image: "wal_inv w d segs \<Longrightarrow> dir_image d segs"
  by (auto simp: wal_inv_def dir_image_snoc)

text \<open>The starts of the segments ascend strictly, so sorting the names changes nothing.\<close>

lemma starts_sorted:
  assumes "chain a (init @ [(s, rs)]) b" "\<forall>x \<in> set init. snd x \<noteq> []"
  shows "sorted_wrt (<) (map fst (init @ [(s, rs)]))"
proof -
  obtain m where m: "chain a init m" "unat s = m" using assms(1) by (auto simp: chain_append)
  have "fst x < s" if "x \<in> set init" for x
    using chain_bounds [OF m(1) assms(2) that] m(2) by (simp add: word_less_nat_alt)
  with chain_sorted [OF m(1) assms(2)] show ?thesis by (auto simp: sorted_wrt_append)
qed

lemma wal_inv_sorted: "wal_inv w d segs \<Longrightarrow> sorted_wrt (<) (map fst segs)"
  unfolding wal_inv_def using starts_sorted by blast

lemma image_names_sorted:
  "dir_image d segs \<Longrightarrow> sorted_wrt (<) (map fst segs) \<Longrightarrow> sorted_wrt str_less (map fst d)"
  by (auto simp: dir_image_names sorted_wrt_map)

lemma image_log_segments:
  assumes "dir_image d segs" "sorted_wrt (<) (map fst segs)"
  shows "log_segments d = map fst d"
proof -
  have "filter (\<lambda>n. path_extension n = ''.log'') (map fst d) = map fst d"
    using dir_image_names [OF assms(1)] by (auto intro!: filter_True)
  then show ?thesis
    unfolding log_segments_def by (simp add: std_sort_names image_names_sorted [OF assms])
qed

lemma sorted_names_distinct: "sorted_wrt str_less xs \<Longrightarrow> distinct xs"
  by (induction xs) auto

lemma image_distinct: "dir_image d segs \<Longrightarrow> sorted_wrt (<) (map fst segs) \<Longrightarrow> distinct (map fst d)"
  by (blast intro: sorted_names_distinct image_names_sorted)

section \<open>Appending\<close>

definition new_record :: "WalEnv \<Rightarrow> TxId \<Rightarrow> WalRecordType \<Rightarrow> byte list \<Rightarrow> Lsn \<Rightarrow> WalRecord" where
  "new_record env tx t p l = \<lparr>rec_header = wal_header env tx t p l, rec_payload = p\<rparr>"

lemma new_record_ok: "length p < 2 ^ 32 \<Longrightarrow> record_ok (new_record env tx t p l)"
  by (simp add: record_ok_def new_record_def wal_header_def unat_word_of_nat32)

lemma new_record_image:
  "length p < 2 ^ 32 \<Longrightarrow> seg_image (wal_header_bytes pad (wal_header env tx t p l) @ p) [new_record env tx t p l]"
  using seg_image_single [OF new_record_ok [of p env tx t l], of pad] by (simp add: new_record_def)

lemma rec_lsn_new [simp]: "rec_lsn (new_record env tx t p l) = l"
  by (simp add: rec_lsn_def new_record_def wal_header_def)

lemma fresh_name:
  assumes "dir_image d segs" "\<forall>x \<in> set segs. fst x < s"
  shows "segment_name s \<notin> fst ` set d"
proof -
  have "fst ` set d = (\<lambda>x. segment_name (fst x)) ` set segs"
    using dir_image_names [OF assms(1)] by (metis (no_types, lifting) image_set map_eq_conv o_apply)
  with assms(2) show ?thesis by auto
qed

lemma unat_succ: "unat (l :: u64) + 1 < 2 ^ 64 \<Longrightarrow> unat (l + 1) = unat l + 1"
  by (simp add: unat_word_ariths take_bit_nat_eq_self unat_add_lem [THEN iffD1])

lemma init_before:
  assumes "chain a (init @ [(s, rs)]) b" "\<forall>x \<in> set init. snd x \<noteq> []"
  shows "\<forall>x \<in> set init. fst x < s"
  using starts_sorted [OF assms] by (auto simp: sorted_wrt_append)

lemma append_record_inv:
  assumes inv: "wal_inv w d segs"
    and env: "env_fail env = None" "env_open_ok env"
    and p: "length p < 2 ^ 32" and l: "unat (ww_next_lsn w) + 1 < 2 ^ 64"
  shows "\<exists>w' d' segs'. append_record env tx t p w d = (Inr (ww_next_lsn w), w', d') \<and>
    wal_inv w' d' segs' \<and> ww_next_lsn w' = ww_next_lsn w + 1 \<and>
    log_records segs' = log_records segs @ [new_record env tx t p (ww_next_lsn w)]"
proof -
  obtain init rs d0 c a where segs: "segs = init @ [(ww_seg_start w, rs)]"
    and d: "d = d0 @ [(segment_name (ww_seg_start w), c)]"
    and img: "dir_image d0 init" "seg_image c rs" and a: "1 \<le> a" and ch: "chain a segs (unat (ww_next_lsn w))"
    and ne: "\<forall>x \<in> set init. snd x \<noteq> []" and rs: "rs \<noteq> [] \<or> ww_next_lsn w = 1"
    and f: "ww_file w = Some (segment_name (ww_seg_start w))" "ww_good w" "ww_seg_size w = length c"
    using inv unfolding wal_inv_def by blast
  let ?l = "ww_next_lsn w"
  let ?r = "new_record env tx t p ?l"
  let ?b = "wal_header_bytes (env_pad env) (wal_header env tx t p ?l) @ p"
  have ib: "seg_image ?b [?r]" by (rule new_record_image [OF p])
  have lb: "length ?b = 48 + length p" by (simp add: walhdr.length_enc)
  have dimg: "dir_image d segs" by (rule wal_inv_image [OF inv])
  show ?thesis
  proof (cases "kMaxSegmentSize \<le> ww_seg_size w")
    case True
    then have "c \<noteq> []" using f by (auto simp: kMaxSegmentSize_def)
    then have "rs \<noteq> []" using seg_image_empty [OF img(2)] by simp
    then have ne': "\<forall>x \<in> set segs. snd x \<noteq> []" using ne segs by auto
    have "\<forall>x \<in> set segs. fst x < ?l"
      using chain_bounds [OF ch ne'] by (auto simp: word_less_nat_alt)
    then have fresh: "segment_name ?l \<notin> fst ` set d" by (rule fresh_name [OF dimg])
    let ?w = "w\<lparr>ww_seg_start := ?l, ww_file := Some (segment_name ?l), ww_good := True,
      ww_seg_size := 48 + length p, ww_next_lsn := ?l + 1\<rparr>"
    have "append_record env tx t p w d = (Inr ?l, ?w, d @ [(segment_name ?l, ?b)])"
      using True f env fresh
      by (simp add: append_record_def rotate_if_needed_def dir_append_new dir_append_last Let_def)
    moreover have "wal_inv ?w (d @ [(segment_name ?l, ?b)]) (segs @ [(?l, [?r])])"
      using dimg ib a ch ne' lb unat_succ [OF l] by (auto simp: wal_inv_def chain_append)
    ultimately show ?thesis by fastforce
  next
    case False
    have "chain a (init @ [(ww_seg_start w, rs)]) (unat ?l)" using ch segs by simp
    from init_before [OF this ne] have fresh: "segment_name (ww_seg_start w) \<notin> fst ` set d0"
      by (rule fresh_name [OF img(1)])
    let ?w = "w\<lparr>ww_next_lsn := ?l + 1, ww_seg_size := length c + 48 + length p\<rparr>"
    let ?d = "d0 @ [(segment_name (ww_seg_start w), c @ ?b)]"
    have "append_record env tx t p w d = (Inr ?l, ?w, ?d)"
      using False f env fresh
      by (simp add: append_record_def rotate_if_needed_def dir_append_last d)
    moreover have "wal_inv ?w ?d (init @ [(ww_seg_start w, rs @ [?r])])"
      using img ib a ch ne lb f unat_succ [OF l] seg_image_append [OF img(2) ib]
      by (auto simp: wal_inv_def chain_append segs)
    ultimately show ?thesis by (fastforce simp: segs)
  qed
qed

section \<open>Reading\<close>

lemma read_segs:
  "dir_image e segs \<Longrightarrow> drop (rd_idx rd) (rd_segments rd) = map fst e @ ns
   \<Longrightarrow> \<forall>f \<in> set e. map_of d (fst f) = Some (snd f)
   \<Longrightarrow> \<exists>rd'. drop (rd_idx rd') (rd_segments rd') = ns \<and>
         read_records d (rd_at rd []) =
           (let (rs, st, x) = read_records d (rd_at rd' []) in (log_records segs @ rs, st, x))"
proof (induction e arbitrary: segs rd)
  case Nil
  then have "segs = []" by (simp add: dir_image_def)
  with Nil show ?case by (auto intro!: exI [of _ rd])
next
  case (Cons f e)
  then obtain s segs' where segs: "segs = s # segs'" and img: "seg_image (snd f) (snd s)"
    and rest: "dir_image e segs'" by (auto simp: dir_image_def list_all2_Cons1)
  let ?rd = "rd\<lparr>rd_idx := Suc (rd_idx rd)\<rparr>"
  have "drop (rd_idx ?rd) (rd_segments ?rd) = map fst e @ ns"
    using Cons.prems(2) by (simp add: drop_Suc drop_tl)
  from Cons.IH [OF rest this] Cons.prems(3) obtain rd' where rd':
    "drop (rd_idx rd') (rd_segments rd') = ns"
    "read_records d (rd_at ?rd []) =
       (let (rs, st, x) = read_records d (rd_at rd' []) in (log_records segs' @ rs, st, x))"
    by auto
  have "read_records d (rd_at rd []) = read_records d (rd_at ?rd (snd f))"
    using Cons.prems by (intro read_records_hop) auto
  also have "\<dots> = (let (rs, st, x) = read_records d (rd_at ?rd []) in (snd s @ rs, st, x))"
    using read_records_image [OF img, of d ?rd "[]"] by simp
  finally show ?case
    using rd' by (auto simp: segs split: prod.splits intro!: exI [of _ rd'])
qed

text \<open>A fresh reader starts in front of the first segment.\<close>

lemma read_log_from:
  assumes "log_segments d = map fst d" "d \<noteq> []" "distinct (map fst d)"
  shows "read_log d =
    (let (rs, st, x) = read_records d
       (rd_at \<lparr>rd_segments = map fst d, rd_idx = 0, rd_file = None, rd_eof = False\<rparr> [])
     in (rs, st))"
proof -
  let ?rd0 = "\<lparr>rd_segments = map fst d, rd_idx = 0, rd_file = None, rd_eof = False\<rparr>"
  obtain n c d' where d: "d = (n, c) # d'" using assms(2) by (cases d) auto
  have "rd_open d wal_reader_init = (kOk, rd_at (?rd0\<lparr>rd_idx := 1\<rparr>) c)"
    using assms(1) unfolding d
    by (simp add: rd_open_def wal_reader_init_def open_next_segment_def log_segments_def
        rd_at_def Let_def)
  moreover have "read_records d (rd_at ?rd0 []) = read_records d (rd_at (?rd0\<lparr>rd_idx := 1\<rparr>) c)"
    using read_records_hop [of ?rd0 n "map fst d'" d c] d by simp
  ultimately show ?thesis by (simp add: read_log_def)
qed

lemma read_log_image:
  assumes "dir_image d segs" "sorted_wrt (<) (map fst segs)" "d \<noteq> []"
  shows "read_log d = (log_records segs, kNotFound)"
proof -
  let ?rd0 = "\<lparr>rd_segments = map fst d, rd_idx = 0, rd_file = None, rd_eof = False\<rparr>"
  have dist: "distinct (map fst d)" by (rule image_distinct [OF assms(1,2)])
  then have mo: "\<forall>f \<in> set d. map_of d (fst f) = Some (snd f)" by auto
  obtain rd' where rd': "drop (rd_idx rd') (rd_segments rd') = []"
    "read_records d (rd_at ?rd0 []) =
       (let (rs, st, x) = read_records d (rd_at rd' []) in (log_records segs @ rs, st, x))"
    using read_segs [OF assms(1) _ mo, of ?rd0 "[]"] by auto
  obtain x where "read_records d (rd_at rd' []) = ([], kNotFound, x)"
    using read_records_end [OF rd'(1)] by blast
  with rd'(2) read_log_from [OF image_log_segments [OF assms(1,2)] assms(3) dist]
  show ?thesis by simp
qed

lemma wal_inv_read: "wal_inv w d segs \<Longrightarrow> read_log d = (log_records segs, kNotFound)"
  by (rule read_log_image [OF wal_inv_image wal_inv_sorted]) (auto simp: wal_inv_def)

text \<open>Bytes behind the records of any segment that the reader refuses: all before them is read,
  and nothing of the segments behind.\<close>

lemma dir_image_between:
  assumes "dir_image d segs" "dir_image d2 segs2" "seg_image c rs"
  shows "dir_image (d @ (segment_name s, c) # d2) (segs @ (s, rs) # segs2)"
  using assms by (simp add: dir_image_def list_all2_appendI)

lemma read_log_refused:
  assumes "dir_image d segs" "dir_image d2 segs2" "sorted_wrt (<) (map fst (segs @ (s, rs) # segs2))"
    "seg_image c rs" "refused t"
  shows "read_log (d @ (segment_name s, c @ t) # d2) = (log_records segs @ rs, kCorruptedData)"
proof -
  let ?d = "d @ (segment_name s, c @ t) # d2"
  let ?d' = "d @ (segment_name s, c) # d2"
  let ?ns = "segment_name s # map fst d2"
  let ?rd0 = "\<lparr>rd_segments = map fst ?d, rd_idx = 0, rd_file = None, rd_eof = False\<rparr>"
  have img: "dir_image ?d' (segs @ (s, rs) # segs2)" by (rule dir_image_between [OF assms(1,2,4)])
  have "distinct (map fst ?d')" by (rule image_distinct [OF img assms(3)])
  then have dist: "distinct (map fst ?d)" by simp
  have ls: "log_segments ?d = map fst ?d"
    using image_log_segments [OF img assms(3)] by (simp add: log_segments_def)
  have at: "map_of ?d (fst f) = Some (snd f)" if "f \<in> set ?d" for f
    using map_of_is_SomeI [OF dist, of "fst f" "snd f"] that by simp
  then have mo: "\<forall>f \<in> set d. map_of ?d (fst f) = Some (snd f)" by simp
  have mo': "map_of ?d (segment_name s) = Some (c @ t)" using at [of "(segment_name s, c @ t)"] by simp
  obtain rd' where rd': "drop (rd_idx rd') (rd_segments rd') = ?ns"
    "read_records ?d (rd_at ?rd0 []) =
       (let (rs, st, x) = read_records ?d (rd_at rd' []) in (log_records segs @ rs, st, x))"
    using read_segs [OF assms(1) _ mo, of ?rd0 ?ns] by auto
  let ?rd = "rd'\<lparr>rd_idx := Suc (rd_idx rd')\<rparr>"
  obtain x where x: "read_records ?d (rd_at ?rd t) = ([], kCorruptedData, x)"
    using read_records_refused [OF assms(5)] by blast
  have "read_records ?d (rd_at rd' []) = (rs, kCorruptedData, x)"
    using read_records_hop [OF rd'(1) mo'] read_records_image [OF assms(4), of ?d ?rd t] x by simp
  with rd'(2) read_log_from [OF ls _ dist] show ?thesis by simp
qed

lemmas read_log_refused_last = read_log_refused [where ?d2.0 = "[]" and ?segs2.0 = "[]"]

lemma dir_image_Nil [simp]: "dir_image [] []"
  by (simp add: dir_image_def)

section \<open>Removing segments\<close>

lemma remove_loop_none:
  "dir_image e segs \<Longrightarrow> \<forall>x \<in> set (tl segs). safe < fst x \<Longrightarrow> remove_loop safe (map fst e) d = (False, d)"
proof (induction e arbitrary: segs)
  case (Cons f e)
  then obtain s segs' where segs: "segs = s # segs'" and e: "dir_image e segs'"
    by (auto simp: dir_image_def list_all2_Cons1)
  show ?case
  proof (cases e)
    case Nil
    then show ?thesis by simp
  next
    case (Cons g e')
    then obtain q segs'' where q: "segs' = q # segs''" "fst g = segment_name (fst q)"
      using e by (auto simp: dir_image_def list_all2_Cons1)
    then have "\<not> fst q \<le> safe" using Cons.prems(2) segs by auto
    moreover have "remove_loop safe (map fst e) d = (False, d)"
      using Cons.IH [OF e] Cons.prems(2) segs q by auto
    ultimately show ?thesis using q Cons by simp
  qed
qed simp

lemma dir_remove_head: "fst f \<notin> fst ` set e \<Longrightarrow> dir_remove (fst f) (f # e) = e"
  by (auto simp: dir_remove_def filter_id_conv image_iff)

lemma remove_loop_suffix:
  "dir_image e segs \<Longrightarrow> sorted_wrt (<) (map fst segs) \<Longrightarrow> chain a segs b \<Longrightarrow> segs \<noteq> []
   \<Longrightarrow> \<exists>k < length segs. remove_loop safe (map fst e) e = (False, drop k e) \<and>
         (\<forall>r \<in> set (log_records (take k segs)). rec_lsn r < safe)"
proof (induction e arbitrary: segs a)
  case Nil
  then show ?case by (simp add: dir_image_def)
next
  case (Cons f e)
  then obtain s rs segs' where segs: "segs = (s, rs) # segs'" and e: "dir_image e segs'"
    by (auto simp: dir_image_def list_all2_Cons1)
  show ?case
  proof (cases e)
    case Nil
    then show ?thesis using Cons.prems by (auto intro!: exI [of _ 0])
  next
    case (Cons g e')
    then obtain t ts segs'' where q: "segs' = (t, ts) # segs''" and g: "fst g = segment_name t"
      using e by (auto simp: dir_image_def list_all2_Cons1)
    show ?thesis
    proof (cases "t \<le> safe")
      case False
      then have "\<forall>x \<in> set (tl segs). safe < fst x"
        using Cons.prems(2) segs q by auto
      from remove_loop_none [OF Cons.prems(1) this] show ?thesis
        using Cons.prems(4) by (auto intro!: exI [of _ 0])
    next
      case True
      have fresh: "fst f \<notin> fst ` set e"
        using image_distinct [OF Cons.prems(1,2)] by simp
      have "sorted_wrt (<) (map fst segs')" "chain (a + length rs) segs' b" "segs' \<noteq> []"
        using Cons.prems segs q by auto
      from Cons.IH [OF e this] obtain k where k: "k < length segs'"
        "remove_loop safe (map fst e) e = (False, drop k e)"
        "\<forall>r \<in> set (log_records (take k segs')). rec_lsn r < safe" by blast
      have "unat t = a + length rs" "map (\<lambda>r. unat (rec_lsn r)) rs = [a..<a + length rs]"
        using Cons.prems(3) segs q by auto
      then have "\<forall>r \<in> set rs. unat (rec_lsn r) < unat t"
        by (metis (no_types, lifting) atLeastLessThan_iff image_eqI list.set_map set_upt)
      then have "\<forall>r \<in> set rs. rec_lsn r < safe"
        using True by (auto simp: word_less_nat_alt word_le_nat_alt intro: less_le_trans)
      moreover have "remove_loop safe (map fst (f # e)) (f # e) = (False, drop (Suc k) (f # e))"
        using True k(2) g Cons dir_remove_head [OF fresh] by simp
      ultimately show ?thesis
        using k segs by (intro exI [of _ "Suc k"]) auto
    qed
  qed
qed

lemma remove_segments_inv:
  assumes "wal_inv w d segs"
  shows "\<exists>k d'. remove_segments_before safe d = (False, d') \<and> wal_inv w d' (drop k segs) \<and>
    (\<forall>r \<in> set (log_records (take k segs)). rec_lsn r < safe)"
proof -
  obtain init rs d0 c a where inv: "segs = init @ [(ww_seg_start w, rs)]"
    "d = d0 @ [(segment_name (ww_seg_start w), c)]" "dir_image d0 init" "seg_image c rs" "1 \<le> a"
    "chain a segs (unat (ww_next_lsn w))" "\<forall>x \<in> set init. snd x \<noteq> []" "rs \<noteq> [] \<or> ww_next_lsn w = 1"
    "ww_file w = Some (segment_name (ww_seg_start w))" "ww_good w" "ww_seg_size w = length c"
    using assms unfolding wal_inv_def by blast
  have img: "dir_image d segs" and srt: "sorted_wrt (<) (map fst segs)"
    using assms by (simp_all add: wal_inv_image wal_inv_sorted)
  obtain k where k: "k < length segs" "remove_loop safe (map fst d) d = (False, drop k d)"
    "\<forall>r \<in> set (log_records (take k segs)). rec_lsn r < safe"
    using remove_loop_suffix [OF img srt inv(6)] inv(1) by blast
  have len: "length d0 = length init" using inv(3) by (auto simp: dir_image_def list_all2_lengthD)
  have ki: "k \<le> length init" using k(1) inv(1) by simp
  have "chain a (take k segs @ drop k segs) (unat (ww_next_lsn w))" using inv(6) by simp
  then obtain m where m: "chain a (take k segs) m" "chain m (drop k segs) (unat (ww_next_lsn w))"
    by (auto simp: chain_append simp del: append_take_drop_id)
  have "a \<le> m" using chain_lsns [OF m(1)] by simp
  moreover have "dir_image (drop k d0) (drop k init)" using inv(3) by (simp add: dir_image_def list_all2_dropI)
  ultimately have "wal_inv w (drop k d) (drop k segs)"
    unfolding wal_inv_def using inv ki len m(2)
    by (intro exI [of _ "drop k init"] exI [of _ rs] exI [of _ "drop k d0"] exI [of _ c] exI [of _ m])
      (auto dest: in_set_dropD)
  with k show ?thesis
    using image_log_segments [OF img srt] by (auto simp: remove_segments_before_def)
qed

section \<open>Reopening\<close>

lemma scan_lsns:
  "map (\<lambda>r. unat (rec_lsn r)) rs = [m..<m + length rs] \<Longrightarrow> unat n \<le> m \<Longrightarrow> m + length rs < 2 ^ 64
   \<Longrightarrow> rs \<noteq> [] \<Longrightarrow>
   unat (foldl (\<lambda>n r. if n \<le> wh_lsn (rec_header r) then wh_lsn (rec_header r) + 1 else n) n rs)
     = m + length rs"
proof (induction rs arbitrary: m n)
  case (Cons r rs)
  have m: "unat (rec_lsn r) = m" and rest: "map (\<lambda>r. unat (rec_lsn r)) rs = [Suc m..<Suc m + length rs]"
    using Cons.prems(1) upt_conv_Cons [of m "m + length (r # rs)"] by (simp_all del: upt_Suc)
  have "n \<le> rec_lsn r" using Cons.prems(2) m by (simp add: word_le_nat_alt)
  moreover have suc: "unat (rec_lsn r + 1) = Suc m"
    using unat_succ [of "rec_lsn r"] m Cons.prems(3) by simp
  ultimately show ?case
    using Cons.IH [OF rest, of "rec_lsn r + 1"] Cons.prems(3)
    by (cases "rs = []") (auto simp: rec_lsn_def)
qed simp

lemma reopen_same:
  assumes "wal_inv w d segs" "env_open_ok env"
  shows "ww_open env wal_writer_init d = Some (kOk, w, d)"
proof -
  obtain init rs d0 c a where inv: "segs = init @ [(ww_seg_start w, rs)]"
    "d = d0 @ [(segment_name (ww_seg_start w), c)]" "dir_image d0 init" "seg_image c rs" "1 \<le> a"
    "chain a segs (unat (ww_next_lsn w))" "\<forall>x \<in> set init. snd x \<noteq> []" "rs \<noteq> [] \<or> ww_next_lsn w = 1"
    "ww_file w = Some (segment_name (ww_seg_start w))" "ww_good w" "ww_seg_size w = length c"
    using assms(1) unfolding wal_inv_def by blast
  let ?n = "segment_name (ww_seg_start w)"
  have img: "dir_image d segs" and srt: "sorted_wrt (<) (map fst segs)"
    using assms by (simp_all add: wal_inv_image wal_inv_sorted)
  have fresh: "?n \<notin> fst ` set d0" using image_distinct [OF img srt] inv(2) by simp
  have cont: "file_content d ?n = c"
    using map_of_snoc_new [OF fresh] inv(2) by (simp add: file_content_def)
  obtain m where m: "chain a init m" "unat (ww_seg_start w) = m"
    "map (\<lambda>r. unat (rec_lsn r)) rs = [m..<m + length rs]" "m + length rs = unat (ww_next_lsn w)"
    using inv(1,6) by (auto simp: chain_append)
  have "scan_next_lsn c 1 = ww_next_lsn w"
  proof (cases "rs = []")
    case True
    with inv(4,8) show ?thesis by (simp add: scan_image)
  next
    case False
    have "1 \<le> m" using chain_lsns [OF m(1)] inv(5) by simp
    moreover have "m + length rs < 2 ^ 64"
      using m(4) unsigned_less [of "ww_next_lsn w", where 'a=nat] by simp
    ultimately have "unat (scan_next_lsn c 1) = unat (ww_next_lsn w)"
      using scan_lsns [OF m(3) _ _ False, of 1] m(4) scan_image [OF inv(4), of 1] by simp
    then show ?thesis by (simp add: word_unat_eq_iff)
  qed
  moreover have "dir_append ?n [] d = d" using dir_append_last [OF fresh, of "[]" c] inv(2) by simp
  moreover have "log_segments d = map fst d0 @ [?n]"
    using image_log_segments [OF img srt] inv(2) by simp
  ultimately show ?thesis
    using inv(9-11) assms(2) cont by (simp add: ww_open_def wal_writer_init_def)
qed

section \<open>The life of a log\<close>

text \<open>
  The steps of a process over one log directory: create it, append a record (any of the
  \<open>append_*\<close> calls is one \<open>append_record\<close>), flush, remove old segments after a checkpoint,
  restart and open it again. The ghosts are every record ever appended and the largest LSN
  passed to \<open>remove_segments_before\<close>. The relation describes a log on a disk that works: no append
  and no flush fails in it. What a failing append does is stated apart
  (\<open>append_record_failed\<close>, \<open>torn_append_keeps_log\<close>, \<open>failed_append_hides_later_records\<close>), and
  so is a failing flush (\<open>failed_flush_blocks_appends\<close>).
\<close>

inductive wal_reach :: "WalWriter \<Rightarrow> WalDir \<Rightarrow> WalRecord list \<Rightarrow> Lsn \<Rightarrow> bool" where
  reach_create: "env_open_ok env \<Longrightarrow> ww_open env wal_writer_init [] = Some (st, w, d)
    \<Longrightarrow> wal_reach w d [] 0"
| reach_append: "wal_reach w d hist safe \<Longrightarrow> env_fail env = None \<Longrightarrow> env_open_ok env
    \<Longrightarrow> length p < 2 ^ 32 \<Longrightarrow> unat (ww_next_lsn w) + 1 < 2 ^ 64
    \<Longrightarrow> append_record env tx t p w d = (Inr l, w', d')
    \<Longrightarrow> wal_reach w' d' (hist @ [new_record env tx t p l]) safe"
| reach_flush: "wal_reach w d hist safe \<Longrightarrow> env_sync_ok env \<Longrightarrow> ww_flush env w = (st, w')
    \<Longrightarrow> wal_reach w' d hist safe"
| reach_remove: "wal_reach w d hist safe \<Longrightarrow> remove_segments_before x d = (thrown, d')
    \<Longrightarrow> wal_reach w d' hist (max safe x)"
| reach_reopen: "wal_reach w d hist safe \<Longrightarrow> env_open_ok env
    \<Longrightarrow> ww_open env wal_writer_init d = Some (st, w', d') \<Longrightarrow> wal_reach w' d' hist safe"

lemma create_inv:
  assumes "env_open_ok env" "ww_open env wal_writer_init [] = Some (st, w, d)"
  shows "wal_inv w d [(1, [])]"
proof -
  have "w = wal_writer_init\<lparr>ww_file := Some (segment_name 1)\<rparr>" "d = [(segment_name 1, [])]"
    using assms by (auto simp: ww_open_def log_segments_def std_sort_def file_content_def
        wal_writer_init_def Let_def)
  then show ?thesis
    by (simp add: wal_inv_def wal_writer_init_def dir_image_def image_nil)
qed

lemma wal_reach_inv:
  "wal_reach w d hist safe \<Longrightarrow>
     \<exists>segs k. wal_inv w d segs \<and> log_records segs = drop k hist \<and> k \<le> length hist \<and>
       (\<forall>r \<in> set (take k hist). rec_lsn r < safe)"
proof (induction rule: wal_reach.induct)
  case (reach_create env st w d)
  then show ?case using create_inv [of env st w d] by fastforce
next
  case (reach_append w d hist safe env p tx t l w' d')
  then obtain segs k where *: "wal_inv w d segs" "log_records segs = drop k hist" "k \<le> length hist"
    "\<forall>r \<in> set (take k hist). rec_lsn r < safe" by blast
  from append_record_inv [OF *(1) reach_append.hyps(2-5), of tx t] reach_append.hyps(6)
  obtain segs' where "wal_inv w' d' segs'" "log_records segs' = log_records segs @ [new_record env tx t p l]"
    by auto
  with * show ?case by (intro exI [of _ segs'] exI [of _ k]) auto
next
  case (reach_flush w d hist safe env st w')
  then have "w' = w" by (auto simp: ww_flush_def wal_inv_def)
  with reach_flush show ?case by simp
next
  case (reach_remove w d hist safe x thrown d')
  then obtain segs k where *: "wal_inv w d segs" "log_records segs = drop k hist" "k \<le> length hist"
    "\<forall>r \<in> set (take k hist). rec_lsn r < safe" by blast
  obtain j where j: "wal_inv w d' (drop j segs)" "\<forall>r \<in> set (log_records (take j segs)). rec_lsn r < x"
    using remove_segments_inv [OF *(1), of x] reach_remove.hyps(2) by auto
  let ?n = "length (log_records (take j segs))"
  have split: "log_records (take j segs) @ log_records (drop j segs) = drop k hist"
    using *(2) log_records_simps(3) [of "take j segs" "drop j segs"] by simp
  then have "log_records (drop j segs) = drop (k + ?n) hist"
    by (metis add.commute append_eq_conv_conj drop_drop)
  moreover have "take (k + ?n) hist = take k hist @ log_records (take j segs)"
    using split by (metis append_eq_conv_conj take_add)
  moreover have "k + ?n \<le> length hist"
    using arg_cong [OF split, of length] *(3) by simp
  ultimately show ?case
    using j *(4) by (intro exI [of _ "drop j segs"] exI [of _ "k + ?n"])
      (auto simp: less_max_iff_disj)
next
  case (reach_reopen w d hist safe env st w' d')
  then obtain segs where "wal_inv w d segs" by blast
  from reopen_same [OF this reach_reopen.hyps(2)] reach_reopen.hyps(3) have "w' = w" "d' = d" by auto
  with reach_reopen show ?case by simp
qed

section \<open>A write that fails half way\<close>

text \<open>
  The directory a failed append leaves behind: the segments as they were, a (possibly new)
  last segment, and the first \<open>k\<close> bytes of the record at its end.
\<close>

lemma append_record_failed:
  assumes inv: "wal_inv w d segs" and env: "env_fail env = Some k" "env_open_ok env"
  shows "\<exists>w' d0 s c segs0 rs.
    append_record env tx t p w d = (Inl kNoSpace, w',
      d0 @ [(segment_name s, c @ take k (wal_header_bytes (env_pad env)
                                   (wal_header env tx t p (ww_next_lsn w)) @ p))]) \<and>
    dir_image d0 segs0 \<and> seg_image c rs \<and> sorted_wrt (<) (map fst (segs0 @ [(s, rs)])) \<and>
    log_records segs0 @ rs = log_records segs \<and>
    ww_file w' = Some (segment_name s) \<and> ww_next_lsn w' = ww_next_lsn w \<and> ww_good w' \<and>
    (ww_seg_size w < kMaxSegmentSize \<longrightarrow> ww_seg_size w' < kMaxSegmentSize)"
proof -
  obtain init rs d0 c a where segs: "segs = init @ [(ww_seg_start w, rs)]"
    and d: "d = d0 @ [(segment_name (ww_seg_start w), c)]"
    and img: "dir_image d0 init" "seg_image c rs" and ch: "chain a segs (unat (ww_next_lsn w))"
    and ne: "\<forall>x \<in> set init. snd x \<noteq> []"
    and f: "ww_file w = Some (segment_name (ww_seg_start w))" "ww_good w" "ww_seg_size w = length c"
    using inv unfolding wal_inv_def by blast
  let ?l = "ww_next_lsn w"
  let ?b = "take k (wal_header_bytes (env_pad env) (wal_header env tx t p ?l) @ p)"
  have dimg: "dir_image d segs" by (rule wal_inv_image [OF inv])
  have srt: "sorted_wrt (<) (map fst segs)" by (rule wal_inv_sorted [OF inv])
  show ?thesis
  proof (cases "kMaxSegmentSize \<le> ww_seg_size w")
    case True
    then have "c \<noteq> []" using f by (auto simp: kMaxSegmentSize_def)
    then have "rs \<noteq> []" using seg_image_empty [OF img(2)] by simp
    then have ne': "\<forall>x \<in> set segs. snd x \<noteq> []" using ne segs by auto
    have lt: "\<forall>x \<in> set segs. fst x < ?l"
      using chain_bounds [OF ch ne'] by (auto simp: word_less_nat_alt)
    then have fresh: "segment_name ?l \<notin> fst ` set d" by (rule fresh_name [OF dimg])
    let ?w = "w\<lparr>ww_seg_start := ?l, ww_file := Some (segment_name ?l), ww_good := True,
      ww_seg_size := 0\<rparr>"
    have app: "append_record env tx t p w d = (Inl kNoSpace, ?w, d @ [(segment_name ?l, [] @ ?b)])"
      using True f env fresh
      by (simp add: append_record_def rotate_if_needed_def dir_append_new dir_append_last Let_def)
    have "sorted_wrt (<) (map fst (segs @ [(?l, [])]))"
      using lt srt by (auto simp: sorted_wrt_append)
    with app True dimg show ?thesis
      by (intro exI [of _ ?w] exI [of _ d] exI [of _ ?l] exI [of _ "[]"] exI [of _ segs])
        (simp add: image_nil)
  next
    case False
    have fresh: "segment_name (ww_seg_start w) \<notin> fst ` set d0"
      using image_distinct [OF dimg srt] d by simp
    have "append_record env tx t p w d =
        (Inl kNoSpace, w, d0 @ [(segment_name (ww_seg_start w), c @ ?b)])"
      using False f env fresh
      by (simp add: append_record_def rotate_if_needed_def dir_append_last d)
    with False img srt f show ?thesis
      by (intro exI [of _ w] exI [of _ d0] exI [of _ "ww_seg_start w"] exI [of _ c]
          exI [of _ init] exI [of _ rs]) (simp add: segs)
  qed
qed

section \<open>Properties\<close>

definition demo_env :: WalEnv where
  "demo_env = \<lparr>env_now = 0, env_pad = (\<lambda>_. 0), env_open_ok = True, env_fail = None, env_sync_ok = True\<rparr>"

definition demo_writer :: WalWriter where
  "demo_writer = wal_writer_init\<lparr>ww_file := Some (segment_name 1)\<rparr>"

definition demo_dir :: WalDir where "demo_dir = [(segment_name 1, [])]"

lemma demo_reach: "wal_reach demo_writer demo_dir [] 0"
  by (rule reach_create [of demo_env kOk])
    (simp_all add: demo_env_def demo_writer_def demo_dir_def ww_open_def log_segments_def
      std_sort_def file_content_def wal_writer_init_def Let_def)

lemma demo_simps: "ww_next_lsn demo_writer = 1" "env_fail demo_env = None" "env_open_ok demo_env"
  by (simp_all add: demo_writer_def demo_env_def wal_writer_init_def)

text \<open>A log with one record in it.\<close>

lemma demo_wal_append:
  obtains w d where "append_record demo_env 7 WalCommit [1, 2, 3] demo_writer demo_dir = (Inr 1, w, d)"
    "wal_reach w d [new_record demo_env 7 WalCommit [1, 2, 3] 1] 0" "current_lsn w = 2"
proof -
  obtain segs where inv: "wal_inv demo_writer demo_dir segs" using wal_reach_inv [OF demo_reach] by blast
  obtain w d where w: "append_record demo_env 7 WalCommit [1, 2, 3] demo_writer demo_dir = (Inr 1, w, d)"
    "ww_next_lsn w = 2"
    using append_record_inv [OF inv demo_simps(2,3), of "[1, 2, 3]" 7 WalCommit] by (auto simp: demo_simps)
  from reach_append [OF demo_reach demo_simps(2,3) _ _ w(1)]
  have "wal_reach w d [new_record demo_env 7 WalCommit [1, 2, 3] 1] 0" by (simp add: demo_simps)
  with w show thesis by (intro that) (simp_all add: current_lsn_def)
qed

text \<open>
  C7: in the life of a log from its creation, through appends, flushes, removals of old segments and
  reopenings, as long as no append and no flush fails: reading the directory from the start delivers the
  records in the order they were appended, without gap or change, up to those with an LSN below
  the largest one it was asked to remove. \<open>failed_append_hides_later_records\<close> below shows
  that a failed append is a real exception.
\<close>

theorem wal_reads_back_history:
  assumes "wal_reach w d hist safe"
  shows "\<exists>k. read_log d = (drop k hist, kNotFound) \<and> (\<forall>r \<in> set (take k hist). rec_lsn r < safe)"
  using wal_reach_inv [OF assms] wal_inv_read by fastforce

theorem wal_reads_back_history_witness:
  "\<exists>w d. append_record demo_env 7 WalCommit [1, 2, 3] demo_writer demo_dir = (Inr 1, w, d) \<and>
    read_log d = ([new_record demo_env 7 WalCommit [1, 2, 3] 1], kNotFound)"
proof -
  obtain w d where w: "append_record demo_env 7 WalCommit [1, 2, 3] demo_writer demo_dir = (Inr 1, w, d)"
    "wal_reach w d [new_record demo_env 7 WalCommit [1, 2, 3] 1] 0" by (rule demo_wal_append)
  from wal_reads_back_history [OF w(2)]
  have "read_log d = ([new_record demo_env 7 WalCommit [1, 2, 3] 1], kNotFound)"
    by (auto simp: take_Cons' split: if_splits)
  with w(1) show ?thesis by blast
qed

text \<open>
  a successful append extends what a reader delivers by exactly the new record, with the
  LSN it returned; a segment rotation changes nothing of it.
\<close>

theorem append_extends_log:
  assumes "wal_reach w d hist safe" "env_fail env = None" "env_open_ok env"
    and "length p < 2 ^ 32" "unat (ww_next_lsn w) + 1 < 2 ^ 64"
  shows "\<exists>w' d'. append_record env tx t p w d = (Inr (ww_next_lsn w), w', d') \<and>
    read_log d' = (fst (read_log d) @ [new_record env tx t p (ww_next_lsn w)], kNotFound)"
proof -
  obtain segs where inv: "wal_inv w d segs" using wal_reach_inv [OF assms(1)] by blast
  from append_record_inv [OF inv assms(2-5), of tx t] wal_inv_read [OF inv] show ?thesis
    using wal_inv_read by fastforce
qed

theorem append_extends_log_witness:
  "\<exists>w' d'. append_record demo_env 7 WalCommit [1, 2, 3] demo_writer demo_dir = (Inr 1, w', d') \<and>
    read_log d' = (fst (read_log demo_dir) @ [new_record demo_env 7 WalCommit [1, 2, 3] 1], kNotFound)"
  using append_extends_log [OF demo_reach demo_simps(2,3), of "[1, 2, 3]" 7 WalCommit]
  by (simp add: demo_simps)

text \<open>
  C23: as long as no append and no flush of the log fails, the LSNs a reader sees are consecutive
  and end right below the next LSN of the writer.
\<close>

theorem lsns_consecutive:
  assumes "wal_reach w d hist safe"
  shows "\<exists>a. map (\<lambda>r. unat (rec_lsn r)) (fst (read_log d)) = [a..<unat (current_lsn w)]"
proof -
  obtain segs where inv: "wal_inv w d segs" using wal_reach_inv [OF assms] by blast
  then obtain a where "chain a segs (unat (ww_next_lsn w))" unfolding wal_inv_def by blast
  with wal_inv_read [OF inv] chain_lsns show ?thesis by (fastforce simp: current_lsn_def)
qed

theorem lsns_consecutive_witness:
  "\<exists>w d a. append_record demo_env 7 WalCommit [1, 2, 3] demo_writer demo_dir = (Inr 1, w, d) \<and>
    map (\<lambda>r. unat (rec_lsn r)) (fst (read_log d)) = [a..<2]"
proof -
  obtain w d where w: "append_record demo_env 7 WalCommit [1, 2, 3] demo_writer demo_dir = (Inr 1, w, d)"
    "wal_reach w d [new_record demo_env 7 WalCommit [1, 2, 3] 1] 0" "current_lsn w = 2"
    by (rule demo_wal_append)
  from lsns_consecutive [OF w(2)] w(1,3) show ?thesis by auto
qed

text \<open>
  C40: \<open>remove_segments_before\<close> never throws on a log of its own and only removes records with
  an LSN below the given one, from the front.
\<close>

theorem remove_keeps_needed_records:
  assumes "wal_reach w d hist safe"
  shows "\<exists>k d'. remove_segments_before x d = (False, d') \<and>
    read_log d' = (drop k (fst (read_log d)), kNotFound) \<and>
    (\<forall>r \<in> set (take k (fst (read_log d))). rec_lsn r < x)"
proof -
  obtain segs where inv: "wal_inv w d segs" using wal_reach_inv [OF assms] by blast
  from remove_segments_inv [OF inv, of x] obtain j d' where j:
    "remove_segments_before x d = (False, d')" "wal_inv w d' (drop j segs)"
    "\<forall>r \<in> set (log_records (take j segs)). rec_lsn r < x" by blast
  have "log_records segs = log_records (take j segs) @ log_records (drop j segs)"
    using log_records_simps(3) [of "take j segs" "drop j segs"] by simp
  with j wal_inv_read [OF inv] wal_inv_read [OF j(2)] show ?thesis
    by (intro exI [of _ "length (log_records (take j segs))"] exI [of _ d']) simp
qed

theorem remove_keeps_needed_records_witness:
  "\<exists>k d'. remove_segments_before 5 demo_dir = (False, d') \<and>
    read_log d' = (drop k (fst (read_log demo_dir)), kNotFound) \<and>
    (\<forall>r \<in> set (take k (fst (read_log demo_dir))). rec_lsn r < 5)"
  using remove_keeps_needed_records [OF demo_reach] .

text \<open>
  a writer that opens the log of an earlier process gets exactly the state that process
  had, in particular its next LSN, and leaves the directory as it was.
\<close>

theorem reopen_resumes:
  assumes "wal_reach w d hist safe" "env_open_ok env"
  shows "ww_open env wal_writer_init d = Some (kOk, w, d)"
  using wal_reach_inv [OF assms(1)] reopen_same [OF _ assms(2)] by blast

theorem reopen_resumes_witness: "ww_open demo_env wal_writer_init demo_dir = Some (kOk, demo_writer, demo_dir)"
  by (rule reopen_resumes [OF demo_reach demo_simps(3)])

text \<open>
  C21: when an append is cut off after \<open>k\<close> bytes, by a crash or by a full disk, a reader still
  delivers every earlier record, and ends with \<open>kCorruptedData\<close> unless nothing was written.
\<close>

theorem torn_append_keeps_log:
  assumes "wal_reach w d hist safe" "env_fail env = Some k" "env_open_ok env"
    and "length p < 2 ^ 32" "k < 48 + length p"
  shows "\<exists>w' d'. append_record env tx t p w d = (Inl kNoSpace, w', d') \<and>
    read_log d' = (fst (read_log d), if k = 0 then kNotFound else kCorruptedData)"
proof -
  let ?h = "wal_header env tx t p (ww_next_lsn w)"
  obtain segs where inv: "wal_inv w d segs" using wal_reach_inv [OF assms(1)] by blast
  from append_record_failed [OF inv assms(2,3), of tx t p]
  obtain w' d0 s c segs0 rs where f: "append_record env tx t p w d = (Inl kNoSpace, w',
      d0 @ [(segment_name s, c @ take k (wal_header_bytes (env_pad env) ?h @ p))])"
    "dir_image d0 segs0" "seg_image c rs" "sorted_wrt (<) (map fst (segs0 @ [(s, rs)]))"
    "log_records segs0 @ rs = log_records segs" by blast
  have "read_log (d0 @ [(segment_name s, c @ take k (wal_header_bytes (env_pad env) ?h @ p))]) =
    (log_records segs, if k = 0 then kNotFound else kCorruptedData)"
  proof (cases "k = 0")
    case True
    have "dir_image (d0 @ [(segment_name s, c)]) (segs0 @ [(s, rs)])"
      using f by (simp add: dir_image_snoc)
    from read_log_image [OF this f(4)] True f(5) show ?thesis by simp
  next
    case False
    have "refused (take k (wal_header_bytes (env_pad env) ?h @ p))"
      using refused_torn [OF new_record_ok [OF assms(4)], of k env tx t "ww_next_lsn w"] assms(5) False
      by (simp add: new_record_def)
    from read_log_refused_last [OF f(2) _ _ f(3) this, of s] f(4) False f(5) show ?thesis by simp
  qed
  with f(1) wal_inv_read [OF inv] show ?thesis by simp
qed

theorem torn_append_keeps_log_witness:
  "\<exists>w' d'. append_record (demo_env\<lparr>env_fail := Some 50\<rparr>) 7 WalInsert [1, 2, 3] demo_writer demo_dir
      = (Inl kNoSpace, w', d') \<and> read_log d' = (fst (read_log demo_dir), kCorruptedData)"
  using torn_append_keeps_log [OF demo_reach, of "demo_env\<lparr>env_fail := Some 50\<rparr>" 50 "[1, 2, 3]" 7 WalInsert]
  by (simp add: demo_simps)

text \<open>
  an append that fails after one byte leaves that byte in the file, since the stream is
  open for appending and seeking back does not undo a write. The next append succeeds and
  returns an LSN, but its record, and every later one, is never read.
\<close>

theorem failed_append_hides_later_records:
  assumes "wal_reach w d hist safe" "env_fail env = Some 1" "env_open_ok env"
    and "append_record env tx t p w d = (Inl kNoSpace, w1, d1)"
    and "env_fail env' = None" "ww_seg_size w < kMaxSegmentSize"
  shows "\<exists>w2 d2. append_record env' tx' t' p' w1 d1 = (Inr (ww_next_lsn w), w2, d2) \<and>
    read_log d2 = (fst (read_log d), kCorruptedData)"
proof -
  let ?h = "wal_header env tx t p (ww_next_lsn w)"
  let ?h' = "wal_header env' tx' t' p' (ww_next_lsn w)"
  obtain segs where inv: "wal_inv w d segs" using wal_reach_inv [OF assms(1)] by blast
  from append_record_failed [OF inv assms(2,3), of tx t p] assms(4,6)
  obtain d0 s c segs0 rs where f:
    "d1 = d0 @ [(segment_name s, c @ take 1 (wal_header_bytes (env_pad env) ?h @ p))]"
    "dir_image d0 segs0" "seg_image c rs" "sorted_wrt (<) (map fst (segs0 @ [(s, rs)]))"
    "log_records segs0 @ rs = log_records segs"
    "ww_file w1 = Some (segment_name s)" "ww_next_lsn w1 = ww_next_lsn w" "ww_good w1"
    "ww_seg_size w1 < kMaxSegmentSize" by auto
  have "dir_image (d0 @ [(segment_name s, c)]) (segs0 @ [(s, rs)])" using f by (simp add: dir_image_snoc)
  from image_distinct [OF this f(4)] have fresh: "segment_name s \<notin> fst ` set d0" by simp
  have "refused (take 1 (wal_header_bytes (env_pad env) ?h @ p) @
      wal_header_bytes (env_pad env') ?h' @ p')"
    by (rule refused_shifted) (simp_all add: wal_header_def)
  from read_log_refused_last [OF f(2) _ _ f(3) this, of s] f(4,5) wal_inv_read [OF inv]
  show ?thesis
    using f(1,6-9) assms(5) fresh
    by (simp add: append_record_def rotate_if_needed_def dir_append_last)
qed

theorem failed_append_hides_later_records_witness:
  "\<exists>w1 d1 w2 d2. append_record (demo_env\<lparr>env_fail := Some 1\<rparr>) 7 WalInsert [1, 2, 3] demo_writer demo_dir
      = (Inl kNoSpace, w1, d1) \<and>
    append_record demo_env 8 WalBegin [] w1 d1 = (Inr 1, w2, d2) \<and>
    read_log d2 = (fst (read_log demo_dir), kCorruptedData)"
proof -
  let ?e = "demo_env\<lparr>env_fail := Some 1\<rparr>"
  obtain w1 d1 where a: "append_record ?e 7 WalInsert [1, 2, 3] demo_writer demo_dir = (Inl kNoSpace, w1, d1)"
    by (auto simp: append_record_def rotate_if_needed_def demo_writer_def wal_writer_init_def
        kMaxSegmentSize_def)
  show ?thesis
    using failed_append_hides_later_records [OF demo_reach _ _ a demo_simps(2), of 8 WalBegin "[]"] a
    by (auto simp: demo_simps demo_writer_def wal_writer_init_def kMaxSegmentSize_def)
qed

text \<open>
  A flush that fails leaves the stream in a failed state, and nothing resets it: every append until
  the next segment or the next opening fails, even once the disk works again, and writes nothing.
\<close>

lemma failed_flush_blocks_appends:
  assumes "wal_reach w d hist safe" "\<not> env_sync_ok env" "ww_flush env w = (st, w1)"
    and "ww_seg_size w < kMaxSegmentSize"
  shows "append_record env' tx t p w1 d = (Inl kNoSpace, w1, d)"
proof -
  obtain segs where "wal_inv w d segs" using wal_reach_inv [OF assms(1)] by blast
  with assms(2-4) show ?thesis
    by (auto simp: wal_inv_def ww_flush_def append_record_def rotate_if_needed_def)
qed

text \<open>
  C22: changing one payload byte of any record of a log, in any of its segment files, stops the
  reader at that record with \<open>kCorruptedData\<close>: it is never delivered with a wrong payload, and
  neither the records behind it nor the segments behind its own are read.
\<close>

theorem corrupted_record_refused:
  assumes "dir_image d segs" "dir_image d2 segs2" "sorted_wrt (<) (map fst (segs @ (s, rs) # segs2))"
    and "seg_image c rs" "record_ok r" "i < length (rec_payload r)" "b \<noteq> rec_payload r ! i"
  shows "read_log (d @ (segment_name s,
      c @ wal_header_bytes pad (rec_header r) @ (rec_payload r)[i := b] @ rest) # d2) =
    (log_records segs @ rs, kCorruptedData)"
  by (rule read_log_refused [OF assms(1-4) refused_flipped [OF assms(5-7)]])

theorem corrupted_record_refused_witness:
  "read_log [(segment_name 1, [] @ wal_header_bytes (\<lambda>_. 0)
       (rec_header (new_record demo_env 7 WalInsert [1, 2] 1)) @
       (rec_payload (new_record demo_env 7 WalInsert [1, 2] 1))[1 := 9] @ []),
     (segment_name 2, wal_header_bytes (\<lambda>_. 0) (wal_header demo_env 7 WalCommit [3] 2) @ [3])]
   = ([], kCorruptedData)"
proof -
  let ?c2 = "wal_header_bytes (\<lambda>_. 0) (wal_header demo_env 7 WalCommit [3] 2) @ [3]"
  have "dir_image [(segment_name 2, ?c2)] [(2, [new_record demo_env 7 WalCommit [3] 2])]"
    using new_record_image [of "[3]" "\<lambda>_. 0" demo_env 7 WalCommit 2] by (simp add: dir_image_def)
  from corrupted_record_refused [of "[]" "[]", OF dir_image_Nil this, of 1 "[]" "[]"
      "new_record demo_env 7 WalInsert [1, 2] 1" 1 9 "\<lambda>_. 0" "[]"]
    new_record_ok [of "[1, 2]" demo_env 7 WalInsert 1]
  show ?thesis by (simp add: image_nil new_record_def)
qed

text \<open>
  Opening a reader a second time, as recovery does for its second pass, adds the segments
  again to those of the first pass: every record is delivered twice.
\<close>

lemma second_pass_twice:
  assumes "seg_image c rs"
  shows "wal_passes [(segment_name s, c)] = (rs, rs @ rs)"
proof -
  let ?n = "segment_name s"
  let ?d = "[(?n, c)]"
  let ?rd = "\<lambda>segs i. \<lparr>rd_segments = segs, rd_idx = i, rd_file = None, rd_eof = False\<rparr>"
  have srt: "std_sort str_less [?n] = [?n]" "std_sort str_less [?n, ?n] = [?n, ?n]"
    by (simp_all add: std_sort_def)
  have seg: "read_records ?d (rd_at rd c) =
      (let (rs', st, x) = read_records ?d (rd_at rd []) in (rs @ rs', st, x))" for rd
    using read_records_image [OF assms, of ?d rd "[]"] by simp
  have fin: "read_records ?d (rd_at rd []) = ([], kNotFound, rd\<lparr>rd_file := None, rd_eof := False\<rparr>)"
    if "drop (rd_idx rd) (rd_segments rd) = []" for rd
    using that by (subst read_records.simps, subst wal_next.simps)
      (simp add: read_record_def rd_at_def open_next_segment_def)
  have open1: "rd_open ?d wal_reader_init = (kOk, rd_at (?rd [?n] 1) c)"
    by (simp add: rd_open_def wal_reader_init_def open_next_segment_def rd_at_def srt)
  have pass1: "read_records ?d (rd_at (?rd [?n] 1) c) = (rs, kNotFound, ?rd [?n] 1)"
    using seg [of "?rd [?n] 1"] fin [of "?rd [?n] 1"] by simp
  have open2: "rd_open ?d (rd_close (?rd [?n] 1)) = (kOk, rd_at (?rd [?n, ?n] 1) c)"
    by (simp add: rd_open_def open_next_segment_def rd_at_def rd_close_def srt)
  have hop: "read_records ?d (rd_at (?rd [?n, ?n] 1) []) = read_records ?d (rd_at (?rd [?n, ?n] 2) c)"
    using read_records_hop [of "?rd [?n, ?n] 1" ?n "[]" ?d c] by (simp add: numeral_2_eq_2)
  have "fst (read_records ?d (rd_at (?rd [?n, ?n] 1) c)) = rs @ rs"
    using seg [of "?rd [?n, ?n] 1"] seg [of "?rd [?n, ?n] 2"] fin [of "?rd [?n, ?n] 2"] hop by simp
  with open1 pass1 open2 show ?thesis by (simp add: wal_passes_def split: prod.splits)
qed

end
