(* ===== verification/Float64.thy ===== *)
theory Float64
  imports Core_Types "HOL-Library.Log_Nat"
begin

text \<open>
  The type \<open>double\<close> as IEEE-754 binary64 bit patterns: exact comparison, the rounding of a
  ratio of integers to the nearest double (ties to even, overflow to infinity), which
  is what \<open>strtod\<close> and a floating-point literal give, and the rounded absolute difference
  \<open>fabs(a - b)\<close>.
\<close>

section \<open>Comparison\<close>

definition f64_nan :: "u64 \<Rightarrow> bool" where
  "f64_nan w \<longleftrightarrow> uint (w AND 0x7FFFFFFFFFFFFFFF) > 0x7FF0000000000000"

definition f64_key :: "u64 \<Rightarrow> int" where
  "f64_key w = (let m = uint (w AND 0x7FFFFFFFFFFFFFFF) in if bit w 63 then - m else m)"

definition f64_eq :: "u64 \<Rightarrow> u64 \<Rightarrow> bool" where
  "f64_eq a b \<longleftrightarrow> \<not> f64_nan a \<and> \<not> f64_nan b \<and> f64_key a = f64_key b"

definition f64_lt :: "u64 \<Rightarrow> u64 \<Rightarrow> bool" where
  "f64_lt a b \<longleftrightarrow> \<not> f64_nan a \<and> \<not> f64_nan b \<and> f64_key a < f64_key b"

definition f64_le :: "u64 \<Rightarrow> u64 \<Rightarrow> bool" where
  "f64_le a b \<longleftrightarrow> \<not> f64_nan a \<and> \<not> f64_nan b \<and> f64_key a \<le> f64_key b"

section \<open>Rounding\<close>

text \<open>The exponent \<open>e\<close> with \<open>2^e \<le> n / d < 2^(e+1)\<close>, for positive \<open>n\<close> and \<open>d\<close>.\<close>

definition ratio_ge_pow :: "int \<Rightarrow> int \<Rightarrow> int \<Rightarrow> bool" where
  "ratio_ge_pow n d e \<longleftrightarrow> (if 0 \<le> e then d * 2 ^ nat e \<le> n else d \<le> n * 2 ^ nat (- e))"

definition ratio_log2 :: "int \<Rightarrow> int \<Rightarrow> int" where
  "ratio_log2 n d =
     (let e = bitlen n - bitlen d in if ratio_ge_pow n d e then e else e - 1)"

definition round_half_even :: "int \<Rightarrow> int \<Rightarrow> int" where
  "round_half_even n d =
     (let q = n div d; r = n mod d
      in if d < 2 * r \<or> d = 2 * r \<and> odd q then q + 1 else q)"

text \<open>
  The nearest double to \<open>n / d\<close>: the significand is rounded at the quantum of the binade (of
  the smallest normal binade for subnormal numbers), and a carry out of it moves into the
  exponent field.
\<close>

definition f64_inf_bits :: int where "f64_inf_bits = 0x7FF0000000000000"

definition f64_of_ratio :: "int \<Rightarrow> int \<Rightarrow> u64" where
  "f64_of_ratio n d =
     (if n = 0 then 0
      else let e = max (ratio_log2 n d) (- 1022);
               q = e - 52;
               m = (if 0 \<le> q then round_half_even n (d * 2 ^ nat q)
                    else round_half_even (n * 2 ^ nat (- q)) d)
           in word_of_int (min f64_inf_bits ((e + 1022) * 2 ^ 52 + m)))"

definition f64_neg :: "u64 \<Rightarrow> u64" where "f64_neg w = w XOR 0x8000000000000000"

text \<open>A finite double is \<open>\<plusminus> significand * 2^shift / 2^1074\<close>.\<close>

definition f64_exp_field :: "u64 \<Rightarrow> nat" where
  "f64_exp_field w = unat (drop_bit 52 w AND 0x7FF)"

definition f64_is_inf :: "u64 \<Rightarrow> bool" where
  "f64_is_inf w \<longleftrightarrow> uint (w AND 0x7FFFFFFFFFFFFFFF) = f64_inf_bits"

definition f64_scaled :: "u64 \<Rightarrow> int" where
  "f64_scaled w =
     (let f = uint (w AND 0xFFFFFFFFFFFFF); x = f64_exp_field w;
          m = (if x = 0 then f else (2 ^ 52 + f) * 2 ^ (x - 1))
      in if bit w 63 then - m else m)"

text \<open>\<open>fabs(a - b)\<close>, \<open>None\<close> for NaN.\<close>

definition f64_absdiff :: "u64 \<Rightarrow> u64 \<Rightarrow> u64 option" where
  "f64_absdiff a b =
     (if f64_nan a \<or> f64_nan b then None
      else if f64_is_inf a \<and> f64_is_inf b then (if a = b then None else Some (word_of_int f64_inf_bits))
      else if f64_is_inf a \<or> f64_is_inf b then Some (word_of_int f64_inf_bits)
      else Some (f64_of_ratio \<bar>f64_scaled a - f64_scaled b\<bar> (2 ^ 1074)))"


end
