(* ===== verification/Simd.thy ===== *)
theory Simd
  imports Float64
begin

text \<open>
  The vectorised column filters of \<open>src/src/query/simd_ops.hpp\<close>: the scalar loop, the AVX2
  loop over 256-bit registers (lane comparisons give all-ones or zero lanes, \<open>movemask\<close>
  collects their sign bits), the AVX-512 loop over mask registers (consumed by counting
  trailing zeros) and the dispatcher. A register is the list of its lanes. A \<open>double\<close> is its
  IEEE-754 bit pattern; comparisons are exact, with NaN unordered and the two zeros equal.
\<close>

section \<open>Element types\<close>

datatype Op = OpEq | OpGt | OpLt | OpGe | OpLe

fun match_int :: "Op \<Rightarrow> 'w::len word \<Rightarrow> 'w word \<Rightarrow> bool" where
  "match_int OpEq x v \<longleftrightarrow> x = v"
| "match_int OpGt x v \<longleftrightarrow> v <s x"
| "match_int OpLt x v \<longleftrightarrow> x <s v"
| "match_int OpGe x v \<longleftrightarrow> v \<le>s x"
| "match_int OpLe x v \<longleftrightarrow> x \<le>s v"

fun match_f64 :: "Op \<Rightarrow> u64 \<Rightarrow> u64 \<Rightarrow> bool" where
  "match_f64 OpEq x v \<longleftrightarrow> f64_eq x v"
| "match_f64 OpGt x v \<longleftrightarrow> f64_lt v x"
| "match_f64 OpLt x v \<longleftrightarrow> f64_lt x v"
| "match_f64 OpGe x v \<longleftrightarrow> f64_le v x"
| "match_f64 OpLe x v \<longleftrightarrow> f64_le x v"

section \<open>The scalar loop\<close>

text \<open>The indices from \<open>i\<close> on that the loop pushes to \<open>matching\<close>.\<close>

fun scalar_from :: "('a \<Rightarrow> bool) \<Rightarrow> nat \<Rightarrow> 'a list \<Rightarrow> nat list" where
  "scalar_from match i [] = []"
| "scalar_from match i (x # xs) =
     (if match x then i # scalar_from match (Suc i) xs else scalar_from match (Suc i) xs)"

definition filter_scalar_i32 :: "u32 list \<Rightarrow> u32 \<Rightarrow> Op \<Rightarrow> nat list" where
  "filter_scalar_i32 xs v op = scalar_from (\<lambda>x. match_int op x v) 0 xs"

definition filter_scalar_i64 :: "u64 list \<Rightarrow> u64 \<Rightarrow> Op \<Rightarrow> nat list" where
  "filter_scalar_i64 xs v op = scalar_from (\<lambda>x. match_int op x v) 0 xs"

definition filter_scalar_f64 :: "u64 list \<Rightarrow> u64 \<Rightarrow> Op \<Rightarrow> nat list" where
  "filter_scalar_f64 xs v op = scalar_from (\<lambda>x. match_f64 op x v) 0 xs"

section \<open>The vector loop\<close>

text \<open>
  Whole registers while at least \<open>w\<close> elements remain (\<open>i + w - 1 < count\<close>), each giving the
  lane numbers that match, then the scalar tail.
\<close>

function vector_from :: "nat \<Rightarrow> ('a list \<Rightarrow> nat list) \<Rightarrow> ('a \<Rightarrow> bool) \<Rightarrow> nat \<Rightarrow> 'a list \<Rightarrow> nat list" where
  "vector_from w lanes match i xs =
     (if 0 < w \<and> w \<le> length xs
      then map (\<lambda>b. i + b) (lanes (take w xs)) @ vector_from w lanes match (i + w) (drop w xs)
      else scalar_from match i xs)"
  by pat_completeness auto
termination
  by (relation "measure (\<lambda>(w, lanes, match, i, xs). length xs)") auto

declare vector_from.simps [simp del]

section \<open>AVX2\<close>

definition mm256_set1 :: "nat \<Rightarrow> 'w::len word \<Rightarrow> 'w word list" where
  "mm256_set1 n v = replicate n v"

definition lane_mask :: "bool \<Rightarrow> 'w::len word" where "lane_mask b = (if b then - 1 else 0)"

definition mm256_cmpeq :: "'w::len word list \<Rightarrow> 'w word list \<Rightarrow> 'w word list" where
  "mm256_cmpeq a b = map2 (\<lambda>x y. lane_mask (x = y)) a b"

definition mm256_cmpgt :: "'w::len word list \<Rightarrow> 'w word list \<Rightarrow> 'w word list" where
  "mm256_cmpgt a b = map2 (\<lambda>x y. lane_mask (y <s x)) a b"

definition mm256_xor :: "'w::len word list \<Rightarrow> 'w word list \<Rightarrow> 'w word list" where
  "mm256_xor a b = map2 (XOR) a b"

text \<open>\<open>movemask\<close>: bit \<open>i\<close> of the result is the sign bit of lane \<open>i\<close>.\<close>

fun mm256_movemask :: "'w::len word list \<Rightarrow> u32" where
  "mm256_movemask [] = 0"
| "mm256_movemask (x # xs) = (if bit x (LENGTH('w) - 1) then 1 else 0) OR push_bit 1 (mm256_movemask xs)"

definition avx2_cmp_int :: "Op \<Rightarrow> 'w::len word list \<Rightarrow> 'w word list \<Rightarrow> 'w word list" where
  "avx2_cmp_int op data_vec val_vec =
     (case op of
        OpEq \<Rightarrow> mm256_cmpeq data_vec val_vec
      | OpGt \<Rightarrow> mm256_cmpgt data_vec val_vec
      | OpLt \<Rightarrow> mm256_cmpgt val_vec data_vec
      | OpGe \<Rightarrow> mm256_xor (mm256_cmpgt val_vec data_vec) (mm256_set1 (length data_vec) (- 1))
      | OpLe \<Rightarrow> mm256_xor (mm256_cmpgt data_vec val_vec) (mm256_set1 (length data_vec) (- 1)))"

definition avx2_cmp_pd :: "Op \<Rightarrow> u64 list \<Rightarrow> u64 list \<Rightarrow> u64 list" where
  "avx2_cmp_pd op data_vec val_vec =
     (case op of
        OpEq \<Rightarrow> map2 (\<lambda>x y. lane_mask (f64_eq x y)) data_vec val_vec
      | OpGt \<Rightarrow> map2 (\<lambda>x y. lane_mask (f64_lt y x)) data_vec val_vec
      | OpLt \<Rightarrow> map2 (\<lambda>x y. lane_mask (f64_lt x y)) data_vec val_vec
      | OpGe \<Rightarrow> map2 (\<lambda>x y. lane_mask (f64_le y x)) data_vec val_vec
      | OpLe \<Rightarrow> map2 (\<lambda>x y. lane_mask (f64_le x y)) data_vec val_vec)"

text \<open>The loop over the bits of the mask: \<open>(mask >> bit) & 1\<close>.\<close>

definition mask_lanes :: "nat \<Rightarrow> u32 \<Rightarrow> nat list" where
  "mask_lanes n m =
     (if m \<noteq> 0 then filter (\<lambda>b. drop_bit b m AND 1 \<noteq> 0) [0..<n] else [])"

definition filter_avx2_i32 :: "u32 list \<Rightarrow> u32 \<Rightarrow> Op \<Rightarrow> nat list" where
  "filter_avx2_i32 xs v op =
     vector_from 8 (\<lambda>data_vec. mask_lanes 8 (mm256_movemask (avx2_cmp_int op data_vec (mm256_set1 8 v))))
       (\<lambda>x. match_int op x v) 0 xs"

definition filter_avx2_i64 :: "u64 list \<Rightarrow> u64 \<Rightarrow> Op \<Rightarrow> nat list" where
  "filter_avx2_i64 xs v op =
     vector_from 4 (\<lambda>data_vec. mask_lanes 4 (mm256_movemask (avx2_cmp_int op data_vec (mm256_set1 4 v))))
       (\<lambda>x. match_int op x v) 0 xs"

definition filter_avx2_f64 :: "u64 list \<Rightarrow> u64 \<Rightarrow> Op \<Rightarrow> nat list" where
  "filter_avx2_f64 xs v op =
     vector_from 4 (\<lambda>data_vec. mask_lanes 4 (mm256_movemask (avx2_cmp_pd op data_vec (mm256_set1 4 v))))
       (\<lambda>x. match_f64 op x v) 0 xs"

section \<open>AVX-512\<close>

text \<open>A comparison into a mask register: bit \<open>i\<close> is the outcome for lane \<open>i\<close>.\<close>

fun cmp_mask :: "bool list \<Rightarrow> 'm::len word" where
  "cmp_mask [] = 0"
| "cmp_mask (b # bs) = (if b then 1 else 0) OR push_bit 1 (cmp_mask bs)"

text \<open>\<open>__builtin_ctz\<close>, for a mask that is not zero.\<close>

definition ctz :: "'m::len word \<Rightarrow> nat" where
  "ctz m = length (takeWhile (\<lambda>i. \<not> bit m i) [0..<LENGTH('m)])"

lemma and_pred_less: "m \<noteq> 0 \<Longrightarrow> unat (m AND (m - 1)) < unat (m :: 'm::len word)"
proof -
  assume m: "m \<noteq> 0"
  have "m AND (m - 1) \<le> m - 1" by (simp add: word_and_le1)
  moreover have "unat (m - 1) < unat m" using m by (rule measure_unat)
  ultimately show ?thesis by (simp add: word_le_nat_alt)
qed

function ctz_lanes :: "'m::len word \<Rightarrow> nat list" where
  "ctz_lanes m = (if m = 0 then [] else ctz m # ctz_lanes (m AND (m - 1)))"
  by pat_completeness auto
termination
  by (relation "measure unat") (auto intro: and_pred_less)

declare ctz_lanes.simps [simp del]

definition avx512_cmp_int :: "Op \<Rightarrow> 'w::len word list \<Rightarrow> 'w word list \<Rightarrow> 'm::len word" where
  "avx512_cmp_int op data_vec val_vec =
     (case op of
        OpEq \<Rightarrow> cmp_mask (map2 (=) data_vec val_vec)
      | OpGt \<Rightarrow> cmp_mask (map2 (\<lambda>x y. y <s x) data_vec val_vec)
      | OpLt \<Rightarrow> cmp_mask (map2 (\<lambda>x y. x <s y) data_vec val_vec)
      | OpGe \<Rightarrow> cmp_mask (map2 (\<lambda>x y. y \<le>s x) data_vec val_vec)
      | OpLe \<Rightarrow> cmp_mask (map2 (\<lambda>x y. x \<le>s y) data_vec val_vec))"

definition avx512_cmp_pd :: "Op \<Rightarrow> u64 list \<Rightarrow> u64 list \<Rightarrow> 8 word" where
  "avx512_cmp_pd op data_vec val_vec =
     (case op of
        OpEq \<Rightarrow> cmp_mask (map2 f64_eq data_vec val_vec)
      | OpGt \<Rightarrow> cmp_mask (map2 (\<lambda>x y. f64_lt y x) data_vec val_vec)
      | OpLt \<Rightarrow> cmp_mask (map2 f64_lt data_vec val_vec)
      | OpGe \<Rightarrow> cmp_mask (map2 (\<lambda>x y. f64_le y x) data_vec val_vec)
      | OpLe \<Rightarrow> cmp_mask (map2 f64_le data_vec val_vec))"

definition filter_avx512_i32 :: "u32 list \<Rightarrow> u32 \<Rightarrow> Op \<Rightarrow> nat list" where
  "filter_avx512_i32 xs v op =
     vector_from 16 (\<lambda>data_vec. ctz_lanes (avx512_cmp_int op data_vec (replicate 16 v) :: 16 word))
       (\<lambda>x. match_int op x v) 0 xs"

definition filter_avx512_i64 :: "u64 list \<Rightarrow> u64 \<Rightarrow> Op \<Rightarrow> nat list" where
  "filter_avx512_i64 xs v op =
     vector_from 8 (\<lambda>data_vec. ctz_lanes (avx512_cmp_int op data_vec (replicate 8 v) :: 8 word))
       (\<lambda>x. match_int op x v) 0 xs"

definition filter_avx512_f64 :: "u64 list \<Rightarrow> u64 \<Rightarrow> Op \<Rightarrow> nat list" where
  "filter_avx512_f64 xs v op =
     vector_from 8 (\<lambda>data_vec. ctz_lanes (avx512_cmp_pd op data_vec (replicate 8 v)))
       (\<lambda>x. match_f64 op x v) 0 xs"

section \<open>The dispatcher\<close>

record Cpu =
  cpu_avx512f :: bool
  cpu_avx512dq :: bool
  cpu_avx2 :: bool

definition filter_i32 :: "Cpu \<Rightarrow> u32 list \<Rightarrow> u32 \<Rightarrow> Op \<Rightarrow> nat list \<Rightarrow> nat list" where
  "filter_i32 cpu xs v op matching = matching @
     (if cpu_avx512f cpu \<and> cpu_avx512dq cpu then filter_avx512_i32 xs v op
      else if cpu_avx2 cpu then filter_avx2_i32 xs v op
      else filter_scalar_i32 xs v op)"

definition filter_i64 :: "Cpu \<Rightarrow> u64 list \<Rightarrow> u64 \<Rightarrow> Op \<Rightarrow> nat list \<Rightarrow> nat list" where
  "filter_i64 cpu xs v op matching = matching @
     (if cpu_avx512f cpu \<and> cpu_avx512dq cpu then filter_avx512_i64 xs v op
      else if cpu_avx2 cpu then filter_avx2_i64 xs v op
      else filter_scalar_i64 xs v op)"

definition filter_f64 :: "Cpu \<Rightarrow> u64 list \<Rightarrow> u64 \<Rightarrow> Op \<Rightarrow> nat list \<Rightarrow> nat list" where
  "filter_f64 cpu xs v op matching = matching @
     (if cpu_avx512f cpu \<and> cpu_avx512dq cpu then filter_avx512_f64 xs v op
      else if cpu_avx2 cpu then filter_avx2_f64 xs v op
      else filter_scalar_f64 xs v op)"

section \<open>Matching positions\<close>

text \<open>The reference: the positions at which a predicate holds, in ascending order.\<close>

definition positions :: "('a \<Rightarrow> bool) \<Rightarrow> 'a list \<Rightarrow> nat list" where
  "positions p xs = filter (\<lambda>i. p (xs ! i)) [0..<length xs]"

lemma positions_Cons:
  "positions p (x # xs) = (if p x then 0 # map Suc (positions p xs) else map Suc (positions p xs))"
proof -
  have "[0..<length (x # xs)] = 0 # map Suc [0..<length xs]"
    using map_Suc_upt [of 0 "length xs"] upt_conv_Cons [of 0 "Suc (length xs)"] by simp
  then show ?thesis by (simp add: positions_def filter_map comp_def del: upt_Suc)
qed

lemma positions_append:
  "positions p (xs @ ys) = positions p xs @ map (\<lambda>i. length xs + i) (positions p ys)"
proof (induction xs)
  case Nil
  show ?case by (simp add: positions_def)
next
  case (Cons x xs)
  then show ?case by (simp add: positions_Cons comp_def)
qed

lemma scalar_from_eq: "scalar_from p i xs = map (\<lambda>j. i + j) (positions p xs)"
proof (induction p i xs rule: scalar_from.induct)
  case (1 p i)
  show ?case by (simp add: positions_def)
next
  case (2 p i x xs)
  then show ?case by (simp add: positions_Cons comp_def)
qed

lemma vector_from_eq:
  assumes "\<And>v. length v = w \<Longrightarrow> lanes v = positions p v"
  shows "vector_from w lanes p i xs = map (\<lambda>j. i + j) (positions p xs)"
proof (induction "length xs" arbitrary: i xs rule: less_induct)
  case less
  show ?case
  proof (cases "0 < w \<and> w \<le> length xs")
    case True
    then have "vector_from w lanes p (i + w) (drop w xs) =
      map (\<lambda>j. i + w + j) (positions p (drop w xs))" by (intro less) auto
    moreover have "lanes (take w xs) = positions p (take w xs)" using True by (intro assms) simp
    moreover have "positions p xs = positions p (take w xs) @ map (\<lambda>i. w + i) (positions p (drop w xs))"
      using positions_append [of p "take w xs" "drop w xs"] True by simp
    ultimately show ?thesis
      using True by (subst vector_from.simps) (simp add: comp_def add.assoc)
  next
    case False
    then show ?thesis by (subst vector_from.simps) (auto simp: scalar_from_eq)
  qed
qed

section \<open>Masks\<close>

lemma bit_or_shift:
  "bit ((if b then 1 else 0) OR push_bit 1 m :: 'm::len word) i \<longleftrightarrow>
     (if i = 0 then b else i < LENGTH('m) \<and> bit m (i - 1))"
  unfolding bit_or_iff bit_push_bit_iff by (cases i) (auto simp: bit_1_iff)

lemma bit_movemask:
  "length xs \<le> 32 \<Longrightarrow> bit (mm256_movemask (xs :: 'w::len word list)) i \<longleftrightarrow>
     i < length xs \<and> bit (xs ! i) (LENGTH('w) - 1)"
proof (induction xs arbitrary: i)
  case (Cons x xs)
  then have IH: "bit (mm256_movemask xs) j \<longleftrightarrow> j < length xs \<and> bit (xs ! j) (LENGTH('w) - 1)" for j
    by simp
  have "i - 1 < length xs \<Longrightarrow> i < 32" using Cons.prems by (simp add: less_diff_conv2; linarith)
  then show ?case unfolding mm256_movemask.simps bit_or_shift IH by (cases i) (simp_all, blast+)
qed simp

lemma bit_cmp_mask:
  "length bs \<le> LENGTH('m) \<Longrightarrow> bit (cmp_mask bs :: 'm::len word) i \<longleftrightarrow> i < length bs \<and> bs ! i"
proof (induction bs arbitrary: i)
  case (Cons b bs)
  then have IH: "bit (cmp_mask bs :: 'm word) j \<longleftrightarrow> j < length bs \<and> bs ! j" for j
    by simp
  have "i - 1 < length bs \<Longrightarrow> i < LENGTH('m)" using Cons.prems by (simp; linarith)
  then show ?case unfolding cmp_mask.simps bit_or_shift IH by (cases i) (simp_all, blast+)
qed simp

lemma mask_lanes_eq: "mask_lanes n m = filter (bit m) [0..<n]"
proof -
  have "drop_bit b m AND 1 \<noteq> 0 \<longleftrightarrow> bit m b" for b
    by (simp add: and_one_eq bit_iff_odd_drop_bit odd_iff_mod_2_eq_one)
  then show ?thesis by (auto simp: mask_lanes_def filter_empty_conv)
qed

lemma movemask_lanes:
  assumes "length xs = n" "n \<le> 32"
  shows "mask_lanes n (mm256_movemask xs) =
    positions (\<lambda>x. bit x (LENGTH('w) - 1)) (xs :: 'w::len word list)"
  using assms by (auto simp: mask_lanes_eq positions_def bit_movemask intro!: filter_cong)

text \<open>Clearing the lowest set bit.\<close>

lemma ctz_set: "m \<noteq> 0 \<Longrightarrow> ctz m < LENGTH('m) \<and> bit (m :: 'm::len word) (ctz m) \<and> (\<forall>i < ctz m. \<not> bit m i)"
proof -
  assume "m \<noteq> 0"
  then obtain i where i: "bit m i" by (auto simp: bit_eq_iff)
  then have "i < LENGTH('m)" by (rule bit_imp_le_length)
  with i have "\<exists>x \<in> set [0..<LENGTH('m)]. bit m x" by auto
  then have lt: "ctz m < length [0..<LENGTH('m)]"
    unfolding ctz_def
    by (metis (no_types, lifting) le_neq_implies_less length_takeWhile_le set_takeWhileD
        take_all_iff takeWhile_eq_take order_refl)
  from nth_length_takeWhile [OF lt [unfolded ctz_def]] lt
  have "bit m (ctz m)" by (simp add: ctz_def)
  moreover have "\<not> bit m i" if "i < ctz m" for i
    using that lt nth_mem [of i "takeWhile (\<lambda>i. \<not> bit m i) [0..<LENGTH('m)]"]
    by (auto simp: ctz_def takeWhile_nth dest: set_takeWhileD)
  ultimately show ?thesis using lt by simp
qed

lemma div_block: "r < d \<Longrightarrow> (d * a + r) div d = (a :: nat)"
  by simp

lemma nat_lowest_bit:
  assumes "bit (m :: nat) k" "\<forall>i < k. \<not> bit m i" "k < n"
  shows "(m - 1) div 2 ^ n = m div 2 ^ n"
proof -
  have "take_bit k m = 0" using assms(2) by (simp add: bit_eq_iff bit_take_bit_iff)
  then have "m mod 2 ^ k = 0" by (simp add: take_bit_eq_mod)
  moreover have "m div 2 ^ k mod 2 = 1" using assms(1) by (simp add: bit_iff_odd odd_iff_mod_2_eq_one)
  ultimately have "m mod 2 ^ Suc k = 2 ^ k"
    using mod_mult2_eq [of m "2 ^ k" 2] by (simp add: mult.commute)
  then obtain q where m: "m = 2 ^ Suc k * q + 2 ^ k"
    by (metis mult_div_mod_eq)
  have n: "(2::nat) ^ n = 2 ^ Suc k * 2 ^ (n - Suc k)"
    using assms(3) by (metis Suc_leI le_add_diff_inverse power_add)
  have "m div 2 ^ Suc k = q" unfolding m by (rule div_block) simp
  moreover have "(m - 1) div 2 ^ Suc k = q"
  proof -
    have "m - 1 = 2 ^ Suc k * q + (2 ^ k - 1)" using m by simp
    moreover have "(2::nat) ^ k - 1 < 2 ^ Suc k" by (simp add: less_imp_diff_less)
    ultimately show ?thesis by (simp only: div_block)
  qed
  ultimately show ?thesis by (simp add: n div_mult2_eq)
qed

lemma nat_lowest_bit_at:
  assumes "bit (m :: nat) k" "\<forall>i < k. \<not> bit m i"
  shows "\<not> bit (m - 1) k"
proof -
  have "take_bit k m = 0" using assms(2) by (simp add: bit_eq_iff bit_take_bit_iff)
  then have "m mod 2 ^ k = 0" by (simp add: take_bit_eq_mod)
  then obtain q where m: "m = 2 ^ k * q" by (metis mod_0_imp_dvd dvdE)
  with assms(1) have q: "odd q" by (simp add: bit_iff_odd)
  then have "m - 1 = 2 ^ k * (q - 1) + (2 ^ k - 1)"
    using m by (cases q) (auto simp: algebra_simps)
  moreover have "(2::nat) ^ k - 1 < 2 ^ k" by simp
  ultimately have "(m - 1) div 2 ^ k = q - 1" by (simp only: div_block)
  with q show ?thesis by (simp add: bit_iff_odd)
qed

lemma bit_clear_lowest:
  assumes "(m :: 'm::len word) \<noteq> 0"
  shows "bit (m AND (m - 1)) i \<longleftrightarrow> bit m i \<and> i \<noteq> ctz m"
proof -
  have u: "bit x j \<longleftrightarrow> bit (unat x) j" for x :: "'m word" and j
    by (simp add: bit_unsigned_iff)
  have v: "bit (m - 1) j \<longleftrightarrow> bit (unat m - 1) j" for j
    using u [of "m - 1"] unat_minus_one [OF assms] by simp
  have k: "bit (unat m) (ctz m)" "\<forall>i < ctz m. \<not> bit (unat m) i"
    using ctz_set [OF assms] u by auto
  consider "i < ctz m" | "i = ctz m" | "ctz m < i" by linarith
  then show ?thesis
  proof cases
    case 1
    with k(2) show ?thesis by (simp add: bit_and_iff u [of m])
  next
    case 2
    with nat_lowest_bit_at [OF k] show ?thesis by (simp add: bit_and_iff v)
  next
    case 3
    from nat_lowest_bit [OF k 3] have "bit (unat m - 1) i \<longleftrightarrow> bit (unat m) i"
      by (simp add: bit_iff_odd)
    with 3 show ?thesis by (auto simp: bit_and_iff u [of m] v)
  qed
qed

text \<open>The loop that clears the lowest bit visits the set bits in ascending order.\<close>

lemma filter_remove_first:
  assumes "\<forall>i < k. \<not> p i" "p k" "k < n"
  shows "filter p [0..<n] = k # filter (\<lambda>i. p i \<and> i \<noteq> k) [0..<n]"
proof -
  have split: "[0..<n] = [0..<k] @ k # [Suc k..<n]"
    using assms(3) upt_add_eq_append [of 0 k "n - k"] upt_conv_Cons [of k n] by simp
  have "filter p [0..<k] = []" "filter (\<lambda>i. p i \<and> i \<noteq> k) [0..<k] = []"
    using assms(1) by (simp_all add: filter_empty_conv)
  moreover have "filter (\<lambda>i. p i \<and> i \<noteq> k) [Suc k..<n] = filter p [Suc k..<n]"
    by (rule filter_cong) auto
  ultimately show ?thesis using assms(2) unfolding split by simp
qed

lemma ctz_lanes_eq: "ctz_lanes m = filter (bit m) [0..<LENGTH('m)]" for m :: "'m::len word"
proof (induction m rule: ctz_lanes.induct)
  case (1 m)
  show ?case
  proof (cases "m = 0")
    case True
    then show ?thesis by (simp add: ctz_lanes.simps)
  next
    case False
    have "filter (bit m) [0..<LENGTH('m)] =
        ctz m # filter (\<lambda>i. bit m i \<and> i \<noteq> ctz m) [0..<LENGTH('m)]"
      using ctz_set [OF False] by (intro filter_remove_first) auto
    also have "filter (\<lambda>i. bit m i \<and> i \<noteq> ctz m) [0..<LENGTH('m)] = ctz_lanes (m AND (m - 1))"
      using "1.IH" [OF False] by (simp add: bit_clear_lowest [OF False, abs_def])
    finally show ?thesis using False by (subst ctz_lanes.simps) simp
  qed
qed

lemma ctz_lanes_mask:
  assumes "length bs = LENGTH('m)"
  shows "ctz_lanes (cmp_mask bs :: 'm::len word) = positions (\<lambda>b. b) bs"
  using assms by (auto simp: ctz_lanes_eq positions_def bit_cmp_mask intro!: filter_cong)

section \<open>Lanes\<close>

lemma lane_mask_sign [simp]: "bit (lane_mask b :: 'w::len word) (LENGTH('w) - 1) \<longleftrightarrow> b"
  by (simp add: lane_mask_def)

lemma lane_mask_sign_Suc [simp]: "bit (lane_mask b :: 'w::len word) (LENGTH('w) - Suc 0) \<longleftrightarrow> b"
  using lane_mask_sign by simp

lemma lane_mask_not [simp]: "NOT (lane_mask b) = lane_mask (\<not> b)"
  by (simp add: lane_mask_def)

lemma positions_map: "positions p (map f xs) = positions (\<lambda>x. p (f x)) xs"
  by (auto simp: positions_def intro!: filter_cong)

lemma map2_replicate: "length xs = n \<Longrightarrow> map2 f xs (replicate n v) = map (\<lambda>x. f x v) xs"
  by (induction xs arbitrary: n) auto

lemma map2_replicate_left: "length xs = n \<Longrightarrow> map2 f (replicate n v) xs = map (\<lambda>x. f v x) xs"
  by (induction xs arbitrary: n) auto

lemmas lane_simps = mm256_cmpeq_def mm256_cmpgt_def mm256_xor_def mm256_set1_def
  map2_replicate map2_replicate_left comp_def

lemma sle_iff_not_sless: "x \<le>s y \<longleftrightarrow> \<not> y <s (x :: 'w::len word)"
  by (auto simp: word_sle_eq word_sless_alt)

lemma avx2_cmp_int_eq:
  "length xs = n \<Longrightarrow> avx2_cmp_int op xs (mm256_set1 n v) = map (\<lambda>x. lane_mask (match_int op x v)) xs"
  by (cases op) (simp_all add: avx2_cmp_int_def lane_simps sle_iff_not_sless)

lemma avx2_cmp_pd_eq:
  "length xs = n \<Longrightarrow> avx2_cmp_pd op xs (mm256_set1 n v) = map (\<lambda>x. lane_mask (match_f64 op x v)) xs"
  by (cases op) (simp_all add: avx2_cmp_pd_def lane_simps)

lemma avx512_cmp_int_eq:
  "length xs = n \<Longrightarrow> avx512_cmp_int op xs (replicate n v) = cmp_mask (map (\<lambda>x. match_int op x v) xs)"
  by (cases op) (simp_all add: avx512_cmp_int_def lane_simps)

lemma avx512_cmp_pd_eq:
  "length xs = n \<Longrightarrow> avx512_cmp_pd op xs (replicate n v) = cmp_mask (map (\<lambda>x. match_f64 op x v) xs)"
  by (cases op) (simp_all add: avx512_cmp_pd_def lane_simps)

text \<open>One register of each kind.\<close>

lemma avx2_register:
  assumes "length xs = n" "n \<le> 32"
  shows "mask_lanes n (mm256_movemask (map (\<lambda>x. lane_mask (p x) :: 'w::len word) xs)) = positions p xs"
  using movemask_lanes [of "map (\<lambda>x. lane_mask (p x) :: 'w word) xs" n] assms
  by (simp add: positions_map)

lemma avx512_register:
  "length xs = LENGTH('m) \<Longrightarrow> ctz_lanes (cmp_mask (map p xs) :: 'm::len word) = positions p xs"
  using ctz_lanes_mask [of "map p xs", where 'm='m] by (simp add: positions_map)

section \<open>All implementations agree\<close>

lemma scalar_eq:
  "filter_scalar_i32 a v op = positions (\<lambda>x. match_int op x v) a"
  "filter_scalar_i64 b w op = positions (\<lambda>x. match_int op x w) b"
  "filter_scalar_f64 b w op = positions (\<lambda>x. match_f64 op x w) b"
  by (simp_all add: filter_scalar_i32_def filter_scalar_i64_def filter_scalar_f64_def scalar_from_eq)

lemma avx2_eq:
  "filter_avx2_i32 a v op = positions (\<lambda>x. match_int op x v) a"
  "filter_avx2_i64 b w op = positions (\<lambda>x. match_int op x w) b"
  "filter_avx2_f64 b w op = positions (\<lambda>x. match_f64 op x w) b"
  by (simp_all add: filter_avx2_i32_def filter_avx2_i64_def filter_avx2_f64_def vector_from_eq
      avx2_cmp_int_eq avx2_cmp_pd_eq avx2_register)

lemma avx512_eq:
  "filter_avx512_i32 a v op = positions (\<lambda>x. match_int op x v) a"
  "filter_avx512_i64 b w op = positions (\<lambda>x. match_int op x w) b"
  "filter_avx512_f64 b w op = positions (\<lambda>x. match_f64 op x w) b"
  by (simp_all add: filter_avx512_i32_def filter_avx512_i64_def filter_avx512_f64_def vector_from_eq
      avx512_cmp_int_eq avx512_cmp_pd_eq avx512_register)

text \<open>
  C29: on every processor the dispatched filter over 32-bit integers, 64-bit integers and
  doubles appends exactly the positions whose element satisfies the comparison, in ascending
  order: the AVX2 and AVX-512 routines agree with the scalar loop for every column length.
\<close>

theorem simd_filter_positions:
  "filter_i32 cpu a v op m = m @ positions (\<lambda>x. match_int op x v) a \<and>
   filter_i64 cpu b w op m = m @ positions (\<lambda>x. match_int op x w) b \<and>
   filter_f64 cpu b w op m = m @ positions (\<lambda>x. match_f64 op x w) b"
  by (simp add: filter_i32_def filter_i64_def filter_f64_def scalar_eq avx2_eq avx512_eq)

end
