(* ===== verification/Ast.thy ===== *)
theory Ast
  imports Float64 Cstring
begin

text \<open>
  The tokens and the abstract syntax of \<open>src/src/query/parser.hpp\<close>, with the schema of
  \<open>src/src/storage/table.hpp\<close>. The scoped enumerations share constructor names in C++; here
  they are told apart by a prefix. An \<open>int64_t\<close> and a \<open>double\<close> are 64-bit patterns. Owned
  pointers to expressions are expressions, a pointer that may be null is an option; the flags
  \<open>has_where\<close>, \<open>has_join\<close>, \<open>has_order_by\<close>, \<open>has_limit\<close> and \<open>has_offset\<close>, which are set
  exactly when the field they guard is, are the \<open>None\<close>/\<open>Some\<close> of that field.
\<close>

datatype TokenType = tIdentifier | tNumber | tString | tStar | tComma | tLParen | tRParen
  | tSemicolon | tEq | tNe | tLt | tGt | tLe | tGe | tInsert | tInto | tValues | tSelect | tFrom
  | tWhere | tDelete | tCreate | tTable | tIndex | tOn | tOrder | tBy | tAsc | tDesc | tLimit
  | tOffset | tVacuum | tUpdate | tSet | tBeginTxn | tCommitTxn | tRollbackTxn | tCount | tSum
  | tAvg | tMin | tMax | tGroup | tJoin | tDot | tAnd | tOr | tIn | tBackup | tTo | tInterval
  | tRetention | tEnd

record Token =
  tok_type :: TokenType
  tok_text :: string

datatype AggFunc = AggNone | AggCount | AggSum | AggAvg | AggMin | AggMax

record ColumnRef =
  cr_table :: string
  cr_name :: string
  cr_func :: AggFunc
  cr_is_star :: bool

record JoinClause =
  jc_table_name :: string
  jc_left_col :: ColumnRef
  jc_right_col :: ColumnRef

datatype Value = VInt u64 | VDouble u64 | VStr string

datatype CmpOp = CmpEq | CmpNe | CmpLt | CmpGt | CmpLe | CmpGe | CmpIn

text \<open>A predicate has a value, or for \<open>IN\<close> a list of values; the other field keeps its
  default.\<close>

record Predicate =
  pr_column :: ColumnRef
  pr_op :: CmpOp
  pr_value :: Value
  pr_in_values :: "Value list"

datatype ExprNode = EPred Predicate | EAnd ExprNode ExprNode | EOr ExprNode ExprNode

record InsertStmt =
  in_table_name :: string
  in_rows :: "Value list list"

record OrderBy =
  ob_column :: ColumnRef
  ob_asc :: bool

record SelectStmt =
  se_columns :: "ColumnRef list"
  se_table_name :: string
  se_where :: "ExprNode option"
  se_group_by :: "ColumnRef list"
  se_join_clause :: "JoinClause option"
  se_order_by :: "OrderBy option"
  se_limit :: "u64 option"
  se_offset :: "u64 option"

record DeleteStmt =
  de_table_name :: string
  de_where :: "ExprNode option"

record UpdateStmt =
  up_table_name :: string
  up_column_name :: string
  up_new_value :: Value
  up_where :: "ExprNode option"

record ColumnDef =
  cdef_name :: string
  cdef_type :: ColumnType

record CreateStmt =
  cs_table_name :: string
  cs_columns :: "ColumnDef list"

record CreateIndexStmt =
  ci_index_name :: string
  ci_table_name :: string
  ci_column_name :: string

record ConfigStmt =
  cf_key :: string
  cf_value :: u32

datatype Statement = SInsert InsertStmt | SSelect SelectStmt | SDelete DeleteStmt
  | SCreate CreateStmt | SCreateIndex CreateIndexStmt | SVacuum string | SUpdate UpdateStmt
  | SBegin | SCommit | SRollback | SBackup string | SConfig ConfigStmt

record Schema =
  sc_columns :: "ColumnType list"
  sc_names :: "string list"

end
