(* ===== verification/Sql_Values.thy ===== *)
theory Sql_Values
  imports Float64 Ast
begin

text \<open>
  What a comparison of SQL means, independently of how the program evaluates it: values are
  mathematical integers, doubles, strings and truth values; numbers are compared by their value,
  strings by their characters. \<open>docs/sql_dialect.md\<close> describes the comparisons and the types. The
  filter and the executor are proved to compute this meaning under \<open>literal_fits\<close>, which names the
  literals for which they do.
\<close>

datatype SqlValue = SqlInt int | SqlDouble u64 | SqlText string | SqlBool bool

datatype Comparison = Less | Same | Greater

definition compare_by :: "bool \<Rightarrow> bool \<Rightarrow> Comparison" where
  "compare_by lower higher = (if lower then Less else if higher then Greater else Same)"

text \<open>An integer and a double are compared exactly; \<open>f64_scaled\<close> is the double times \<open>2^1074\<close>.\<close>

definition compare_int_double :: "int \<Rightarrow> u64 \<Rightarrow> Comparison option" where
  "compare_int_double a d =
     (if f64_nan d then None
      else if f64_is_inf d then Some (if bit d 63 then Greater else Less)
      else Some (compare_by (a * 2 ^ 1074 < f64_scaled d) (f64_scaled d < a * 2 ^ 1074)))"

fun inverse_comparison :: "Comparison \<Rightarrow> Comparison" where
  "inverse_comparison Less = Greater"
| "inverse_comparison Same = Same"
| "inverse_comparison Greater = Less"

text \<open>The truth values compare with the numbers 0 and 1; values of other different types do not compare.\<close>

fun sql_compare :: "SqlValue \<Rightarrow> SqlValue \<Rightarrow> Comparison option" where
  "sql_compare (SqlInt a) (SqlInt b) = Some (compare_by (a < b) (b < a))"
| "sql_compare (SqlDouble a) (SqlDouble b) =
     (if f64_nan a \<or> f64_nan b then None else Some (compare_by (f64_lt a b) (f64_lt b a)))"
| "sql_compare (SqlInt a) (SqlDouble b) = compare_int_double a b"
| "sql_compare (SqlDouble a) (SqlInt b) = map_option inverse_comparison (compare_int_double b a)"
| "sql_compare (SqlText a) (SqlText b) = Some (compare_by (str_less a b) (str_less b a))"
| "sql_compare (SqlBool a) (SqlBool b) = Some (compare_by (a < b) (b < a))"
| "sql_compare (SqlBool a) (SqlInt b) = Some (compare_by (of_bool a < b) (b < of_bool a))"
| "sql_compare (SqlInt a) (SqlBool b) = Some (compare_by (a < of_bool b) (of_bool b < a))"
| "sql_compare _ _ = None"

fun comparison_holds :: "CmpOp \<Rightarrow> Comparison \<Rightarrow> bool" where
  "comparison_holds CmpEq c \<longleftrightarrow> c = Same"
| "comparison_holds CmpNe c \<longleftrightarrow> c \<noteq> Same"
| "comparison_holds CmpLt c \<longleftrightarrow> c = Less"
| "comparison_holds CmpGt c \<longleftrightarrow> c = Greater"
| "comparison_holds CmpLe c \<longleftrightarrow> c \<noteq> Greater"
| "comparison_holds CmpGe c \<longleftrightarrow> c \<noteq> Less"
| "comparison_holds CmpIn c \<longleftrightarrow> False"

definition sql_holds :: "CmpOp \<Rightarrow> SqlValue \<Rightarrow> SqlValue \<Rightarrow> bool" where
  "sql_holds op a b \<longleftrightarrow> (case sql_compare a b of None \<Rightarrow> False | Some c \<Rightarrow> comparison_holds op c)"

text \<open>A predicate on the value of its column: \<open>IN\<close> is equality with one of the list.\<close>

fun literal_value :: "Value \<Rightarrow> SqlValue" where
  "literal_value (VInt n) = SqlInt (sint n)"
| "literal_value (VDouble d) = SqlDouble d"
| "literal_value (VStr s) = SqlText s"

definition sql_pred :: "Predicate \<Rightarrow> SqlValue \<Rightarrow> bool" where
  "sql_pred p v \<longleftrightarrow>
     (if pr_op p = CmpIn then \<exists>x \<in> set (pr_in_values p). sql_holds CmpEq v (literal_value x)
      else sql_holds (pr_op p) v (literal_value (pr_value p)))"

section \<open>Literals of the type of their column\<close>

text \<open>
  A literal fits its column if it is an integer for an integer column, in the range of the column,
  a double that is not NaN for a \<open>FLOAT64\<close> column (in any comparison but \<open>!=\<close>, for which the program
  has a tolerance), or a string for a \<open>VARCHAR\<close> column. No literal fits a \<open>BOOL\<close> column: the program
  has no comparison for it. \<open>mismatched_literal_matches_nothing\<close>, \<open>int32_literal_truncated\<close> and
  \<open>double_neither_equal_nor_different\<close> show that each of these conditions is needed.
\<close>

fun literal_fits :: "ColumnType \<Rightarrow> CmpOp \<Rightarrow> Value \<Rightarrow> bool" where
  "literal_fits kInt64 op v \<longleftrightarrow> (case v of VInt n \<Rightarrow> True | _ \<Rightarrow> False)"
| "literal_fits kTimestamp op v \<longleftrightarrow> (case v of VInt n \<Rightarrow> True | _ \<Rightarrow> False)"
| "literal_fits kInt32 op v \<longleftrightarrow> (case v of VInt n \<Rightarrow> - (2 ^ 31) \<le> sint n \<and> sint n < 2 ^ 31 | _ \<Rightarrow> False)"
| "literal_fits kFloat64 op v \<longleftrightarrow> (case v of VDouble d \<Rightarrow> \<not> f64_nan d \<and> op \<noteq> CmpNe | _ \<Rightarrow> False)"
| "literal_fits kVarChar op v \<longleftrightarrow> (case v of VStr s \<Rightarrow> True | _ \<Rightarrow> False)"
| "literal_fits kBool op v \<longleftrightarrow> False"

definition pred_fits :: "ColumnType \<Rightarrow> Predicate \<Rightarrow> bool" where
  "pred_fits ct p \<longleftrightarrow>
     (if pr_op p = CmpIn then list_all (literal_fits ct CmpEq) (pr_in_values p)
      else literal_fits ct (pr_op p) (pr_value p))"

section \<open>Comparisons of one type\<close>

lemma sql_holds_int: "sql_holds op (SqlInt a) (SqlInt b) \<longleftrightarrow>
   (case op of CmpEq \<Rightarrow> a = b | CmpNe \<Rightarrow> a \<noteq> b | CmpLt \<Rightarrow> a < b | CmpGt \<Rightarrow> b < a | CmpLe \<Rightarrow> a \<le> b | CmpGe \<Rightarrow> b \<le> a
    | CmpIn \<Rightarrow> False)"
  by (cases op) (auto simp: sql_holds_def compare_by_def)

lemma sql_holds_text: "sql_holds op (SqlText a) (SqlText b) \<longleftrightarrow>
   (case op of CmpEq \<Rightarrow> a = b | CmpNe \<Rightarrow> a \<noteq> b | CmpLt \<Rightarrow> str_less a b | CmpGt \<Rightarrow> str_less b a
    | CmpLe \<Rightarrow> \<not> str_less b a | CmpGe \<Rightarrow> \<not> str_less a b | CmpIn \<Rightarrow> False)"
  using str_less_total [of a b] strs.lt_asym [of a b] by (cases op) (auto simp: sql_holds_def compare_by_def)

lemma sql_holds_double: "sql_holds op (SqlDouble a) (SqlDouble b) \<longleftrightarrow>
   (case op of CmpEq \<Rightarrow> f64_eq a b | CmpNe \<Rightarrow> \<not> f64_nan a \<and> \<not> f64_nan b \<and> \<not> f64_eq a b | CmpLt \<Rightarrow> f64_lt a b | CmpGt \<Rightarrow> f64_lt b a
    | CmpLe \<Rightarrow> f64_le a b | CmpGe \<Rightarrow> f64_le b a | CmpIn \<Rightarrow> False)"
  by (cases op) (auto simp: sql_holds_def compare_by_def f64_eq_def f64_lt_def f64_le_def)

end
