(* ===== verification/Row_Filter.thy ===== *)
theory Row_Filter
  imports Simd Sql_Values
begin

text \<open>
  The predicate filter of \<open>src/src/query/executor_filter.cpp\<close>: column lookup, the comparison
  helpers, \<open>IN\<close> lists (sorted, then searched by halving), the vectorised comparison with the
  null bitmap applied afterwards, and the combination of row sets for \<open>AND\<close> and \<open>OR\<close> by
  merging sorted ranges. Its correctness is stated against a row-wise reading of the
  expression.
\<close>

section \<open>Standard-library set operations\<close>

text \<open>\<open>std::set_intersection\<close> and \<open>std::set_union\<close> of two ascending ranges.\<close>

fun set_intersection :: "nat list \<Rightarrow> nat list \<Rightarrow> nat list" where
  "set_intersection (x # xs) (y # ys) =
     (if x < y then set_intersection xs (y # ys)
      else if y < x then set_intersection (x # xs) ys
      else x # set_intersection xs ys)"
| "set_intersection _ _ = []"

fun set_union :: "nat list \<Rightarrow> nat list \<Rightarrow> nat list" where
  "set_union [] ys = ys"
| "set_union xs [] = xs"
| "set_union (x # xs) (y # ys) =
     (if x < y then x # set_union xs (y # ys)
      else if y < x then y # set_union (x # xs) ys
      else x # set_union xs ys)"

text \<open>\<open>std::binary_search\<close>: the element at the lower bound must not be above the value.\<close>

definition binary_search :: "('a \<Rightarrow> 'a \<Rightarrow> bool) \<Rightarrow> 'a list \<Rightarrow> 'a \<Rightarrow> bool" where
  "binary_search lt xs v =
     (let i = lower_bound (\<lambda>x. lt x v) xs in i < length xs \<and> \<not> lt v (xs ! i))"

section \<open>Comparisons (\<open>executor_filter.cpp\<close>)\<close>

fun index_of :: "string list \<Rightarrow> string \<Rightarrow> nat \<Rightarrow> nat StatusOr" where
  "index_of [] name i = Inl kNotFound"
| "index_of (n # ns) name i = (if n = name then Inr i else index_of ns name (Suc i))"

definition get_column_index :: "Schema \<Rightarrow> string \<Rightarrow> nat StatusOr" where
  "get_column_index schema name = index_of (sc_names schema) name 0"

fun apply_int :: "int \<Rightarrow> int \<Rightarrow> CmpOp \<Rightarrow> bool" where
  "apply_int v val CmpEq \<longleftrightarrow> v = val"
| "apply_int v val CmpNe \<longleftrightarrow> v \<noteq> val"
| "apply_int v val CmpLt \<longleftrightarrow> v < val"
| "apply_int v val CmpGt \<longleftrightarrow> v > val"
| "apply_int v val CmpLe \<longleftrightarrow> v \<le> val"
| "apply_int v val CmpGe \<longleftrightarrow> v \<ge> val"
| "apply_int v val CmpIn \<longleftrightarrow> False"

text \<open>The tolerance \<open>1e-12\<close>; a difference that is NaN compares false either way.\<close>

definition kEpsilon :: u64 where "kEpsilon = f64_of_ratio 1 1000000000000"

fun apply_double :: "u64 \<Rightarrow> u64 \<Rightarrow> CmpOp \<Rightarrow> bool" where
  "apply_double v val CmpEq \<longleftrightarrow> (case f64_absdiff v val of None \<Rightarrow> False | Some d \<Rightarrow> f64_lt d kEpsilon)"
| "apply_double v val CmpNe \<longleftrightarrow> (case f64_absdiff v val of None \<Rightarrow> False | Some d \<Rightarrow> f64_le kEpsilon d)"
| "apply_double v val CmpLt \<longleftrightarrow> f64_lt v val"
| "apply_double v val CmpGt \<longleftrightarrow> f64_lt val v"
| "apply_double v val CmpLe \<longleftrightarrow> f64_le v val"
| "apply_double v val CmpGe \<longleftrightarrow> f64_le val v"
| "apply_double v val CmpIn \<longleftrightarrow> False"

fun apply_str :: "string \<Rightarrow> string \<Rightarrow> CmpOp \<Rightarrow> bool" where
  "apply_str v val CmpEq \<longleftrightarrow> v = val"
| "apply_str v val CmpNe \<longleftrightarrow> v \<noteq> val"
| "apply_str v val CmpLt \<longleftrightarrow> str_less v val"
| "apply_str v val CmpGt \<longleftrightarrow> str_less val v"
| "apply_str v val CmpLe \<longleftrightarrow> \<not> str_less val v"
| "apply_str v val CmpGe \<longleftrightarrow> \<not> str_less v val"
| "apply_str v val CmpIn \<longleftrightarrow> False"

fun get_simd_op :: "CmpOp \<Rightarrow> Op" where
  "get_simd_op CmpEq = OpEq"
| "get_simd_op CmpGt = OpGt"
| "get_simd_op CmpLt = OpLt"
| "get_simd_op CmpGe = OpGe"
| "get_simd_op CmpLe = OpLe"
| "get_simd_op _ = OpEq"

section \<open>Columns in memory\<close>

definition is_null :: "ColumnData \<Rightarrow> nat \<Rightarrow> bool" where
  "is_null col i =
     (case cd_nulls col of None \<Rightarrow> False
      | Some nulls \<Rightarrow> drop_bit (i mod 8) (nulls ! (i div 8)) AND 1 \<noteq> 0)"

text \<open>The column viewed as an array of \<open>int32_t\<close>, of 64-bit elements, of strings.\<close>

definition arr32 :: "ColumnData \<Rightarrow> nat \<Rightarrow> u32" where "arr32 col i = u32_at (cd_data col) (4 * i)"
definition arr64 :: "ColumnData \<Rightarrow> nat \<Rightarrow> u64" where "arr64 col i = u64_at (cd_data col) (8 * i)"

definition arr_str :: "ColumnData \<Rightarrow> nat \<Rightarrow> nat \<Rightarrow> string" where
  "arr_str col row_count i =
     (let start = (if i = 0 then 0 else u32_at (cd_data col) (4 * (i - 1)));
          end = u32_at (cd_data col) (4 * i)
      in bytes_string (take (unat (end - start)) (drop (row_count * 4 + unat start) (cd_data col))))"

section \<open>Evaluation\<close>

definition value_ints :: "Value list \<Rightarrow> u64 list" where
  "value_ints vs = List.map_filter (\<lambda>v. case v of VInt n \<Rightarrow> Some n | _ \<Rightarrow> None) vs"

definition value_doubles :: "Value list \<Rightarrow> u64 list" where
  "value_doubles vs = List.map_filter (\<lambda>v. case v of VDouble d \<Rightarrow> Some d | _ \<Rightarrow> None) vs"

definition value_strings :: "Value list \<Rightarrow> string list" where
  "value_strings vs = List.map_filter (\<lambda>v. case v of VStr s \<Rightarrow> Some s | _ \<Rightarrow> None) vs"

text \<open>The loop over all rows that skips nulls.\<close>

definition scan_rows :: "ColumnData \<Rightarrow> nat \<Rightarrow> (nat \<Rightarrow> bool) \<Rightarrow> nat list" where
  "scan_rows col row_count match = filter (\<lambda>i. \<not> is_null col i \<and> match i) [0..<row_count]"

definition evaluate_in :: "ColumnType \<Rightarrow> ColumnData \<Rightarrow> nat \<Rightarrow> Value list \<Rightarrow> nat list" where
  "evaluate_in col_type col row_count in_values =
     (if col_type = kInt64 \<or> col_type = kTimestamp then
        let in_set = std_sort (<s) (value_ints in_values)
        in scan_rows col row_count (\<lambda>i. binary_search (<s) in_set (arr64 col i))
      else if col_type = kInt32 then
        let in_set = std_sort (<s) (map (\<lambda>n. ucast n :: u32) (value_ints in_values))
        in scan_rows col row_count (\<lambda>i. binary_search (<s) in_set (arr32 col i))
      else if col_type = kFloat64 then
        let in_set = std_sort f64_lt (value_doubles in_values)
        in scan_rows col row_count (\<lambda>i. binary_search f64_lt in_set (arr64 col i))
      else if col_type = kVarChar then
        let in_set = std_sort str_less (value_strings in_values)
        in scan_rows col row_count (\<lambda>i.
             let v = arr_str col row_count i; k = lower_bound (\<lambda>x. str_less x v) in_set
             in k < length in_set \<and> in_set ! k = v)
      else [])"

definition evaluate_cmp :: "Cpu \<Rightarrow> ColumnType \<Rightarrow> ColumnData \<Rightarrow> nat \<Rightarrow> CmpOp \<Rightarrow> Value \<Rightarrow> nat list" where
  "evaluate_cmp cpu col_type col row_count op value =
     (case value of
        VInt val \<Rightarrow>
          if col_type = kInt64 \<or> col_type = kTimestamp then
            if op \<noteq> CmpNe
            then filter (\<lambda>i. \<not> is_null col i)
                   (filter_i64 cpu (map (arr64 col) [0..<row_count]) val (get_simd_op op) [])
            else scan_rows col row_count (\<lambda>i. apply_int (sint (arr64 col i)) (sint val) op)
          else if col_type = kInt32 then
            if op \<noteq> CmpNe
            then filter (\<lambda>i. \<not> is_null col i)
                   (filter_i32 cpu (map (arr32 col) [0..<row_count]) (ucast val) (get_simd_op op) [])
            else scan_rows col row_count (\<lambda>i. apply_int (sint (arr32 col i)) (sint val) op)
          else []
      | VDouble val \<Rightarrow>
          if col_type = kFloat64 then
            if op \<noteq> CmpNe
            then filter (\<lambda>i. \<not> is_null col i)
                   (filter_f64 cpu (map (arr64 col) [0..<row_count]) val (get_simd_op op) [])
            else scan_rows col row_count (\<lambda>i. apply_double (arr64 col i) val op)
          else []
      | VStr val \<Rightarrow>
          if col_type = kVarChar
          then scan_rows col row_count (\<lambda>i. apply_str (arr_str col row_count i) val op)
          else [])"

definition evaluate_predicate :: "Cpu \<Rightarrow> ColumnData list \<Rightarrow> Schema \<Rightarrow> nat \<Rightarrow> Predicate \<Rightarrow> nat list StatusOr" where
  "evaluate_predicate cpu columns schema row_count pred =
     (case get_column_index schema (cr_name (pr_column pred)) of
        Inl e \<Rightarrow> Inl e
      | Inr idx \<Rightarrow>
          let col = columns ! idx; col_type = sc_columns schema ! idx
          in Inr (if pr_op pred = CmpIn then evaluate_in col_type col row_count (pr_in_values pred)
                  else evaluate_cmp cpu col_type col row_count (pr_op pred) (pr_value pred)))"

fun evaluate_expr :: "Cpu \<Rightarrow> ColumnData list \<Rightarrow> Schema \<Rightarrow> nat \<Rightarrow> ExprNode \<Rightarrow> nat list StatusOr" where
  "evaluate_expr cpu columns schema row_count (EAnd l r) =
     (case evaluate_expr cpu columns schema row_count l of Inl e \<Rightarrow> Inl e
      | Inr left \<Rightarrow>
          (case evaluate_expr cpu columns schema row_count r of Inl e \<Rightarrow> Inl e
           | Inr right \<Rightarrow> Inr (set_intersection left right)))"
| "evaluate_expr cpu columns schema row_count (EOr l r) =
     (case evaluate_expr cpu columns schema row_count l of Inl e \<Rightarrow> Inl e
      | Inr left \<Rightarrow>
          (case evaluate_expr cpu columns schema row_count r of Inl e \<Rightarrow> Inl e
           | Inr right \<Rightarrow> Inr (set_union left right)))"
| "evaluate_expr cpu columns schema row_count (EPred pred) =
     evaluate_predicate cpu columns schema row_count pred"

definition evaluate :: "Cpu \<Rightarrow> ColumnData list \<Rightarrow> Schema \<Rightarrow> nat \<Rightarrow> ExprNode option \<Rightarrow> nat list StatusOr" where
  "evaluate cpu columns schema row_count expr =
     (case expr of None \<Rightarrow> Inr [0..<row_count]
      | Some e \<Rightarrow> evaluate_expr cpu columns schema row_count e)"

text \<open>\<open>match_count\<close> evaluates nothing of the predicate.\<close>

definition match_count :: "ColumnData list \<Rightarrow> Schema \<Rightarrow> nat \<Rightarrow> Predicate \<Rightarrow> nat StatusOr" where
  "match_count columns schema row_count pred = Inr 0"

section \<open>Searching a sorted list\<close>

context weak_order
begin

lemma partitioned_below: "sorted_wrt (\<lambda>a b. \<not> lt b a) xs \<Longrightarrow> partitioned (\<lambda>x. lt x v) xs"
  unfolding partitioned_def
  by (erule sorted_wrt_mono_rel [rotated]) (metis not_lt_trans)

text \<open>In a sorted list the search finds exactly the values equivalent to the one sought.\<close>

lemma binary_search_sorted:
  assumes "sorted_wrt (\<lambda>a b. \<not> lt b a) xs"
  shows "binary_search lt xs v \<longleftrightarrow> (\<exists>x \<in> set xs. \<not> lt x v \<and> \<not> lt v x)"
proof -
  let ?k = "length (takeWhile (\<lambda>x. lt x v) xs)"
  have part: "partitioned (\<lambda>x. lt x v) xs" by (rule partitioned_below [OF assms])
  have lb: "lower_bound (\<lambda>x. lt x v) xs = ?k" using part by (rule lower_bound_eq)
  show ?thesis
  proof
    assume "binary_search lt xs v"
    then have k: "?k < length xs" "\<not> lt v (xs ! ?k)" by (simp_all add: binary_search_def lb Let_def)
    with partitioned_nth [OF part k(1)] show "\<exists>x \<in> set xs. \<not> lt x v \<and> \<not> lt v x"
      using nth_mem by blast
  next
    assume "\<exists>x \<in> set xs. \<not> lt x v \<and> \<not> lt v x"
    then obtain i where i: "i < length xs" "\<not> lt (xs ! i) v" "\<not> lt v (xs ! i)"
      by (auto simp: in_set_conv_nth)
    then have ki: "?k \<le> i" using partitioned_nth [OF part i(1)] by simp
    have "\<not> lt (xs ! i) (xs ! ?k)"
      using assms ki i(1) by (cases "?k = i") (auto simp: sorted_wrt_iff_nth_less dest: lt_asym)
    with i ki have "?k < length xs" "\<not> lt v (xs ! ?k)"
      using not_lt_trans [of "xs ! i" "xs ! ?k" v] by auto
    then show "binary_search lt xs v" by (simp add: binary_search_def lb Let_def)
  qed
qed

lemma binary_search_sort:
  "binary_search lt (std_sort lt xs) v \<longleftrightarrow> (\<exists>x \<in> set xs. \<not> lt x v \<and> \<not> lt v x)"
  by (simp add: binary_search_sorted sorted_std_sort)

end

interpretation sints: weak_order "(<s) :: 'w::len word \<Rightarrow> 'w word \<Rightarrow> bool"
  by unfold_locales (auto simp: word_sless_alt)

interpretation f64keys: weak_order "\<lambda>a b. f64_key a < f64_key b"
  by unfold_locales auto

lemma binary_search_sints:
  "binary_search (<s) (std_sort (<s) xs) v \<longleftrightarrow> v \<in> set (xs :: 'w::len word list)"
proof -
  have "\<not> x <s v \<and> \<not> v <s x \<longleftrightarrow> x = v" for x
    by (auto simp: word_sless_alt signed_word_eqI intro: signed_word_eqI)
  then show ?thesis by (simp add: sints.binary_search_sort)
qed

text \<open>Without NaN the comparison of doubles is the comparison of their keys.\<close>

lemma sort_insert_cong:
  "(\<And>y. y \<in> set ys \<Longrightarrow> lt y x = lt' y x) \<Longrightarrow> sort_insert lt x ys = sort_insert lt' x ys"
  by (induction ys) auto

lemma std_sort_cong:
  "(\<And>x y. x \<in> set xs \<Longrightarrow> y \<in> set xs \<Longrightarrow> lt x y = lt' x y) \<Longrightarrow> std_sort lt xs = std_sort lt' xs"
proof (induction xs)
  case Nil
  show ?case by (simp add: std_sort_def)
next
  case (Cons x xs)
  then have IH: "std_sort lt xs = std_sort lt' xs" by auto
  have "sort_insert lt x (std_sort lt' xs) = sort_insert lt' x (std_sort lt' xs)"
    using Cons.prems by (intro sort_insert_cong) auto
  with IH show ?case by (simp add: std_sort_def)
qed

lemma lower_bound_cong: "(\<And>x. x \<in> set xs \<Longrightarrow> p x = q x) \<Longrightarrow> lower_bound p xs = lower_bound q xs"
proof -
  assume eq: "\<And>x. x \<in> set xs \<Longrightarrow> p x = q x"
  have "bin_search (\<lambda>i. p (xs ! i)) lo hi = bin_search (\<lambda>i. q (xs ! i)) lo hi" if "hi \<le> length xs" for lo hi
    using that
  proof (induction "\<lambda>i. p (xs ! i)" lo hi rule: bin_search.induct)
    case (1 lo hi)
    have "lo < hi \<Longrightarrow> p (xs ! (lo + (hi - lo) div 2)) = q (xs ! (lo + (hi - lo) div 2))"
      using "1.prems" by (intro eq nth_mem) linarith
    with 1 show ?case by (subst (1 2) bin_search.simps) (simp add: Let_def)
  qed
  then show ?thesis by (simp add: lower_bound_def)
qed

lemma binary_search_doubles:
  assumes "\<forall>x \<in> set xs. \<not> f64_nan x" "\<not> f64_nan v"
  shows "binary_search f64_lt (std_sort f64_lt xs) v \<longleftrightarrow> (\<exists>x \<in> set xs. f64_eq v x)"
proof -
  let ?lt = "\<lambda>a b. f64_key a < f64_key b"
  have "std_sort f64_lt xs = std_sort ?lt xs"
    using assms(1) by (intro std_sort_cong) (auto simp: f64_lt_def)
  moreover have "binary_search f64_lt ys v = binary_search ?lt ys v" if "set ys = set xs" for ys
  proof -
    have "lower_bound (\<lambda>x. f64_lt x v) ys = lower_bound (\<lambda>x. ?lt x v) ys"
      using assms that by (intro lower_bound_cong) (auto simp: f64_lt_def)
    then show ?thesis
      using assms that nth_mem [of _ ys] by (auto simp: binary_search_def Let_def f64_lt_def)
  qed
  ultimately have "binary_search f64_lt (std_sort f64_lt xs) v \<longleftrightarrow>
      (\<exists>x \<in> set xs. \<not> ?lt x v \<and> \<not> ?lt v x)"
    using f64keys.binary_search_sort [of xs v] by simp
  with assms show ?thesis by (auto simp: f64_eq_def not_less intro: order.antisym)
qed

lemma in_strings:
  "lower_bound (\<lambda>x. str_less x v) (std_sort str_less xs) < length xs \<and>
   std_sort str_less xs ! lower_bound (\<lambda>x. str_less x v) (std_sort str_less xs) = v \<longleftrightarrow> v \<in> set xs"
proof -
  let ?s = "std_sort str_less xs"
  let ?k = "lower_bound (\<lambda>x. str_less x v) ?s"
  have "binary_search str_less ?s v \<longleftrightarrow> (\<exists>x \<in> set xs. \<not> str_less x v \<and> \<not> str_less v x)"
    by (rule strs.binary_search_sort)
  also have "\<dots> \<longleftrightarrow> v \<in> set xs" by (metis str_less_irrefl str_less_total)
  finally have mem: "binary_search str_less ?s v \<longleftrightarrow> v \<in> set xs" .
  have part: "partitioned (\<lambda>x. str_less x v) ?s"
    by (rule strs.partitioned_below [OF strs.sorted_std_sort])
  have "?k < length ?s \<Longrightarrow> \<not> str_less (?s ! ?k) v"
    using partitioned_nth [OF part] lower_bound_eq [OF part] by simp
  then have "?k < length ?s \<and> ?s ! ?k = v \<longleftrightarrow> binary_search str_less ?s v"
    using str_less_total by (auto simp: binary_search_def Let_def)
  with mem show ?thesis by simp
qed

section \<open>Ascending row sets\<close>

lemma set_intersection_sorted:
  "sorted_wrt (<) xs \<Longrightarrow> sorted_wrt (<) ys \<Longrightarrow>
   sorted_wrt (<) (set_intersection xs ys) \<and> set (set_intersection xs ys) = set xs \<inter> set ys"
  by (induction xs ys rule: set_intersection.induct) auto

lemma set_union_sorted:
  "sorted_wrt (<) xs \<Longrightarrow> sorted_wrt (<) ys \<Longrightarrow>
   sorted_wrt (<) (set_union xs ys) \<and> set (set_union xs ys) = set xs \<union> set ys"
proof (induction xs ys rule: set_union.induct)
  case (3 x xs y ys)
  consider "x < y" | "y < x" | "x = y" by linarith
  then show ?case using 3 by cases auto
qed auto

lemma sorted_rows: "sorted_wrt (<) (filter p [0..<n :: nat])"
  by (rule sorted_wrt_filter) (rule sorted_wrt_upt)

lemma rows_eqI: "sorted_wrt (<) xs \<Longrightarrow> set xs = {i. i < n \<and> p i} \<Longrightarrow> xs = filter p [0..<n :: nat]"
  by (rule strict_sorted_equal [OF sorted_rows]) auto

lemma set_intersection_rows:
  "set_intersection (filter p [0..<n]) (filter q [0..<n]) = filter (\<lambda>i. p i \<and> q i) [0..<n]"
  using set_intersection_sorted [OF sorted_rows sorted_rows, of p n q n] by (intro rows_eqI) auto

lemma set_union_rows:
  "set_union (filter p [0..<n]) (filter q [0..<n]) = filter (\<lambda>i. p i \<or> q i) [0..<n]"
  using set_union_sorted [OF sorted_rows sorted_rows, of p n q n] by (intro rows_eqI) auto

section \<open>What a predicate means for a row\<close>

text \<open>
  The reference: the cell of the row against the literal, over the mathematical integers, in
  the order of doubles (with the tolerance of \<open>apply_double\<close> for inequality), in the order of
  strings; a literal of another type never matches, a null never matches.
\<close>

fun cmp_holds :: "ColumnType \<Rightarrow> ColumnData \<Rightarrow> nat \<Rightarrow> CmpOp \<Rightarrow> Value \<Rightarrow> nat \<Rightarrow> bool" where
  "cmp_holds t col n op (VInt v) i \<longleftrightarrow>
     (t = kInt64 \<or> t = kTimestamp) \<and> apply_int (sint (arr64 col i)) (sint v) op \<or>
     t = kInt32 \<and> apply_int (sint (arr32 col i)) (sint v) op"
| "cmp_holds t col n op (VDouble v) i \<longleftrightarrow> t = kFloat64 \<and>
     (if op = CmpEq then f64_eq (arr64 col i) v else apply_double (arr64 col i) v op)"
| "cmp_holds t col n op (VStr v) i \<longleftrightarrow> t = kVarChar \<and> apply_str (arr_str col n i) v op"

definition in_holds :: "ColumnType \<Rightarrow> ColumnData \<Rightarrow> nat \<Rightarrow> Value list \<Rightarrow> nat \<Rightarrow> bool" where
  "in_holds t col n vs i \<longleftrightarrow> (\<exists>v \<in> set vs. cmp_holds t col n CmpEq v i)"

definition pred_holds :: "ColumnData list \<Rightarrow> Schema \<Rightarrow> nat \<Rightarrow> Predicate \<Rightarrow> nat \<Rightarrow> bool" where
  "pred_holds columns schema n pred i \<longleftrightarrow>
     (case get_column_index schema (cr_name (pr_column pred)) of Inl _ \<Rightarrow> False
      | Inr idx \<Rightarrow> \<not> is_null (columns ! idx) i \<and>
          (if pr_op pred = CmpIn
           then in_holds (sc_columns schema ! idx) (columns ! idx) n (pr_in_values pred) i
           else cmp_holds (sc_columns schema ! idx) (columns ! idx) n (pr_op pred) (pr_value pred) i))"

fun expr_holds :: "ColumnData list \<Rightarrow> Schema \<Rightarrow> nat \<Rightarrow> ExprNode \<Rightarrow> nat \<Rightarrow> bool" where
  "expr_holds columns schema n (EAnd l r) i \<longleftrightarrow>
     expr_holds columns schema n l i \<and> expr_holds columns schema n r i"
| "expr_holds columns schema n (EOr l r) i \<longleftrightarrow>
     expr_holds columns schema n l i \<or> expr_holds columns schema n r i"
| "expr_holds columns schema n (EPred p) i \<longleftrightarrow> pred_holds columns schema n p i"

text \<open>All columns of the expression exist.\<close>

fun expr_known :: "Schema \<Rightarrow> ExprNode \<Rightarrow> bool" where
  "expr_known schema (EAnd l r) \<longleftrightarrow> expr_known schema l \<and> expr_known schema r"
| "expr_known schema (EOr l r) \<longleftrightarrow> expr_known schema l \<and> expr_known schema r"
| "expr_known schema (EPred p) \<longleftrightarrow> cr_name (pr_column p) \<in> set (sc_names schema)"

text \<open>
  What the literals must satisfy: an integer compared with a 32-bit column fits 32 bits, the
  doubles of an \<open>IN\<close> list are not NaN; and the column compared with it holds no NaN.
\<close>

fun literal_ok :: "ColumnType \<Rightarrow> Value \<Rightarrow> bool" where
  "literal_ok t (VInt v) \<longleftrightarrow> (t = kInt32 \<longrightarrow> - (2 ^ 31) \<le> sint v \<and> sint v < 2 ^ 31)"
| "literal_ok t (VDouble d) \<longleftrightarrow> \<not> f64_nan d"
| "literal_ok t (VStr s) \<longleftrightarrow> True"

definition pred_ok :: "ColumnData list \<Rightarrow> Schema \<Rightarrow> nat \<Rightarrow> Predicate \<Rightarrow> bool" where
  "pred_ok columns schema n pred \<longleftrightarrow>
     (case get_column_index schema (cr_name (pr_column pred)) of Inl _ \<Rightarrow> True
      | Inr idx \<Rightarrow>
          (if pr_op pred = CmpIn
           then list_all (literal_ok (sc_columns schema ! idx)) (pr_in_values pred) \<and>
                (sc_columns schema ! idx = kFloat64 \<longrightarrow>
                   list_all (\<lambda>i. \<not> f64_nan (arr64 (columns ! idx) i)) [0..<n])
           else literal_ok (sc_columns schema ! idx) (pr_value pred)))"

fun expr_ok :: "ColumnData list \<Rightarrow> Schema \<Rightarrow> nat \<Rightarrow> ExprNode \<Rightarrow> bool" where
  "expr_ok columns schema n (EAnd l r) \<longleftrightarrow> expr_ok columns schema n l \<and> expr_ok columns schema n r"
| "expr_ok columns schema n (EOr l r) \<longleftrightarrow> expr_ok columns schema n l \<and> expr_ok columns schema n r"
| "expr_ok columns schema n (EPred p) \<longleftrightarrow> pred_ok columns schema n p"

section \<open>The filter computes it\<close>

lemma index_of_known: "(\<exists>i. index_of ns name k = Inr i) \<longleftrightarrow> name \<in> set ns"
  by (induction ns arbitrary: k) auto

lemma index_of_error: "index_of ns name k = Inl e \<Longrightarrow> e = kNotFound"
  by (induction ns arbitrary: k) (auto split: if_splits)

lemma sint_ucast32:
  assumes "- (2 ^ 31) \<le> sint v" "sint (v :: u64) < 2 ^ 31"
  shows "sint (ucast v :: u32) = sint v"
proof -
  have "sint (ucast v :: u32) = signed_take_bit 31 (uint v)"
    by (simp add: sint_uint unsigned_ucast_eq signed_take_bit_take_bit)
  also have "\<dots> = signed_take_bit 31 (sint v)"
    by (simp add: sint_uint)
  finally show ?thesis using assms by (simp add: signed_take_bit_int_eq_self)
qed

lemma sint_eq_iff: "sint x = sint y \<longleftrightarrow> x = (y :: 'w::len word)"
  by (auto intro: signed_word_eqI)

lemma match_int_apply:
  "op \<noteq> CmpNe \<Longrightarrow> op \<noteq> CmpIn \<Longrightarrow> match_int (get_simd_op op) x v = apply_int (sint x) (sint v) op"
  by (cases op) (auto simp: word_sless_alt word_sle_eq intro: signed_word_eqI)

lemma match_f64_apply:
  "op \<noteq> CmpNe \<Longrightarrow> op \<noteq> CmpIn \<Longrightarrow>
   match_f64 (get_simd_op op) x v = (if op = CmpEq then f64_eq x v else apply_double x v op)"
  by (cases op) auto

lemma rows_of_positions:
  "filter (\<lambda>i. \<not> is_null col i) (positions p (map f [0..<n])) = scan_rows col n (\<lambda>i. p (f i))"
proof -
  have "positions p (map f [0..<n]) = filter (\<lambda>i. p (f i)) [0..<n]"
    by (auto simp: positions_def intro!: filter_cong)
  then show ?thesis by (simp add: scan_rows_def conj_commute)
qed

lemma filters_eq:
  "filter_i32 cpu a v op [] = positions (\<lambda>x. match_int op x v) a"
  "filter_i64 cpu b w op [] = positions (\<lambda>x. match_int op x w) b"
  "filter_f64 cpu b w op [] = positions (\<lambda>x. match_f64 op x w) b"
  by (simp_all add: filter_i32_def filter_i64_def filter_f64_def scalar_eq avx2_eq avx512_eq)

lemma evaluate_cmp_correct:
  assumes "op \<noteq> CmpIn" "literal_ok t v"
  shows "evaluate_cmp cpu t col n op v = scan_rows col n (cmp_holds t col n op v)"
proof (cases v)
  case (VInt x)
  with assms have fits: "t = kInt32 \<Longrightarrow> sint (ucast x :: u32) = sint x"
    by (simp add: sint_ucast32)
  show ?thesis
    using VInt assms(1) fits
    by (cases "op = CmpNe") (auto simp: evaluate_cmp_def filters_eq rows_of_positions match_int_apply
        scan_rows_def)
next
  case (VDouble x)
  then show ?thesis
    using assms(1) by (cases "op = CmpNe")
      (auto simp: evaluate_cmp_def filters_eq rows_of_positions match_f64_apply scan_rows_def)
next
  case (VStr x)
  then show ?thesis by (auto simp: evaluate_cmp_def scan_rows_def)
qed

lemma scan_rows_cong:
  "(\<And>i. i < n \<Longrightarrow> p i = q i) \<Longrightarrow> scan_rows col n p = scan_rows col n q"
  by (auto simp: scan_rows_def intro!: filter_cong)

lemma set_value_lists:
  "x \<in> set (value_ints vs) \<longleftrightarrow> VInt x \<in> set vs"
  "y \<in> set (value_doubles vs) \<longleftrightarrow> VDouble y \<in> set vs"
  "z \<in> set (value_strings vs) \<longleftrightarrow> VStr z \<in> set vs"
  by (induction vs) (auto simp: value_ints_def value_doubles_def value_strings_def
      List.map_filter_simps split: Value.splits)

text \<open>One lemma for each type of column in an \<open>IN\<close> predicate.\<close>

lemma in_holds_int64:
  "t = kInt64 \<or> t = kTimestamp \<Longrightarrow> in_holds t col n vs i \<longleftrightarrow> arr64 col i \<in> set (value_ints vs)"
proof -
  assume t: "t = kInt64 \<or> t = kTimestamp"
  have "cmp_holds t col n CmpEq v i \<longleftrightarrow> v = VInt (arr64 col i)" for v
    using t by (cases v) (auto simp: sint_eq_iff)
  then show ?thesis by (auto simp: in_holds_def set_value_lists)
qed

lemma in_holds_int32:
  assumes "list_all (literal_ok kInt32) vs"
  shows "in_holds kInt32 col n vs i \<longleftrightarrow> arr32 col i \<in> set (map (\<lambda>x. ucast x :: u32) (value_ints vs))"
proof -
  have "cmp_holds kInt32 col n CmpEq v i \<longleftrightarrow> (\<exists>x. v = VInt x \<and> arr32 col i = ucast x)" if "v \<in> set vs" for v
  proof (cases v)
    case (VInt x)
    then have "sint (ucast x :: u32) = sint x"
      using assms that by (intro sint_ucast32) (auto simp: list_all_iff)
    then have "sint (arr32 col i) = sint x \<longleftrightarrow> arr32 col i = ucast x" by (metis sint_eq_iff)
    with VInt show ?thesis by simp
  qed auto
  then show ?thesis by (auto simp: in_holds_def set_value_lists)
qed

lemma in_holds_double:
  "in_holds kFloat64 col n vs i \<longleftrightarrow> (\<exists>x \<in> set (value_doubles vs). f64_eq (arr64 col i) x)"
proof -
  have "cmp_holds kFloat64 col n CmpEq v i \<longleftrightarrow> (\<exists>x. v = VDouble x \<and> f64_eq (arr64 col i) x)" for v
    by (cases v) auto
  then show ?thesis by (auto simp: in_holds_def set_value_lists)
qed

lemma in_holds_string: "in_holds kVarChar col n vs i \<longleftrightarrow> arr_str col n i \<in> set (value_strings vs)"
proof -
  have "cmp_holds kVarChar col n CmpEq v i \<longleftrightarrow> v = VStr (arr_str col n i)" for v
    by (cases v) auto
  then show ?thesis by (auto simp: in_holds_def set_value_lists)
qed

lemma in_holds_bool: "\<not> in_holds kBool col n vs i"
proof -
  have "\<not> cmp_holds kBool col n CmpEq v i" for v by (cases v) auto
  then show ?thesis by (simp add: in_holds_def)
qed

lemma evaluate_in_correct:
  assumes "list_all (literal_ok t) vs"
    and "t = kFloat64 \<Longrightarrow> list_all (\<lambda>i. \<not> f64_nan (arr64 col i)) [0..<n]"
  shows "evaluate_in t col n vs = scan_rows col n (in_holds t col n vs)"
proof (cases t)
  case kInt32
  with assms(1) show ?thesis
    by (auto simp: evaluate_in_def Let_def binary_search_sints in_holds_int32 intro!: scan_rows_cong)
next
  case kFloat64
  have "\<forall>x \<in> set (value_doubles vs). \<not> f64_nan x"
    using assms(1) unfolding set_value_lists list_all_iff by (metis literal_ok.simps(2) set_value_lists(2))
  with kFloat64 assms(2) show ?thesis
    by (auto simp: evaluate_in_def Let_def in_holds_double list_all_iff binary_search_doubles
        intro!: scan_rows_cong)
next
  case kVarChar
  then show ?thesis
    by (auto simp: evaluate_in_def in_strings in_holds_string Let_def intro!: scan_rows_cong)
next
  case kBool
  then show ?thesis by (simp add: evaluate_in_def scan_rows_def in_holds_bool)
qed (auto simp: evaluate_in_def Let_def binary_search_sints in_holds_int64 intro!: scan_rows_cong)

lemma evaluate_predicate_correct:
  assumes "pred_ok columns schema n p"
  shows "evaluate_predicate cpu columns schema n p =
    (if cr_name (pr_column p) \<in> set (sc_names schema)
     then Inr (filter (pred_holds columns schema n p) [0..<n]) else Inl kNotFound)"
proof (cases "get_column_index schema (cr_name (pr_column p))")
  case (Inl e)
  then have "e = kNotFound" "cr_name (pr_column p) \<notin> set (sc_names schema)"
    using index_of_error index_of_known [of "sc_names schema" "cr_name (pr_column p)" 0]
    by (auto simp: get_column_index_def)
  with Inl show ?thesis by (simp add: evaluate_predicate_def)
next
  case (Inr idx)
  then have known: "cr_name (pr_column p) \<in> set (sc_names schema)"
    using index_of_known [of "sc_names schema" "cr_name (pr_column p)" 0] by (simp add: get_column_index_def)
  show ?thesis
    using assms Inr known
    by (auto simp: evaluate_predicate_def pred_ok_def pred_holds_def [abs_def] Let_def
        evaluate_in_correct evaluate_cmp_correct scan_rows_def)
qed

lemma evaluate_expr_correct:
  "expr_ok columns schema n e \<Longrightarrow> evaluate_expr cpu columns schema n e =
     (if expr_known schema e then Inr (filter (expr_holds columns schema n e) [0..<n])
      else Inl kNotFound)"
  by (induction e)
    (auto simp: evaluate_predicate_correct set_intersection_rows set_union_rows intro!: filter_cong)

section \<open>The meaning in SQL\<close>

text \<open>
  The value that a column holds in a row, read from the bytes of the column; \<open>None\<close> is a null. A
  predicate does not hold for a null.
\<close>

definition column_value :: "ColumnType \<Rightarrow> ColumnData \<Rightarrow> nat \<Rightarrow> nat \<Rightarrow> SqlValue option" where
  "column_value t col n i =
     (if is_null col i then None
      else Some (case t of kInt32 \<Rightarrow> SqlInt (sint (arr32 col i))
        | kInt64 \<Rightarrow> SqlInt (sint (arr64 col i))
        | kTimestamp \<Rightarrow> SqlInt (sint (arr64 col i))
        | kFloat64 \<Rightarrow> SqlDouble (arr64 col i)
        | kVarChar \<Rightarrow> SqlText (arr_str col n i)
        | kBool \<Rightarrow> SqlBool (cd_data col ! i \<noteq> 0)))"

fun sql_where :: "ColumnData list \<Rightarrow> Schema \<Rightarrow> nat \<Rightarrow> ExprNode \<Rightarrow> nat \<Rightarrow> bool" where
  "sql_where columns schema n (EAnd l r) i \<longleftrightarrow>
     sql_where columns schema n l i \<and> sql_where columns schema n r i"
| "sql_where columns schema n (EOr l r) i \<longleftrightarrow>
     sql_where columns schema n l i \<or> sql_where columns schema n r i"
| "sql_where columns schema n (EPred p) i \<longleftrightarrow>
     (case get_column_index schema (cr_name (pr_column p)) of Inl _ \<Rightarrow> False
      | Inr idx \<Rightarrow> (case column_value (sc_columns schema ! idx) (columns ! idx) n i of
            None \<Rightarrow> False | Some v \<Rightarrow> sql_pred p v))"

text \<open>Every literal fits its column, and a \<open>FLOAT64\<close> column compared with an \<open>IN\<close> list has no NaN.\<close>

fun expr_fits :: "ColumnData list \<Rightarrow> Schema \<Rightarrow> nat \<Rightarrow> ExprNode \<Rightarrow> bool" where
  "expr_fits columns schema n (EAnd l r) \<longleftrightarrow> expr_fits columns schema n l \<and> expr_fits columns schema n r"
| "expr_fits columns schema n (EOr l r) \<longleftrightarrow> expr_fits columns schema n l \<and> expr_fits columns schema n r"
| "expr_fits columns schema n (EPred p) \<longleftrightarrow>
     (case get_column_index schema (cr_name (pr_column p)) of Inl _ \<Rightarrow> True
      | Inr idx \<Rightarrow> pred_fits (sc_columns schema ! idx) p \<and>
          (pr_op p = CmpIn \<and> sc_columns schema ! idx = kFloat64 \<longrightarrow>
             list_all (\<lambda>i. \<not> f64_nan (arr64 (columns ! idx) i)) [0..<n]))"

lemma literal_fits_ok: "literal_fits t op v \<Longrightarrow> literal_ok t v"
  by (cases t; cases v) auto

lemma cmp_holds_sql:
  assumes "literal_fits t op v" "\<not> is_null col i"
  shows "cmp_holds t col n op v i \<longleftrightarrow> (\<exists>x. column_value t col n i = Some x \<and> sql_holds op x (literal_value v))"
  using assms
  by (cases t; cases v; cases op)
    (simp_all add: column_value_def sql_holds_int sql_holds_double sql_holds_text)

lemma pred_holds_sql:
  assumes "expr_fits columns schema n (EPred p)"
  shows "pred_holds columns schema n p i \<longleftrightarrow> sql_where columns schema n (EPred p) i"
proof (cases "get_column_index schema (cr_name (pr_column p))")
  case (Inr idx)
  let ?t = "sc_columns schema ! idx" and ?col = "columns ! idx"
  have fits: "pred_fits ?t p" using assms Inr by simp
  show ?thesis
  proof (cases "is_null ?col i")
    case True
    then show ?thesis using Inr by (simp add: pred_holds_def column_value_def)
  next
    case False
    then obtain x where x: "column_value ?t ?col n i = Some x" by (simp add: column_value_def)
    have "cmp_holds ?t ?col n op v i \<longleftrightarrow> sql_holds op x (literal_value v)" if "literal_fits ?t op v" for op v
      using cmp_holds_sql [OF that False] x by simp
    with fits Inr False x show ?thesis
      by (simp add: pred_holds_def in_holds_def sql_pred_def pred_fits_def list_all_iff split: if_splits)
  qed
qed (simp add: pred_holds_def)

lemma expr_holds_sql:
  "expr_fits columns schema n e \<Longrightarrow> expr_holds columns schema n e i \<longleftrightarrow> sql_where columns schema n e i"
proof (induction e)
  case (EPred p)
  from pred_holds_sql [OF EPred, of i] show ?case by (simp only: expr_holds.simps)
qed simp_all

lemma expr_fits_ok: "expr_fits columns schema n e \<Longrightarrow> expr_ok columns schema n e"
  using literal_fits_ok
  by (induction e) (fastforce simp: pred_ok_def pred_fits_def list_all_iff split: sum.splits if_splits)+

section \<open>Properties\<close>

text \<open>
  C10: the filter computes the meaning of a \<open>WHERE\<close> expression in SQL: on every processor it returns
  exactly the rows for which the expression holds, in ascending order, if every literal fits
  its column (an integer of the column's range for an integer column, a double other than NaN and not
  compared by \<open>!=\<close> for a \<open>FLOAT64\<close> column, a string for a \<open>VARCHAR\<close> column) and a \<open>FLOAT64\<close> column
  compared with an \<open>IN\<close> list holds no NaN; a column the table does not have is reported as \<open>kNotFound\<close>.
\<close>

theorem filter_evaluate_correct:
  assumes "expr_fits columns schema n e"
  shows "evaluate cpu columns schema n (Some e) =
    (if expr_known schema e then Inr (filter (sql_where columns schema n e) [0..<n])
     else Inl kNotFound)"
  using evaluate_expr_correct [OF expr_fits_ok [OF assms]] expr_holds_sql [OF assms]
  by (simp add: evaluate_def cong: filter_cong)

definition demo_col :: ColumnData where
  "demo_col = \<lparr>cd_type = 0, cd_data = put_u32 5 @ put_u32 9, cd_nulls = None\<rparr>"

definition demo_schema :: Schema where
  "demo_schema = \<lparr>sc_columns = [kInt32], sc_names = [''a'']\<rparr>"

definition demo_pred :: "CmpOp \<Rightarrow> u64 \<Rightarrow> ExprNode" where
  "demo_pred op v = EPred \<lparr>pr_column = \<lparr>cr_table = [], cr_name = ''a'', cr_func = AggNone, cr_is_star = False\<rparr>,
     pr_op = op, pr_value = VInt v, pr_in_values = []\<rparr>"

lemma demo_col_at: "arr32 demo_col 0 = 5" "arr32 demo_col 1 = 9"
  using at_put(2) [of "[]" 0 5 "put_u32 9"] at_put(2) [of "put_u32 5" 4 9 "[]"]
  by (simp_all add: arr32_def demo_col_def)

theorem filter_evaluate_correct_witness:
  "evaluate \<lparr>cpu_avx512f = True, cpu_avx512dq = True, cpu_avx2 = True\<rparr>
     [demo_col] demo_schema 2 (Some (demo_pred CmpGt 7)) = Inr [1]"
proof -
  let ?cpu = "\<lparr>cpu_avx512f = True, cpu_avx512dq = True, cpu_avx2 = True\<rparr>"
  have ok: "expr_fits [demo_col] demo_schema 2 (demo_pred CmpGt 7)"
    by (simp add: demo_pred_def pred_fits_def demo_schema_def get_column_index_def)
  have "[0..<2] = [0, 1 :: nat]" by (simp add: upt_rec)
  then show ?thesis
    using filter_evaluate_correct [OF ok, of ?cpu]
    by (simp add: demo_pred_def demo_schema_def column_value_def sql_pred_def sql_holds_int get_column_index_def
        is_null_def demo_col_at [unfolded One_nat_def]) (simp add: demo_col_def)
qed

text \<open>
  an integer literal never matches a \<open>double\<close> column and no literal matches a \<open>bool\<close>
  column: the filter answers with the empty row set, whatever the values, and reports no error.
\<close>

theorem mismatched_literal_matches_nothing:
  assumes "get_column_index schema (cr_name (pr_column p)) = Inr idx" "pr_op p \<noteq> CmpIn"
    and "sc_columns schema ! idx = kFloat64 \<and> pr_value p = VInt v \<or> sc_columns schema ! idx = kBool"
  shows "evaluate cpu columns schema n (Some (EPred p)) = Inr []"
  using assms by (auto simp: evaluate_def evaluate_predicate_def evaluate_cmp_def Let_def split: Value.splits)

theorem mismatched_literal_matches_nothing_witness:
  "evaluate \<lparr>cpu_avx512f = False, cpu_avx512dq = False, cpu_avx2 = True\<rparr>
     [\<lparr>cd_type = 2, cd_data = put_u64 0x4024000000000000, cd_nulls = None\<rparr>]
     \<lparr>sc_columns = [kFloat64], sc_names = [''price'']\<rparr> 1
     (Some (EPred \<lparr>pr_column = \<lparr>cr_table = [], cr_name = ''price'', cr_func = AggNone, cr_is_star = False\<rparr>,
        pr_op = CmpEq, pr_value = VInt 10, pr_in_values = []\<rparr>)) = Inr []"
  by (rule mismatched_literal_matches_nothing [where idx=0 and v=10])
    (simp_all add: get_column_index_def)

text \<open>
  for a 32-bit column a literal outside the 32-bit range is truncated before every
  comparison but \<open>!=\<close>: the row with value 5 is returned for \<open>a = 4294967301\<close> and for
  \<open>a != 4294967301\<close> alike.
\<close>

theorem int32_literal_truncated:
  "evaluate cpu [demo_col] demo_schema 1 (Some (demo_pred CmpEq 4294967301)) = Inr [0] \<and>
   evaluate cpu [demo_col] demo_schema 1 (Some (demo_pred CmpNe 4294967301)) = Inr [0]"
proof -
  have "(ucast (4294967301 :: u64) :: u32) = 5" by simp
  moreover have "sint (5 :: u32) \<noteq> sint (4294967301 :: u64)" by simp
  ultimately show ?thesis
    by (simp add: evaluate_def evaluate_predicate_def evaluate_cmp_def demo_pred_def demo_schema_def
        get_column_index_def filters_eq positions_def scan_rows_def demo_col_at is_null_def)
      (simp add: demo_col_def)
qed

text \<open>
  equality of doubles is exact and inequality has a tolerance of \<open>1e-12\<close>: the value next
  to 1.0 is neither equal to 1.0 nor different from it.
\<close>

theorem double_neither_equal_nor_different:
  "\<not> cmp_holds kFloat64 \<lparr>cd_type = 2, cd_data = put_u64 0x3FF0000000000001, cd_nulls = None\<rparr> 1
      CmpEq (VDouble 0x3FF0000000000000) 0 \<and>
   \<not> cmp_holds kFloat64 \<lparr>cd_type = 2, cd_data = put_u64 0x3FF0000000000001, cd_nulls = None\<rparr> 1
      CmpNe (VDouble 0x3FF0000000000000) 0"
proof -
  have "\<not> f64_eq 0x3FF0000000000001 0x3FF0000000000000" by code_simp
  moreover have "\<not> apply_double 0x3FF0000000000001 0x3FF0000000000000 CmpNe" by code_simp
  moreover have "arr64 \<lparr>cd_type = 2, cd_data = put_u64 0x3FF0000000000001, cd_nulls = None\<rparr> 0 =
      0x3FF0000000000001"
    using at_put(3) [of "[]" 0 "0x3FF0000000000001" "[]"] by (simp add: arr64_def)
  ultimately show ?thesis by simp
qed

end
