(* ===== verification/Sql_Lexer.thy ===== *)
theory Sql_Lexer
  imports Ast
begin

text \<open>
  The tokenizer of \<open>src/src/query/parser.cpp\<close> (\<open>is_keyword\<close>, \<open>Parser::next_token\<close>) and the
  number conversions that the parser applies to token texts. The parser's \<open>input_\<close> and
  \<open>pos_\<close> are represented by the rest of the input from \<open>pos_\<close> on: no code looks back.
\<close>

section \<open>Tokens\<close>

definition keyword_table :: "(string \<times> TokenType) list" where
  "keyword_table =
     [(''insert'', tInsert), (''into'', tInto), (''values'', tValues), (''select'', tSelect),
      (''from'', tFrom), (''where'', tWhere), (''delete'', tDelete), (''create'', tCreate),
      (''table'', tTable), (''index'', tIndex), (''on'', tOn), (''order'', tOrder), (''by'', tBy),
      (''asc'', tAsc), (''desc'', tDesc), (''limit'', tLimit), (''offset'', tOffset),
      (''vacuum'', tVacuum), (''update'', tUpdate), (''set'', tSet), (''begin'', tBeginTxn),
      (''commit'', tCommitTxn), (''rollback'', tRollbackTxn), (''count'', tCount), (''sum'', tSum),
      (''avg'', tAvg), (''min'', tMin), (''max'', tMax), (''group'', tGroup), (''join'', tJoin),
      (''on'', tOn), (''and'', tAnd), (''or'', tOr), (''in'', tIn), (''backup'', tBackup),
      (''to'', tTo), (''interval'', tInterval), (''retention'', tRetention)]"

definition is_keyword :: "string \<Rightarrow> TokenType" where
  "is_keyword s = (case map_of keyword_table s of Some t \<Rightarrow> t | None \<Rightarrow> tIdentifier)"

definition single_chars :: "(char \<times> TokenType) list" where
  "single_chars = [(CHR ''*'', tStar), (CHR '','', tComma), (CHR ''('', tLParen), (CHR '')'', tRParen),
     (CHR '';'', tSemicolon), (CHR ''.'', tDot)]"

definition word_char :: "char \<Rightarrow> bool" where "word_char c \<longleftrightarrow> is_alnum c \<or> c = CHR ''_''"
definition number_char :: "char \<Rightarrow> bool" where "number_char c \<longleftrightarrow> is_digit c \<or> c = CHR ''.''"
definition quote_char :: char where "quote_char = CHR 0x27"

definition starts_eq :: "string \<Rightarrow> bool" where
  "starts_eq cs \<longleftrightarrow> (case cs of [] \<Rightarrow> False | d # _ \<Rightarrow> d = CHR ''='')"

definition mk_tok :: "TokenType \<Rightarrow> string \<Rightarrow> Token" where
  "mk_tok t s = \<lparr>tok_type = t, tok_text = s\<rparr>"

text \<open>The token that starts at a character, with the rest behind it; \<open>None\<close> when none does.\<close>

definition lex_char :: "char \<Rightarrow> string \<Rightarrow> (Token \<times> string) option" where
  "lex_char c cs =
     (case map_of single_chars c of
        Some t \<Rightarrow> Some (mk_tok t [c], cs)
      | None \<Rightarrow>
          if c = CHR ''!'' \<and> starts_eq cs then Some (mk_tok tNe ''!='', tl cs)
          else if c = CHR ''<'' \<and> starts_eq cs then Some (mk_tok tLe ''<='', tl cs)
          else if c = CHR ''>'' \<and> starts_eq cs then Some (mk_tok tGe ''>='', tl cs)
          else if c = CHR ''='' then Some (mk_tok tEq ''='', cs)
          else if c = CHR ''<'' then Some (mk_tok tLt ''<'', cs)
          else if c = CHR ''>'' then Some (mk_tok tGt ''>'', cs)
          else if c = quote_char then
            Some (mk_tok tString (takeWhile (\<lambda>d. d \<noteq> quote_char) cs),
                  tl (dropWhile (\<lambda>d. d \<noteq> quote_char) cs))
          else if is_alpha c \<or> c = CHR ''_'' then
            (let w = takeWhile word_char (c # cs); kw = is_keyword (map to_lower w)
             in Some (if kw \<noteq> tIdentifier then mk_tok kw (map to_lower w) else mk_tok tIdentifier w,
                      dropWhile word_char (c # cs)))
          else if is_digit c \<or> c = CHR ''-'' then
            (let r = (if c = CHR ''-'' then cs else c # cs)
             in Some (mk_tok tNumber ((if c = CHR ''-'' then [c] else []) @ takeWhile number_char r),
                      dropWhile number_char r))
          else None)"

lemma dropWhile_Cons_length: "dropWhile p s = c # cs \<Longrightarrow> length cs < length s"
  by (metis Suc_le_lessD length_Cons length_dropWhile_le)

text \<open>White space, and characters that start no token, are skipped.\<close>

function next_token :: "string \<Rightarrow> Token \<times> string" where
  "next_token s =
     (case dropWhile is_space s of
        [] \<Rightarrow> (mk_tok tEnd [], [])
      | c # cs \<Rightarrow> (case lex_char c cs of Some x \<Rightarrow> x | None \<Rightarrow> next_token cs))"
  by pat_completeness auto

termination
  by (relation "measure length") (auto dest!: dropWhile_Cons_length)

declare next_token.simps [simp del]

text \<open>Every token but the end consumes input.\<close>

lemma lex_char_progress: "lex_char c cs = Some (t, r) \<Longrightarrow> length r \<le> length cs"
proof -
  assume *: "lex_char c cs = Some (t, r)"
  have "length (dropWhile p cs) \<le> length cs" for p by (rule length_dropWhile_le)
  moreover have "length (tl (dropWhile p cs)) \<le> length cs" for p
    by (metis diff_le_self dual_order.trans length_dropWhile_le length_tl)
  moreover have "is_alpha c \<or> c = CHR ''_'' \<Longrightarrow> word_char c" by (auto simp: word_char_def is_alnum_def)
  moreover have "is_digit c \<Longrightarrow> number_char c" by (simp add: number_char_def)
  ultimately show ?thesis
    using * unfolding lex_char_def Let_def
    by (clarsimp split: option.split_asm if_split_asm)
qed

lemma next_token_progress:
  "next_token s = (t, r) \<Longrightarrow> length r \<le> length s \<and> (tok_type t \<noteq> tEnd \<longrightarrow> length r < length s)"
proof (induction s rule: next_token.induct)
  case (1 s)
  show ?case
  proof (cases "dropWhile is_space s")
    case Nil
    with "1.prems" show ?thesis by (subst (asm) next_token.simps) (auto simp: mk_tok_def)
  next
    case (Cons c cs)
    have len: "length cs < length s" using Cons by (rule dropWhile_Cons_length)
    show ?thesis
    proof (cases "lex_char c cs")
      case None
      with Cons "1.prems" have "next_token cs = (t, r)" by (subst (asm) next_token.simps) simp
      from "1.IH" [OF Cons None this] len show ?thesis by auto
    next
      case (Some x)
      with Cons "1.prems" have "x = (t, r)" by (subst (asm) next_token.simps) simp
      with Some lex_char_progress len show ?thesis by fastforce
    qed
  qed
qed

section \<open>Numbers\<close>

text \<open>\<open>std::from_chars\<close> for \<open>int64_t\<close>: no white space, no plus sign; \<open>None\<close> is an error code.\<close>

definition from_chars :: "string \<Rightarrow> u64 option" where
  "from_chars s =
     (let neg = (case s of [] \<Rightarrow> False | c # _ \<Rightarrow> c = CHR ''-'');
          ds = takeWhile is_digit (if neg then tl s else s);
          v = digits_int ds
      in if ds = [] then None
         else if neg then (if v \<le> 2 ^ 63 then Some (word_of_int (- v)) else None)
         else if v < 2 ^ 63 then Some (word_of_int v) else None)"

text \<open>
  \<open>strtod\<close> on a text of digits, periods and a leading minus sign: the value, correctly rounded,
  and the number of characters it consumed.
\<close>

definition strtod :: "string \<Rightarrow> u64 \<times> nat" where
  "strtod s =
     (let neg = (case s of [] \<Rightarrow> False | c # _ \<Rightarrow> c = CHR ''-'');
          r = (if neg then tl s else s);
          ds1 = takeWhile is_digit r;
          r1 = dropWhile is_digit r;
          dot = (case r1 of [] \<Rightarrow> False | c # _ \<Rightarrow> c = CHR ''.'');
          ds2 = (if dot then takeWhile is_digit (tl r1) else []);
          d = f64_of_ratio (digits_int (ds1 @ ds2)) (10 ^ length ds2)
      in if ds1 @ ds2 = [] then (0, 0)
         else (if neg then f64_neg d else d,
               (if neg then 1 else 0) + length ds1 + (if dot then 1 + length ds2 else 0)))"

end
