(* ===== verification/Sql_Parser.thy ===== *)
theory Sql_Parser
  imports Sql_Lexer
begin

text \<open>
  The recursive-descent parser of \<open>src/src/query/parser.cpp\<close>, one definition per grammar
  function. The state is the current token and the rest of the input. A result is an error or
  a value with the next state; the errors are a status, an exception that leaves \<open>parse\<close>
  (\<open>std::stoull\<close> on the operand of \<open>LIMIT\<close>), and an exhausted fuel.

  The loops and the recursion of the code are bounded by fuel, which \<open>parse\<close> takes as a
  multiple of the length of the input; it is proved to be always enough, so the parser returns
  for every input.
\<close>

section \<open>State and errors\<close>

record PState =
  ps_cur :: Token
  ps_rest :: string

datatype PError = PStatus Status_Code | PThrown | PFuel

type_synonym 'a Parse = "PError + 'a \<times> PState"

definition pbind :: "'a Parse \<Rightarrow> ('a \<Rightarrow> PState \<Rightarrow> 'b Parse) \<Rightarrow> 'b Parse" where
  "pbind r f = (case r of Inl e \<Rightarrow> Inl e | Inr (a, st) \<Rightarrow> f a st)"

definition perror :: "'a Parse" where "perror = Inl (PStatus kInvalidArgument)"

definition advance :: "PState \<Rightarrow> PState" where
  "advance st = (let (t, r) = next_token (ps_rest st) in \<lparr>ps_cur = t, ps_rest = r\<rparr>)"

definition peek :: "PState \<Rightarrow> TokenType" where "peek st = tok_type (ps_cur st)"
definition cur_text :: "PState \<Rightarrow> string" where "cur_text st = tok_text (ps_cur st)"

definition consume :: "TokenType \<Rightarrow> PState \<Rightarrow> unit Parse" where
  "consume t st = (if peek st = t then Inr ((), advance st) else perror)"

definition expect :: "TokenType \<Rightarrow> PState \<Rightarrow> Status_Code" where
  "expect t st = (if peek st = t then kOk else kInvalidArgument)"

text \<open>The recurring check for a token of a kind whose text is taken.\<close>

definition take_text :: "TokenType \<Rightarrow> PState \<Rightarrow> string Parse" where
  "take_text t st = (if peek st = t then Inr (cur_text st, advance st) else perror)"

text \<open>\<open>do { ... } while (peek() == kComma && (consume(kComma), true))\<close>\<close>

fun comma_list :: "nat \<Rightarrow> (PState \<Rightarrow> 'a Parse) \<Rightarrow> PState \<Rightarrow> 'a list Parse" where
  "comma_list 0 p st = Inl PFuel"
| "comma_list (Suc n) p st =
     pbind (p st) (\<lambda>x st.
       if peek st = tComma
       then pbind (comma_list n p (advance st)) (\<lambda>xs st. Inr (x # xs, st))
       else Inr ([x], st))"

section \<open>Values, columns, predicates\<close>

definition parse_value :: "PState \<Rightarrow> Value Parse" where
  "parse_value st =
     (if peek st = tNumber then
        if CHR ''.'' \<in> set (cur_text st) then
          (let (d, n) = strtod (cur_text st)
           in if n \<noteq> length (cur_text st) then perror else Inr (VDouble d, advance st))
        else (case from_chars (cur_text st) of None \<Rightarrow> perror | Some n \<Rightarrow> Inr (VInt n, advance st))
      else if peek st = tString then Inr (VStr (cur_text st), advance st)
      else perror)"

definition parse_values :: "nat \<Rightarrow> PState \<Rightarrow> Value list Parse" where
  "parse_values n st =
     pbind (consume tLParen st) (\<lambda>_ st.
     pbind (comma_list n parse_value st) (\<lambda>vs st.
     pbind (consume tRParen st) (\<lambda>_ st. Inr (vs, st))))"

definition agg_func :: "TokenType \<Rightarrow> AggFunc" where
  "agg_func t = (if t = tCount then AggCount else if t = tSum then AggSum else if t = tAvg then AggAvg
     else if t = tMin then AggMin else if t = tMax then AggMax else AggNone)"

text \<open>A name with an optional table prefix: \<open>(table, name)\<close>.\<close>

definition parse_qualified :: "PState \<Rightarrow> (string \<times> string) Parse" where
  "parse_qualified st =
     pbind (take_text tIdentifier st) (\<lambda>name st.
       if peek st = tDot
       then pbind (take_text tIdentifier (advance st)) (\<lambda>name2 st. Inr ((name, name2), st))
       else Inr (([], name), st))"

definition parse_column_ref :: "PState \<Rightarrow> ColumnRef Parse" where
  "parse_column_ref st =
     (let f = agg_func (peek st)
      in if f \<noteq> AggNone then
           pbind (consume tLParen (advance st)) (\<lambda>_ st.
           pbind (if peek st = tStar
                  then Inr (\<lparr>cr_table = [], cr_name = ''*'', cr_func = f, cr_is_star = True\<rparr>, advance st)
                  else pbind (parse_qualified st) (\<lambda>(t, n) st.
                         Inr (\<lparr>cr_table = t, cr_name = n, cr_func = f, cr_is_star = False\<rparr>, st)))
             (\<lambda>ref st. pbind (consume tRParen st) (\<lambda>_ st. Inr (ref, st))))
         else pbind (parse_qualified st) (\<lambda>(t, n) st.
                Inr (\<lparr>cr_table = t, cr_name = n, cr_func = AggNone, cr_is_star = False\<rparr>, st)))"

definition cmp_op :: "TokenType \<Rightarrow> CmpOp option" where
  "cmp_op t = (if t = tEq then Some CmpEq else if t = tNe then Some CmpNe else if t = tLt then Some CmpLt
     else if t = tGt then Some CmpGt else if t = tLe then Some CmpLe else if t = tGe then Some CmpGe
     else if t = tIn then Some CmpIn else None)"

definition parse_predicate :: "nat \<Rightarrow> PState \<Rightarrow> Predicate Parse" where
  "parse_predicate n st =
     pbind (parse_column_ref st) (\<lambda>col st.
       case cmp_op (peek st) of None \<Rightarrow> perror
       | Some op \<Rightarrow>
           if op = CmpIn then
             pbind (consume tLParen (advance st)) (\<lambda>_ st.
             pbind (comma_list n parse_value st) (\<lambda>vs st.
             pbind (consume tRParen st) (\<lambda>_ st.
               Inr (\<lparr>pr_column = col, pr_op = op, pr_value = VInt 0, pr_in_values = vs\<rparr>, st))))
           else
             pbind (parse_value (advance st)) (\<lambda>v st.
               Inr (\<lparr>pr_column = col, pr_op = op, pr_value = v, pr_in_values = []\<rparr>, st)))"

section \<open>Expressions\<close>

fun parse_expr :: "nat \<Rightarrow> PState \<Rightarrow> ExprNode Parse"
  and or_loop :: "nat \<Rightarrow> ExprNode \<Rightarrow> PState \<Rightarrow> ExprNode Parse"
  and parse_expr_and :: "nat \<Rightarrow> PState \<Rightarrow> ExprNode Parse"
  and and_loop :: "nat \<Rightarrow> ExprNode \<Rightarrow> PState \<Rightarrow> ExprNode Parse"
  and parse_expr_primary :: "nat \<Rightarrow> PState \<Rightarrow> ExprNode Parse" where
  "parse_expr 0 st = Inl PFuel"
| "parse_expr (Suc n) st = pbind (parse_expr_and n st) (or_loop n)"
| "or_loop 0 node st = Inl PFuel"
| "or_loop (Suc n) node st =
     (if peek st = tOr
      then pbind (parse_expr_and n (advance st)) (\<lambda>right st. or_loop n (EOr node right) st)
      else Inr (node, st))"
| "parse_expr_and 0 st = Inl PFuel"
| "parse_expr_and (Suc n) st = pbind (parse_expr_primary n st) (and_loop n)"
| "and_loop 0 node st = Inl PFuel"
| "and_loop (Suc n) node st =
     (if peek st = tAnd
      then pbind (parse_expr_primary n (advance st)) (\<lambda>right st. and_loop n (EAnd node right) st)
      else Inr (node, st))"
| "parse_expr_primary 0 st = Inl PFuel"
| "parse_expr_primary (Suc n) st =
     (if peek st = tLParen
      then pbind (parse_expr n (advance st)) (\<lambda>e st.
           pbind (consume tRParen st) (\<lambda>_ st. Inr (e, st)))
      else pbind (parse_predicate n st) (\<lambda>p st. Inr (EPred p, st)))"

definition parse_where :: "nat \<Rightarrow> PState \<Rightarrow> ExprNode option Parse" where
  "parse_where n st =
     (if peek st = tWhere
      then pbind (parse_expr n (advance st)) (\<lambda>e st. Inr (Some e, st))
      else Inr (None, st))"

section \<open>Statements\<close>

definition parse_insert :: "nat \<Rightarrow> PState \<Rightarrow> InsertStmt Parse" where
  "parse_insert n st =
     pbind (consume tInsert st) (\<lambda>_ st.
     pbind (consume tInto st) (\<lambda>_ st.
     pbind (take_text tIdentifier st) (\<lambda>name st.
     pbind (consume tValues st) (\<lambda>_ st.
     pbind (comma_list n (parse_values n) st) (\<lambda>rows st.
       Inr (\<lparr>in_table_name = name, in_rows = rows\<rparr>, st))))))"

definition parse_join :: "PState \<Rightarrow> JoinClause option Parse" where
  "parse_join st =
     (if peek st = tJoin then
        pbind (take_text tIdentifier (advance st)) (\<lambda>name st.
        pbind (consume tOn st) (\<lambda>_ st.
        pbind (parse_column_ref st) (\<lambda>l st.
        pbind (consume tEq st) (\<lambda>_ st.
        pbind (parse_column_ref st) (\<lambda>r st.
          Inr (Some \<lparr>jc_table_name = name, jc_left_col = l, jc_right_col = r\<rparr>, st))))))
      else Inr (None, st))"

definition parse_group_by :: "nat \<Rightarrow> PState \<Rightarrow> ColumnRef list Parse" where
  "parse_group_by n st =
     (if peek st = tGroup then
        pbind (consume tGroup st) (\<lambda>_ st.
        pbind (consume tBy st) (\<lambda>_ st. comma_list n parse_column_ref st))
      else Inr ([], st))"

definition parse_order_by :: "PState \<Rightarrow> OrderBy option Parse" where
  "parse_order_by st =
     (if peek st = tOrder then
        pbind (consume tOrder st) (\<lambda>_ st.
        pbind (consume tBy st) (\<lambda>_ st.
        pbind (parse_column_ref st) (\<lambda>col st.
          if peek st = tAsc then Inr (Some \<lparr>ob_column = col, ob_asc = True\<rparr>, advance st)
          else if peek st = tDesc then Inr (Some \<lparr>ob_column = col, ob_asc = False\<rparr>, advance st)
          else Inr (Some \<lparr>ob_column = col, ob_asc = True\<rparr>, st))))
      else Inr (None, st))"

text \<open>The operand of \<open>LIMIT\<close> and \<open>OFFSET\<close>: \<open>std::stoull\<close>, whose exceptions are not caught.\<close>

definition parse_count :: "PState \<Rightarrow> u64 Parse" where
  "parse_count st =
     (if peek st \<noteq> tNumber then perror
      else case stoull (cur_text st) of None \<Rightarrow> Inl PThrown | Some v \<Rightarrow> Inr (v, advance st))"

definition parse_limit :: "PState \<Rightarrow> (u64 option \<times> u64 option) Parse" where
  "parse_limit st =
     (if peek st = tLimit then
        pbind (consume tLimit st) (\<lambda>_ st.
        pbind (parse_count st) (\<lambda>l st.
          if peek st = tOffset
          then pbind (parse_count (advance st)) (\<lambda>off st. Inr ((Some l, Some off), st))
          else Inr ((Some l, None), st)))
      else Inr ((None, None), st))"

definition parse_columns :: "nat \<Rightarrow> PState \<Rightarrow> ColumnRef list Parse" where
  "parse_columns n st =
     (if peek st = tStar then Inr ([], advance st) else comma_list n parse_column_ref st)"

definition parse_select :: "nat \<Rightarrow> PState \<Rightarrow> SelectStmt Parse" where
  "parse_select n st =
     pbind (consume tSelect st) (\<lambda>_ st.
     pbind (parse_columns n st) (\<lambda>cols st.
     pbind (consume tFrom st) (\<lambda>_ st.
     pbind (take_text tIdentifier st) (\<lambda>name st.
     pbind (parse_join st) (\<lambda>join st.
     pbind (parse_where n st) (\<lambda>w st.
     pbind (parse_group_by n st) (\<lambda>gs st.
     pbind (parse_order_by st) (\<lambda>ord st.
     pbind (parse_limit st) (\<lambda>(l, off) st.
       Inr (\<lparr>se_columns = cols, se_table_name = name, se_where = w, se_group_by = gs,
             se_join_clause = join, se_order_by = ord, se_limit = l, se_offset = off\<rparr>, st))))))))))"

definition parse_delete :: "nat \<Rightarrow> PState \<Rightarrow> DeleteStmt Parse" where
  "parse_delete n st =
     pbind (consume tDelete st) (\<lambda>_ st.
     pbind (consume tFrom st) (\<lambda>_ st.
     pbind (take_text tIdentifier st) (\<lambda>name st.
     pbind (parse_where n st) (\<lambda>w st. Inr (\<lparr>de_table_name = name, de_where = w\<rparr>, st)))))"

definition parse_update :: "nat \<Rightarrow> PState \<Rightarrow> UpdateStmt Parse" where
  "parse_update n st =
     pbind (consume tUpdate st) (\<lambda>_ st.
     pbind (take_text tIdentifier st) (\<lambda>name st.
     pbind (consume tSet st) (\<lambda>_ st.
     pbind (take_text tIdentifier st) (\<lambda>col st.
     pbind (consume tEq st) (\<lambda>_ st.
     pbind (parse_value st) (\<lambda>v st.
     pbind (parse_where n st) (\<lambda>w st.
       Inr (\<lparr>up_table_name = name, up_column_name = col, up_new_value = v, up_where = w\<rparr>, st))))))))"

definition column_type_of :: "string \<Rightarrow> ColumnType" where
  "column_type_of text =
     (let t = map to_lower text
      in if t = ''int32'' then kInt32
         else if t = ''int64'' then kInt64
         else if t = ''float64'' \<or> t = ''float'' \<or> t = ''double'' then kFloat64
         else if t = ''bool'' \<or> t = ''boolean'' then kBool
         else if t = ''timestamp'' then kTimestamp
         else kVarChar)"

definition parse_column_def :: "PState \<Rightarrow> ColumnDef Parse" where
  "parse_column_def st =
     pbind (take_text tIdentifier st) (\<lambda>name st.
       if peek st = tIdentifier
       then Inr (\<lparr>cdef_name = name, cdef_type = column_type_of (cur_text st)\<rparr>, advance st)
       else Inr (\<lparr>cdef_name = name, cdef_type = kVarChar\<rparr>, st))"

definition parse_create_index :: "PState \<Rightarrow> CreateIndexStmt Parse" where
  "parse_create_index st =
     pbind (consume tIndex st) (\<lambda>_ st.
     pbind (take_text tIdentifier st) (\<lambda>idx st.
     pbind (consume tOn st) (\<lambda>_ st.
     pbind (take_text tIdentifier st) (\<lambda>tbl st.
     pbind (consume tLParen st) (\<lambda>_ st.
     pbind (take_text tIdentifier st) (\<lambda>col st.
     pbind (consume tRParen st) (\<lambda>_ st.
       Inr (\<lparr>ci_index_name = idx, ci_table_name = tbl, ci_column_name = col\<rparr>, st))))))))"

definition parse_create :: "nat \<Rightarrow> PState \<Rightarrow> Statement Parse" where
  "parse_create n st =
     pbind (consume tCreate st) (\<lambda>_ st.
       if peek st = tIndex
       then pbind (parse_create_index st) (\<lambda>s st. Inr (SCreateIndex s, st))
       else if peek st \<noteq> tTable then perror
       else
         pbind (consume tTable st) (\<lambda>_ st.
         pbind (take_text tIdentifier st) (\<lambda>name st.
         pbind (consume tLParen st) (\<lambda>_ st.
         pbind (comma_list n parse_column_def st) (\<lambda>cols st.
         pbind (consume tRParen st) (\<lambda>_ st.
           Inr (SCreate \<lparr>cs_table_name = name, cs_columns = cols\<rparr>, st)))))))"

definition parse_vacuum :: "PState \<Rightarrow> string Parse" where
  "parse_vacuum st =
     pbind (consume tVacuum st) (\<lambda>_ st. pbind (take_text tIdentifier st) (\<lambda>name st. Inr (name, st)))"

definition parse_begin :: "PState \<Rightarrow> unit Parse" where "parse_begin st = consume tBeginTxn st"
definition parse_commit :: "PState \<Rightarrow> unit Parse" where "parse_commit st = consume tCommitTxn st"
definition parse_rollback :: "PState \<Rightarrow> unit Parse" where "parse_rollback st = consume tRollbackTxn st"

definition parse_backup :: "PState \<Rightarrow> string Parse" where
  "parse_backup st =
     pbind (consume tBackup st) (\<lambda>_ st.
     pbind (consume tTo st) (\<lambda>_ st. take_text tString st))"

text \<open>Here the exceptions of \<open>std::stoul\<close> are caught, and the result is cut to 32 bits.\<close>

definition parse_set :: "PState \<Rightarrow> ConfigStmt Parse" where
  "parse_set st =
     pbind (consume tSet st) (\<lambda>_ st.
     pbind (consume tBackup st) (\<lambda>_ st.
     pbind (if peek st = tInterval
            then pbind (consume tInterval st) (\<lambda>_ st. Inr (''backup_interval'', st))
            else if peek st = tRetention
            then pbind (consume tRetention st) (\<lambda>_ st. Inr (''backup_retention'', st))
            else perror) (\<lambda>key st.
     pbind (consume tTo st) (\<lambda>_ st.
     pbind (take_text tNumber st) (\<lambda>val_str st.
       case stoull val_str of None \<Rightarrow> perror
       | Some v \<Rightarrow> Inr (\<lparr>cf_key = key, cf_value = ucast v\<rparr>, st))))))"

definition pmap :: "('a \<Rightarrow> 'b) \<Rightarrow> 'a Parse \<Rightarrow> 'b Parse" where
  "pmap f r = pbind r (\<lambda>a st. Inr (f a, st))"

definition parse_statement :: "nat \<Rightarrow> PState \<Rightarrow> Statement Parse" where
  "parse_statement n st =
     (if peek st = tInsert then pmap SInsert (parse_insert n st)
      else if peek st = tSelect then pmap SSelect (parse_select n st)
      else if peek st = tDelete then pmap SDelete (parse_delete n st)
      else if peek st = tUpdate then pmap SUpdate (parse_update n st)
      else if peek st = tCreate then parse_create n st
      else if peek st = tVacuum then pmap SVacuum (parse_vacuum st)
      else if peek st = tBeginTxn then pmap (\<lambda>_. SBegin) (parse_begin st)
      else if peek st = tCommitTxn then pmap (\<lambda>_. SCommit) (parse_commit st)
      else if peek st = tRollbackTxn then pmap (\<lambda>_. SRollback) (parse_rollback st)
      else if peek st = tBackup then pmap SBackup (parse_backup st)
      else if peek st = tSet then pmap SConfig (parse_set st)
      else perror)"

definition parse_fuel :: "string \<Rightarrow> nat" where "parse_fuel sql = 4 * length sql + 12"

definition parse :: "string \<Rightarrow> PError + Statement" where
  "parse sql =
     (let st0 = advance \<lparr>ps_cur = mk_tok tIdentifier [], ps_rest = sql\<rparr>
      in case parse_statement (parse_fuel sql) st0 of
           Inl e \<Rightarrow> Inl e
         | Inr (stmt, st) \<Rightarrow>
             let st' = (if peek st = tSemicolon then advance st else st)
             in if peek st' \<noteq> tEnd then Inl (PStatus kInvalidArgument) else Inr stmt)"

section \<open>The fuel is always enough\<close>

text \<open>
  \<open>left st\<close> bounds the tokens still to come. \<open>good k r\<close>: the result \<open>r\<close> is not an exhausted
  fuel, and at most \<open>k\<close> is left after it.
\<close>

definition left :: "PState \<Rightarrow> nat" where
  "left st = length (ps_rest st) + (if peek st = tEnd then 0 else 1)"

definition good :: "nat \<Rightarrow> 'a Parse \<Rightarrow> bool" where
  "good k r \<longleftrightarrow> (case r of Inl e \<Rightarrow> e \<noteq> PFuel | Inr (a, st) \<Rightarrow> left st \<le> k)"

named_theorems good_intros

lemma left_advance: "left (advance st) \<le> left st" "peek st \<noteq> tEnd \<Longrightarrow> left (advance st) < left st"
proof -
  obtain t r where tr: "next_token (ps_rest st) = (t, r)" by fastforce
  from next_token_progress [OF tr]
  have "length r + (if tok_type t = tEnd then 0 else 1) \<le> length (ps_rest st)" by auto
  then show "left (advance st) \<le> left st" "peek st \<noteq> tEnd \<Longrightarrow> left (advance st) < left st"
    by (auto simp: left_def advance_def tr peek_def)
qed

lemma good_mono: "good k r \<Longrightarrow> k \<le> k' \<Longrightarrow> good k' r"
  by (auto simp: good_def split: sum.splits)

lemma good_bind [good_intros]:
  "good k r \<Longrightarrow> (\<And>a st. left st \<le> k \<Longrightarrow> good k (f a st)) \<Longrightarrow> good k (pbind r f)"
proof (cases r)
  case (Inr q)
  assume r: "good k r" and f: "\<And>a st. left st \<le> k \<Longrightarrow> good k (f a st)"
  obtain a st where q: "q = (a, st)" by (cases q)
  with r Inr have "left st \<le> k" by (simp add: good_def)
  from f [OF this] show ?thesis by (simp add: Inr q pbind_def)
qed (simp add: good_def pbind_def)

lemma good_basic [good_intros]:
  "left st \<le> k \<Longrightarrow> good k (Inr (a, st))" "good k perror" "good k (Inl PThrown)"
  by (simp_all add: good_def perror_def)

lemma good_advance [good_intros]: "left st \<le> k \<Longrightarrow> left (advance st) \<le> k"
  using left_advance(1) [of st] by simp

lemma good_consume [good_intros]: "left st \<le> k \<Longrightarrow> good k (consume t st)"
  by (simp add: consume_def good_basic good_advance)

lemma good_take_text [good_intros]: "left st \<le> k \<Longrightarrow> good k (take_text t st)"
  by (simp add: take_text_def good_basic good_advance)

lemma good_if [good_intros]:
  "(c \<Longrightarrow> good k x) \<Longrightarrow> (\<not> c \<Longrightarrow> good k y) \<Longrightarrow> good k (if c then x else y)"
  by simp

lemma good_option [good_intros]:
  "good k x \<Longrightarrow> (\<And>a. good k (f a)) \<Longrightarrow> good k (case m of None \<Rightarrow> x | Some a \<Rightarrow> f a)"
  by (cases m) auto

lemma good_prod [good_intros]: "(\<And>a b. good k (f a b)) \<Longrightarrow> good k ((case p of (a, b) \<Rightarrow> f a b))"
  by (cases p) auto

lemma good_prod2 [good_intros]: "(\<And>a b. good k (f a b st)) \<Longrightarrow> good k ((case p of (a, b) \<Rightarrow> f a b) st)"
  by (cases p) auto

lemma good_comma_list:
  assumes "\<And>st k. left st \<le> k \<Longrightarrow> k \<le> m \<Longrightarrow> good k (p st)"
  shows "left st \<le> k \<Longrightarrow> k \<le> m \<Longrightarrow> k < n \<Longrightarrow> good k (comma_list n p st)"
proof (induction n arbitrary: st k)
  case (Suc n)
  have "good k (if peek st' = tComma
      then pbind (comma_list n p (advance st')) (\<lambda>xs st. Inr (x # xs, st)) else Inr ([x], st'))"
    if "left st' \<le> k" for x st'
  proof (cases "peek st' = tComma")
    case True
    then have lt: "left (advance st') < k" using left_advance(2) [of st'] that by simp
    then have "good (k - 1) (comma_list n p (advance st'))" using Suc.prems by (intro Suc.IH) auto
    then have "good k (comma_list n p (advance st'))" by (rule good_mono) simp
    with True show ?thesis by (simp add: good_bind good_basic)
  next
    case False
    with that show ?thesis by (simp add: good_basic)
  qed
  with Suc.prems assms show ?case by (simp add: good_bind)
qed simp

lemma good_parse_value [good_intros]: "left st \<le> k \<Longrightarrow> good k (parse_value st)"
  unfolding parse_value_def Let_def by (intro good_intros)

lemma good_parse_qualified [good_intros]: "left st \<le> k \<Longrightarrow> good k (parse_qualified st)"
  unfolding parse_qualified_def by (intro good_intros)

lemma good_parse_column_ref [good_intros]: "left st \<le> k \<Longrightarrow> good k (parse_column_ref st)"
  unfolding parse_column_ref_def Let_def by (intro good_intros)

lemma good_parse_values: "left st \<le> k \<Longrightarrow> k < n \<Longrightarrow> good k (parse_values n st)"
  unfolding parse_values_def
  by (intro good_intros good_comma_list [where m=k]) auto

lemma good_parse_predicate: "left st \<le> k \<Longrightarrow> k < n \<Longrightarrow> good k (parse_predicate n st)"
  unfolding parse_predicate_def
  by (intro good_intros good_comma_list [where m=k]) auto

lemma good_exprs:
  "(\<forall>st k. left st \<le> k \<longrightarrow> 4 * k + 4 \<le> n \<longrightarrow> good k (parse_expr n st)) \<and>
   (\<forall>st k e. left st \<le> k \<longrightarrow> 4 * k + 3 \<le> n \<longrightarrow> good k (or_loop n e st)) \<and>
   (\<forall>st k. left st \<le> k \<longrightarrow> 4 * k + 3 \<le> n \<longrightarrow> good k (parse_expr_and n st)) \<and>
   (\<forall>st k e. left st \<le> k \<longrightarrow> 4 * k + 2 \<le> n \<longrightarrow> good k (and_loop n e st)) \<and>
   (\<forall>st k. left st \<le> k \<longrightarrow> 4 * k + 2 \<le> n \<longrightarrow> good k (parse_expr_primary n st))"
  (is "?E n \<and> ?O n \<and> ?A n \<and> ?L n \<and> ?P n")
proof (induction n)
  case 0
  show ?case by simp
next
  case (Suc n)
  then have E: "?E n" and O: "?O n" and A: "?A n" and L: "?L n" and P: "?P n" by blast+
  have adv: "left (advance st) \<le> k - 1 \<and> 0 < k" if "left st \<le> k" "peek st \<noteq> tEnd" for st k
    using left_advance(2) [OF that(2)] that(1) by simp
  have "?E (Suc n)" using A O by (simp add: good_bind)
  moreover have "?A (Suc n)" using P L by (simp add: good_bind)
  moreover have "?O (Suc n)"
  proof (intro allI impI)
    fix st k e
    assume k: "left st \<le> k" "4 * k + 3 \<le> Suc n"
    show "good k (or_loop (Suc n) e st)"
    proof (cases "peek st = tOr")
      case True
      with k adv have *: "left (advance st) \<le> k - 1" "0 < k" by auto
      then have "good (k - 1) (parse_expr_and n (advance st))" using A k(2) by simp
      moreover have "good (k - 1) (or_loop n x st')" if "left st' \<le> k - 1" for x st'
        using O k(2) that *(2) by simp
      ultimately have "good (k - 1) (or_loop (Suc n) e st)" using True by (simp add: good_bind)
      then show ?thesis by (rule good_mono) simp
    qed (use k in \<open>simp add: good_basic\<close>)
  qed
  moreover have "?L (Suc n)"
  proof (intro allI impI)
    fix st k e
    assume k: "left st \<le> k" "4 * k + 2 \<le> Suc n"
    show "good k (and_loop (Suc n) e st)"
    proof (cases "peek st = tAnd")
      case True
      with k adv have *: "left (advance st) \<le> k - 1" "0 < k" by auto
      then have "good (k - 1) (parse_expr_primary n (advance st))" using P k(2) by simp
      moreover have "good (k - 1) (and_loop n x st')" if "left st' \<le> k - 1" for x st'
        using L k(2) that *(2) by simp
      ultimately have "good (k - 1) (and_loop (Suc n) e st)" using True by (simp add: good_bind)
      then show ?thesis by (rule good_mono) simp
    qed (use k in \<open>simp add: good_basic\<close>)
  qed
  moreover have "?P (Suc n)"
  proof (intro allI impI)
    fix st k
    assume k: "left st \<le> k" "4 * k + 2 \<le> Suc n"
    show "good k (parse_expr_primary (Suc n) st)"
    proof (cases "peek st = tLParen")
      case True
      with k adv have *: "left (advance st) \<le> k - 1" "0 < k" by auto
      then have "good (k - 1) (parse_expr n (advance st))" using E k(2) by simp
      then have "good (k - 1) (parse_expr_primary (Suc n) st)"
        using True by (simp add: good_bind good_basic good_consume)
      then show ?thesis by (rule good_mono) simp
    next
      case False
      with k show ?thesis by (simp add: good_bind good_basic good_parse_predicate)
    qed
  qed
  ultimately show ?case by blast
qed

lemma good_parse_expr: "left st \<le> k \<Longrightarrow> 4 * k + 4 \<le> n \<Longrightarrow> good k (parse_expr n st)"
  using good_exprs by blast

lemma good_parse_where: "left st \<le> k \<Longrightarrow> 4 * k + 4 \<le> n \<Longrightarrow> good k (parse_where n st)"
  unfolding parse_where_def by (intro good_intros good_parse_expr)

lemma good_clauses [good_intros]:
  "left st \<le> k \<Longrightarrow> good k (parse_join st)"
  "left st \<le> k \<Longrightarrow> good k (parse_order_by st)"
  "left st \<le> k \<Longrightarrow> good k (parse_count st)"
  "left st \<le> k \<Longrightarrow> good k (parse_column_def st)"
  "left st \<le> k \<Longrightarrow> good k (parse_create_index st)"
  "left st \<le> k \<Longrightarrow> good k (parse_vacuum st)"
  "left st \<le> k \<Longrightarrow> good k (parse_begin st)"
  "left st \<le> k \<Longrightarrow> good k (parse_commit st)"
  "left st \<le> k \<Longrightarrow> good k (parse_rollback st)"
  "left st \<le> k \<Longrightarrow> good k (parse_backup st)"
  "left st \<le> k \<Longrightarrow> good k (parse_set st)"
  unfolding parse_join_def parse_order_by_def parse_count_def parse_column_def_def
    parse_create_index_def parse_vacuum_def parse_begin_def parse_commit_def parse_rollback_def
    parse_backup_def parse_set_def
  by (intro good_intros; assumption)+

lemma good_parse_limit [good_intros]: "left st \<le> k \<Longrightarrow> good k (parse_limit st)"
  unfolding parse_limit_def by (intro good_intros)

lemma good_pmap [good_intros]: "good k r \<Longrightarrow> good k (pmap f r)"
  unfolding pmap_def by (intro good_intros)

lemma good_lists:
  "left st \<le> k \<Longrightarrow> k < n \<Longrightarrow> good k (parse_columns n st)"
  "left st \<le> k \<Longrightarrow> k < n \<Longrightarrow> good k (parse_group_by n st)"
  "left st \<le> k \<Longrightarrow> k < n \<Longrightarrow> good k (parse_create n st)"
  "left st \<le> k \<Longrightarrow> k < n \<Longrightarrow> good k (parse_insert n st)"
  unfolding parse_columns_def parse_group_by_def parse_create_def parse_insert_def
  by (intro good_intros good_comma_list [where m=k] good_parse_values; (assumption | rule order_refl | linarith))+

lemma good_statements:
  "left st \<le> k \<Longrightarrow> k < n \<Longrightarrow> 4 * k + 4 \<le> n \<Longrightarrow> good k (parse_select n st)"
  "left st \<le> k \<Longrightarrow> k < n \<Longrightarrow> 4 * k + 4 \<le> n \<Longrightarrow> good k (parse_delete n st)"
  "left st \<le> k \<Longrightarrow> k < n \<Longrightarrow> 4 * k + 4 \<le> n \<Longrightarrow> good k (parse_update n st)"
  unfolding parse_select_def parse_delete_def parse_update_def
  by (intro good_intros good_lists good_parse_where; assumption)+

lemma good_parse_statement:
  "left st \<le> k \<Longrightarrow> k < n \<Longrightarrow> 4 * k + 4 \<le> n \<Longrightarrow> good k (parse_statement n st)"
  unfolding parse_statement_def
  by (intro good_intros good_lists good_statements; assumption)

text \<open>
  C30: the parser returns for every input: the bound on its loops and its recursion is never
  reached, so every text is either parsed, refused, or ends in an exception of \<open>std::stoull\<close>.
\<close>

theorem parse_terminates: "parse sql \<noteq> Inl PFuel"
proof -
  let ?st = "advance \<lparr>ps_cur = mk_tok tIdentifier [], ps_rest = sql\<rparr>"
  have "left ?st \<le> length sql"
    using left_advance(2) [of "\<lparr>ps_cur = mk_tok tIdentifier [], ps_rest = sql\<rparr>"]
    by (simp add: left_def peek_def mk_tok_def)
  then have "good (length sql) (parse_statement (parse_fuel sql) ?st)"
    by (rule good_parse_statement) (simp_all add: parse_fuel_def)
  then show ?thesis
    by (auto simp: parse_def good_def Let_def split: sum.splits)
qed

text \<open>
  C26: the operand of \<open>LIMIT\<close> is converted without a check: a lone minus sign, which the
  tokenizer accepts as a number, or a number from \<open>2^64\<close> on, is an exception that leaves
  \<open>parse\<close>, and a negative number is accepted as a huge limit.
\<close>

theorem limit_operand_unchecked:
  "parse ''SELECT * FROM t LIMIT -'' = Inl PThrown \<and>
   parse ''SELECT * FROM t LIMIT 18446744073709551616'' = Inl PThrown \<and>
   parse ''SELECT * FROM t LIMIT -1'' = Inr (SSelect
     \<lparr>se_columns = [], se_table_name = ''t'', se_where = None, se_group_by = [],
      se_join_clause = None, se_order_by = None, se_limit = Some (- 1), se_offset = None\<rparr>)"
  by code_simp

text \<open>
  characters that start no token are skipped and an unterminated string is accepted.
\<close>

theorem malformed_text_accepted:
  "parse ''DELETE # FROM $ t'' = parse ''DELETE FROM t'' \<and>
   parse (''BACKUP TO '' @ [quote_char] @ ''dir'') = Inr (SBackup ''dir'')"
  by code_simp

end
