(* ===== verification/Sql_Printer.thy ===== *)
theory Sql_Printer
  imports Sql_Parser
begin

text \<open>
  A printer for statements, and the proof that the tokenizer reads the printed tokens back.
  The printer puts parentheses only where the tree differs from the precedence of the grammar
  (\<open>AND\<close> binds tighter than \<open>OR\<close>, both associate to the left).
\<close>

section \<open>Token streams\<close>

function lex_all :: "string \<Rightarrow> Token list" where
  "lex_all s = (case next_token s of (t, r) \<Rightarrow> if tok_type t = tEnd then [] else t # lex_all r)"
  by pat_completeness auto
termination
  by (relation "measure length") (auto dest: next_token_progress [OF sym])

declare lex_all.simps [simp del]

text \<open>The state stands at the first of the tokens \<open>ts\<close>.\<close>

definition stands :: "PState \<Rightarrow> Token list \<Rightarrow> bool" where
  "stands st ts \<longleftrightarrow> (case ts of [] \<Rightarrow> peek st = tEnd
     | t # ts' \<Rightarrow> ps_cur st = t \<and> tok_type t \<noteq> tEnd \<and> lex_all (ps_rest st) = ts')"

definition hd_type :: "Token list \<Rightarrow> TokenType" where
  "hd_type ts = (case ts of [] \<Rightarrow> tEnd | t # _ \<Rightarrow> tok_type t)"

lemma hd_type_simps [simp]: "hd_type [] = tEnd" "hd_type (t # ts) = tok_type t"
  by (simp_all add: hd_type_def)

lemma at_peek: "stands st ts \<Longrightarrow> peek st = hd_type ts"
  by (cases ts) (auto simp: stands_def peek_def)

lemma at_text: "stands st (t # ts) \<Longrightarrow> cur_text st = tok_text t"
  by (simp add: stands_def cur_text_def)

lemma at_advance: "stands st (t # ts) \<Longrightarrow> stands (advance st) ts"
proof -
  assume "stands st (t # ts)"
  then have ts: "lex_all (ps_rest st) = ts" by (simp add: stands_def)
  obtain u r where u: "next_token (ps_rest st) = (u, r)" by fastforce
  have "lex_all (ps_rest st) = (if tok_type u = tEnd then [] else u # lex_all r)"
    by (subst lex_all.simps) (simp add: u)
  with ts show ?thesis
    by (cases "tok_type u = tEnd") (auto simp: stands_def advance_def u peek_def)
qed

section \<open>The printer\<close>

definition token_src :: "Token \<Rightarrow> string" where
  "token_src t = (if tok_type t = tString then quote_char # tok_text t @ [quote_char] else tok_text t)"

definition toks_text :: "Token list \<Rightarrow> string" where
  "toks_text ts = concat (map (\<lambda>t. token_src t @ '' '') ts)"

definition print_int :: "int \<Rightarrow> string" where
  "print_int i = (if i < 0 then CHR ''-'' # dec (nat (- i)) else dec (nat i))"

text \<open>The tokens with a fixed text.\<close>

definition sym_table :: "(TokenType \<times> string) list" where
  "sym_table = [(tStar, ''*''), (tComma, '',''), (tLParen, ''(''), (tRParen, '')''), (tDot, ''.''),
     (tEq, ''=''), (tNe, ''!=''), (tLt, ''<''), (tGt, ''>''), (tLe, ''<=''), (tGe, ''>='')]"

definition tok :: "TokenType \<Rightarrow> Token" where
  "tok t = mk_tok t (case map_of (sym_table @ map (\<lambda>(s, k). (k, s)) keyword_table) t of
     Some s \<Rightarrow> s | None \<Rightarrow> [])"

definition ident :: "string \<Rightarrow> Token" where "ident s = mk_tok tIdentifier s"
definition number :: "string \<Rightarrow> Token" where "number s = mk_tok tNumber s"
definition str_lit :: "string \<Rightarrow> Token" where "str_lit s = mk_tok tString s"

lemma tok_types [simp]:
  "tok_type (tok t) = t" "tok_type (ident s) = tIdentifier" "tok_type (number s) = tNumber"
  "tok_type (str_lit s) = tString" "tok_text (ident s) = s" "tok_text (number s) = s"
  "tok_text (str_lit s) = s"
  by (simp_all add: tok_def ident_def number_def str_lit_def mk_tok_def)

definition comma_sep :: "Token list list \<Rightarrow> Token list" where
  "comma_sep tss = (case tss of [] \<Rightarrow> [] | ts # r \<Rightarrow> ts @ concat (map (\<lambda>us. tok tComma # us) r))"

fun value_toks :: "Value \<Rightarrow> Token list" where
  "value_toks (VInt n) = [number (print_int (sint n))]"
| "value_toks (VDouble d) = []"
| "value_toks (VStr s) = [str_lit s]"

definition agg_tok :: "AggFunc \<Rightarrow> TokenType" where
  "agg_tok f = (case f of AggCount \<Rightarrow> tCount | AggSum \<Rightarrow> tSum | AggAvg \<Rightarrow> tAvg | AggMin \<Rightarrow> tMin
     | AggMax \<Rightarrow> tMax | AggNone \<Rightarrow> tIdentifier)"

definition qualified_toks :: "string \<Rightarrow> string \<Rightarrow> Token list" where
  "qualified_toks t n = (if t = [] then [ident n] else [ident t, tok tDot, ident n])"

definition column_toks :: "ColumnRef \<Rightarrow> Token list" where
  "column_toks r =
     (if cr_func r = AggNone then qualified_toks (cr_table r) (cr_name r)
      else [tok (agg_tok (cr_func r)), tok tLParen] @
           (if cr_is_star r then [tok tStar] else qualified_toks (cr_table r) (cr_name r)) @ [tok tRParen])"

fun op_tok :: "CmpOp \<Rightarrow> TokenType" where
  "op_tok CmpEq = tEq" | "op_tok CmpNe = tNe" | "op_tok CmpLt = tLt" | "op_tok CmpGt = tGt"
| "op_tok CmpLe = tLe" | "op_tok CmpGe = tGe" | "op_tok CmpIn = tIn"

definition pred_toks :: "Predicate \<Rightarrow> Token list" where
  "pred_toks p = column_toks (pr_column p) @ [tok (op_tok (pr_op p))] @
     (if pr_op p = CmpIn
      then [tok tLParen] @ comma_sep (map value_toks (pr_in_values p)) @ [tok tRParen]
      else value_toks (pr_value p))"

definition paren :: "Token list \<Rightarrow> Token list" where "paren ts = [tok tLParen] @ ts @ [tok tRParen]"

text \<open>Level 0 is an operand of nothing, 1 of \<open>OR\<close> (and the left of \<open>AND\<close>), 2 the right of \<open>AND\<close>.\<close>

fun expr_toks :: "nat \<Rightarrow> ExprNode \<Rightarrow> Token list" where
  "expr_toks l (EPred p) = pred_toks p"
| "expr_toks l (EOr a b) =
     (if l = 0 then expr_toks 0 a @ [tok tOr] @ expr_toks 1 b
      else paren (expr_toks 0 a @ [tok tOr] @ expr_toks 1 b))"
| "expr_toks l (EAnd a b) =
     (if l \<le> 1 then expr_toks 1 a @ [tok tAnd] @ expr_toks 2 b
      else paren (expr_toks 1 a @ [tok tAnd] @ expr_toks 2 b))"

section \<open>What can be printed\<close>

definition name_ok :: "string \<Rightarrow> bool" where
  "name_ok s \<longleftrightarrow> s \<noteq> [] \<and> (is_alpha (hd s) \<or> hd s = CHR ''_'') \<and> list_all word_char s \<and>
     is_keyword (map to_lower s) = tIdentifier"

fun value_ok :: "Value \<Rightarrow> bool" where
  "value_ok (VInt n) \<longleftrightarrow> True"
| "value_ok (VDouble d) \<longleftrightarrow> False"
| "value_ok (VStr s) \<longleftrightarrow> quote_char \<notin> set s"

definition column_ok :: "ColumnRef \<Rightarrow> bool" where
  "column_ok r \<longleftrightarrow>
     (if cr_is_star r then cr_func r \<noteq> AggNone \<and> cr_table r = [] \<and> cr_name r = ''*''
      else (cr_table r = [] \<or> name_ok (cr_table r)) \<and> name_ok (cr_name r))"

definition predicate_ok :: "Predicate \<Rightarrow> bool" where
  "predicate_ok p \<longleftrightarrow> column_ok (pr_column p) \<and>
     (if pr_op p = CmpIn
      then pr_value p = VInt 0 \<and> pr_in_values p \<noteq> [] \<and> list_all value_ok (pr_in_values p)
      else pr_in_values p = [] \<and> value_ok (pr_value p))"

fun exprn_ok :: "ExprNode \<Rightarrow> bool" where
  "exprn_ok (EPred p) \<longleftrightarrow> predicate_ok p"
| "exprn_ok (EAnd a b) \<longleftrightarrow> exprn_ok a \<and> exprn_ok b"
| "exprn_ok (EOr a b) \<longleftrightarrow> exprn_ok a \<and> exprn_ok b"

section \<open>Lexing printed tokens\<close>

definition lexable :: "Token \<Rightarrow> bool" where
  "lexable t \<longleftrightarrow> tok_type t \<noteq> tEnd \<and>
     (\<forall>rest. next_token (token_src t @ CHR '' '' # rest) = (t, CHR '' '' # rest))"

lemma next_token_space: "next_token (CHR '' '' # s) = next_token s"
  by (subst (1 2) next_token.simps) (simp add: is_space_def)

lemma lex_all_space: "lex_all (CHR '' '' # s) = lex_all s"
  by (subst (1 2) lex_all.simps) (simp add: next_token_space)

lemma lex_all_toks: "list_all lexable ts \<Longrightarrow> lex_all (toks_text ts) = ts"
proof (induction ts)
  case Nil
  have "next_token [] = (mk_tok tEnd [], [])" by (simp add: next_token.simps)
  then show ?case by (subst lex_all.simps) (simp add: toks_text_def mk_tok_def)
next
  case (Cons t ts)
  then have "next_token (toks_text (t # ts)) = (t, CHR '' '' # toks_text ts)" "tok_type t \<noteq> tEnd"
    by (simp_all add: lexable_def toks_text_def)
  with Cons show ?case by (subst lex_all.simps) (simp add: lex_all_space)
qed

lemma stands_start:
  assumes "list_all lexable ts"
  shows "stands (advance \<lparr>ps_cur = c, ps_rest = toks_text ts\<rparr>) ts"
proof -
  obtain u r where u: "next_token (toks_text ts) = (u, r)" by fastforce
  have "lex_all (toks_text ts) = (if tok_type u = tEnd then [] else u # lex_all r)"
    by (subst lex_all.simps) (simp add: u)
  moreover have "advance \<lparr>ps_cur = c, ps_rest = toks_text ts\<rparr> = \<lparr>ps_cur = u, ps_rest = r\<rparr>"
    by (simp add: advance_def u)
  ultimately show ?thesis
    using lex_all_toks [OF assms] by (cases "tok_type u = tEnd") (auto simp: stands_def peek_def)
qed

text \<open>A token whose text starts at a character that is not white space.\<close>

lemma lexable_char:
  assumes "token_src t = c # cs" "\<not> is_space c" "tok_type t \<noteq> tEnd"
    and "\<And>rest. lex_char c (cs @ CHR '' '' # rest) = Some (t, CHR '' '' # rest)"
  shows "lexable t"
proof -
  have "next_token (token_src t @ CHR '' '' # rest) = (t, CHR '' '' # rest)" for rest
    using assms by (subst next_token.simps) simp
  with assms(3) show ?thesis by (simp add: lexable_def)
qed

lemma space_class [simp]: "\<not> word_char (CHR '' '')" "\<not> number_char (CHR '' '')"
  by (simp_all add: word_char_def number_char_def is_alnum_def is_alpha_def is_upper_def is_lower_def
      is_digit_def)

lemma span_all:
  "list_all p w \<Longrightarrow> \<not> p c \<Longrightarrow> takeWhile p (w @ c # rest) = w \<and> dropWhile p (w @ c # rest) = c # rest"
  by (induction w) auto

text \<open>The characters that start a word or a number start no other token.\<close>

definition special_chars :: "char list" where
  "special_chars = [CHR ''*'', CHR '','', CHR ''('', CHR '')'', CHR '';'', CHR ''.'', CHR ''!'', CHR ''<'',
     CHR ''>'', CHR ''='', CHR 0x27]"

lemma special_chars_classes:
  "list_all (\<lambda>c. \<not> is_alpha c \<and> \<not> is_digit c \<and> c \<noteq> CHR ''_'' \<and> c \<noteq> CHR ''-'') special_chars"
  by code_simp

lemma not_special:
  assumes "is_alpha c \<or> is_digit c \<or> c = CHR ''_'' \<or> c = CHR ''-''"
  shows "map_of single_chars c = None" "c \<noteq> CHR ''!''" "c \<noteq> CHR ''<''" "c \<noteq> CHR ''>''"
    "c \<noteq> CHR ''=''" "c \<noteq> quote_char" "\<not> is_space c"
proof -
  have "c \<notin> set special_chars" using assms special_chars_classes by (auto simp: list_all_iff)
  then show "map_of single_chars c = None" "c \<noteq> CHR ''!''" "c \<noteq> CHR ''<''" "c \<noteq> CHR ''>''"
    "c \<noteq> CHR ''=''" "c \<noteq> quote_char"
    by (simp_all add: special_chars_def single_chars_def quote_char_def)
  show "\<not> is_space c"
    using assms by (auto simp: is_space_def is_alpha_def is_upper_def is_lower_def is_digit_def)
qed

lemma word_start:
  assumes "is_alpha c \<or> c = CHR ''_''"
  shows "lex_char c cs =
    (let w = takeWhile word_char (c # cs); kw = is_keyword (map to_lower w)
     in Some (if kw \<noteq> tIdentifier then mk_tok kw (map to_lower w) else mk_tok tIdentifier w,
              dropWhile word_char (c # cs)))" "\<not> is_space c"
proof -
  have a: "is_alpha c \<or> is_digit c \<or> c = CHR ''_'' \<or> c = CHR ''-''" using assms by blast
  note ns = not_special [OF a]
  show "lex_char c cs = (let w = takeWhile word_char (c # cs); kw = is_keyword (map to_lower w)
     in Some (if kw \<noteq> tIdentifier then mk_tok kw (map to_lower w) else mk_tok tIdentifier w,
              dropWhile word_char (c # cs)))" "\<not> is_space c"
    using assms ns by (simp_all add: lex_char_def del: takeWhile.simps dropWhile.simps)
qed

lemma lexable_word:
  assumes "w \<noteq> []" "is_alpha (hd w) \<or> hd w = CHR ''_''" "list_all word_char w"
    and "t = (if is_keyword (map to_lower w) \<noteq> tIdentifier
              then mk_tok (is_keyword (map to_lower w)) (map to_lower w) else mk_tok tIdentifier w)"
    and "token_src t = w" "tok_type t \<noteq> tEnd"
  shows "lexable t"
proof -
  obtain c cs where w: "w = c # cs" using assms(1) by (cases w) auto
  have "lex_char c (cs @ CHR '' '' # rest) = Some (t, CHR '' '' # rest)" for rest
    using word_start(1) [of c "cs @ CHR '' '' # rest"] assms(2-4) span_all [of word_char w "CHR '' ''" rest]
    by (simp add: w Let_def)
  then show ?thesis
    using assms(2,5,6) word_start(2) [of c] by (intro lexable_char [of t c cs]) (simp_all add: w)
qed

lemma lexable_ident: "name_ok s \<Longrightarrow> lexable (ident s)"
  by (rule lexable_word [of s]) (auto simp: name_ok_def ident_def mk_tok_def token_src_def)

lemma keyword_words:
  "list_all (\<lambda>(w, k). w \<noteq> [] \<and> is_alpha (hd w) \<and> list_all word_char w \<and> map to_lower w = w \<and>
     is_keyword w = k \<and> k \<noteq> tIdentifier \<and> k \<noteq> tString \<and> k \<noteq> tEnd \<and> tok k = mk_tok k w) keyword_table"
  by code_simp

lemma lexable_keyword: "k \<in> snd ` set keyword_table \<Longrightarrow> lexable (tok k)"
proof -
  assume "k \<in> snd ` set keyword_table"
  then obtain w where wk: "(w, k) \<in> set keyword_table" by auto
  with keyword_words have "w \<noteq> []" "is_alpha (hd w)" "list_all word_char w" "map to_lower w = w"
    "is_keyword w = k" "k \<noteq> tIdentifier" "k \<noteq> tString" "k \<noteq> tEnd" "tok k = mk_tok k w"
    by (auto simp: list_all_iff)
  then show ?thesis by (intro lexable_word [of w]) (auto simp: mk_tok_def token_src_def)
qed

lemma lexable_keywords [simp]:
  "lexable (tok tInsert)" "lexable (tok tInto)" "lexable (tok tValues)" "lexable (tok tSelect)"
  "lexable (tok tFrom)" "lexable (tok tWhere)" "lexable (tok tDelete)" "lexable (tok tCreate)"
  "lexable (tok tTable)" "lexable (tok tIndex)" "lexable (tok tOn)" "lexable (tok tOrder)"
  "lexable (tok tBy)" "lexable (tok tAsc)" "lexable (tok tDesc)" "lexable (tok tLimit)"
  "lexable (tok tOffset)" "lexable (tok tVacuum)" "lexable (tok tUpdate)" "lexable (tok tSet)"
  "lexable (tok tBeginTxn)" "lexable (tok tCommitTxn)" "lexable (tok tRollbackTxn)"
  "lexable (tok tCount)" "lexable (tok tSum)" "lexable (tok tAvg)" "lexable (tok tMin)"
  "lexable (tok tMax)" "lexable (tok tGroup)" "lexable (tok tJoin)" "lexable (tok tAnd)"
  "lexable (tok tOr)" "lexable (tok tIn)" "lexable (tok tBackup)" "lexable (tok tTo)"
  "lexable (tok tInterval)" "lexable (tok tRetention)"
  by (rule lexable_keyword, simp add: keyword_table_def)+

lemma lexable_symbols [simp]:
  "lexable (tok tStar)" "lexable (tok tComma)" "lexable (tok tLParen)" "lexable (tok tRParen)"
  "lexable (tok tDot)" "lexable (tok tEq)" "lexable (tok tNe)" "lexable (tok tLt)" "lexable (tok tGt)"
  "lexable (tok tLe)" "lexable (tok tGe)"
  by (rule lexable_char, simp add: tok_def sym_table_def mk_tok_def token_src_def,
      simp_all add: is_space_def tok_def sym_table_def mk_tok_def lex_char_def single_chars_def starts_eq_def)+

lemma lexable_string: "quote_char \<notin> set s \<Longrightarrow> lexable (str_lit s)"
proof (rule lexable_char [of _ quote_char "s @ [quote_char]"])
  assume "quote_char \<notin> set s"
  then have all: "list_all (\<lambda>d. d \<noteq> quote_char) s" by (auto simp: list_all_iff)
  have "takeWhile (\<lambda>d. d \<noteq> quote_char) (s @ quote_char # r) = s"
    "dropWhile (\<lambda>d. d \<noteq> quote_char) (s @ quote_char # r) = quote_char # r" for r
    using span_all [OF all, of quote_char r] by simp_all
  then show "lex_char quote_char ((s @ [quote_char]) @ CHR '' '' # rest) = Some (str_lit s, CHR '' '' # rest)" for rest
    by (simp add: lex_char_def single_chars_def str_lit_def) (simp add: quote_char_def)
qed (simp_all add: token_src_def str_lit_def mk_tok_def quote_char_def is_space_def)

section \<open>Numbers\<close>

lemma digit_not_alpha: "is_digit c \<Longrightarrow> \<not> is_alpha c" "\<not> is_alpha (CHR ''-'')" "is_digit c \<Longrightarrow> c \<noteq> CHR ''_''"
  by (auto simp: is_digit_def is_alpha_def is_upper_def is_lower_def)

lemma lexable_number:
  assumes "list_all is_digit ds" "ds \<noteq> []"
  shows "lexable (number ds)" "lexable (number (CHR ''-'' # ds))"
proof -
  have nc: "list_all number_char ds" using assms(1) by (auto simp: list_all_iff number_char_def)
  note span = span_all [OF nc space_class(2)]
  obtain c cs where ds: "ds = c # cs" using assms(2) by (cases ds) auto
  then have c: "is_digit c" using assms(1) by simp
  show "lexable (number ds)"
  proof (rule lexable_char [of _ c cs])
    show "lex_char c (cs @ CHR '' '' # rest) = Some (number ds, CHR '' '' # rest)" for rest
      using not_special [OF disjI2 [OF disjI1 [OF c]]] digit_not_alpha(1,3) [OF c] c span [of rest]
        is_digit_not [OF c]
      by (simp add: ds number_def lex_char_def)
  qed (use is_digit_not [OF c] in \<open>simp_all add: ds token_src_def number_def mk_tok_def\<close>)
  show "lexable (number (CHR ''-'' # ds))"
  proof (rule lexable_char [of _ "CHR ''-''" ds])
    show "lex_char (CHR ''-'') (ds @ CHR '' '' # rest) = Some (number (CHR ''-'' # ds), CHR '' '' # rest)" for rest
      using not_special [OF disjI2 [OF disjI2 [OF disjI2 [OF refl [of "CHR ''-''"]]]]] digit_not_alpha(2)
        span [of rest]
      by (simp add: number_def lex_char_def)
  qed (simp_all add: token_src_def number_def mk_tok_def is_space_def)
qed

lemma takeWhile_digits: "list_all is_digit ds \<Longrightarrow> takeWhile is_digit ds = ds"
  by (simp add: list_all_iff takeWhile_eq_all_conv)

lemma from_chars_print:
  "from_chars (print_int (sint n)) = Some n"
proof -
  have r: "- (2 ^ 63) \<le> sint n" "sint n < 2 ^ 63"
    using sint_ge [of n] sint_lt [of n] by simp_all
  have td: "takeWhile is_digit (dec k) = dec k" for k using dec_digits takeWhile_digits by blast
  show ?thesis
  proof (cases "sint n < 0")
    case True
    then have "print_int (sint n) = CHR ''-'' # dec (nat (- sint n))" by (simp add: print_int_def)
    moreover have "digits_int (dec (nat (- sint n))) = - sint n"
      using True by (simp add: digits_int_eq digits_val_dec)
    ultimately show ?thesis using r dec_digits by (simp add: from_chars_def td Let_def)
  next
    case False
    obtain c cs where d: "dec (nat (sint n)) = c # cs" using dec_digits by (meson neq_Nil_conv)
    then have "is_digit c" using dec_digits [of "nat (sint n)"] by simp
    then have "c \<noteq> CHR ''-''" using is_digit_not by blast
    moreover have "print_int (sint n) = dec (nat (sint n))" using False by (simp add: print_int_def)
    moreover have "digits_int (dec (nat (sint n))) = sint n"
      using False by (simp add: digits_int_eq digits_val_dec)
    ultimately show ?thesis using r td [of "nat (sint n)"] by (simp add: from_chars_def d Let_def)
  qed
qed

lemma no_dot: "CHR ''.'' \<notin> set (print_int i)"
proof -
  have "\<not> is_digit (CHR ''.'')" by (simp add: is_digit_def)
  then have "CHR ''.'' \<notin> set (dec k)" for k using dec_digits [of k] by (auto simp: list_all_iff)
  then show ?thesis by (simp add: print_int_def)
qed

lemma lexable_value: "value_ok v \<Longrightarrow> list_all lexable (value_toks v)"
  using dec_digits lexable_number lexable_string by (cases v) (auto simp: print_int_def)

end
