(* ===== verification/Sql_Roundtrip.thy ===== *)
theory Sql_Roundtrip
  imports Sql_Printer
begin

text \<open>
  The parser reads back every statement that the printer of \<open>Sql_Printer\<close> can write. Since the
  printer writes the fewest parentheses, the round trip also says which tree the parser builds
  for a text without them.
\<close>

section \<open>Parsing a stretch of tokens\<close>

text \<open>
  \<open>reads p ts v B\<close>: in front of the tokens \<open>ts\<close>, unless a token of a kind in \<open>B\<close> follows
  them, the parser \<open>p\<close> delivers \<open>v\<close> and stands behind them.
\<close>

definition reads :: "(PState \<Rightarrow> 'a Parse) \<Rightarrow> Token list \<Rightarrow> 'a \<Rightarrow> TokenType set \<Rightarrow> bool" where
  "reads p ts v B \<longleftrightarrow> (\<forall>st rest. stands st (ts @ rest) \<longrightarrow> hd_type rest \<notin> B \<longrightarrow>
     (\<exists>st'. p st = Inr (v, st') \<and> stands st' rest))"

lemma readsI:
  "(\<And>st rest. stands st (ts @ rest) \<Longrightarrow> hd_type rest \<notin> B \<Longrightarrow> \<exists>st'. p st = Inr (v, st') \<and> stands st' rest)
   \<Longrightarrow> reads p ts v B"
  by (simp add: reads_def)

lemma readsD:
  "reads p ts v B \<Longrightarrow> stands st (ts @ rest) \<Longrightarrow> hd_type rest \<notin> B \<Longrightarrow> \<exists>st'. p st = Inr (v, st') \<and> stands st' rest"
  by (simp add: reads_def)

lemma reads_mono: "reads p ts v B \<Longrightarrow> B \<subseteq> B' \<Longrightarrow> reads p ts v B'"
  by (auto simp: reads_def)

lemma reads_bind:
  assumes "reads p ts v B" "reads (f v) us w B'"
    and "us = [] \<Longrightarrow> B \<subseteq> B'" "us \<noteq> [] \<Longrightarrow> hd_type us \<notin> B"
  shows "reads (\<lambda>st. pbind (p st) f) (ts @ us) w B'"
proof (rule readsI)
  fix st rest
  assume st: "stands st ((ts @ us) @ rest)" and B': "hd_type rest \<notin> B'"
  then have "hd_type (us @ rest) \<notin> B" using assms(3,4) by (cases us) auto
  with st assms(1) obtain st1 where 1: "p st = Inr (v, st1)" "stands st1 (us @ rest)"
    using readsD [of p ts v B st "us @ rest"] by auto
  with B' assms(2) obtain st2 where "f v st1 = Inr (w, st2)" "stands st2 rest"
    using readsD [of "f v" us w B' st1 rest] by blast
  with 1 show "\<exists>st'. pbind (p st) f = Inr (w, st') \<and> stands st' rest" by (simp add: pbind_def)
qed

lemma reads_return: "reads (\<lambda>st. Inr (v, st)) [] v B"
  by (simp add: reads_def)

lemma reads_consume: "t \<noteq> tEnd \<Longrightarrow> tok_type u = t \<Longrightarrow> reads (consume t) [u] () {}"
  by (auto simp: reads_def consume_def at_peek intro: at_advance dest: at_peek)

lemma reads_take_text: "t \<noteq> tEnd \<Longrightarrow> tok_type u = t \<Longrightarrow> reads (take_text t) [u] (tok_text u) {}"
  by (auto simp: reads_def take_text_def at_text at_peek intro: at_advance dest: at_peek)

lemma reads_map: "reads p ts v B \<Longrightarrow> reads (\<lambda>st. pbind (p st) (\<lambda>x st. Inr (g x, st))) ts (g v) B"
proof -
  assume "reads p ts v B"
  then have "reads (\<lambda>st. pbind (p st) (\<lambda>x st. Inr (g x, st))) (ts @ []) (g v) B"
    by (rule reads_bind) (auto intro: reads_return)
  then show ?thesis by simp
qed

text \<open>A parser that branches on the current token.\<close>

lemma reads_if_true:
  "reads p ts v B \<Longrightarrow> ts \<noteq> [] \<Longrightarrow> c (hd_type ts) \<Longrightarrow> reads (\<lambda>st. if c (peek st) then p st else q st) ts v B"
  by (cases ts) (auto simp: reads_def dest: at_peek)

lemma reads_if_false:
  "reads q ts v B \<Longrightarrow> ts \<noteq> [] \<Longrightarrow> \<not> c (hd_type ts) \<Longrightarrow> reads (\<lambda>st. if c (peek st) then p st else q st) ts v B"
  by (cases ts) (auto simp: reads_def dest: at_peek)

lemma reads_skip:
  assumes "reads p ts v B" "tok_type u \<noteq> tEnd"
  shows "reads (\<lambda>st. p (advance st)) (u # ts) v B"
  using assms at_advance by (fastforce simp: reads_def)

section \<open>Values, columns, predicates\<close>

lemma reads_value: "value_ok v \<Longrightarrow> reads parse_value (value_toks v) v B"
proof (cases v)
  case (VInt n)
  then show ?thesis
    by (auto simp: reads_def parse_value_def at_peek at_text no_dot from_chars_print
        dest: at_peek at_text intro: at_advance)
next
  case (VStr s)
  then show ?thesis
    by (auto simp: reads_def parse_value_def at_text dest: at_peek intro: at_advance)
qed simp

lemma comma_sep_Cons: "comma_sep (ts # us # r) = ts @ tok tComma # comma_sep (us # r)"
  by (simp add: comma_sep_def)

lemma reads_comma_list:
  assumes "tComma \<notin> B"
  shows "(\<And>v. v \<in> set vs \<Longrightarrow> reads p (f v) v B) \<Longrightarrow> vs \<noteq> [] \<Longrightarrow> length vs \<le> n
    \<Longrightarrow> reads (comma_list n p) (comma_sep (map f vs)) vs (insert tComma B)"
proof (induction vs arbitrary: n)
  case (Cons v vs)
  then obtain m where n: "n = Suc m" by (cases n) auto
  show ?case
  proof (rule readsI)
    fix st rest
    assume st: "stands st (comma_sep (map f (v # vs)) @ rest)" and B: "hd_type rest \<notin> insert tComma B"
    show "\<exists>st'. comma_list n p st = Inr (v # vs, st') \<and> stands st' rest"
    proof (cases vs)
      case Nil
      with st Cons.prems(1) [of v] B obtain st1 where "p st = Inr (v, st1)" "stands st1 rest"
        using readsD [of p "f v" v B st rest] by (auto simp: comma_sep_def)
      with B Nil at_peek show ?thesis by (fastforce simp: n pbind_def)
    next
      case (Cons w ws)
      with st have "stands st (f v @ tok tComma # comma_sep (map f vs) @ rest)"
        by (simp add: comma_sep_Cons)
      then obtain st1 where 1: "p st = Inr (v, st1)" "stands st1 (tok tComma # comma_sep (map f vs) @ rest)"
        using Cons.prems(1) [of v] assms readsD [of p "f v" v B st "tok tComma # comma_sep (map f vs) @ rest"]
        by auto
      have "reads (comma_list m p) (comma_sep (map f vs)) vs (insert tComma B)"
        using Cons.prems Cons n by (intro Cons.IH) auto
      from readsD [OF this at_advance [OF 1(2)] B]
      obtain st2 where "comma_list m p (advance st1) = Inr (vs, st2)" "stands st2 rest" by blast
      with 1 show ?thesis using at_peek [OF 1(2)] by (simp add: n pbind_def)
    qed
  qed
qed simp

lemma reads_qualified:
  "reads parse_qualified (qualified_toks t n) (t, n) {tDot}"
proof (cases "t = []")
  case True
  show ?thesis
  proof (rule readsI)
    fix st rest
    assume "stands st (qualified_toks t n @ rest)" "hd_type rest \<notin> {tDot}"
    with True show "\<exists>st'. parse_qualified st = Inr ((t, n), st') \<and> stands st' rest"
      using at_advance [of st "ident n" rest] at_peek [of st "ident n # rest"]
        at_peek [of "advance st" rest]
      by (auto simp: qualified_toks_def parse_qualified_def take_text_def at_text pbind_def)
  qed
next
  case False
  show ?thesis
  proof (rule readsI)
    fix st rest
    assume "stands st (qualified_toks t n @ rest)"
    then have 0: "stands st (ident t # tok tDot # ident n # rest)" using False by (simp add: qualified_toks_def)
    have 1: "stands (advance st) (tok tDot # ident n # rest)" using 0 by (rule at_advance)
    have 2: "stands (advance (advance st)) (ident n # rest)" using 1 by (rule at_advance)
    have 3: "stands (advance (advance (advance st))) rest" using 2 by (rule at_advance)
    from 0 1 2 3 show "\<exists>st'. parse_qualified st = Inr ((t, n), st') \<and> stands st' rest"
      using at_peek [OF 0] at_peek [OF 1] at_peek [OF 2]
      by (simp add: parse_qualified_def take_text_def at_text pbind_def)
  qed
qed

text \<open>The chaining of the steps of one grammar rule: the tokens are consumed piece by piece.\<close>

lemma reads_bind_tok:
  assumes "reads p [u] v {}" "reads (f v) us w B"
  shows "reads (\<lambda>st. pbind (p st) f) (u # us) w B"
  using reads_bind [of p "[u]" v "{}" f us w B] assms by simp

lemma reads_cong: "(\<And>st. p st = q st) \<Longrightarrow> reads q ts v B \<Longrightarrow> reads p ts v B"
  by (simp add: reads_def)

lemma agg_tok_facts:
  "f \<noteq> AggNone \<Longrightarrow> agg_func (agg_tok f) = f \<and> agg_tok f \<noteq> tEnd"
  by (cases f) (simp_all add: agg_func_def agg_tok_def)

lemma reads_column: "column_ok r \<Longrightarrow> reads parse_column_ref (column_toks r) r {tDot}"
proof (cases "cr_func r = AggNone")
  case True
  assume ok: "column_ok r"
  let ?q = "\<lambda>st. pbind (parse_qualified st) (\<lambda>(t, n) st.
      Inr (\<lparr>cr_table = t, cr_name = n, cr_func = AggNone, cr_is_star = False\<rparr>, st))"
  have r: "\<lparr>cr_table = cr_table r, cr_name = cr_name r, cr_func = AggNone, cr_is_star = False\<rparr> = r"
    using ok True by (simp add: column_ok_def split: if_splits)
  have "reads ?q (qualified_toks (cr_table r) (cr_name r) @ []) r {tDot}"
    by (rule reads_bind [OF reads_qualified]) (use reads_return [of r] r in auto)
  moreover have "parse_column_ref st = ?q st" if "stands st (column_toks r @ rest)" for st rest
    using at_peek [OF that] True
    by (simp add: parse_column_ref_def column_toks_def qualified_toks_def agg_func_def split: if_splits)
  ultimately show ?thesis using True by (auto simp: reads_def column_toks_def)
next
  case False
  assume ok: "column_ok r"
  let ?f = "cr_func r"
  let ?mid = "if cr_is_star r then [tok tStar] else qualified_toks (cr_table r) (cr_name r)"
  let ?body = "\<lambda>st. if peek st = tStar
      then Inr (\<lparr>cr_table = [], cr_name = ''*'', cr_func = ?f, cr_is_star = True\<rparr>, advance st)
      else pbind (parse_qualified st) (\<lambda>(t, n) st.
             Inr (\<lparr>cr_table = t, cr_name = n, cr_func = ?f, cr_is_star = False\<rparr>, st))"
  have body: "reads ?body ?mid r {tDot}"
  proof (cases "cr_is_star r")
    case True
    then have r: "\<lparr>cr_table = [], cr_name = ''*'', cr_func = ?f, cr_is_star = True\<rparr> = r"
      using ok by (simp add: column_ok_def)
    with True show ?thesis by (auto simp: reads_def dest: at_peek intro: at_advance)
  next
    case False
    then have r: "\<lparr>cr_table = cr_table r, cr_name = cr_name r, cr_func = ?f, cr_is_star = False\<rparr> = r" by simp
    have "reads (\<lambda>st. pbind (parse_qualified st) (\<lambda>(t, n) st.
             Inr (\<lparr>cr_table = t, cr_name = n, cr_func = ?f, cr_is_star = False\<rparr>, st)))
          (qualified_toks (cr_table r) (cr_name r) @ []) r {tDot}"
      by (rule reads_bind [OF reads_qualified]) (use reads_return [of r] r in auto)
    then show ?thesis
      using False by (intro reads_if_false) (auto simp: qualified_toks_def)
  qed
  have "reads (\<lambda>st. pbind (consume tLParen st) (\<lambda>_ st. pbind (?body st)
      (\<lambda>ref st. pbind (consume tRParen st) (\<lambda>_ st. Inr (ref, st))))) ([tok tLParen] @ ?mid @ [tok tRParen] @ []) r {tDot}"
    by (intro reads_bind [OF reads_consume] reads_bind [OF body] reads_bind [OF reads_consume] reads_return) auto
  then have "reads (\<lambda>st. (\<lambda>st. pbind (consume tLParen st) (\<lambda>_ st. pbind (?body st)
      (\<lambda>ref st. pbind (consume tRParen st) (\<lambda>_ st. Inr (ref, st))))) (advance st))
      (tok (agg_tok ?f) # [tok tLParen] @ ?mid @ [tok tRParen] @ []) r {tDot}"
    using agg_tok_facts [OF False] by (intro reads_skip) simp_all
  moreover have "column_toks r = tok (agg_tok ?f) # [tok tLParen] @ ?mid @ [tok tRParen] @ []"
    using False by (simp add: column_toks_def)
  moreover have "agg_func (peek st) = ?f" if "stands st (column_toks r @ rest)" for st rest
    using at_peek [OF that] False agg_tok_facts [OF False] by (simp add: column_toks_def)
  ultimately show ?thesis
    using False by (auto simp: reads_def parse_column_ref_def Let_def)
qed

lemma op_tok_facts: "cmp_op (op_tok op) = Some op" "op_tok op \<noteq> tEnd" "op_tok op \<noteq> tDot"
  by (cases op; simp add: cmp_op_def)+

lemma value_toks_ne: "value_ok v \<Longrightarrow> value_toks v \<noteq> []"
  by (cases v) auto

lemma reads_predicate:
  assumes "predicate_ok p" "length (pr_in_values p) \<le> n"
  shows "reads (parse_predicate n) (pred_toks p) p {}"
proof -
  let ?c = "pr_column p" and ?op = "pr_op p"
  let ?tail = "if ?op = CmpIn then [tok tLParen] @ comma_sep (map value_toks (pr_in_values p)) @ [tok tRParen]
    else value_toks (pr_value p)"
  let ?k = "\<lambda>col st. case cmp_op (peek st) of None \<Rightarrow> perror
       | Some op \<Rightarrow>
           if op = CmpIn then
             pbind (consume tLParen (advance st)) (\<lambda>_ st.
             pbind (comma_list n parse_value st) (\<lambda>vs st.
             pbind (consume tRParen st) (\<lambda>_ st.
               Inr (\<lparr>pr_column = col, pr_op = op, pr_value = VInt 0, pr_in_values = vs\<rparr>, st))))
           else
             pbind (parse_value (advance st)) (\<lambda>v st.
               Inr (\<lparr>pr_column = col, pr_op = op, pr_value = v, pr_in_values = []\<rparr>, st))"
  have "reads (?k ?c) (tok (op_tok ?op) # ?tail) p {}"
  proof (cases "?op = CmpIn")
    case True
    then have p: "\<lparr>pr_column = ?c, pr_op = CmpIn, pr_value = VInt 0, pr_in_values = pr_in_values p\<rparr> = p"
      and vs: "pr_in_values p \<noteq> []" "list_all value_ok (pr_in_values p)"
      using assms(1) by (auto simp: predicate_ok_def)
    have cl: "reads (comma_list n parse_value) (comma_sep (map value_toks (pr_in_values p)))
        (pr_in_values p) (insert tComma {})"
      using vs assms(2) by (intro reads_comma_list reads_value) (auto simp: list_all_iff)
    have "reads (\<lambda>st. pbind (consume tLParen st) (\<lambda>_ st. pbind (comma_list n parse_value st) (\<lambda>vs st.
        pbind (consume tRParen st) (\<lambda>_ st.
          Inr (\<lparr>pr_column = ?c, pr_op = CmpIn, pr_value = VInt 0, pr_in_values = vs\<rparr>, st)))))
        ([tok tLParen] @ comma_sep (map value_toks (pr_in_values p)) @ [tok tRParen] @ []) p {}"
      by (intro reads_bind [OF reads_consume] reads_bind [OF cl] reads_bind [OF reads_consume])
        (use p reads_return [of p] in auto)
    then have "reads (\<lambda>st. (\<lambda>st. pbind (consume tLParen st) (\<lambda>_ st. pbind (comma_list n parse_value st) (\<lambda>vs st.
        pbind (consume tRParen st) (\<lambda>_ st.
          Inr (\<lparr>pr_column = ?c, pr_op = CmpIn, pr_value = VInt 0, pr_in_values = vs\<rparr>, st))))) (advance st))
        (tok (op_tok ?op) # [tok tLParen] @ comma_sep (map value_toks (pr_in_values p)) @ [tok tRParen] @ []) p {}"
      by (rule reads_skip) (simp add: op_tok_facts)
    then show ?thesis
      using True at_peek by (fastforce simp: reads_def cmp_op_def)
  next
    case False
    then have p: "\<lparr>pr_column = ?c, pr_op = ?op, pr_value = pr_value p, pr_in_values = []\<rparr> = p"
      and v: "value_ok (pr_value p)" using assms(1) by (auto simp: predicate_ok_def)
    have "reads (\<lambda>st. pbind (parse_value st) (\<lambda>v st.
        Inr (\<lparr>pr_column = ?c, pr_op = ?op, pr_value = v, pr_in_values = []\<rparr>, st))) (value_toks (pr_value p)) p {}"
      using reads_map [OF reads_value [OF v, of "{}"], of
          "\<lambda>v. \<lparr>pr_column = ?c, pr_op = ?op, pr_value = v, pr_in_values = []\<rparr>"] p by simp
    then have "reads (\<lambda>st. (\<lambda>st. pbind (parse_value st) (\<lambda>v st.
        Inr (\<lparr>pr_column = ?c, pr_op = ?op, pr_value = v, pr_in_values = []\<rparr>, st))) (advance st))
        (tok (op_tok ?op) # value_toks (pr_value p)) p {}"
      by (rule reads_skip) (simp add: op_tok_facts)
    then show ?thesis
      using False at_peek by (fastforce simp: reads_def op_tok_facts)
  qed
  then have "reads (\<lambda>st. pbind (parse_column_ref st) ?k) (column_toks ?c @ tok (op_tok ?op) # ?tail) p {}"
    using assms(1) by (intro reads_bind [OF reads_column]) (auto simp: predicate_ok_def op_tok_facts)
  then show ?thesis by (simp add: parse_predicate_def [abs_def] pred_toks_def)
qed

section \<open>More fuel changes nothing\<close>

text \<open>\<open>same r r'\<close>: unless \<open>r\<close> is an exhausted fuel, \<open>r'\<close> is the same.\<close>

definition same :: "'a Parse \<Rightarrow> 'a Parse \<Rightarrow> bool" where "same r r' \<longleftrightarrow> r = Inl PFuel \<or> r' = r"

named_theorems same_intros

lemma same_refl [same_intros]: "same r r"
  by (simp add: same_def)

lemma same_fuel: "same (Inl PFuel) r"
  by (simp add: same_def)

lemma same_bind [same_intros]:
  "same r r' \<Longrightarrow> (\<And>a st. same (f a st) (f' a st)) \<Longrightarrow> same (pbind r f) (pbind r' f')"
  by (cases r) (auto simp: same_def pbind_def)

lemma same_if [same_intros]:
  "(c \<Longrightarrow> same x x') \<Longrightarrow> (\<not> c \<Longrightarrow> same y y') \<Longrightarrow> same (if c then x else y) (if c then x' else y')"
  by simp

lemma same_option [same_intros]:
  "same x x' \<Longrightarrow> (\<And>a. same (f a) (f' a)) \<Longrightarrow>
   same (case m of None \<Rightarrow> x | Some a \<Rightarrow> f a) (case m of None \<Rightarrow> x' | Some a \<Rightarrow> f' a)"
  by (cases m) auto

lemma same_comma_list [same_intros]:
  "(\<And>st. same (p st) (p' st)) \<Longrightarrow> n \<le> m \<Longrightarrow> same (comma_list n p st) (comma_list m p' st)"
proof (induction n arbitrary: m st)
  case (Suc n)
  then obtain k where "m = Suc k" "n \<le> k" by (cases m) auto
  with Suc show ?case by (simp add: same_bind same_if same_refl)
qed (simp add: same_fuel)

lemma same_parse_values [same_intros]: "n \<le> m \<Longrightarrow> same (parse_values n st) (parse_values m st)"
  unfolding parse_values_def by (intro same_intros)

lemma same_parse_predicate [same_intros]: "n \<le> m \<Longrightarrow> same (parse_predicate n st) (parse_predicate m st)"
  unfolding parse_predicate_def by (intro same_intros)

lemma same_exprs_step:
  "(\<forall>st. same (parse_expr n st) (parse_expr (Suc n) st)) \<and>
   (\<forall>st e. same (or_loop n e st) (or_loop (Suc n) e st)) \<and>
   (\<forall>st. same (parse_expr_and n st) (parse_expr_and (Suc n) st)) \<and>
   (\<forall>st e. same (and_loop n e st) (and_loop (Suc n) e st)) \<and>
   (\<forall>st. same (parse_expr_primary n st) (parse_expr_primary (Suc n) st))"
proof (induction n)
  case 0
  show ?case by (simp add: same_fuel)
next
  case (Suc n)
  have "same (parse_expr (Suc n) st) (parse_expr (Suc (Suc n)) st)" for st
    unfolding parse_expr.simps using Suc by (intro same_intros) simp_all
  moreover have "same (or_loop (Suc n) e st) (or_loop (Suc (Suc n)) e st)" for e st
    unfolding or_loop.simps using Suc by (intro same_intros) simp_all
  moreover have "same (parse_expr_and (Suc n) st) (parse_expr_and (Suc (Suc n)) st)" for st
    unfolding parse_expr_and.simps using Suc by (intro same_intros) simp_all
  moreover have "same (and_loop (Suc n) e st) (and_loop (Suc (Suc n)) e st)" for e st
    unfolding and_loop.simps using Suc by (intro same_intros) simp_all
  moreover have "same (parse_expr_primary (Suc n) st) (parse_expr_primary (Suc (Suc n)) st)" for st
    unfolding parse_expr_primary.simps using Suc by (intro same_intros) simp_all
  ultimately show ?case by blast
qed

lemma same_parse_expr [same_intros]: "n \<le> m \<Longrightarrow> same (parse_expr n st) (parse_expr m st)"
proof (induction rule: dec_induct)
  case base
  show ?case by (rule same_refl)
next
  case (step k)
  then show ?case using same_exprs_step [of k] by (metis same_def)
qed

lemma same_parse_where [same_intros]: "n \<le> m \<Longrightarrow> same (parse_where n st) (parse_where m st)"
  unfolding parse_where_def by (intro same_intros)

lemma same_case_prod [same_intros]:
  "(\<And>a b. same (f a b st) (f' a b st)) \<Longrightarrow>
   same ((case p of (a, b) \<Rightarrow> f a b) st) ((case p of (a, b) \<Rightarrow> f' a b) st)"
  by (cases p) auto

lemma same_pmap [same_intros]: "same r r' \<Longrightarrow> same (pmap f r) (pmap f r')"
  unfolding pmap_def by (intro same_intros)

lemma same_statement: "n \<le> m \<Longrightarrow> same (parse_statement n st) (parse_statement m st)"
  unfolding parse_statement_def parse_insert_def parse_select_def parse_columns_def parse_group_by_def
    parse_delete_def parse_update_def parse_create_def
  by (intro same_intros; assumption)

text \<open>
  A statement that is read with some fuel is the result of \<open>parse\<close>, since the fuel of \<open>parse\<close>
  is always enough.
\<close>

lemma parse_from_reads:
  assumes "list_all lexable ts" "reads (parse_statement n) ts s B" "tEnd \<notin> B"
  shows "parse (toks_text ts) = Inr s"
proof -
  let ?sql = "toks_text ts"
  let ?st = "advance \<lparr>ps_cur = mk_tok tIdentifier [], ps_rest = ?sql\<rparr>"
  have st: "stands ?st (ts @ [])" using stands_start [OF assms(1)] by simp
  then obtain st' where st': "parse_statement n ?st = Inr (s, st')" "stands st' []"
    using readsD [OF assms(2) st] assms(3) by auto
  let ?m = "max n (parse_fuel ?sql)"
  have "parse_statement ?m ?st = Inr (s, st')"
    using same_statement [of n ?m ?st] st'(1) by (simp add: same_def)
  moreover have "left ?st \<le> length ?sql"
    using left_advance(2) [of "\<lparr>ps_cur = mk_tok tIdentifier [], ps_rest = ?sql\<rparr>"]
    by (simp add: left_def peek_def mk_tok_def)
  then have "good (length ?sql) (parse_statement (parse_fuel ?sql) ?st)"
    by (rule good_parse_statement) (simp_all add: parse_fuel_def)
  then have "parse_statement (parse_fuel ?sql) ?st \<noteq> Inl PFuel" by (auto simp: good_def)
  ultimately have "parse_statement (parse_fuel ?sql) ?st = Inr (s, st')"
    using same_statement [of "parse_fuel ?sql" ?m ?st] by (auto simp: same_def)
  with st'(2) at_peek show ?thesis by (fastforce simp: parse_def)
qed

section \<open>Expressions\<close>

text \<open>With enough fuel.\<close>

definition reads_ev :: "(nat \<Rightarrow> PState \<Rightarrow> 'a Parse) \<Rightarrow> Token list \<Rightarrow> 'a \<Rightarrow> TokenType set \<Rightarrow> bool" where
  "reads_ev p ts v B \<longleftrightarrow> (\<exists>N. \<forall>n \<ge> N. reads (p n) ts v B)"

text \<open>
  In front of the printed expression the parser gets into the loop of its level with the
  expression as the node built so far, having used \<open>k\<close> rounds of the loop.
\<close>

definition and_chain :: "ExprNode \<Rightarrow> bool" where
  "and_chain e \<longleftrightarrow> (\<exists>N k. \<forall>n \<ge> N. \<forall>st rest. stands st (expr_toks 1 e @ rest) \<longrightarrow>
     (\<exists>st'. stands st' rest \<and> pbind (parse_expr_primary n st) (and_loop n) = and_loop (n - k) e st'))"

definition or_chain :: "ExprNode \<Rightarrow> bool" where
  "or_chain e \<longleftrightarrow> (\<exists>N k. \<forall>n \<ge> N. \<forall>st rest. stands st (expr_toks 0 e @ rest) \<longrightarrow> hd_type rest \<noteq> tAnd \<longrightarrow>
     (\<exists>st'. stands st' rest \<and> pbind (parse_expr_and n st) (or_loop n) = or_loop (n - k) e st'))"

lemma and_chain_single:
  assumes "reads_ev parse_expr_primary (expr_toks 1 e) e {}"
  shows "and_chain e"
proof -
  obtain N where N: "\<And>n. N \<le> n \<Longrightarrow> reads (parse_expr_primary n) (expr_toks 1 e) e {}"
    using assms unfolding reads_ev_def by blast
  have "\<exists>st'. stands st' rest \<and> pbind (parse_expr_primary n st) (and_loop n) = and_loop (n - 0) e st'"
    if "N \<le> n" "stands st (expr_toks 1 e @ rest)" for n st rest
    using readsD [OF N [OF that(1)] that(2)] by (auto simp: pbind_def)
  then show ?thesis unfolding and_chain_def by blast
qed

lemma and_chain_reads:
  assumes "and_chain e"
  shows "reads_ev parse_expr_and (expr_toks 1 e) e {tAnd}"
proof -
  obtain N k where N: "\<And>n st rest. N \<le> n \<Longrightarrow> stands st (expr_toks 1 e @ rest) \<Longrightarrow>
      \<exists>st'. stands st' rest \<and> pbind (parse_expr_primary n st) (and_loop n) = and_loop (n - k) e st'"
    using assms unfolding and_chain_def by blast
  have "reads (parse_expr_and n) (expr_toks 1 e) e {tAnd}" if n: "N + k + 2 \<le> n" for n
  proof (rule readsI)
    fix st rest
    assume st: "stands st (expr_toks 1 e @ rest)" and B: "hd_type rest \<notin> {tAnd}"
    obtain m where m: "n = Suc m" "N \<le> m" using n by (cases n) auto
    obtain st' where st': "stands st' rest"
      "pbind (parse_expr_primary m st) (and_loop m) = and_loop (m - k) e st'"
      using N [OF m(2) st] by blast
    obtain j where j: "m - k = Suc j" using n m by (cases "m - k") auto
    show "\<exists>st'. parse_expr_and n st = Inr (e, st') \<and> stands st' rest"
      using st' at_peek [OF st'(1)] B by (simp add: m(1) j)
  qed
  then show ?thesis unfolding reads_ev_def by blast
qed

lemma or_chain_single:
  assumes "reads_ev parse_expr_and (expr_toks 0 e) e {tAnd}"
  shows "or_chain e"
proof -
  obtain N where N: "\<And>n. N \<le> n \<Longrightarrow> reads (parse_expr_and n) (expr_toks 0 e) e {tAnd}"
    using assms unfolding reads_ev_def by blast
  have "\<exists>st'. stands st' rest \<and> pbind (parse_expr_and n st) (or_loop n) = or_loop (n - 0) e st'"
    if "N \<le> n" "stands st (expr_toks 0 e @ rest)" "hd_type rest \<noteq> tAnd" for n st rest
    using readsD [OF N [OF that(1)] that(2)] that(3) by (auto simp: pbind_def)
  then show ?thesis unfolding or_chain_def by blast
qed

lemma or_chain_reads:
  assumes "or_chain e"
  shows "reads_ev parse_expr (expr_toks 0 e) e {tAnd, tOr}"
proof -
  obtain N k where N: "\<And>n st rest. N \<le> n \<Longrightarrow> stands st (expr_toks 0 e @ rest) \<Longrightarrow> hd_type rest \<noteq> tAnd \<Longrightarrow>
      \<exists>st'. stands st' rest \<and> pbind (parse_expr_and n st) (or_loop n) = or_loop (n - k) e st'"
    using assms unfolding or_chain_def by blast
  have "reads (parse_expr n) (expr_toks 0 e) e {tAnd, tOr}" if n: "N + k + 2 \<le> n" for n
  proof (rule readsI)
    fix st rest
    assume st: "stands st (expr_toks 0 e @ rest)" and B: "hd_type rest \<notin> {tAnd, tOr}"
    obtain m where m: "n = Suc m" "N \<le> m" using n by (cases n) auto
    obtain st' where st': "stands st' rest"
      "pbind (parse_expr_and m st) (or_loop m) = or_loop (m - k) e st'"
      using N [OF m(2) st] B by blast
    obtain j where j: "m - k = Suc j" using n m by (cases "m - k") auto
    show "\<exists>st'. parse_expr n st = Inr (e, st') \<and> stands st' rest"
      using st' at_peek [OF st'(1)] B by (simp add: m(1) j)
  qed
  then show ?thesis unfolding reads_ev_def by blast
qed

lemma reads_paren:
  assumes "reads_ev parse_expr ts e {tAnd, tOr}"
  shows "reads_ev parse_expr_primary (paren ts) e {}"
proof -
  obtain N where N: "\<And>n. N \<le> n \<Longrightarrow> reads (parse_expr n) ts e {tAnd, tOr}"
    using assms unfolding reads_ev_def by blast
  have "reads (parse_expr_primary (Suc n)) (paren ts) e {}" if n: "N \<le> n" for n
  proof -
    have "reads (\<lambda>st. pbind (parse_expr n st) (\<lambda>e st. pbind (consume tRParen st) (\<lambda>_ st. Inr (e, st))))
        (ts @ [tok tRParen] @ []) e {}"
      by (intro reads_bind [OF N [OF n]] reads_bind [OF reads_consume] reads_return) auto
    then have "reads (\<lambda>st. (\<lambda>st. pbind (parse_expr n st)
        (\<lambda>e st. pbind (consume tRParen st) (\<lambda>_ st. Inr (e, st)))) (advance st)) (tok tLParen # ts @ [tok tRParen] @ []) e {}"
      by (rule reads_skip) simp
    then show ?thesis by (fastforce simp: reads_def paren_def dest: at_peek)
  qed
  then show ?thesis unfolding reads_ev_def by (metis Suc_le_D Suc_le_mono)
qed

lemma and_chain_step:
  assumes "and_chain a" "reads_ev parse_expr_primary (expr_toks 2 b) b {}"
  shows "and_chain (EAnd a b)"
proof -
  obtain N k where N: "\<And>n st rest. N \<le> n \<Longrightarrow> stands st (expr_toks 1 a @ rest) \<Longrightarrow>
      \<exists>st'. stands st' rest \<and> pbind (parse_expr_primary n st) (and_loop n) = and_loop (n - k) a st'"
    using assms(1) unfolding and_chain_def by blast
  obtain M where M: "\<And>n. M \<le> n \<Longrightarrow> reads (parse_expr_primary n) (expr_toks 2 b) b {}"
    using assms(2) unfolding reads_ev_def by blast
  have "\<exists>st'. stands st' rest \<and>
      pbind (parse_expr_primary n st) (and_loop n) = and_loop (n - Suc k) (EAnd a b) st'"
    if n: "N + M + k + 2 \<le> n" and st: "stands st (expr_toks 1 (EAnd a b) @ rest)" for n st rest
  proof -
    have "stands st (expr_toks 1 a @ tok tAnd # expr_toks 2 b @ rest)" using st by simp
    then obtain st1 where st1: "stands st1 (tok tAnd # expr_toks 2 b @ rest)"
      "pbind (parse_expr_primary n st) (and_loop n) = and_loop (n - k) a st1"
      using N [of n st] n by fastforce
    obtain m where m: "n - k = Suc m" "M \<le> m" using n by (cases "n - k") auto
    obtain st2 where "parse_expr_primary m (advance st1) = Inr (b, st2)" "stands st2 rest"
      using readsD [OF M [OF m(2)] at_advance [OF st1(1)]] by auto
    moreover have "n - Suc k = m" using m(1) by simp
    ultimately show ?thesis using st1(2) at_peek [OF st1(1)] by (auto simp: m(1) pbind_def)
  qed
  then show ?thesis unfolding and_chain_def by blast
qed

lemma or_chain_step:
  assumes "or_chain a" "reads_ev parse_expr_and (expr_toks 1 b) b {tAnd}"
  shows "or_chain (EOr a b)"
proof -
  obtain N k where N: "\<And>n st rest. N \<le> n \<Longrightarrow> stands st (expr_toks 0 a @ rest) \<Longrightarrow> hd_type rest \<noteq> tAnd \<Longrightarrow>
      \<exists>st'. stands st' rest \<and> pbind (parse_expr_and n st) (or_loop n) = or_loop (n - k) a st'"
    using assms(1) unfolding or_chain_def by blast
  obtain M where M: "\<And>n. M \<le> n \<Longrightarrow> reads (parse_expr_and n) (expr_toks 1 b) b {tAnd}"
    using assms(2) unfolding reads_ev_def by blast
  have "\<exists>st'. stands st' rest \<and>
      pbind (parse_expr_and n st) (or_loop n) = or_loop (n - Suc k) (EOr a b) st'"
    if n: "N + M + k + 2 \<le> n" and st: "stands st (expr_toks 0 (EOr a b) @ rest)"
      and B: "hd_type rest \<noteq> tAnd" for n st rest
  proof -
    have "stands st (expr_toks 0 a @ tok tOr # expr_toks 1 b @ rest)" using st by simp
    then obtain st1 where st1: "stands st1 (tok tOr # expr_toks 1 b @ rest)"
      "pbind (parse_expr_and n st) (or_loop n) = or_loop (n - k) a st1"
      using N [of n st] n by fastforce
    obtain m where m: "n - k = Suc m" "M \<le> m" using n by (cases "n - k") auto
    obtain st2 where "parse_expr_and m (advance st1) = Inr (b, st2)" "stands st2 rest"
      using readsD [OF M [OF m(2)] at_advance [OF st1(1)]] B by auto
    moreover have "n - Suc k = m" using m(1) by simp
    ultimately show ?thesis using st1(2) at_peek [OF st1(1)] by (auto simp: m(1) pbind_def)
  qed
  then show ?thesis unfolding or_chain_def by blast
qed

lemma reads_ev_predicate:
  assumes "predicate_ok p"
  shows "reads_ev parse_expr_primary (pred_toks p) (EPred p) {}"
proof -
  have "reads (parse_expr_primary (Suc n)) (pred_toks p) (EPred p) {}"
    if n: "length (pr_in_values p) \<le> n" for n
  proof -
    have "reads (\<lambda>st. pbind (parse_predicate n st) (\<lambda>p st. Inr (EPred p, st))) (pred_toks p) (EPred p) {}"
      by (rule reads_map [OF reads_predicate [OF assms n]])
    moreover have "hd_type (pred_toks p @ rest) \<noteq> tLParen" for rest
      by (auto simp: pred_toks_def column_toks_def qualified_toks_def agg_tok_def split: AggFunc.splits)
    ultimately show ?thesis by (auto simp: reads_def dest: at_peek)
  qed
  then show ?thesis unfolding reads_ev_def by (metis Suc_le_D Suc_le_mono)
qed

lemma expr_chains:
  "exprn_ok e \<Longrightarrow> or_chain e \<and> and_chain e \<and> reads_ev parse_expr_primary (expr_toks 2 e) e {}"
proof (induction e)
  case (EPred p)
  then have "reads_ev parse_expr_primary (pred_toks p) (EPred p) {}" by (simp add: reads_ev_predicate)
  moreover from this have "and_chain (EPred p)" by (intro and_chain_single) simp
  moreover from this have "or_chain (EPred p)" using and_chain_reads by (intro or_chain_single) fastforce
  ultimately show ?case by simp
next
  case (EAnd a b)
  then have "and_chain (EAnd a b)" by (intro and_chain_step) auto
  moreover from this have "or_chain (EAnd a b)" using and_chain_reads by (intro or_chain_single) fastforce
  moreover from this have "reads_ev parse_expr_primary (paren (expr_toks 0 (EAnd a b))) (EAnd a b) {}"
    by (intro reads_paren or_chain_reads)
  ultimately show ?case by simp
next
  case (EOr a b)
  then have "or_chain (EOr a b)" using and_chain_reads by (intro or_chain_step) auto
  moreover from this have "reads_ev parse_expr_primary (paren (expr_toks 0 (EOr a b))) (EOr a b) {}"
    by (intro reads_paren or_chain_reads)
  moreover from this have "and_chain (EOr a b)" by (intro and_chain_single) simp
  ultimately show ?case by simp
qed

lemma reads_expr: "exprn_ok e \<Longrightarrow> reads_ev parse_expr (expr_toks 0 e) e {tAnd, tOr}"
  using expr_chains or_chain_reads by blast

end
