(* ===== verification/Sql_Statements.thy ===== *)
theory Sql_Statements
  imports Sql_Roundtrip
begin

text \<open>
  The printer of whole statements and the round trip through the parser of
  \<open>src/src/query/parser.cpp\<close>, for every kind of statement.
\<close>

section \<open>Printing statements\<close>

definition where_toks :: "ExprNode option \<Rightarrow> Token list" where
  "where_toks w = (case w of None \<Rightarrow> [] | Some e \<Rightarrow> tok tWhere # expr_toks 0 e)"

definition row_toks :: "Value list \<Rightarrow> Token list" where
  "row_toks vs = [tok tLParen] @ comma_sep (map value_toks vs) @ [tok tRParen]"

definition join_toks :: "JoinClause option \<Rightarrow> Token list" where
  "join_toks j = (case j of None \<Rightarrow> [] | Some c \<Rightarrow>
     [tok tJoin] @ [ident (jc_table_name c)] @ [tok tOn] @ column_toks (jc_left_col c) @ [tok tEq] @
     column_toks (jc_right_col c))"

definition group_toks :: "ColumnRef list \<Rightarrow> Token list" where
  "group_toks cs = (if cs = [] then [] else [tok tGroup] @ [tok tBy] @ comma_sep (map column_toks cs))"

definition order_toks :: "OrderBy option \<Rightarrow> Token list" where
  "order_toks ob = (case ob of None \<Rightarrow> [] | Some c \<Rightarrow>
     [tok tOrder] @ [tok tBy] @ column_toks (ob_column c) @ [tok (if ob_asc c then tAsc else tDesc)])"

definition count_tok :: "'a::len word \<Rightarrow> Token" where "count_tok n = number (dec (unat n))"

definition limit_toks :: "u64 option \<times> u64 option \<Rightarrow> Token list" where
  "limit_toks lo = (case lo of (Some l, None) \<Rightarrow> [tok tLimit] @ [count_tok l]
     | (Some l, Some off) \<Rightarrow> [tok tLimit] @ [count_tok l] @ [tok tOffset] @ [count_tok off] | _ \<Rightarrow> [])"

definition columns_toks :: "ColumnRef list \<Rightarrow> Token list" where
  "columns_toks cs = (if cs = [] then [tok tStar] else comma_sep (map column_toks cs))"

fun type_name :: "ColumnType \<Rightarrow> string" where
  "type_name kInt32 = ''int32''" | "type_name kInt64 = ''int64''" | "type_name kFloat64 = ''double''"
| "type_name kBool = ''bool''" | "type_name kVarChar = ''varchar''" | "type_name kTimestamp = ''timestamp''"

definition column_def_toks :: "ColumnDef \<Rightarrow> Token list" where
  "column_def_toks c = [ident (cdef_name c)] @ [ident (type_name (cdef_type c))]"

definition key_tok :: "string \<Rightarrow> TokenType" where
  "key_tok k = (if k = ''backup_interval'' then tInterval else tRetention)"

fun stmt_toks :: "Statement \<Rightarrow> Token list" where
  "stmt_toks (SInsert s) = [tok tInsert] @ [tok tInto] @ [ident (in_table_name s)] @ [tok tValues] @
     comma_sep (map row_toks (in_rows s))"
| "stmt_toks (SSelect s) = [tok tSelect] @ columns_toks (se_columns s) @ [tok tFrom] @
     [ident (se_table_name s)] @ join_toks (se_join_clause s) @ where_toks (se_where s) @
     group_toks (se_group_by s) @ order_toks (se_order_by s) @ limit_toks (se_limit s, se_offset s)"
| "stmt_toks (SDelete s) = [tok tDelete] @ [tok tFrom] @ [ident (de_table_name s)] @ where_toks (de_where s)"
| "stmt_toks (SUpdate s) = [tok tUpdate] @ [ident (up_table_name s)] @ [tok tSet] @
     [ident (up_column_name s)] @ [tok tEq] @ value_toks (up_new_value s) @ where_toks (up_where s)"
| "stmt_toks (SCreate s) = [tok tCreate] @ [tok tTable] @ [ident (cs_table_name s)] @ [tok tLParen] @
     comma_sep (map column_def_toks (cs_columns s)) @ [tok tRParen]"
| "stmt_toks (SCreateIndex s) = [tok tCreate] @ [tok tIndex] @ [ident (ci_index_name s)] @ [tok tOn] @
     [ident (ci_table_name s)] @ [tok tLParen] @ [ident (ci_column_name s)] @ [tok tRParen]"
| "stmt_toks (SVacuum t) = [tok tVacuum] @ [ident t]"
| "stmt_toks SBegin = [tok tBeginTxn]"
| "stmt_toks SCommit = [tok tCommitTxn]"
| "stmt_toks SRollback = [tok tRollbackTxn]"
| "stmt_toks (SBackup p) = [tok tBackup] @ [tok tTo] @ [str_lit p]"
| "stmt_toks (SConfig c) = [tok tSet] @ [tok tBackup] @ [tok (key_tok (cf_key c))] @ [tok tTo] @ [count_tok (cf_value c)]"

definition print_stmt :: "Statement \<Rightarrow> string" where "print_stmt s = toks_text (stmt_toks s)"

text \<open>
  What can be printed: names are words that are no keywords, strings hold no quote, lists that
  the grammar wants non-empty are so, \<open>OFFSET\<close> comes with \<open>LIMIT\<close>.
\<close>

definition where_ok :: "ExprNode option \<Rightarrow> bool" where
  "where_ok w \<longleftrightarrow> (case w of None \<Rightarrow> True | Some e \<Rightarrow> exprn_ok e)"

fun stmt_ok :: "Statement \<Rightarrow> bool" where
  "stmt_ok (SInsert s) \<longleftrightarrow> name_ok (in_table_name s) \<and> in_rows s \<noteq> [] \<and>
     list_all (\<lambda>r. r \<noteq> [] \<and> list_all value_ok r) (in_rows s)"
| "stmt_ok (SSelect s) \<longleftrightarrow> list_all column_ok (se_columns s) \<and> name_ok (se_table_name s) \<and>
     (case se_join_clause s of None \<Rightarrow> True | Some c \<Rightarrow>
        name_ok (jc_table_name c) \<and> column_ok (jc_left_col c) \<and> column_ok (jc_right_col c)) \<and>
     where_ok (se_where s) \<and> list_all column_ok (se_group_by s) \<and>
     (case se_order_by s of None \<Rightarrow> True | Some c \<Rightarrow> column_ok (ob_column c)) \<and>
     (se_limit s = None \<longrightarrow> se_offset s = None)"
| "stmt_ok (SDelete s) \<longleftrightarrow> name_ok (de_table_name s) \<and> where_ok (de_where s)"
| "stmt_ok (SUpdate s) \<longleftrightarrow> name_ok (up_table_name s) \<and> name_ok (up_column_name s) \<and>
     value_ok (up_new_value s) \<and> where_ok (up_where s)"
| "stmt_ok (SCreate s) \<longleftrightarrow> name_ok (cs_table_name s) \<and> cs_columns s \<noteq> [] \<and>
     list_all (\<lambda>c. name_ok (cdef_name c)) (cs_columns s)"
| "stmt_ok (SCreateIndex s) \<longleftrightarrow> name_ok (ci_index_name s) \<and> name_ok (ci_table_name s) \<and> name_ok (ci_column_name s)"
| "stmt_ok (SVacuum t) \<longleftrightarrow> name_ok t"
| "stmt_ok SBegin \<longleftrightarrow> True"
| "stmt_ok SCommit \<longleftrightarrow> True"
| "stmt_ok SRollback \<longleftrightarrow> True"
| "stmt_ok (SBackup p) \<longleftrightarrow> quote_char \<notin> set p"
| "stmt_ok (SConfig c) \<longleftrightarrow> cf_key c = ''backup_interval'' \<or> cf_key c = ''backup_retention''"

section \<open>The printed tokens are lexable\<close>

lemma lexable_comma_sep: "(\<And>v. v \<in> set vs \<Longrightarrow> list_all lexable (f v)) \<Longrightarrow> list_all lexable (comma_sep (map f vs))"
  by (cases vs) (auto simp: comma_sep_def list_all_iff)

lemma lexable_column: "column_ok r \<Longrightarrow> list_all lexable (column_toks r)"
  by (cases "cr_func r")
    (auto simp: column_ok_def column_toks_def qualified_toks_def agg_tok_def lexable_ident split: if_splits)

lemma lexable_op: "lexable (tok (op_tok op))"
  by (cases op) simp_all

lemma lexable_pred: "predicate_ok p \<Longrightarrow> list_all lexable (pred_toks p)"
  unfolding predicate_ok_def pred_toks_def
  using lexable_column lexable_op lexable_value
  by (auto simp: list_all_iff [of value_ok] intro!: lexable_comma_sep split: if_splits)

lemma lexable_expr: "exprn_ok e \<Longrightarrow> list_all lexable (expr_toks l e)"
  by (induction e arbitrary: l) (auto simp: lexable_pred paren_def)

lemma lexable_where: "where_ok w \<Longrightarrow> list_all lexable (where_toks w)"
  by (auto simp: where_ok_def where_toks_def lexable_expr split: option.splits)

lemma lexable_row: "list_all value_ok r \<Longrightarrow> list_all lexable (row_toks r)"
  unfolding row_toks_def using lexable_value
  by (auto simp: list_all_iff [of value_ok] intro!: lexable_comma_sep)

lemma lexable_count: "lexable (count_tok n)"
  unfolding count_tok_def using dec_digits lexable_number(1) by blast

lemma type_names:
  "list_all (\<lambda>t. name_ok (type_name t) \<and> column_type_of (type_name t) = t)
     [kInt32, kInt64, kFloat64, kBool, kVarChar, kTimestamp]"
  by code_simp

lemma type_name_ok: "name_ok (type_name t)" "column_type_of (type_name t) = t"
  using type_names by (cases t; simp)+

lemma lexable_stmt: "stmt_ok s \<Longrightarrow> list_all lexable (stmt_toks s)"
proof (cases s)
  case (SSelect x)
  moreover assume "stmt_ok s"
  ultimately show ?thesis
    by (auto simp: columns_toks_def join_toks_def group_toks_def order_toks_def limit_toks_def lexable_ident
        lexable_column lexable_where lexable_count list_all_iff [of column_ok] intro!: lexable_comma_sep
        split: option.splits)
next
  case (SInsert x)
  moreover assume "stmt_ok s"
  ultimately show ?thesis
    by (auto simp: lexable_ident lexable_row list_all_iff [of "\<lambda>r. r \<noteq> [] \<and> list_all value_ok r"]
        intro!: lexable_comma_sep)
next
  case (SCreate x)
  moreover assume "stmt_ok s"
  ultimately show ?thesis
    by (auto simp: column_def_toks_def lexable_ident type_name_ok list_all_iff [of "\<lambda>c. name_ok (cdef_name c)"]
        intro!: lexable_comma_sep)
qed (auto simp: lexable_ident lexable_where lexable_value lexable_string lexable_count key_tok_def)

section \<open>Statements are read back\<close>

lemma reads_seq:
  assumes "reads p ts v B" "reads (f v) us w B'" "B \<subseteq> B'" "hd_type us \<notin> B"
  shows "reads (\<lambda>st. pbind (p st) f) (ts @ us) w B'"
  using assms by (intro reads_bind) auto

lemmas reads_tok = reads_seq [OF reads_consume] reads_seq [OF reads_take_text]

lemma reads_absent: "reads (\<lambda>st. if peek st = t then p st else Inr (d, st)) [] d {t}"
  by (auto simp: reads_def dest: at_peek)

lemma reads_present:
  "reads p (u # ts) v B \<Longrightarrow> tok_type u = t \<Longrightarrow> reads (\<lambda>st. if peek st = t then p st else q st) (u # ts) v B"
  by (rule reads_if_true) simp_all

lemma hd_type_append: "hd_type (ts @ us) = (if ts = [] then hd_type us else hd_type ts)"
  by (cases ts) simp_all

lemma reads_row:
  assumes "r \<noteq> []" "list_all value_ok r" "length r \<le> n"
  shows "reads (parse_values n) (row_toks r) r {}"
proof -
  have "reads (comma_list n parse_value) (comma_sep (map value_toks r)) r (insert tComma {})"
    using assms by (intro reads_comma_list reads_value) (auto simp: list_all_iff)
  from reads_bind [OF this, of "\<lambda>vs st. pbind (consume tRParen st) (\<lambda>_ st. Inr (vs, st))" "[tok tRParen] @ []" r "{}"]
  have "reads (\<lambda>st. pbind (comma_list n parse_value st) (\<lambda>vs st. pbind (consume tRParen st) (\<lambda>_ st. Inr (vs, st))))
      (comma_sep (map value_toks r) @ [tok tRParen] @ []) r {}"
    by (simp add: reads_tok [of _ _ _ "[]", simplified] reads_return)
  then show ?thesis
    unfolding parse_values_def [abs_def] row_toks_def by (intro reads_tok) simp_all
qed

lemma reads_where:
  assumes "where_ok w"
  obtains N where "\<And>n. N \<le> n \<Longrightarrow> reads (parse_where n) (where_toks w) w {tWhere, tAnd, tOr}"
proof (cases w)
  case None
  have "reads (parse_where n) (where_toks w) w {tWhere, tAnd, tOr}" for n
    unfolding parse_where_def [abs_def] where_toks_def None
    by (simp add: reads_mono [OF reads_absent])
  with that show thesis by blast
next
  case (Some e)
  then obtain N where N: "\<And>n. N \<le> n \<Longrightarrow> reads (parse_expr n) (expr_toks 0 e) e {tAnd, tOr}"
    using assms reads_expr by (auto simp: where_ok_def reads_ev_def)
  have "reads (parse_where n) (where_toks w) w {tWhere, tAnd, tOr}" if "N \<le> n" for n
    unfolding parse_where_def [abs_def] where_toks_def Some option.case
    by (intro reads_present reads_skip [where p = "\<lambda>st. pbind (parse_expr n st) (\<lambda>e st. Inr (Some e, st))"]
        reads_mono [OF reads_map [OF N [OF that]]]) auto
  with that show thesis by blast
qed

lemma hd_column: "hd_type (column_toks r @ ts) \<noteq> tStar \<and> column_toks r \<noteq> []"
  by (cases "cr_func r") (auto simp: column_toks_def qualified_toks_def agg_tok_def)

lemma reads_column_list:
  assumes "list_all column_ok cs" "cs \<noteq> []" "length cs \<le> n"
  shows "reads (comma_list n parse_column_ref) (comma_sep (map column_toks cs)) cs {tComma, tDot}"
  using assms by (intro reads_comma_list reads_column) (auto simp: list_all_iff)

lemma reads_columns:
  assumes "list_all column_ok cs" "length cs \<le> n"
  shows "reads (parse_columns n) (columns_toks cs) cs {tComma, tDot}"
proof (cases "cs = []")
  case True
  then show ?thesis
    by (auto simp: reads_def parse_columns_def columns_toks_def dest: at_peek intro: at_advance)
next
  case False
  then obtain c ds where cs: "cs = c # ds" by (cases cs) auto
  have "hd_type (comma_sep (map column_toks cs)) \<noteq> tStar" "comma_sep (map column_toks cs) \<noteq> []"
    using hd_column [of c] by (auto simp: cs comma_sep_def)
  then show ?thesis
    unfolding parse_columns_def [abs_def] columns_toks_def
    using reads_column_list [OF assms(1) False assms(2)] False by (auto intro: reads_if_false)
qed

lemma reads_join:
  assumes "case j of None \<Rightarrow> True | Some c \<Rightarrow>
    name_ok (jc_table_name c) \<and> column_ok (jc_left_col c) \<and> column_ok (jc_right_col c)"
  shows "reads parse_join (join_toks j) j {tJoin, tDot}"
proof (cases j)
  case None
  then show ?thesis
    unfolding parse_join_def [abs_def] join_toks_def by (simp add: reads_mono [OF reads_absent])
next
  case (Some c)
  let ?p = "\<lambda>st. pbind (take_text tIdentifier st) (\<lambda>name st. pbind (consume tOn st) (\<lambda>_ st.
        pbind (parse_column_ref st) (\<lambda>l st. pbind (consume tEq st) (\<lambda>_ st.
        pbind (parse_column_ref st) (\<lambda>r st.
          Inr (Some \<lparr>jc_table_name = name, jc_left_col = l, jc_right_col = r\<rparr>, st))))))"
  have ret: "reads (\<lambda>st. Inr (Some \<lparr>jc_table_name = tok_text (ident (jc_table_name c)),
      jc_left_col = jc_left_col c, jc_right_col = jc_right_col c\<rparr>, st)) [] j {tJoin, tDot}"
    using Some by (cases c) (simp add: reads_return)
  have "reads ?p ([ident (jc_table_name c)] @ [tok tOn] @ column_toks (jc_left_col c) @ [tok tEq] @
     column_toks (jc_right_col c) @ []) j {tJoin, tDot}"
    using assms Some
    by (intro reads_tok reads_seq [OF reads_column] ret) simp_all
  then show ?thesis
    unfolding parse_join_def [abs_def] join_toks_def Some option.case append_Cons append_Nil
    by (intro reads_present reads_skip [where p = ?p]) auto
qed

lemma reads_group:
  assumes "list_all column_ok cs" "length cs \<le> n"
  shows "reads (parse_group_by n) (group_toks cs) cs {tGroup, tComma, tDot}"
proof (cases "cs = []")
  case True
  then show ?thesis
    unfolding parse_group_by_def [abs_def] group_toks_def by (simp add: reads_mono [OF reads_absent])
next
  case False
  have "reads (\<lambda>st. pbind (consume tGroup st) (\<lambda>_ st. pbind (consume tBy st) (\<lambda>_ st. comma_list n parse_column_ref st)))
      ([tok tGroup] @ [tok tBy] @ comma_sep (map column_toks cs)) cs {tGroup, tComma, tDot}"
    using reads_mono [OF reads_column_list [OF assms(1) False assms(2)], of "{tGroup, tComma, tDot}"]
    by (intro reads_tok) auto
  with False show ?thesis
    unfolding parse_group_by_def [abs_def] group_toks_def by (simp add: reads_present)
qed

lemma reads_order:
  assumes "case ob of None \<Rightarrow> True | Some c \<Rightarrow> column_ok (ob_column c)"
  shows "reads parse_order_by (order_toks ob) ob {tOrder}"
proof (cases ob)
  case None
  then show ?thesis
    unfolding parse_order_by_def [abs_def] order_toks_def by (simp add: reads_absent)
next
  case (Some c)
  let ?f = "\<lambda>col st. if peek st = tAsc then Inr (Some \<lparr>ob_column = col, ob_asc = True\<rparr>, advance st)
          else if peek st = tDesc then Inr (Some \<lparr>ob_column = col, ob_asc = False\<rparr>, advance st)
          else Inr (Some \<lparr>ob_column = col, ob_asc = True\<rparr>, st)"
  have "reads (?f (ob_column c)) [tok (if ob_asc c then tAsc else tDesc)] ob {tOrder}"
    using Some by (cases "ob_asc c") (auto simp: reads_def dest: at_peek intro: at_advance)
  then have "reads (\<lambda>st. pbind (consume tOrder st) (\<lambda>_ st. pbind (consume tBy st) (\<lambda>_ st.
        pbind (parse_column_ref st) ?f)))
      ([tok tOrder] @ [tok tBy] @ column_toks (ob_column c) @ [tok (if ob_asc c then tAsc else tDesc)]) ob {tOrder}"
    using assms Some by (intro reads_tok reads_bind [OF reads_column]) auto
  then show ?thesis
    unfolding parse_order_by_def [abs_def] order_toks_def Some option.case append_Cons append_Nil
    by (intro reads_present) simp_all
qed

lemma reads_count: "reads parse_count [count_tok n] n {}"
  using stoull_dec [of n] by (auto simp: reads_def parse_count_def count_tok_def at_text dest: at_peek intro: at_advance)

lemma reads_limit:
  assumes "l = None \<longrightarrow> off = None"
  shows "reads parse_limit (limit_toks (l, off)) (l, off) {tLimit, tOffset}"
proof (cases l)
  case None
  then show ?thesis
    using assms unfolding parse_limit_def [abs_def] limit_toks_def by (simp add: reads_mono [OF reads_absent])
next
  case (Some m)
  let ?f = "\<lambda>l st. if peek st = tOffset
          then pbind (parse_count (advance st)) (\<lambda>off st. Inr ((Some l, Some off), st))
          else Inr ((Some l, None), st)"
  let ?ts = "case off of None \<Rightarrow> [] | Some k \<Rightarrow> [tok tOffset, count_tok k]"
  have "reads (?f m) ?ts (l, off) {tLimit, tOffset}"
  proof (cases off)
    case None
    then show ?thesis using Some by (simp add: reads_mono [OF reads_absent])
  next
    case (Some k)
    have "reads (\<lambda>st. pbind (parse_count st) (\<lambda>off st. Inr ((l, Some off), st))) [count_tok k] (l, Some k) {}"
      by (rule reads_map [OF reads_count])
    then show ?thesis
      unfolding Some option.case \<open>l = Some m\<close>
      by (intro reads_present reads_skip [where p = "\<lambda>st. pbind (parse_count st) (\<lambda>off st. Inr ((Some m, Some off), st))"])
        (auto elim: reads_mono)
  qed
  then have "reads (\<lambda>st. pbind (consume tLimit st) (\<lambda>_ st. pbind (parse_count st) ?f))
      ([tok tLimit] @ [count_tok m] @ ?ts) (l, off) {tLimit, tOffset}"
    by (intro reads_tok reads_seq [OF reads_count]) simp_all
  then have "reads parse_limit ([tok tLimit] @ [count_tok m] @ ?ts) (l, off) {tLimit, tOffset}"
    unfolding parse_limit_def [abs_def] by (simp add: reads_present)
  then show ?thesis using Some by (cases off) (simp_all add: limit_toks_def)
qed

text \<open>The statements, in front of the end of the input.\<close>

abbreviation not_end :: "TokenType set" where "not_end \<equiv> - {tEnd}"

lemma reads_pmap: "reads p ts v B \<Longrightarrow> reads (\<lambda>st. pmap g (p st)) ts (g v) B"
  unfolding pmap_def by (rule reads_map)

lemma reads_insert:
  assumes "stmt_ok (SInsert s)"
  shows "\<exists>n. reads (parse_insert n) (stmt_toks (SInsert s)) s not_end"
proof -
  let ?n = "max (length (in_rows s)) (Max (length ` set (in_rows s)))"
  have row: "reads (parse_values ?n) (row_toks r) r {}" if "r \<in> set (in_rows s)" for r
    using that assms by (intro reads_row) (auto simp: list_all_iff le_max_iff_disj)
  have rows: "reads (comma_list ?n (parse_values ?n)) (comma_sep (map row_toks (in_rows s))) (in_rows s) {tComma}"
    using assms row by (intro reads_comma_list) auto
  have "reads (\<lambda>st. Inr (\<lparr>in_table_name = tok_text (ident (in_table_name s)), in_rows = in_rows s\<rparr>, st)) [] s not_end"
    by (cases s) (simp add: reads_return)
  then have "reads (parse_insert ?n) ([tok tInsert] @ [tok tInto] @ [ident (in_table_name s)] @ [tok tValues] @
      comma_sep (map row_toks (in_rows s)) @ []) s not_end"
    unfolding parse_insert_def [abs_def] by (intro reads_tok reads_seq [OF rows]) simp_all
  then show ?thesis by auto
qed

lemma reads_select:
  assumes "stmt_ok (SSelect s)"
  shows "\<exists>n. reads (parse_select n) (stmt_toks (SSelect s)) s not_end"
proof -
  obtain N where N: "\<And>n. N \<le> n \<Longrightarrow> reads (parse_where n) (where_toks (se_where s)) (se_where s) {tWhere, tAnd, tOr}"
    using assms reads_where [of "se_where s"] by auto
  let ?n = "max N (max (length (se_columns s)) (length (se_group_by s)))"
  let ?lim = "limit_toks (se_limit s, se_offset s) @ []"
  let ?ord = "order_toks (se_order_by s) @ ?lim"
  let ?grp = "group_toks (se_group_by s) @ ?ord"
  let ?whr = "where_toks (se_where s) @ ?grp"
  have h4: "hd_type ?lim \<in> {tEnd, tLimit}"
    by (auto simp: limit_toks_def split: option.splits)
  then have h3: "hd_type ?ord \<in> {tEnd, tLimit, tOrder}"
    by (auto simp: order_toks_def hd_type_append split: option.splits)
  then have h2: "hd_type ?grp \<in> {tEnd, tLimit, tOrder, tGroup}"
    by (auto simp: group_toks_def hd_type_append)
  then have h1: "hd_type ?whr \<in> {tEnd, tLimit, tOrder, tGroup, tWhere}"
    by (auto simp: where_toks_def hd_type_append split: option.splits)
  have e4: "hd_type ?lim \<noteq> tOrder" using h4 by auto
  have e3: "hd_type ?ord \<notin> {tGroup, tComma, tDot}" using h3 by auto
  have e2: "hd_type ?grp \<notin> {tWhere, tAnd, tOr}" using h2 by auto
  have e1: "hd_type ?whr \<notin> {tJoin, tDot}" using h1 by auto
  note ends = e1 [simplified] e2 [simplified] e3 [simplified] e4 [simplified]
  have ret: "reads (\<lambda>st. Inr (\<lparr>se_columns = se_columns s, se_table_name = se_table_name s,
      se_where = se_where s, se_group_by = se_group_by s, se_join_clause = se_join_clause s,
      se_order_by = se_order_by s, se_limit = se_limit s, se_offset = se_offset s\<rparr>, st)) [] s not_end"
    by (cases s) (simp add: reads_return)
  have lim: "reads parse_limit (limit_toks (se_limit s, se_offset s)) (se_limit s, se_offset s) {tLimit, tOffset}"
    and ord: "reads parse_order_by (order_toks (se_order_by s)) (se_order_by s) {tOrder}"
    and grp: "reads (parse_group_by ?n) (group_toks (se_group_by s)) (se_group_by s) {tGroup, tComma, tDot}"
    and join: "reads parse_join (join_toks (se_join_clause s)) (se_join_clause s) {tJoin, tDot}"
    and cols: "reads (parse_columns ?n) (columns_toks (se_columns s)) (se_columns s) {tComma, tDot}"
    using assms by (simp_all add: reads_limit reads_order reads_group reads_join reads_columns)
  have whr: "reads (parse_where ?n) (where_toks (se_where s)) (se_where s) {tWhere, tAnd, tOr}"
    by (rule N) simp
  have "reads (parse_select ?n) ([tok tSelect] @ columns_toks (se_columns s) @ [tok tFrom] @
     [ident (se_table_name s)] @ join_toks (se_join_clause s) @ ?whr) s not_end"
    unfolding parse_select_def [abs_def]
    by (intro reads_tok reads_seq [OF cols] reads_seq [OF join] reads_seq [OF whr]
        reads_seq [OF grp] reads_seq [OF ord] reads_seq [OF lim])
      (simp_all add: ret ends)
  then show ?thesis by auto
qed

lemma reads_delete:
  assumes "stmt_ok (SDelete s)"
  shows "\<exists>n. reads (parse_delete n) (stmt_toks (SDelete s)) s not_end"
proof -
  obtain N where N: "\<And>n. N \<le> n \<Longrightarrow> reads (parse_where n) (where_toks (de_where s)) (de_where s) {tWhere, tAnd, tOr}"
    using assms reads_where [of "de_where s"] by auto
  have ret: "reads (\<lambda>st. Inr (\<lparr>de_table_name = tok_text (ident (de_table_name s)), de_where = de_where s\<rparr>, st)) [] s not_end"
    by (cases s) (simp add: reads_return)
  have "reads (parse_delete N) ([tok tDelete] @ [tok tFrom] @ [ident (de_table_name s)] @ where_toks (de_where s) @ []) s not_end"
    unfolding parse_delete_def [abs_def]
    by (intro reads_tok reads_seq [OF N [OF order_refl]] ret) simp_all
  then show ?thesis by auto
qed

lemma reads_update:
  assumes "stmt_ok (SUpdate s)"
  shows "\<exists>n. reads (parse_update n) (stmt_toks (SUpdate s)) s not_end"
proof -
  obtain N where N: "\<And>n. N \<le> n \<Longrightarrow> reads (parse_where n) (where_toks (up_where s)) (up_where s) {tWhere, tAnd, tOr}"
    using assms reads_where [of "up_where s"] by auto
  have ret: "reads (\<lambda>st. Inr (\<lparr>up_table_name = tok_text (ident (up_table_name s)),
      up_column_name = tok_text (ident (up_column_name s)), up_new_value = up_new_value s, up_where = up_where s\<rparr>, st)) [] s not_end"
    by (cases s) (simp add: reads_return)
  have "reads (parse_update N) ([tok tUpdate] @ [ident (up_table_name s)] @ [tok tSet] @
     [ident (up_column_name s)] @ [tok tEq] @ value_toks (up_new_value s) @ where_toks (up_where s) @ []) s not_end"
    unfolding parse_update_def [abs_def]
    using assms
    by (intro reads_tok reads_seq [OF N [OF order_refl]] reads_seq [OF reads_value [where B = "{}"]] ret) simp_all
  then show ?thesis by auto
qed

lemma reads_column_def: "reads parse_column_def (column_def_toks c) c {}"
proof -
  let ?f = "\<lambda>name st. if peek st = tIdentifier
       then Inr (\<lparr>cdef_name = name, cdef_type = column_type_of (cur_text st)\<rparr>, advance st)
       else Inr (\<lparr>cdef_name = name, cdef_type = kVarChar\<rparr>, st)"
  have "reads (?f (tok_text (ident (cdef_name c)))) [ident (type_name (cdef_type c))] c {}"
    by (auto simp: reads_def at_text type_name_ok(2) dest: at_peek intro: at_advance)
  then have "reads (\<lambda>st. pbind (take_text tIdentifier st) ?f) ([ident (cdef_name c)] @ [ident (type_name (cdef_type c))]) c {}"
    by (intro reads_tok) simp_all
  then show ?thesis unfolding parse_column_def_def [abs_def] column_def_toks_def .
qed

lemma reads_create:
  assumes "stmt_ok (SCreate s)"
  shows "\<exists>n. reads (parse_create n) (stmt_toks (SCreate s)) (SCreate s) not_end"
proof -
  let ?n = "length (cs_columns s)"
  have cols: "reads (comma_list ?n parse_column_def) (comma_sep (map column_def_toks (cs_columns s)))
      (cs_columns s) {tComma}"
    using assms by (intro reads_comma_list reads_column_def) auto
  have ret: "reads (\<lambda>st. Inr (SCreate \<lparr>cs_table_name = tok_text (ident (cs_table_name s)), cs_columns = cs_columns s\<rparr>, st))
      [] (SCreate s) not_end"
    by (cases s) (simp add: reads_return)
  have "reads (parse_create ?n) ([tok tCreate] @ [tok tTable] @ [ident (cs_table_name s)] @ [tok tLParen] @
     comma_sep (map column_def_toks (cs_columns s)) @ [tok tRParen] @ []) (SCreate s) not_end"
    unfolding parse_create_def [abs_def]
    by (intro reads_tok(1) reads_if_false [where c = "\<lambda>t. t = tIndex"] reads_if_false [where c = "\<lambda>t. t \<noteq> tTable"]
        reads_tok reads_seq [OF cols] ret) simp_all
  then show ?thesis by auto
qed

lemma reads_create_index:
  "reads (parse_create n) (stmt_toks (SCreateIndex s)) (SCreateIndex s) not_end"
proof -
  have ret: "reads (\<lambda>st. Inr (\<lparr>ci_index_name = tok_text (ident (ci_index_name s)),
      ci_table_name = tok_text (ident (ci_table_name s)), ci_column_name = tok_text (ident (ci_column_name s))\<rparr>, st)) [] s not_end"
    by (cases s) (simp add: reads_return)
  let ?ts = "[tok tIndex] @ [ident (ci_index_name s)] @ [tok tOn] @
     [ident (ci_table_name s)] @ [tok tLParen] @ [ident (ci_column_name s)] @ [tok tRParen] @ []"
  have "reads parse_create_index ?ts s not_end"
    unfolding parse_create_index_def [abs_def] by (intro reads_tok ret) simp_all
  note reads_map [OF this, of SCreateIndex]
  then have "reads (parse_create n) ([tok tCreate] @ ?ts) (SCreateIndex s) not_end"
    unfolding parse_create_def [abs_def]
    by (intro reads_tok(1) reads_if_true [where c = "\<lambda>t. t = tIndex"]) simp_all
  then show ?thesis by simp
qed

lemma reads_config:
  assumes "stmt_ok (SConfig c)"
  shows "reads parse_set (stmt_toks (SConfig c)) c not_end"
proof -
  let ?key = "\<lambda>st. if peek st = tInterval
            then pbind (consume tInterval st) (\<lambda>_ st. Inr (''backup_interval'', st))
            else if peek st = tRetention
            then pbind (consume tRetention st) (\<lambda>_ st. Inr (''backup_retention'', st))
            else perror"
  have key: "reads ?key [tok (key_tok (cf_key c))] (cf_key c) {}"
    using assms by (auto simp: reads_def key_tok_def consume_def pbind_def dest: at_peek intro: at_advance)
  have ret: "reads (\<lambda>st. case stoull (tok_text (count_tok (cf_value c))) of None \<Rightarrow> perror
       | Some v \<Rightarrow> Inr (\<lparr>cf_key = cf_key c, cf_value = ucast v\<rparr>, st)) [] c not_end"
    using stoull_dec [of "cf_value c"] by (cases c)
      (simp add: count_tok_def reads_return ucast_up_ucast_id is_up)
  have "reads parse_set ([tok tSet] @ [tok tBackup] @ [tok (key_tok (cf_key c))] @ [tok tTo] @
      [count_tok (cf_value c)] @ []) c not_end"
    unfolding parse_set_def [abs_def]
    by (intro reads_tok reads_seq [OF key] ret) (simp_all add: count_tok_def)
  then show ?thesis by simp
qed

lemma reads_dispatch:
  assumes "reads p ts v B" "ts \<noteq> []" "\<And>st. peek st = hd_type ts \<Longrightarrow> parse_statement n st = p st"
  shows "\<exists>n. reads (parse_statement n) ts v B"
proof -
  have "parse_statement n st = p st" if "stands st (ts @ rest)" for st rest
    using assms(2,3) at_peek [OF that] by (simp add: hd_type_append)
  with assms(1) have "reads (parse_statement n) ts v B" by (simp add: reads_def)
  then show ?thesis ..
qed

lemma reads_single: "t \<noteq> tEnd \<Longrightarrow> reads (\<lambda>st. pmap (\<lambda>_. s) (consume t st)) [tok t] s not_end"
  using reads_pmap [OF reads_mono [OF reads_consume [of t "tok t"], of not_end], of "\<lambda>_. s"] by simp

lemma reads_statement:
  assumes "stmt_ok s"
  shows "\<exists>n. reads (parse_statement n) (stmt_toks s) s not_end"
proof (cases s)
  case (SInsert x)
  with assms obtain n where "reads (parse_insert n) (stmt_toks s) x not_end" using reads_insert by blast
  note reads_pmap [OF this, of SInsert]
  with SInsert show ?thesis by (auto intro!: reads_dispatch [of _ _ _ _ n] simp: parse_statement_def)
next
  case (SSelect x)
  with assms obtain n where "reads (parse_select n) (stmt_toks s) x not_end" using reads_select by blast
  note reads_pmap [OF this, of SSelect]
  with SSelect show ?thesis by (auto intro!: reads_dispatch [of _ _ _ _ n] simp: parse_statement_def)
next
  case (SDelete x)
  with assms obtain n where "reads (parse_delete n) (stmt_toks s) x not_end" using reads_delete by blast
  note reads_pmap [OF this, of SDelete]
  with SDelete show ?thesis by (auto intro!: reads_dispatch [of _ _ _ _ n] simp: parse_statement_def)
next
  case (SUpdate x)
  with assms obtain n where "reads (parse_update n) (stmt_toks s) x not_end" using reads_update by blast
  note reads_pmap [OF this, of SUpdate]
  with SUpdate show ?thesis by (auto intro!: reads_dispatch [of _ _ _ _ n] simp: parse_statement_def)
next
  case (SCreate x)
  with assms obtain n where "reads (parse_create n) (stmt_toks s) s not_end" using reads_create by blast
  with SCreate show ?thesis by (auto intro!: reads_dispatch [of _ _ _ _ n] simp: parse_statement_def)
next
  case (SCreateIndex x)
  with reads_create_index [of 0 x] show ?thesis
    by (auto intro!: reads_dispatch [of _ _ _ _ 0] simp: parse_statement_def)
next
  case (SVacuum x)
  have "reads parse_vacuum ([tok tVacuum] @ [ident x] @ []) x not_end"
    unfolding parse_vacuum_def [abs_def]
    using reads_tok(2) [of tIdentifier "ident x" "\<lambda>v st. Inr (v, st)" "[]" x not_end]
    by (intro reads_tok(1)) (simp_all add: reads_return)
  note reads_pmap [OF this, of SVacuum]
  with SVacuum show ?thesis by (auto intro!: reads_dispatch [of _ _ _ _ 0] simp: parse_statement_def)
next
  case (SBackup x)
  have "reads parse_backup ([tok tBackup] @ [tok tTo] @ [str_lit x]) x not_end"
    unfolding parse_backup_def [abs_def]
    using reads_mono [OF reads_take_text [of tString "str_lit x"], of not_end]
    by (intro reads_tok(1)) simp_all
  note reads_pmap [OF this, of SBackup]
  with SBackup show ?thesis by (auto intro!: reads_dispatch [of _ _ _ _ 0] simp: parse_statement_def)
next
  case (SConfig x)
  note reads_pmap [OF reads_config, of x SConfig]
  with assms SConfig show ?thesis by (auto intro!: reads_dispatch [of _ _ _ _ 0] simp: parse_statement_def)
next
  case SBegin
  with reads_single [of tBeginTxn s] show ?thesis
    by (auto intro!: reads_dispatch [of _ _ _ _ 0] simp: parse_statement_def parse_begin_def)
next
  case SCommit
  with reads_single [of tCommitTxn s] show ?thesis
    by (auto intro!: reads_dispatch [of _ _ _ _ 0] simp: parse_statement_def parse_commit_def)
next
  case SRollback
  with reads_single [of tRollbackTxn s] show ?thesis
    by (auto intro!: reads_dispatch [of _ _ _ _ 0] simp: parse_statement_def parse_rollback_def)
qed

text \<open>
  C8: The parser reads back every statement: if the names of a statement are words that are no
  keywords, its strings hold no quote, its numbers are integers and the lists that the grammar
  wants non-empty are so, then parsing the printed statement gives the statement. The printer
  writes parentheses only where the tree departs from the precedence of the operators, so this
  fixes that \<open>AND\<close> binds tighter than \<open>OR\<close> and that both associate to the left; it covers all
  twelve kinds of statements with every optional clause.
\<close>

theorem parse_print_roundtrip:
  assumes "stmt_ok s"
  shows "parse (print_stmt s) = Inr s"
proof -
  obtain n where "reads (parse_statement n) (stmt_toks s) s not_end" using reads_statement [OF assms] ..
  then show ?thesis unfolding print_stmt_def by (rule parse_from_reads [OF lexable_stmt [OF assms]]) simp
qed

definition sample_select :: Statement where
  "sample_select =
     (let c = \<lambda>f n. \<lparr>cr_table = [], cr_name = n, cr_func = f, cr_is_star = False\<rparr>;
          p = \<lambda>n op v. EPred \<lparr>pr_column = c AggNone n, pr_op = op, pr_value = v, pr_in_values = []\<rparr>
      in SSelect \<lparr>se_columns = [c AggNone ''city'', c AggSum ''qty''], se_table_name = ''orders'',
           se_where = Some (EAnd (p ''qty'' CmpGt (VInt (- 5)))
             (EOr (p ''city'' CmpEq (VStr ''Kyoto'')) (p ''id'' CmpLe (VInt 7)))),
           se_group_by = [c AggNone ''city''], se_join_clause = None,
           se_order_by = Some \<lparr>ob_column = c AggNone ''city'', ob_asc = False\<rparr>,
           se_limit = Some 10, se_offset = Some 2\<rparr>)"

lemma sample_select_ok: "stmt_ok sample_select"
  by code_simp

theorem parse_print_roundtrip_witness: "parse (print_stmt sample_select) = Inr sample_select"
  by (rule parse_print_roundtrip [OF sample_select_ok])

end
