(* ===== verification/Mmap_File.thy ===== *)
theory Mmap_File
  imports Core_Types
begin

text \<open>
  \<open>src/src/memory/mmap_file.hpp\<close> and \<open>mmap_file.cpp\<close>: a file mapped into memory as a whole.
  The mapping is shared, so the bytes at \<open>data()\<close> are the first \<open>size()\<close> bytes of the file; the
  state keeps whether there is a mapping (\<open>data_ != nullptr\<close>), \<open>size_\<close>, whether the descriptor
  is open, and the contents of the file. The outcomes of the system calls are an argument.
\<close>

record MmapFile =
  mf_mapped :: bool
  mf_size :: nat
  mf_fd :: bool
  mf_disk :: "byte list"

datatype Errno = ENOSPC | EOther
datatype MsyncResult = MsyncOk | MsyncEintr | MsyncFailed

record OsEnv =
  os_open :: bool
  os_fstat :: bool
  os_ftruncate :: "Errno option"
  os_mmap :: bool
  os_remap :: bool
  os_msync :: "MsyncResult list"

definition os_fine :: OsEnv where
  "os_fine = \<lparr>os_open = True, os_fstat = True, os_ftruncate = None, os_mmap = True, os_remap = True, os_msync = []\<rparr>"

definition mmap_init :: MmapFile where
  "mmap_init = \<lparr>mf_mapped = False, mf_size = 0, mf_fd = False, mf_disk = []\<rparr>"

text \<open>\<open>ftruncate\<close>: cut, or extend with zero bytes.\<close>

definition ftruncate :: "nat \<Rightarrow> byte list \<Rightarrow> byte list" where
  "ftruncate n bs = take n bs @ replicate (n - length bs) 0"

lemma length_ftruncate [simp]: "length (ftruncate n bs) = n"
  by (simp add: ftruncate_def)

text \<open>Overwriting the bytes at an offset.\<close>

definition poke :: "nat \<Rightarrow> byte list \<Rightarrow> byte list \<Rightarrow> byte list" where
  "poke off bs m = take off m @ bs @ drop (off + length bs) m"

definition mf_poke :: "nat \<Rightarrow> byte list \<Rightarrow> MmapFile \<Rightarrow> MmapFile" where
  "mf_poke off bs f = f\<lparr>mf_disk := poke off bs (mf_disk f)\<rparr>"

definition mf_data :: "MmapFile \<Rightarrow> byte list" where "mf_data f = take (mf_size f) (mf_disk f)"

definition do_munmap :: "MmapFile \<Rightarrow> MmapFile" where
  "do_munmap f = (if mf_mapped f then f\<lparr>mf_mapped := False, mf_size := 0\<rparr> else f)"

text \<open>Opening a file with the given contents; the result says whether an exception was thrown.\<close>

definition mmap_open :: "OsEnv \<Rightarrow> byte list \<Rightarrow> nat \<Rightarrow> MmapFile \<Rightarrow> bool \<times> MmapFile" where
  "mmap_open env contents sz f =
     (if mf_mapped f then (True, f)
      else if \<not> os_open env then (True, f\<lparr>mf_fd := False\<rparr>)
      else
        let f1 = f\<lparr>mf_fd := True, mf_disk := contents\<rparr>
        in if 0 < sz \<and> os_ftruncate env \<noteq> None then (True, f1\<lparr>mf_fd := False\<rparr>)
           else if sz = 0 \<and> \<not> os_fstat env then (True, f1\<lparr>mf_fd := False\<rparr>)
           else
             let f2 = (if 0 < sz then f1\<lparr>mf_size := sz, mf_disk := ftruncate sz contents\<rparr>
                       else f1\<lparr>mf_size := length contents\<rparr>)
             in if mf_size f2 = 0 then (False, f2\<lparr>mf_mapped := False\<rparr>)
                else if \<not> os_mmap env then (True, f2\<lparr>mf_mapped := False, mf_fd := False\<rparr>)
                else (False, f2\<lparr>mf_mapped := True\<rparr>))"

definition mmap_close :: "MmapFile \<Rightarrow> MmapFile" where
  "mmap_close f = (do_munmap f)\<lparr>mf_fd := False, mf_mapped := False, mf_size := 0\<rparr>"

definition mmap_resize :: "OsEnv \<Rightarrow> nat \<Rightarrow> MmapFile \<Rightarrow> Status_Code \<times> MmapFile" where
  "mmap_resize env new_size f =
     (if new_size = mf_size f then (kOk, f)
      else
        let f1 = do_munmap f
        in case (if mf_fd f1 then os_ftruncate env else Some EOther) of
             Some err \<Rightarrow>
               if 0 < mf_size f1 \<and> \<not> os_remap env then (kFatal, f1\<lparr>mf_mapped := False\<rparr>)
               else
                 let f2 = (if 0 < mf_size f1 then f1\<lparr>mf_mapped := True\<rparr> else f1)
                 in (if err = ENOSPC then kNoSpace else kIoError, f2)
           | None \<Rightarrow>
               let f2 = f1\<lparr>mf_disk := ftruncate new_size (mf_disk f1)\<rparr>
               in if new_size = 0 then (kOk, f2\<lparr>mf_mapped := False, mf_size := 0\<rparr>)
                  else if \<not> os_mmap env then (kIoError, f2\<lparr>mf_mapped := False\<rparr>)
                  else (kOk, f2\<lparr>mf_mapped := True, mf_size := new_size\<rparr>))"

definition msync_once :: "OsEnv \<Rightarrow> MmapFile \<Rightarrow> Status_Code" where
  "msync_once env f =
     (if \<not> mf_mapped f \<or> mf_size f = 0 then kInvalidArgument
      else case os_msync env of [] \<Rightarrow> kOk | r # _ \<Rightarrow> if r = MsyncOk then kOk else kIoError)"

definition msync_async :: "OsEnv \<Rightarrow> MmapFile \<Rightarrow> Status_Code" where "msync_async = msync_once"
definition msync_sync :: "OsEnv \<Rightarrow> MmapFile \<Rightarrow> Status_Code" where "msync_sync = msync_once"

text \<open>The loop that repeats an interrupted \<open>msync\<close>, over the outcomes of the calls.\<close>

fun msync_retry :: "MsyncResult list \<Rightarrow> MsyncResult" where
  "msync_retry [] = MsyncOk"
| "msync_retry (r # rs) = (if r = MsyncEintr then msync_retry rs else r)"

definition msync_sync_safe :: "OsEnv \<Rightarrow> MmapFile \<Rightarrow> Status_Code" where
  "msync_sync_safe env f =
     (if \<not> mf_mapped f \<or> mf_size f = 0 then kInvalidArgument
      else if msync_retry (os_msync env) = MsyncOk then kOk else kIoError)"

section \<open>Invariant and resizing\<close>

text \<open>The object is consistent: the size is that of the file, and a non-empty file is mapped.\<close>

definition mmap_inv :: "MmapFile \<Rightarrow> bool" where
  "mmap_inv f \<longleftrightarrow> mf_fd f \<and> mf_size f = length (mf_disk f) \<and> mf_mapped f = (mf_size f \<noteq> 0)"

lemma mmap_inv_data: "mmap_inv f \<Longrightarrow> mf_data f = mf_disk f"
  by (simp add: mmap_inv_def mf_data_def)

lemma mmap_open_inv:
  "mmap_open env contents 0 mmap_init = (False, f) \<Longrightarrow> mmap_inv f \<and> mf_disk f = contents"
  by (auto simp: mmap_open_def mmap_init_def mmap_inv_def Let_def split: if_splits)

lemma mmap_resize_ok:
  assumes "mmap_inv f" "mmap_resize env n f = (kOk, f')"
  shows "mmap_inv f' \<and> mf_disk f' = ftruncate n (mf_disk f)"
  using assms
  by (auto simp: mmap_resize_def mmap_inv_def do_munmap_def Let_def ftruncate_def
      split: if_splits option.splits)

lemma mmap_resize_fine:
  assumes "mf_fd f" "os_ftruncate env = None" "os_mmap env"
  shows "\<exists>f'. mmap_resize env n f = (kOk, f')"
  using assms by (auto simp: mmap_resize_def do_munmap_def Let_def)

lemma mmap_resize_failed:
  assumes "mmap_inv f" "n \<noteq> mf_size f" "os_ftruncate env = Some err"
  shows "mmap_resize env n f = (if err = ENOSPC then kNoSpace else kIoError,
           f\<lparr>mf_mapped := False, mf_size := 0\<rparr>)"
  using assms by (auto simp: mmap_resize_def mmap_inv_def do_munmap_def Let_def split: if_splits)

end
