(* ===== verification/Btree.thy ===== *)
theory Btree
  imports Mmap_File Ast
begin

text \<open>
  \<open>src/src/index/btree.hpp\<close> and \<open>btree.cpp\<close>: a B+-tree of key slots and row ids in a mapped
  file. A node is a block of \<open>node_size_\<close> bytes: the number of entries, the leaf flag, the
  first child, 31 key slots of \<open>slot_key_size_\<close> bytes and 31 values. Reading a node decodes
  the block (\<open>node_of_bytes\<close>), writing it encodes all of it (\<open>node_bytes\<close>), the unused slots
  included, because an insertion leaves parts of old slots in place.

  The calls of the full-page-write callback are collected in \<open>bt_fpw\<close>. Following child pointers
  of a damaged file may never end: descending takes a fuel that is larger than the number of
  nodes the file can hold, and running out of it (\<open>BtDiverges\<close>) stands for not returning. A
  failed resize leaves no mapping and the following write goes through a null pointer
  (\<open>BtCrash\<close>).
\<close>

section \<open>Keys\<close>

definition sgn_cmp :: "'a::linorder \<Rightarrow> 'a \<Rightarrow> int" where
  "sgn_cmp a b = (if a < b then - 1 else if b < a then 1 else 0)"

text \<open>The key bytes up to the first zero byte.\<close>

definition real_key :: "byte list \<Rightarrow> byte list" where "real_key a = takeWhile (\<lambda>b. b \<noteq> 0) a"

text \<open>\<open>memcmp\<close> of the common length, then the lengths: the sign.\<close>

fun cmp_bytes :: "byte list \<Rightarrow> byte list \<Rightarrow> int" where
  "cmp_bytes [] [] = 0"
| "cmp_bytes [] (b # bs) = - 1"
| "cmp_bytes (a # as) [] = 1"
| "cmp_bytes (a # as) (b # bs) = (if a < b then - 1 else if b < a then 1 else cmp_bytes as bs)"

text \<open>The key type is a byte: \<open>open\<close> casts any value found in the file.\<close>

definition compare_keys :: "byte list \<Rightarrow> byte list \<Rightarrow> byte \<Rightarrow> int" where
  "compare_keys a b t =
     (if t = column_type_tag kInt32 then
        (if length a < 4 \<or> length b < 4 then 0 else sgn_cmp (sint (u32_at a 0)) (sint (u32_at b 0)))
      else if t = column_type_tag kTimestamp \<or> t = column_type_tag kInt64 then
        (if length a < 8 \<or> length b < 8 then 0 else sgn_cmp (sint (u64_at a 0)) (sint (u64_at b 0)))
      else if t = column_type_tag kFloat64 then
        (if length a < 8 \<or> length b < 8 then 0
         else if f64_lt (u64_at a 0) (u64_at b 0) then - 1
         else if f64_lt (u64_at b 0) (u64_at a 0) then 1 else 0)
      else if t = column_type_tag kBool then
        (let truth = \<lambda>k. (case k of [] \<Rightarrow> False | x # _ \<Rightarrow> x \<noteq> 0)
         in (if truth a then 1 else 0) - (if truth b then 1 else 0))
      else if t = column_type_tag kVarChar then cmp_bytes (real_key a) (real_key b)
      else 0)"

section \<open>Nodes\<close>

definition kHeaderSize :: nat where "kHeaderSize = 16"
definition kNodeHdr :: nat where "kNodeHdr = 8"
definition kMaxKeys :: nat where "kMaxKeys = 31"
definition kMaxSlotKeySize :: nat where "kMaxSlotKeySize = 256"

definition slot_key_size :: "byte \<Rightarrow> nat" where
  "slot_key_size t =
     (if t = column_type_tag kInt32 then 4
      else if t = column_type_tag kTimestamp \<or> t = column_type_tag kInt64 then 8
      else if t = column_type_tag kFloat64 then 8
      else if t = column_type_tag kBool then 1
      else if t = column_type_tag kVarChar then kMaxSlotKeySize
      else 0)"

definition node_size :: "nat \<Rightarrow> nat" where
  "node_size ks = kNodeHdr + 8 + kMaxKeys * (ks + 8)"

record Node =
  nd_num :: u32
  nd_leaf :: byte
  nd_pad :: "byte list"
  nd_first :: u64
  nd_keys :: "byte list list"
  nd_vals :: "u64 list"

definition node_of_bytes :: "nat \<Rightarrow> byte list \<Rightarrow> Node" where
  "node_of_bytes ks bs =
     \<lparr>nd_num = u32_at bs 0, nd_leaf = hd (drop 4 bs), nd_pad = take 3 (drop 5 bs),
      nd_first = u64_at bs kNodeHdr,
      nd_keys = map (\<lambda>i. take ks (drop (kNodeHdr + 8 + i * ks) bs)) [0..<kMaxKeys],
      nd_vals = map (\<lambda>i. u64_at bs (kNodeHdr + 8 + kMaxKeys * ks + i * 8)) [0..<kMaxKeys]\<rparr>"

definition node_bytes :: "Node \<Rightarrow> byte list" where
  "node_bytes n = put_u32 (nd_num n) @ [nd_leaf n] @ nd_pad n @ put_u64 (nd_first n) @
     concat (nd_keys n) @ concat (map put_u64 (nd_vals n))"

text \<open>\<open>key_ptr(idx)\<close>, \<open>*value_ptr(idx)\<close>; an index past the slots is outside the node.\<close>

definition key_at :: "Node \<Rightarrow> nat \<Rightarrow> byte list" where
  "key_at n i = (if i < length (nd_keys n) then nd_keys n ! i else [])"

definition val_at :: "Node \<Rightarrow> nat \<Rightarrow> u64" where
  "val_at n i = (if i < length (nd_vals n) then nd_vals n ! i else 0)"

record BTree =
  bt_file :: MmapFile
  bt_key_type :: byte
  bt_root_off :: u64
  bt_slot :: nat
  bt_node_size :: nat
  bt_fpw :: "(PageId \<times> byte list) list"

record IndexInfo =
  ix_name :: string
  ix_column_name :: string
  ix_column_idx :: nat
  ix_column_type :: ColumnType
  ix_tree :: BTree

definition bt_poke :: "nat \<Rightarrow> byte list \<Rightarrow> BTree \<Rightarrow> BTree" where
  "bt_poke off bs t = t\<lparr>bt_file := mf_poke off bs (bt_file t)\<rparr>"

definition bt_block :: "BTree \<Rightarrow> nat \<Rightarrow> byte list" where
  "bt_block t off = take (bt_node_size t) (drop off (mf_disk (bt_file t)))"

definition read_node :: "BTree \<Rightarrow> PageId \<Rightarrow> Node StatusOr" where
  "read_node t off =
     (if mf_size (bt_file t) < unat (off + word_of_nat (bt_node_size t)) then Inl kCorruptedData
      else Inr (node_of_bytes (bt_slot t) (bt_block t (unat off))))"

section \<open>Searching a node\<close>

text \<open>The halving loop of \<open>search_key_binary\<close>, then the walk back over equal keys.\<close>

fun back_equal :: "(nat \<Rightarrow> int) \<Rightarrow> nat \<Rightarrow> nat" where
  "back_equal c 0 = 0"
| "back_equal c (Suc m) = (if c m = 0 then back_equal c m else Suc m)"

function search_key_loop :: "(nat \<Rightarrow> int) \<Rightarrow> nat \<Rightarrow> nat \<Rightarrow> nat option" where
  "search_key_loop c lo hi =
     (if lo < hi then
        let mid = lo + (hi - lo) div 2
        in if c mid = 0 then Some (back_equal c mid)
           else if c mid < 0 then search_key_loop c lo mid
           else search_key_loop c (mid + 1) hi
      else None)"
  by pat_completeness auto
termination
  by (relation "measure (\<lambda>(c, lo, hi). hi - lo)") auto

declare search_key_loop.simps [simp del]

definition node_cmp :: "byte \<Rightarrow> byte list \<Rightarrow> Node \<Rightarrow> nat \<Rightarrow> int" where
  "node_cmp t key n i = compare_keys key (key_at n i) t"

definition search_key_binary :: "byte \<Rightarrow> byte list \<Rightarrow> Node \<Rightarrow> nat option" where
  "search_key_binary t key n =
     (if nd_num n = 0 then None else search_key_loop (node_cmp t key n) 0 (unat (nd_num n)))"

definition find_child_binary :: "byte \<Rightarrow> byte list \<Rightarrow> Node \<Rightarrow> nat" where
  "find_child_binary t key n = bin_search (\<lambda>i. \<not> node_cmp t key n i < 0) 0 (unat (nd_num n))"

definition child_off :: "Node \<Rightarrow> nat \<Rightarrow> PageId" where
  "child_off n ci = (if ci = 0 then nd_first n else val_at n (ci - 1))"

definition leaf_matches :: "byte \<Rightarrow> byte list \<Rightarrow> Node \<Rightarrow> nat \<Rightarrow> RowId list" where
  "leaf_matches t key n idx =
     map (val_at n) (takeWhile (\<lambda>i. node_cmp t key n i = 0) [idx..<unat (nd_num n)])"

section \<open>Creating, opening, closing\<close>

definition bt_make :: "MmapFile \<Rightarrow> byte \<Rightarrow> u64 \<Rightarrow> BTree" where
  "bt_make f kt r = \<lparr>bt_file = f, bt_key_type = kt, bt_root_off = r, bt_slot = slot_key_size kt,
     bt_node_size = node_size (slot_key_size kt), bt_fpw = []\<rparr>"

definition bt_create :: "OsEnv \<Rightarrow> byte list \<Rightarrow> ColumnType \<Rightarrow> BTree StatusOr" where
  "bt_create env contents ct =
     (let kt = column_type_tag ct; ns = node_size (slot_key_size kt)
      in case mmap_open env contents (kHeaderSize + ns) mmap_init of
           (True, f) \<Rightarrow> Inl kIoError
         | (False, f) \<Rightarrow>
             let t0 = bt_make f kt (word_of_nat kHeaderSize);
                 t1 = bt_poke 0 (put_u64 (word_of_nat kHeaderSize)) t0;
                 t2 = bt_poke 8 (put_u64 (ucast kt)) t1;
                 t3 = bt_poke kHeaderSize (replicate ns 0) t2;
                 t4 = bt_poke kHeaderSize (put_u32 0) t3
             in Inr (bt_poke (kHeaderSize + 4) [1] t4))"

definition bt_open :: "OsEnv \<Rightarrow> byte list \<Rightarrow> BTree StatusOr" where
  "bt_open env contents =
     (case mmap_open env contents 0 mmap_init of
        (True, f) \<Rightarrow> Inl kIoError
      | (False, f) \<Rightarrow>
          if mf_size f < kHeaderSize then Inl kCorruptedData
          else Inr (bt_make f (ucast (u64_at (mf_disk f) 8)) (u64_at (mf_disk f) 0)))"

definition bt_close :: "BTree \<Rightarrow> BTree" where
  "bt_close t =
     (if mf_fd (bt_file t) then
        let t1 = (if kHeaderSize \<le> mf_size (bt_file t) then bt_poke 0 (put_u64 (bt_root_off t)) t else t)
        in t1\<lparr>bt_file := mmap_close (bt_file t1)\<rparr>
      else t)"

section \<open>Search\<close>

datatype 'a BtResult = BtOk 'a | BtError Status_Code | BtCrash | BtDiverges

fun bt_bind :: "'a BtResult \<Rightarrow> ('a \<Rightarrow> 'b BtResult) \<Rightarrow> 'b BtResult" where
  "bt_bind (BtOk x) f = f x"
| "bt_bind (BtError e) f = BtError e"
| "bt_bind BtCrash f = BtCrash"
| "bt_bind BtDiverges f = BtDiverges"

fun bt_search_from :: "nat \<Rightarrow> BTree \<Rightarrow> byte list \<Rightarrow> PageId \<Rightarrow> RowId list BtResult" where
  "bt_search_from 0 t key off = BtDiverges"
| "bt_search_from (Suc fuel) t key off =
     (case read_node t off of Inl e \<Rightarrow> BtError e
      | Inr n \<Rightarrow>
          if nd_leaf n \<noteq> 0 then
            (case search_key_binary (bt_key_type t) key n of
               None \<Rightarrow> BtError kNotFound
             | Some idx \<Rightarrow>
                 let rs = leaf_matches (bt_key_type t) key n idx
                 in if rs = [] then BtError kNotFound else BtOk rs)
          else bt_search_from fuel t key (child_off n (find_child_binary (bt_key_type t) key n)))"

definition bt_fuel :: "BTree \<Rightarrow> nat" where "bt_fuel t = Suc (mf_size (bt_file t))"

definition bt_search :: "BTree \<Rightarrow> byte list \<Rightarrow> RowId list BtResult" where
  "bt_search t key =
     (if \<not> mf_fd (bt_file t) \<or> bt_root_off t = 0 then BtError kNotFound
      else bt_search_from (bt_fuel t) t key (bt_root_off t))"

section \<open>Insertion\<close>

text \<open>\<open>memcpy\<close> of the first \<open>min(key_len, ks)\<close> bytes over a slot.\<close>

definition over :: "nat \<Rightarrow> byte list \<Rightarrow> byte list \<Rightarrow> byte list" where
  "over ks key slot = take ks key @ drop (min (length key) ks) slot"

text \<open>The \<open>memmove\<close> that opens slot \<open>i\<close> among \<open>num\<close>: slot \<open>i\<close> itself keeps its old contents.\<close>

definition open_slot :: "nat \<Rightarrow> nat \<Rightarrow> 'a list \<Rightarrow> 'a list" where
  "open_slot i num xs =
     (if i < num then take (i + 1) xs @ take (num - i) (drop i xs) @ drop (num + 1) xs else xs)"

definition insert_slot :: "nat \<Rightarrow> nat \<Rightarrow> byte list \<Rightarrow> u64 \<Rightarrow> Node \<Rightarrow> Node" where
  "insert_slot ks i key v n =
     (let num = unat (nd_num n);
          keys = open_slot i num (nd_keys n);
          vals = open_slot i num (nd_vals n)
      in n\<lparr>nd_num := nd_num n + 1, nd_keys := keys[i := over ks key (keys ! i)], nd_vals := vals[i := v]\<rparr>)"

text \<open>The zero-initialised arrays with the new entry in its place.\<close>

definition combined_keys :: "nat \<Rightarrow> nat \<Rightarrow> byte list \<Rightarrow> Node \<Rightarrow> byte list list" where
  "combined_keys ks i key n =
     (let num = unat (nd_num n)
      in take i (nd_keys n) @ [over ks key (replicate ks 0)] @ take (num - i) (drop i (nd_keys n)))"

definition combined_vals :: "nat \<Rightarrow> u64 \<Rightarrow> Node \<Rightarrow> u64 list" where
  "combined_vals i v n =
     (let num = unat (nd_num n) in take i (nd_vals n) @ [v] @ take (num - i) (drop i (nd_vals n)))"

text \<open>A node zeroed by \<open>memset\<close> and filled with the given entries.\<close>

definition fresh_node :: "nat \<Rightarrow> byte \<Rightarrow> u64 \<Rightarrow> byte list list \<Rightarrow> u64 list \<Rightarrow> Node" where
  "fresh_node ks leaf first keys vals =
     \<lparr>nd_num = word_of_nat (length keys), nd_leaf = leaf, nd_pad = [0, 0, 0], nd_first = first,
      nd_keys = keys @ replicate (kMaxKeys - length keys) (replicate ks 0),
      nd_vals = vals @ replicate (kMaxKeys - length vals) 0\<rparr>"

text \<open>Overwriting a node: the callback sees the old block first.\<close>

definition write_node :: "PageId \<Rightarrow> Node \<Rightarrow> BTree \<Rightarrow> BTree" where
  "write_node off n t =
     bt_poke (unat off) (node_bytes n) (t\<lparr>bt_fpw := bt_fpw t @ [(off, bt_block t (unat off))]\<rparr>)"

text \<open>Appending a node; the status of \<open>resize\<close> is ignored.\<close>

definition append_node :: "OsEnv \<Rightarrow> Node \<Rightarrow> BTree \<Rightarrow> (PageId \<times> BTree) BtResult" where
  "append_node env n t =
     (let off = mf_size (bt_file t)
      in case mmap_resize env (off + bt_node_size t) (bt_file t) of
           (s, f) \<Rightarrow> if \<not> mf_mapped f then BtCrash
             else BtOk (word_of_nat off, bt_poke off (node_bytes n) (t\<lparr>bt_file := f\<rparr>)))"

type_synonym Split = "(byte list \<times> PageId) option"

definition insert_into_leaf_node :: "OsEnv \<Rightarrow> BTree \<Rightarrow> PageId \<Rightarrow> byte list \<Rightarrow> RowId
    \<Rightarrow> (Split \<times> BTree) BtResult" where
  "insert_into_leaf_node env t off key row =
     (let ks = bt_slot t;
          n = node_of_bytes ks (bt_block t (unat off));
          num = unat (nd_num n);
          ipos = bin_search (\<lambda>i. \<not> node_cmp (bt_key_type t) key n i \<le> 0) 0 num
      in if num < kMaxKeys then BtOk (None, write_node off (insert_slot ks ipos key row n) t)
         else
           let keys = combined_keys ks ipos key n;
               vals = combined_vals ipos row n;
               half = (num + 1) div 2;
               t1 = write_node off (fresh_node ks 1 0 (take half keys) (take half vals)) t
           in bt_bind (append_node env (fresh_node ks 1 0 (drop half keys) (drop half vals)) t1)
                (\<lambda>(page, t2). BtOk (Some (keys ! half, page), t2)))"

fun insert_into_subtree :: "nat \<Rightarrow> OsEnv \<Rightarrow> BTree \<Rightarrow> PageId \<Rightarrow> byte list \<Rightarrow> RowId
    \<Rightarrow> (Split \<times> BTree) BtResult" where
  "insert_into_subtree 0 env t off key row = BtDiverges"
| "insert_into_subtree (Suc fuel) env t off key row =
     (case read_node t off of Inl e \<Rightarrow> BtError e
      | Inr nr \<Rightarrow>
          if nd_leaf nr \<noteq> 0 then insert_into_leaf_node env t off key row
          else
            let ci = find_child_binary (bt_key_type t) key nr
            in bt_bind (insert_into_subtree fuel env t (child_off nr ci) key row) (\<lambda>(split, t1).
                 case split of None \<Rightarrow> BtOk (None, t1)
                 | Some (sep_key, new_page) \<Rightarrow>
                     let ks = bt_slot t1;
                         n = node_of_bytes ks (bt_block t1 (unat off));
                         num = unat (nd_num n)
                     in if num < kMaxKeys
                        then BtOk (None, write_node off (insert_slot ks ci sep_key new_page n) t1)
                        else
                          let keys = combined_keys ks ci sep_key n;
                              vals = combined_vals ci new_page n;
                              half = (num + 1) div 2;
                              t2 = write_node off
                                (fresh_node ks 0 (nd_first nr) (take half keys) (take half vals)) t1
                          in bt_bind (append_node env (fresh_node ks 0 (vals ! half)
                                 (drop (half + 1) keys) (drop (half + 1) vals)) t2)
                               (\<lambda>(page, t3). BtOk (Some (keys ! half, page), t3))))"

definition bt_insert :: "OsEnv \<Rightarrow> BTree \<Rightarrow> byte list \<Rightarrow> RowId \<Rightarrow> (Status_Code \<times> BTree) BtResult" where
  "bt_insert env t key row =
     (case insert_into_subtree (bt_fuel t) env t (bt_root_off t) key row of
        BtError e \<Rightarrow> BtOk (e, t)
      | BtCrash \<Rightarrow> BtCrash
      | BtDiverges \<Rightarrow> BtDiverges
      | BtOk (None, t1) \<Rightarrow> BtOk (kOk, t1)
      | BtOk (Some (sep, page), t1) \<Rightarrow>
          let new_root = mf_size (bt_file t1)
          in case mmap_resize env (new_root + bt_node_size t1) (bt_file t1) of
               (s, f) \<Rightarrow>
                 if s \<noteq> kOk then BtOk (s, t1\<lparr>bt_file := f\<rparr>)
                 else
                   let ks = bt_slot t1;
                       rt = fresh_node ks 0 (bt_root_off t1) [over ks sep (replicate ks 0)] [page];
                       t2 = bt_poke new_root (node_bytes rt) (t1\<lparr>bt_file := f\<rparr>);
                       t3 = t2\<lparr>bt_root_off := word_of_nat new_root\<rparr>
                   in BtOk (kOk, bt_poke 0 (put_u64 (word_of_nat new_root)) t3))"

definition bt_write_page :: "OsEnv \<Rightarrow> PageId \<Rightarrow> byte list \<Rightarrow> BTree \<Rightarrow> BTree BtResult" where
  "bt_write_page env page bs t =
     (let t1 = (if mf_size (bt_file t) < unat (page + word_of_nat (length bs))
                then t\<lparr>bt_file := snd (mmap_resize env (unat (page + word_of_nat (length bs))) (bt_file t))\<rparr>
                else t)
      in if \<not> mf_mapped (bt_file t1) then BtCrash else BtOk (bt_poke (unat page) bs t1))"

end
