(* ===== verification/Table_Store.thy ===== *)
theory Table_Store
  imports Btree Page Version_Index
begin

text \<open>
  The write side of \<open>src/src/storage/table.hpp\<close> and \<open>table.cpp\<close>: rows are appended to a pending
  batch, full batches wait in a flush queue, and flushing writes a batch as one page at the end
  of the mapped file and enters its rows into the version index.

  Every operation is modelled as run alone: the mutexes serialise the operations, and the
  compare-and-exchange on the active batch succeeds. Waiting for a free batch when all 64 are
  in use has no result (\<open>None\<close>). Sizes are natural numbers; row ids, page ids and the fields
  stored in a page keep their width.
\<close>

section \<open>Data\<close>

record RowRange =
  rg_start :: RowId
  rg_count :: nat
  rg_page_id :: PageId

record PendingBatch =
  pb_col_data :: "byte list list"
  pb_row_ts :: "Timestamp list"
  pb_row_count :: nat
  pb_start_rid :: RowId

record Table =
  tb_name :: string
  tb_schema :: Schema
  tb_row_count :: nat
  tb_file :: MmapFile
  tb_file_open :: bool
  tb_vindex :: VersionIndex
  tb_lsn :: Lsn
  tb_pages :: "RowRange list"
  tb_indexes :: "IndexInfo list"
  tb_active :: "PendingBatch option"
  tb_free :: "PendingBatch list"
  tb_queue :: "PendingBatch list"

definition kBatchSize :: nat where "kBatchSize = 8192"
definition kMaxBatches :: nat where "kMaxBatches = 64"

definition column_count :: "Schema \<Rightarrow> nat" where "column_count s = length (sc_columns s)"

definition empty_batch :: "nat \<Rightarrow> PendingBatch" where
  "empty_batch n = \<lparr>pb_col_data = replicate n [], pb_row_ts = [], pb_row_count = 0, pb_start_rid = 0\<rparr>"

definition table_init :: "string \<Rightarrow> Schema \<Rightarrow> Table" where
  "table_init name schema =
     \<lparr>tb_name = name, tb_schema = schema, tb_row_count = 0, tb_file = mmap_init, tb_file_open = False,
      tb_vindex = vi_init, tb_lsn = 0, tb_pages = [], tb_indexes = [], tb_active = None,
      tb_free = replicate kMaxBatches (empty_batch (column_count schema)), tb_queue = []\<rparr>"

section \<open>The batch pool\<close>

definition get_free_batch :: "Table \<Rightarrow> (PendingBatch \<times> Table) option" where
  "get_free_batch t =
     (if tb_free t = [] then None else Some (last (tb_free t), t\<lparr>tb_free := butlast (tb_free t)\<rparr>))"

definition return_free_batch :: "PendingBatch \<Rightarrow> Table \<Rightarrow> Table" where
  "return_free_batch b t =
     t\<lparr>tb_free := tb_free t @
         [b\<lparr>pb_col_data := map (\<lambda>_. []) (pb_col_data b), pb_row_ts := [], pb_row_count := 0\<rparr>]\<rparr>"

definition push_flush_queue :: "PendingBatch \<Rightarrow> Table \<Rightarrow> Table" where
  "push_flush_queue b t = t\<lparr>tb_queue := tb_queue t @ [b]\<rparr>"

definition pop_flush_queue :: "Table \<Rightarrow> (PendingBatch \<times> Table) option" where
  "pop_flush_queue t = (case tb_queue t of [] \<Rightarrow> None | b # q \<Rightarrow> Some (b, t\<lparr>tb_queue := q\<rparr>))"

text \<open>The loop head of the insertions: the active batch, taken from the pool if there is none,
  with its first row id set when it is empty.\<close>

definition acquire_batch :: "Table \<Rightarrow> (PendingBatch \<times> Table) option" where
  "acquire_batch t =
     map_option (\<lambda>(b, t).
       (if pb_row_count b = 0 then b\<lparr>pb_start_rid := word_of_nat (tb_row_count t)\<rparr> else b, t))
       (case tb_active t of Some b \<Rightarrow> Some (b, t) | None \<Rightarrow> get_free_batch t)"

definition batch_full :: "PendingBatch \<Rightarrow> bool" where
  "batch_full b \<longleftrightarrow> kBatchSize \<le> pb_row_count b \<or> kMaxPendingRows \<le> pb_row_count b"

text \<open>A full batch leaves for the flush queue.\<close>

definition store_batch :: "PendingBatch \<Rightarrow> Table \<Rightarrow> Table" where
  "store_batch b t =
     (if batch_full b then push_flush_queue b (t\<lparr>tb_active := None\<rparr>) else t\<lparr>tb_active := Some b\<rparr>)"

definition batch_push :: "Timestamp \<Rightarrow> ColumnData list \<Rightarrow> PendingBatch \<Rightarrow> PendingBatch" where
  "batch_push ts columns b =
     b\<lparr>pb_row_ts := pb_row_ts b @ [ts],
       pb_col_data := map2 (\<lambda>d c. d @ cd_data c) (pb_col_data b) columns,
       pb_row_count := pb_row_count b + 1\<rparr>"

section \<open>Insertion\<close>

text \<open>
  The two variants of each insertion differ in where a row's timestamp comes from: the caller,
  or the allocator at the moment the row enters the batch.
\<close>

type_synonym TsSource = "TimestampAllocator \<Rightarrow> Timestamp \<times> TimestampAllocator"

definition fixed_ts :: "Timestamp \<Rightarrow> TsSource" where "fixed_ts ts a = (ts, a)"

definition insert_row_with :: "TsSource \<Rightarrow> ColumnData list \<Rightarrow> Table \<Rightarrow> TimestampAllocator
    \<Rightarrow> (RowId StatusOr \<times> Table \<times> TimestampAllocator) option" where
  "insert_row_with src columns t a =
     (if length columns \<noteq> column_count (tb_schema t) then Some (Inl kInvalidArgument, t, a)
      else map_option (\<lambda>(b, t1).
          let (ts, a') = src a
          in (Inr (pb_start_rid b + word_of_nat (pb_row_count b)),
              store_batch (batch_push ts columns b) (t1\<lparr>tb_row_count := tb_row_count t1 + 1\<rparr>), a'))
        (acquire_batch t))"

definition insert_row :: "Timestamp \<Rightarrow> ColumnData list \<Rightarrow> Table \<Rightarrow> (RowId StatusOr \<times> Table) option" where
  "insert_row ts columns t =
     map_option (\<lambda>(r, t, a). (r, t)) (insert_row_with (fixed_ts ts) columns t ts_init)"

definition insert_row_alloc :: "TimestampAllocator \<Rightarrow> ColumnData list \<Rightarrow> Table
    \<Rightarrow> (RowId StatusOr \<times> Table \<times> TimestampAllocator) option" where
  "insert_row_alloc a columns t = insert_row_with allocate_ts columns t a"

text \<open>Rows go into the batch one after the other, each with its own timestamp.\<close>

fun batch_push_rows :: "TsSource \<Rightarrow> ColumnData list list \<Rightarrow> PendingBatch \<Rightarrow> TimestampAllocator
    \<Rightarrow> PendingBatch \<times> TimestampAllocator" where
  "batch_push_rows src [] b a = (b, a)"
| "batch_push_rows src (r # rs) b a =
     (let (ts, a') = src a in batch_push_rows src rs (batch_push ts r b) a')"

function insert_rows_loop :: "TsSource \<Rightarrow> ColumnData list list \<Rightarrow> RowId list \<Rightarrow> Table \<Rightarrow> TimestampAllocator
    \<Rightarrow> (RowId list \<times> Table \<times> TimestampAllocator) option" where
  "insert_rows_loop src rows res t a =
     (if rows = [] then Some (res, t, a)
      else case acquire_batch t of None \<Rightarrow> None
       | Some (b, t1) \<Rightarrow>
           let to_insert = min (length rows) (kBatchSize - pb_row_count b)
           in if to_insert = 0
              then insert_rows_loop src rows res (push_flush_queue b (t1\<lparr>tb_active := None\<rparr>)) a
              else
                let start = pb_start_rid b + word_of_nat (pb_row_count b);
                    (b', a') = batch_push_rows src (take to_insert rows) b a
                in insert_rows_loop src (drop to_insert rows)
                     (res @ map (\<lambda>i. start + word_of_nat i) [0..<to_insert])
                     (store_batch b' (t1\<lparr>tb_row_count := tb_row_count t1 + to_insert\<rparr>)) a')"
  by pat_completeness auto
termination
  by (relation "measures [\<lambda>(s, rows, r, t, a). length rows,
        \<lambda>(s, rows, r, t, a). 2 * length (tb_free t) + (if tb_active t = None then 0 else 1)]")
    (auto simp: acquire_batch_def get_free_batch_def push_flush_queue_def split: option.splits if_splits)

declare insert_rows_loop.simps [simp del]

definition insert_rows_with :: "TsSource \<Rightarrow> ColumnData list list \<Rightarrow> Table \<Rightarrow> TimestampAllocator
    \<Rightarrow> (RowId list StatusOr \<times> Table \<times> TimestampAllocator) option" where
  "insert_rows_with src rows t a =
     (if rows = [] then Some (Inr [], t, a)
      else if length (hd rows) \<noteq> column_count (tb_schema t) then Some (Inl kInvalidArgument, t, a)
      else map_option (\<lambda>(res, t, a). (Inr res, t, a)) (insert_rows_loop src rows [] t a))"

definition insert_rows :: "Timestamp \<Rightarrow> ColumnData list list \<Rightarrow> Table \<Rightarrow> (RowId list StatusOr \<times> Table) option" where
  "insert_rows ts rows t =
     map_option (\<lambda>(r, t, a). (r, t)) (insert_rows_with (fixed_ts ts) rows t ts_init)"

definition insert_rows_alloc :: "TimestampAllocator \<Rightarrow> ColumnData list list \<Rightarrow> Table
    \<Rightarrow> (RowId list StatusOr \<times> Table \<times> TimestampAllocator) option" where
  "insert_rows_alloc a rows t = insert_rows_with allocate_ts rows t a"

section \<open>The page of a batch\<close>

definition pad8 :: "nat \<Rightarrow> nat" where "pad8 n = (n + 7) div 8 * 8"

text \<open>The lengths in front of the strings of a pending column, summed up.\<close>

fun varchar_blob_size :: "nat \<Rightarrow> byte list \<Rightarrow> nat" where
  "varchar_blob_size 0 src = 0"
| "varchar_blob_size (Suc r) src =
     (if 4 \<le> length src then
        let len = unat (u32_at src 0) in len + varchar_blob_size r (drop (4 + len) src)
      else 0)"

definition col_page_size :: "ColumnType \<Rightarrow> nat \<Rightarrow> byte list \<Rightarrow> nat" where
  "col_page_size ct row_count src =
     (if ct = kVarChar then row_count * 4 + varchar_blob_size row_count src else length src)"

text \<open>The cumulative end offsets and the strings without their lengths.\<close>

fun varchar_offsets :: "nat \<Rightarrow> u32 \<Rightarrow> byte list \<Rightarrow> u32 list" where
  "varchar_offsets 0 cum src = []"
| "varchar_offsets (Suc r) cum src =
     (let len = u32_at src 0 in (cum + len) # varchar_offsets r (cum + len) (drop (4 + unat len) src))"

fun varchar_blob :: "nat \<Rightarrow> byte list \<Rightarrow> byte list" where
  "varchar_blob 0 src = []"
| "varchar_blob (Suc r) src =
     (let len = unat (u32_at src 0) in take len (drop 4 src) @ varchar_blob r (drop (4 + len) src))"

definition column_image :: "ColumnType \<Rightarrow> nat \<Rightarrow> byte list \<Rightarrow> byte list" where
  "column_image ct row_count src =
     (if ct = kVarChar
      then concat (map put_u32 (varchar_offsets row_count 0 src)) @ varchar_blob row_count src
      else src)"

text \<open>The memory images of \<open>BatchHeader\<close> and \<open>ColMeta\<close>, 32 bytes each with their padding.\<close>

definition batch_header_bytes :: "nat \<Rightarrow> nat \<Rightarrow> Lsn \<Rightarrow> byte list" where
  "batch_header_bytes row_count col_count lsn =
     put_u32 0 @ replicate 4 0 @ put_u64 (word_of_nat row_count) @ put_u64 (word_of_nat col_count) @ put_u64 lsn"

definition col_meta_bytes :: "ColumnType \<Rightarrow> nat \<Rightarrow> nat \<Rightarrow> nat \<Rightarrow> byte list" where
  "col_meta_bytes ct data_off data_size nulls_off =
     [column_type_tag ct] @ replicate 7 0 @ put_u64 (word_of_nat data_off) @
     put_u64 (word_of_nat data_size) @ put_u64 (word_of_nat nulls_off)"

fun col_metas_bytes :: "(ColumnType \<times> nat) list \<Rightarrow> nat \<Rightarrow> nat \<Rightarrow> nat \<Rightarrow> byte list" where
  "col_metas_bytes [] off null_off bm = []"
| "col_metas_bytes ((ct, n) # cs) off null_off bm =
     col_meta_bytes ct off n null_off @ col_metas_bytes cs (off + pad8 n) (null_off + bm) bm"

text \<open>
  The payload. The new part of the file is zero, the fields are written in ascending order, and
  what is not written (padding, null bitmaps) stays zero.
\<close>

definition batch_payload_bytes :: "Schema \<Rightarrow> Lsn \<Rightarrow> PendingBatch \<Rightarrow> byte list" where
  "batch_payload_bytes schema lsn b =
     (let rc = pb_row_count b; cc = column_count schema;
          cols = zip (sc_columns schema) (pb_col_data b);
          sizes = map (\<lambda>(ct, src). (ct, col_page_size ct rc src)) cols;
          hdr_size = 32 + cc * 32;
          total_data = sum_list (map (\<lambda>(ct, n). pad8 n) sizes);
          padded_bm = pad8 ((rc + 7) div 8)
      in batch_header_bytes rc cc lsn @
         col_metas_bytes sizes hdr_size (hdr_size + total_data) padded_bm @
         concat (map (\<lambda>(ct, src). column_image ct rc src @
           replicate (pad8 (col_page_size ct rc src) - length (column_image ct rc src)) 0) cols) @
         replicate (cc * padded_bm) 0)"

definition batch_page_header :: "nat \<Rightarrow> byte list \<Rightarrow> PageHeader" where
  "batch_page_header row_count payload =
     set_page_checksum
       \<lparr>ph_magic = kPageMagic, ph_version = 0, ph_type = page_type_tag PageType_Data, ph_reserved = 0,
        ph_checksum = 0, ph_row_count = word_of_nat row_count,
        ph_data_size = word_of_nat (length payload), ph_padding0 = 0, ph_padding1 = 0, ph_padding2 = 0\<rparr>
       payload (length payload)"

definition page_bytes :: "Schema \<Rightarrow> Lsn \<Rightarrow> PendingBatch \<Rightarrow> byte list" where
  "page_bytes schema lsn b =
     (let payload = batch_payload_bytes schema lsn b
      in header_bytes (batch_page_header (pb_row_count b) payload) @ payload)"

definition batch_entries :: "PageId \<Rightarrow> PendingBatch \<Rightarrow> IndexEntry list" where
  "batch_entries page b =
     map (\<lambda>i. \<lparr>ie_row_id = pb_start_rid b + word_of_nat i,
                ie_ts = (if i < length (pb_row_ts b) then pb_row_ts b ! i else 0),
                ie_offset = page, ie_row_size = 0\<rparr>) [0..<pb_row_count b]"

definition write_batch_to_page :: "OsEnv \<Rightarrow> PendingBatch \<Rightarrow> Table \<Rightarrow> Status_Code \<times> Table" where
  "write_batch_to_page env b t =
     (if pb_row_count b = 0 then (kOk, t)
      else
        let bytes = page_bytes (tb_schema t) (tb_lsn t) b;
            off = mf_size (tb_file t)
        in case mmap_resize env (off + length bytes) (tb_file t) of
             (s, f) \<Rightarrow>
               if s \<noteq> kOk then (s, t\<lparr>tb_file := f\<rparr>)
               else (kOk, t\<lparr>tb_file := mf_poke off bytes f,
                 tb_pages := tb_pages t @ [\<lparr>rg_start = pb_start_rid b, rg_count = pb_row_count b,
                    rg_page_id = word_of_nat off\<rparr>],
                 tb_vindex := insert_bulk (batch_entries (word_of_nat off) b) (tb_vindex t)\<rparr>))"

section \<open>Flushing\<close>

text \<open>The active batch, if it holds rows, joins the queue.\<close>

definition queue_active :: "Table \<Rightarrow> Table" where
  "queue_active t =
     (case tb_active t of None \<Rightarrow> t
      | Some b \<Rightarrow> if 0 < pb_row_count b then push_flush_queue b (t\<lparr>tb_active := None\<rparr>) else t)"

text \<open>Popping until the queue is empty; a batch that cannot be written goes to its end. The
  outcomes of the system calls are given per page.\<close>

lemma write_batch_to_page_queue [simp]:
  "tb_queue (snd (write_batch_to_page env b t)) = tb_queue t"
  by (simp add: write_batch_to_page_def Let_def split: prod.splits)

function flush_loop :: "OsEnv list \<Rightarrow> Table \<Rightarrow> Status_Code \<times> Table" where
  "flush_loop envs t =
     (case pop_flush_queue t of None \<Rightarrow> (kOk, t)
      | Some (b, t1) \<Rightarrow>
          let env = (case envs of [] \<Rightarrow> os_fine | e # _ \<Rightarrow> e);
              (s, t2) = write_batch_to_page env b t1
          in if s \<noteq> kOk then (s, push_flush_queue b t2)
             else flush_loop (tl envs) (return_free_batch b t2))"
  by pat_completeness auto
termination
proof (relation "measure (\<lambda>(envs, t). length (tb_queue t))", simp, goal_cases)
  case (1 envs t p b t1 env sr s t2)
  have "tb_queue t2 = tb_queue t1"
    using 1(4,5) write_batch_to_page_queue [of env b t1] by (metis snd_conv)
  moreover have "length (tb_queue t1) < length (tb_queue t)"
    using 1(1,2) by (auto simp: pop_flush_queue_def split: list.splits)
  ultimately show ?case by (simp add: return_free_batch_def)
qed

declare flush_loop.simps [simp del]

definition flush_pending :: "OsEnv list \<Rightarrow> Table \<Rightarrow> Status_Code \<times> Table" where
  "flush_pending envs t = flush_loop envs (queue_active t)"

section \<open>Opening, recovery, persistence\<close>

definition open_file :: "OsEnv \<Rightarrow> byte list \<Rightarrow> Table \<Rightarrow> Status_Code \<times> Table" where
  "open_file env contents t =
     (if tb_file_open t then (kOk, t)
      else case mmap_open env contents 0 (tb_file t) of
             (threw, f) \<Rightarrow> if threw then (kIoError, t\<lparr>tb_file := f\<rparr>)
               else (kOk, t\<lparr>tb_file := f, tb_file_open := True\<rparr>))"

definition close_file :: "Table \<Rightarrow> Table" where
  "close_file t =
     (if tb_file_open t then t\<lparr>tb_file := mmap_close (tb_file t), tb_file_open := False\<rparr> else t)"

text \<open>
  The scan of \<open>recover\<close>: the ranges of the valid pages from offset \<open>off\<close> on, the number of
  rows, and the offset to which the file is cut, if it is. The file size is read once, before
  the loop.
\<close>

function recover_loop :: "byte list \<Rightarrow> nat \<Rightarrow> RowId \<Rightarrow> RowRange list \<Rightarrow> RowRange list \<times> RowId \<times> nat option" where
  "recover_loop bs off start_row acc =
     (if off + kPageHeaderSize \<le> length bs then
        case header_of_bytes (drop off bs) of None \<Rightarrow> (acc, start_row, None)
        | Some (h, payload) \<Rightarrow>
            if ph_magic h \<noteq> kPageMagic then (acc, start_row, if 0 < off then Some off else None)
            else if length bs < off + (kPageHeaderSize + unat (ph_data_size h)) then (acc, start_row, Some off)
            else if validate_page h payload \<noteq> kOk then (acc, start_row, Some off)
            else recover_loop bs (off + (kPageHeaderSize + unat (ph_data_size h)))
                   (start_row + ucast (ph_row_count h))
                   (acc @ [\<lparr>rg_start = start_row, rg_count = unat (ph_row_count h),
                            rg_page_id = word_of_nat off\<rparr>])
      else (acc, start_row, None))"
  by pat_completeness auto
termination
  by (relation "measure (\<lambda>(bs, off, s, acc). length bs - off)") (auto simp: kPageHeaderSize_def)

declare recover_loop.simps [simp del]

definition recover :: "OsEnv \<Rightarrow> Table \<Rightarrow> Status_Code \<times> Table" where
  "recover env t =
     (if \<not> tb_file_open t \<or> mf_size (tb_file t) = 0 then (kOk, t)
      else case recover_loop (mf_data (tb_file t)) 0 0 (tb_pages t) of
             (pages, rows, trunc) \<Rightarrow>
               (kOk, t\<lparr>tb_pages := pages, tb_row_count := unat rows,
                       tb_file := (case trunc of None \<Rightarrow> tb_file t
                                   | Some off \<Rightarrow> snd (mmap_resize env off (tb_file t)))\<rparr>))"

definition version_index_size :: "Table \<Rightarrow> nat" where
  "version_index_size t = length (vi_entries (tb_vindex t))"

definition version_index_max_ts :: "Table \<Rightarrow> Timestamp \<times> Table" where
  "version_index_max_ts t = (let (m, vi) = max_timestamp (tb_vindex t) in (m, t\<lparr>tb_vindex := vi\<rparr>))"

definition insert_version_entries :: "IndexEntry list \<Rightarrow> Table \<Rightarrow> Table" where
  "insert_version_entries es t = t\<lparr>tb_vindex := insert_bulk es (tb_vindex t)\<rparr>"

text \<open>Restamping the rows of a transaction: in the active batch, in the queued batches, and in
  the version index for what has been flushed.\<close>

definition in_batch :: "RowId \<Rightarrow> PendingBatch \<Rightarrow> bool" where
  "in_batch rid b \<longleftrightarrow> pb_start_rid b \<le> rid \<and> rid < pb_start_rid b + word_of_nat (pb_row_count b)"

definition commit_batch_row :: "u64 \<Rightarrow> Timestamp \<Rightarrow> RowId \<Rightarrow> PendingBatch \<Rightarrow> PendingBatch" where
  "commit_batch_row target commit_ts rid b =
     (if in_batch rid b then
        let off = unat (rid - pb_start_rid b)
        in if off < length (pb_row_ts b) \<and> pb_row_ts b ! off = target
           then b\<lparr>pb_row_ts := (pb_row_ts b)[off := commit_ts]\<rparr> else b
      else b)"

definition commit_batch :: "RowId list \<Rightarrow> u64 \<Rightarrow> Timestamp \<Rightarrow> PendingBatch \<Rightarrow> PendingBatch" where
  "commit_batch rids target commit_ts b = fold (commit_batch_row target commit_ts) rids b"

definition table_commit_rows :: "RowId list \<Rightarrow> TxId \<Rightarrow> Timestamp \<Rightarrow> Table \<Rightarrow> Table" where
  "table_commit_rows rids tx_id commit_ts t =
     (let target = tx_id OR kTxIdFlag
      in t\<lparr>tb_active := map_option (commit_batch rids target commit_ts) (tb_active t),
           tb_queue := map (commit_batch rids target commit_ts) (tb_queue t),
           tb_vindex := (if rids = [] then tb_vindex t
                         else commit_rows rids tx_id commit_ts (tb_vindex t))\<rparr>)"

text \<open>The search of the table passes no transaction id.\<close>

definition search_version_index :: "RowId \<Rightarrow> Timestamp \<Rightarrow> Table \<Rightarrow> u64 StatusOr \<times> Table" where
  "search_version_index rid max_ts t =
     (let (r, vi) = search rid max_ts kInvalidTxId (tb_vindex t) in (r, t\<lparr>tb_vindex := vi\<rparr>))"

definition has_indexes :: "Table \<Rightarrow> bool" where "has_indexes t \<longleftrightarrow> tb_indexes t \<noteq> []"

definition add_index :: "IndexInfo \<Rightarrow> Table \<Rightarrow> Table" where
  "add_index info t = t\<lparr>tb_indexes := tb_indexes t @ [info]\<rparr>"

definition get_index_by_col :: "nat \<Rightarrow> Table \<Rightarrow> BTree option" where
  "get_index_by_col c t = map_option ix_tree (find (\<lambda>i. ix_column_idx i = c) (tb_indexes t))"

definition clear_indexes :: "Table \<Rightarrow> Table" where "clear_indexes t = t\<lparr>tb_indexes := []\<rparr>"

text \<open>The contents written to and read from the file of the version index; a failed stream is
  an argument, and \<open>None\<close> the exception of \<open>deserialize\<close>.\<close>

definition save_vindex :: "bool \<Rightarrow> bool \<Rightarrow> Table \<Rightarrow> Status_Code \<times> byte list option \<times> Table" where
  "save_vindex opened written t =
     (let (bs, vi) = vi_serialize (tb_vindex t); t' = t\<lparr>tb_vindex := vi\<rparr>
      in if \<not> opened then (kIoError, None, t')
         else (if written then kOk else kIoError, Some bs, t'))"

definition load_vindex :: "byte list option \<Rightarrow> Table \<Rightarrow> (Status_Code \<times> Table) option" where
  "load_vindex contents t =
     (case contents of None \<Rightarrow> Some (kNotFound, t)
      | Some bs \<Rightarrow> map_option (\<lambda>(r, vi).
          (case r of Inl e \<Rightarrow> e | Inr _ \<Rightarrow> kOk, t\<lparr>tb_vindex := vi\<rparr>)) (vi_deserialize bs (tb_vindex t)))"

definition range_entries :: "Timestamp \<Rightarrow> RowRange \<Rightarrow> IndexEntry list" where
  "range_entries ts p =
     map (\<lambda>k. \<lparr>ie_row_id = rg_start p + word_of_nat k, ie_ts = ts, ie_offset = rg_page_id p, ie_row_size = 0\<rparr>)
       [0..<rg_count p]"

fun rebuild_entries :: "RowRange list \<Rightarrow> TimestampAllocator \<Rightarrow> IndexEntry list \<times> TimestampAllocator" where
  "rebuild_entries [] a = ([], a)"
| "rebuild_entries (p # ps) a =
     (let (ts, a1) = allocate_ts a; (es, a2) = rebuild_entries ps a1 in (range_entries ts p @ es, a2))"

definition rebuild_vindex_from_pages :: "TimestampAllocator \<Rightarrow> Table \<Rightarrow> Table \<times> TimestampAllocator" where
  "rebuild_vindex_from_pages a t =
     (let (es, a') = rebuild_entries (tb_pages t) a
      in (t\<lparr>tb_vindex := (if es = [] then vi_init else insert_bulk es vi_init)\<rparr>, a'))"

definition table_sync :: "OsEnv \<Rightarrow> Table \<Rightarrow> Status_Code" where
  "table_sync env t =
     (if \<not> mf_fd (tb_file t) \<or> mf_size (tb_file t) = 0 then kOk else msync_sync_safe env (tb_file t))"

definition prune_version_index :: "Timestamp \<Rightarrow> Table \<Rightarrow> nat \<times> Table" where
  "prune_version_index cutoff t =
     (let (n, vi) = prune cutoff (tb_vindex t) in (n, t\<lparr>tb_vindex := vi\<rparr>))"

end
