(* ===== verification/Table_Read.thy ===== *)
theory Table_Read
  imports Table_Store
begin

text \<open>
  The read side: \<open>src/src/storage/table_read.cpp\<close> and \<open>table_vacuum.cpp\<close>. A row is found by
  binary search over the flushed pages, else in the pending batches, else it reads as zero. The
  pointers into the mapping and into the batches are offsets into byte lists.
\<close>

section \<open>Cells\<close>

fun column_elem_size :: "ColumnType \<Rightarrow> nat" where
  "column_elem_size kInt32 = 4"
| "column_elem_size kTimestamp = 8"
| "column_elem_size kInt64 = 8"
| "column_elem_size kFloat64 = 8"
| "column_elem_size kBool = 1"
| "column_elem_size kVarChar = 0"

record TableScanResult =
  sr_col_data :: "byte list list"
  sr_columns :: "ColumnData list"
  sr_row_count :: nat

definition scan_empty :: TableScanResult where
  "scan_empty = \<lparr>sr_col_data = [], sr_columns = [], sr_row_count = 0\<rparr>"

text \<open>\<open>std::upper_bound\<close> over the start rows, then one step back.\<close>

definition locate_page :: "RowId \<Rightarrow> RowRange list \<Rightarrow> RowRange option" where
  "locate_page rid pages =
     (let k = bin_search (\<lambda>i. \<not> rid < rg_start (pages ! i)) 0 (length pages)
      in if k = 0 then None
         else let p = pages ! (k - 1)
              in if rid < rg_start p \<or> rg_start p + word_of_nat (rg_count p) \<le> rid then None else Some p)"

text \<open>Position and length of string \<open>local\<close> of a pending column.\<close>

fun varchar_pos :: "nat \<Rightarrow> byte list \<Rightarrow> u32 \<times> byte list" where
  "varchar_pos 0 src = (let len = u32_at src 0 in (len, take (unat len) (drop 4 src)))"
| "varchar_pos (Suc n) src = varchar_pos n (drop (4 + unat (u32_at src 0)) src)"

text \<open>One cell of a pending batch: its length, as the code adds it to the running offset, and
  its bytes.\<close>

definition batch_cell :: "PendingBatch \<Rightarrow> nat \<Rightarrow> ColumnType \<Rightarrow> nat \<Rightarrow> u32 \<times> byte list" where
  "batch_cell b loc ct ci =
     (let src = pb_col_data b ! ci
      in if ct = kVarChar then varchar_pos loc src
         else let es = column_elem_size ct in (0, take es (drop (loc * es) src)))"

text \<open>One cell of a page, the payload given. A column that the page does not have reads as empty
  or zero.\<close>

definition page_cell :: "byte list \<Rightarrow> nat \<Rightarrow> ColumnType \<Rightarrow> nat \<Rightarrow> u32 \<times> byte list" where
  "page_cell payload loc ct ci =
     (let rc = unat (u64_at payload 8); cc = unat (u64_at payload 16);
          meta = 32 + ci * 32;
          missing = (cc \<le> ci);
          src = drop (unat (u64_at payload (meta + 8))) payload;
          size = unat (u64_at payload (meta + 16))
      in if ct = kVarChar then
           let off_bytes = rc * 4;
               prev = (if \<not> missing \<and> off_bytes < size \<and> loc \<noteq> 0 then u32_at src ((loc - 1) * 4) else 0);
               fin = (if \<not> missing \<and> off_bytes < size then u32_at src (loc * 4) else 0);
               len = fin - prev
           in (len, take (unat len) (drop (off_bytes + unat prev) src))
         else
           let es = column_elem_size ct
           in (0, if missing then replicate es 0 else take es (drop (loc * es) src)))"

text \<open>A row that is nowhere is read as zero.\<close>

definition absent_cell :: "ColumnType \<Rightarrow> u32 \<times> byte list" where
  "absent_cell ct = (0, replicate (column_elem_size ct) 0)"

definition pending_batch :: "RowId \<Rightarrow> Table \<Rightarrow> PendingBatch option" where
  "pending_batch rid t =
     (case tb_active t of Some b \<Rightarrow> if in_batch rid b then Some b else find (in_batch rid) (tb_queue t)
      | None \<Rightarrow> find (in_batch rid) (tb_queue t))"

definition read_cell :: "Table \<Rightarrow> RowId \<Rightarrow> nat \<Rightarrow> u32 \<times> byte list" where
  "read_cell t rid ci =
     (let ct = sc_columns (tb_schema t) ! ci
      in case locate_page rid (tb_pages t) of
           Some p \<Rightarrow> page_cell (drop (unat (rg_page_id p) + kPageHeaderSize) (mf_data (tb_file t)))
                       (unat (rid - rg_start p)) ct ci
         | None \<Rightarrow>
             (case pending_batch rid t of
                Some b \<Rightarrow> batch_cell b (unat (rid - pb_start_rid b)) ct ci
              | None \<Rightarrow> absent_cell ct))"

section \<open>Reading rows\<close>

text \<open>
  The buffers of the columns and the running string offsets. Row \<open>i\<close> writes its offset or
  element into the prepared part of the buffer, and a string goes to the end of it.
\<close>

type_synonym ScanState = "byte list list \<times> u32 list"

definition read_column :: "Table \<Rightarrow> nat \<Rightarrow> RowId \<Rightarrow> nat \<Rightarrow> ScanState \<Rightarrow> ScanState" where
  "read_column t i rid ci st =
     (case st of (bufs, cums) \<Rightarrow>
        let ct = sc_columns (tb_schema t) ! ci; (len, bs) = read_cell t rid ci
        in if ct = kVarChar then
             let cum = cums ! ci + len
             in (bufs[ci := poke (i * 4) (put_u32 cum) (bufs ! ci) @ bs], cums[ci := cum])
           else (bufs[ci := poke (i * column_elem_size ct) bs (bufs ! ci)], cums))"

fun read_rows_loop :: "Table \<Rightarrow> nat list \<Rightarrow> nat \<Rightarrow> RowId list \<Rightarrow> ScanState \<Rightarrow> ScanState" where
  "read_rows_loop t cols i [] st = st"
| "read_rows_loop t cols i (rid # rids) st =
     read_rows_loop t cols (Suc i) rids (fold (read_column t i rid) cols st)"

definition scan_width :: "ColumnType \<Rightarrow> nat" where
  "scan_width ct = (if ct = kVarChar then 4 else column_elem_size ct)"

definition read_rows :: "Table \<Rightarrow> RowId list \<Rightarrow> nat list \<Rightarrow> TableScanResult StatusOr" where
  "read_rows t rids cols =
     (let n = length rids; cts = sc_columns (tb_schema t)
      in if n = 0 \<or> cols = [] then Inr scan_empty
         else
           let bufs = map (\<lambda>ci. if ci \<in> set cols then replicate (n * scan_width (cts ! ci)) 0 else [])
                        [0..<length cts];
               (bufs', _) = read_rows_loop t cols 0 rids (bufs, replicate (length cts) 0)
           in Inr \<lparr>sr_col_data = bufs',
                   sr_columns = map2 (\<lambda>ct d. \<lparr>cd_type = column_type_tag ct, cd_data = d, cd_nulls = None\<rparr>) cts bufs',
                   sr_row_count = 0\<rparr>)"

section \<open>Pages\<close>

definition read_page_header :: "Table \<Rightarrow> PageId \<Rightarrow> PageHeader StatusOr" where
  "read_page_header t page =
     (if mf_size (tb_file t) < unat (page + word_of_nat kPageHeaderSize) then Inl kNotFound
      else case header_of_bytes (drop (unat page) (mf_data (tb_file t))) of
             None \<Rightarrow> Inl kNotFound | Some (h, _) \<Rightarrow> Inr h)"

definition read_page :: "Table \<Rightarrow> PageId \<Rightarrow> byte list StatusOr" where
  "read_page t page =
     (case read_page_header t page of Inl e \<Rightarrow> Inl e
      | Inr h \<Rightarrow>
          let total = kPageHeaderSize + unat (ph_data_size h);
              buf = take total (drop (unat page) (mf_data (tb_file t)))
          in if mf_size (tb_file t) < unat (page + word_of_nat total) then Inl kCorruptedData
             else let st = validate_page h (drop kPageHeaderSize buf)
                  in if st \<noteq> kOk then Inl st else Inr buf)"

definition lookup_page :: "Table \<Rightarrow> RowId \<Rightarrow> PageId StatusOr" where
  "lookup_page t rid =
     (case find (\<lambda>r. rg_start r \<le> rid \<and> rid < rg_start r + word_of_nat (rg_count r)) (tb_pages t) of
        None \<Rightarrow> Inl kNotFound | Some r \<Rightarrow> Inr (rg_page_id r))"

section \<open>Vacuum\<close>

text \<open>The strings of a scanned column with their lengths in front again.\<close>

definition repack_column :: "nat \<Rightarrow> ColumnType \<Rightarrow> byte list \<Rightarrow> byte list" where
  "repack_column n ct raw =
     (if ct = kVarChar then
        concat (map (\<lambda>i. let prev = (if i = 0 then 0 else u32_at raw ((i - 1) * 4));
                             len = u32_at raw (i * 4) - prev
                         in put_u32 len @ take (unat len) (drop (n * 4 + unat prev) raw)) [0..<n])
      else raw)"

text \<open>Skipping strings of a pending column.\<close>

fun skip_strings :: "nat \<Rightarrow> byte list \<Rightarrow> byte list" where
  "skip_strings 0 src = src"
| "skip_strings (Suc n) src = skip_strings n (drop (4 + unat (u32_at src 0)) src)"

definition slice_column :: "nat \<Rightarrow> nat \<Rightarrow> ColumnType \<Rightarrow> byte list \<Rightarrow> byte list" where
  "slice_column written batch ct src =
     (if ct = kVarChar then
        let rest = skip_strings written src
        in take (length rest - length (skip_strings batch rest)) rest
      else take (batch * column_elem_size ct) (drop (written * column_elem_size ct) src))"

text \<open>Writing the surviving rows back in batches. The status of a write is ignored.\<close>

function vacuum_loop :: "OsEnv list \<Rightarrow> nat \<Rightarrow> nat \<Rightarrow> byte list list \<Rightarrow> TimestampAllocator \<Rightarrow> Table
    \<Rightarrow> Table \<times> TimestampAllocator" where
  "vacuum_loop envs written new_rc data a t =
     (if written < new_rc then
        let batch = min kBatchSize (new_rc - written);
            (ts, a') = allocate_ts a;
            b = \<lparr>pb_col_data = map2 (slice_column written batch) (sc_columns (tb_schema t)) data,
                 pb_row_ts = replicate batch ts, pb_row_count = batch, pb_start_rid = word_of_nat written\<rparr>;
            env = (case envs of [] \<Rightarrow> os_fine | e # _ \<Rightarrow> e);
            (_, t') = write_batch_to_page env b t
        in vacuum_loop (tl envs) (written + batch) new_rc data a' (t'\<lparr>tb_row_count := written + batch\<rparr>)
      else (t, a))"
  by pat_completeness auto
termination
  by (relation "measure (\<lambda>(envs, w, n, d, a, t). n - w)") (auto simp: kBatchSize_def)

declare vacuum_loop.simps [simp del]

text \<open>The rows whose newest version is not a tombstone.\<close>

definition alive_rows :: "Timestamp \<Rightarrow> nat \<Rightarrow> VersionIndex \<Rightarrow> RowId list" where
  "alive_rows max_ts n vi =
     filter (\<lambda>rid. case fst (search rid max_ts kInvalidTxId vi) of Inl _ \<Rightarrow> False
       | Inr off \<Rightarrow> off \<noteq> kNotFoundOff) (map word_of_nat [0..<n])"

definition reset_table :: "OsEnv \<Rightarrow> Table \<Rightarrow> Table" where
  "reset_table env t =
     t\<lparr>tb_row_count := 0, tb_pages := [], tb_vindex := vi_init, tb_file := snd (mmap_resize env 0 (tb_file t))\<rparr>"

definition table_vacuum :: "OsEnv list \<Rightarrow> OsEnv \<Rightarrow> OsEnv list \<Rightarrow> TimestampAllocator \<Rightarrow> Table
    \<Rightarrow> nat StatusOr \<times> Table \<times> TimestampAllocator" where
  "table_vacuum flush_envs reset_env envs a t0 =
     (let t = snd (flush_pending flush_envs t0); old_rc = tb_row_count t
      in if old_rc = 0 then (Inr 0, t, a)
         else
           let (probe, a1) = allocate_ts a;
               (mt, vi) = max_timestamp (tb_vindex t);
               t1 = t\<lparr>tb_vindex := vi\<rparr>;
               alive = alive_rows (max probe mt) old_rc vi;
               new_rc = length alive
           in if new_rc = 0 then (Inr 0, reset_table reset_env t1, a1)
              else
                let cts = sc_columns (tb_schema t1)
                in case read_rows t1 alive [0..<length cts] of
                     Inl e \<Rightarrow> (Inl e, t1, a1)
                   | Inr scan \<Rightarrow>
                       let data = map2 (repack_column new_rc) cts (sr_col_data scan);
                           (t2, a2) = vacuum_loop envs 0 new_rc data a1 (reset_table reset_env t1)
                       in (Inr new_rc, t2, a2))"

end
