(* ===== verification/Table_Rows.thy ===== *)
theory Table_Rows
  imports Table_Read
begin

text \<open>
  The abstract view of a table: the list of its rows, each a list of cells. \<open>table_rep t rows\<close>
  says that the pages in the file, the queued batches and the active batch together hold
  exactly these rows in order. Against this view: an insertion appends a row, flushing changes
  nothing, reading rows gives their cells, and recovery finds the flushed rows again.
\<close>

section \<open>Cells and columns\<close>

type_synonym Cells = "byte list list"

definition cell_ok :: "ColumnType \<Rightarrow> byte list \<Rightarrow> bool" where
  "cell_ok ct c \<longleftrightarrow> (if ct = kVarChar then length c < 2 ^ 32 else length c = column_elem_size ct)"

definition row_ok :: "Schema \<Rightarrow> Cells \<Rightarrow> bool" where
  "row_ok S r \<longleftrightarrow> list_all2 cell_ok (sc_columns S) r"

text \<open>A cell as the caller of an insertion hands it over: a string with its length in front.\<close>

definition cell_src :: "ColumnType \<Rightarrow> byte list \<Rightarrow> byte list" where
  "cell_src ct c = (if ct = kVarChar then put_u32 (word_of_nat (length c)) @ c else c)"

definition col_src :: "ColumnType \<Rightarrow> byte list list \<Rightarrow> byte list" where
  "col_src ct cells = concat (map (cell_src ct) cells)"

text \<open>A cell as the reader delivers it, with the length it adds to the running offset.\<close>

definition cell_val :: "ColumnType \<Rightarrow> byte list \<Rightarrow> u32 \<times> byte list" where
  "cell_val ct c = (if ct = kVarChar then word_of_nat (length c) else 0, c)"

definition column_of :: "Cells list \<Rightarrow> nat \<Rightarrow> byte list list" where
  "column_of rows ci = map (\<lambda>r. r ! ci) rows"

lemma row_ok_nth: "row_ok S r \<Longrightarrow> ci < length (sc_columns S) \<Longrightarrow> cell_ok (sc_columns S ! ci) (r ! ci)"
  by (simp add: row_ok_def list_all2_conv_all_nth)

lemma column_of_ok:
  "list_all (row_ok S) rows \<Longrightarrow> ci < length (sc_columns S) \<Longrightarrow>
   list_all (cell_ok (sc_columns S ! ci)) (column_of rows ci)"
  by (auto simp: column_of_def list_all_iff row_ok_nth)

lemma col_src_simps [simp]:
  "col_src ct [] = []" "col_src ct (c # cs) = cell_src ct c @ col_src ct cs"
  "col_src ct (cs @ ds) = col_src ct cs @ col_src ct ds"
  by (simp_all add: col_src_def)

lemma u32_at_put [simp]: "u32_at (put_u32 w @ r) 0 = w" "u32_at (put_u32 w) 0 = w"
  using at_put(2) [of "[]" 0 w r] at_put(2) [of "[]" 0 w "[]"] by simp_all

lemma cell_src_string:
  assumes "cell_ok kVarChar c"
  shows "u32_at (cell_src kVarChar c @ r) 0 = word_of_nat (length c)"
    "unat (u32_at (cell_src kVarChar c @ r) 0) = length c"
    "take (length c) (drop 4 (cell_src kVarChar c @ r)) = c"
    "drop (4 + length c) (cell_src kVarChar c @ r) = r"
  using assms by (simp_all add: cell_src_def cell_ok_def unat_word_of_nat32)

text \<open>The fixed-size cells of a column lie side by side.\<close>

lemma concat_fixed_nth:
  assumes "list_all (\<lambda>c. length c = k) cells" "i < length cells"
  shows "take k (drop (i * k) (concat cells @ r)) = cells ! i"
  using assms
proof (induction cells arbitrary: i)
  case (Cons c cells)
  show ?case
  proof (cases i)
    case (Suc j)
    with Cons.prems have "take k (drop (j * k) (concat cells @ r)) = cells ! j" by (intro Cons.IH) auto
    moreover have "drop (Suc j * k) (c @ concat cells @ r) = drop (j * k) (concat cells @ r)"
      using Cons.prems by simp
    ultimately show ?thesis using Suc by simp
  qed (use Cons in simp)
qed simp

lemma col_src_fixed: "ct \<noteq> kVarChar \<Longrightarrow> col_src ct cells = concat cells"
  by (simp add: col_src_def cell_src_def [abs_def])

lemma varchar_pos_nth:
  assumes "list_all (cell_ok kVarChar) cells" "i < length cells"
  shows "varchar_pos i (col_src kVarChar cells @ r) = (word_of_nat (length (cells ! i)), cells ! i)"
  using assms
proof (induction cells arbitrary: i)
  case (Cons c cells)
  note src = cell_src_string [of c "col_src kVarChar cells @ r"]
  show ?case
  proof (cases i)
    case 0
    then show ?thesis using Cons.prems src by (simp add: Let_def)
  next
    case (Suc j)
    then show ?thesis using Cons src by simp
  qed
qed simp

lemma batch_cell_nth:
  assumes "list_all (cell_ok ct) cells" "loc < length cells" "pb_col_data b ! ci = col_src ct cells"
  shows "batch_cell b loc ct ci = cell_val ct (cells ! loc)"
proof (cases "ct = kVarChar")
  case True
  then show ?thesis
    using varchar_pos_nth [of cells loc "[]"] assms by (simp add: batch_cell_def cell_val_def)
next
  case False
  then have "list_all (\<lambda>c. length c = column_elem_size ct) cells"
    using assms(1) by (simp add: list_all_iff cell_ok_def)
  then show ?thesis
    using concat_fixed_nth [of "column_elem_size ct" cells loc "[]"] assms False
    by (simp add: batch_cell_def cell_val_def col_src_fixed Let_def)
qed

section \<open>The page of a batch\<close>

text \<open>The running end offsets of the strings of a column.\<close>

fun cums :: "u32 \<Rightarrow> byte list list \<Rightarrow> u32 list" where
  "cums n [] = []"
| "cums n (c # cs) = (n + word_of_nat (length c)) # cums (n + word_of_nat (length c)) cs"

lemma length_cums [simp]: "length (cums n cs) = length cs"
  by (induction cs arbitrary: n) auto

lemma cums_nth:
  "i < length cs \<Longrightarrow> cums n cs ! i = n + word_of_nat (length (concat (take (Suc i) cs)))"
proof (induction cs arbitrary: n i)
  case (Cons c cs)
  then show ?case by (cases i) (simp_all add: add.assoc)
qed simp

lemma varchar_column:
  "list_all (cell_ok kVarChar) cells \<Longrightarrow>
   varchar_offsets (length cells) n (col_src kVarChar cells) = cums n cells \<and>
   varchar_blob (length cells) (col_src kVarChar cells) = concat cells \<and>
   varchar_blob_size (length cells) (col_src kVarChar cells) = length (concat cells)"
proof (induction cells arbitrary: n)
  case (Cons c cells)
  then have c: "cell_ok kVarChar c" by simp
  note src = cell_src_string [OF c, of "col_src kVarChar cells"]
  have "4 \<le> length (cell_src kVarChar c @ col_src kVarChar cells)" by (simp add: cell_src_def)
  with Cons src show ?case by (simp add: Let_def)
qed simp

definition column_bytes_of :: "ColumnType \<Rightarrow> byte list list \<Rightarrow> byte list" where
  "column_bytes_of ct cells =
     (if ct = kVarChar then concat (map put_u32 (cums 0 cells)) @ concat cells else concat cells)"

lemma length_concat_put_u32 [simp]: "length (concat (map put_u32 ws)) = 4 * length ws"
  by (induction ws) simp_all

lemma column_image_eq:
  "list_all (cell_ok ct) cells \<Longrightarrow>
   column_image ct (length cells) (col_src ct cells) = column_bytes_of ct cells \<and>
   col_page_size ct (length cells) (col_src ct cells) = length (column_bytes_of ct cells)"
  using varchar_column [of cells 0]
  by (auto simp: column_image_def col_page_size_def column_bytes_of_def col_src_fixed)

lemma pad8_ge: "n \<le> pad8 n" "8 dvd pad8 n"
  by (auto simp: pad8_def)

text \<open>Fields behind a prefix.\<close>

lemma at_append:
  "length p = k \<Longrightarrow> u64_at (p @ q) (k + j) = u64_at q j" "length p = k \<Longrightarrow> u32_at (p @ q) (k + j) = u32_at q j"
  by (simp_all add: u64_at_def u32_at_def)

lemma length_col_meta [simp]: "length (col_meta_bytes ct a b c) = 32"
  by (simp add: col_meta_bytes_def)

lemma length_col_metas [simp]: "length (col_metas_bytes cs off noff bm) = 32 * length cs"
  by (induction cs off noff bm rule: col_metas_bytes.induct) simp_all

lemma col_meta_fields:
  "u64_at (col_meta_bytes ct a b c @ r) 8 = word_of_nat a"
  "u64_at (col_meta_bytes ct a b c @ r) 16 = word_of_nat b"
  "u64_at (col_meta_bytes ct a b c @ r) 24 = word_of_nat c"
proof -
  show "u64_at (col_meta_bytes ct a b c @ r) 8 = word_of_nat a"
    using at_put(3) [of "[column_type_tag ct] @ replicate 7 0" 8] by (simp add: col_meta_bytes_def)
  show "u64_at (col_meta_bytes ct a b c @ r) 16 = word_of_nat b"
    using at_put(3) [of "[column_type_tag ct] @ replicate 7 0 @ put_u64 (word_of_nat a)" 16]
    by (simp add: col_meta_bytes_def)
  show "u64_at (col_meta_bytes ct a b c @ r) 24 = word_of_nat c"
    using at_put(3) [of "[column_type_tag ct] @ replicate 7 0 @ put_u64 (word_of_nat a) @ put_u64 (word_of_nat b)" 24]
    by (simp add: col_meta_bytes_def)
qed

lemma col_metas_fields:
  "ci < length cs \<Longrightarrow>
   u64_at (col_metas_bytes cs off noff bm @ r) (ci * 32 + 8) =
     word_of_nat (off + sum_list (map (\<lambda>(ct, n). pad8 n) (take ci cs))) \<and>
   u64_at (col_metas_bytes cs off noff bm @ r) (ci * 32 + 16) = word_of_nat (snd (cs ! ci)) \<and>
   u64_at (col_metas_bytes cs off noff bm @ r) (ci * 32 + 24) = word_of_nat (noff + ci * bm)"
proof (induction cs off noff bm arbitrary: ci rule: col_metas_bytes.induct)
  case (2 ct n cs off noff bm)
  show ?case
  proof (cases ci)
    case 0
    then show ?thesis by (simp add: col_meta_fields)
  next
    case (Suc j)
    let ?p = "col_meta_bytes ct off n noff" and ?q = "col_metas_bytes cs (off + pad8 n) (noff + bm) bm @ r"
    have "u64_at (?p @ ?q) (32 + k) = u64_at ?q k" for k by (rule at_append) simp
    from this [of "j * 32 + 8"] this [of "j * 32 + 16"] this [of "j * 32 + 24"] show ?thesis
      using 2(1) [of j] 2(2) Suc by (simp add: add.assoc)
  qed
qed simp

definition padded :: "byte list \<Rightarrow> byte list" where
  "padded bs = bs @ replicate (pad8 (length bs) - length bs) 0"

lemma length_padded [simp]: "length (padded bs) = pad8 (length bs)"
  using pad8_ge(1) [of "length bs"] by (simp add: padded_def)

lemma drop_padded:
  "ci < length cols \<Longrightarrow>
   \<exists>r'. drop (sum_list (map (\<lambda>c. pad8 (length c)) (take ci cols))) (concat (map padded cols) @ r) = cols ! ci @ r'"
proof (induction cols arbitrary: ci)
  case (Cons c cols)
  show ?case
  proof (cases ci)
    case 0
    then show ?thesis by (simp add: padded_def)
  next
    case (Suc j)
    then show ?thesis using Cons by simp
  qed
qed simp

text \<open>The batch \<open>b\<close> holds the rows \<open>rows\<close>, the first of which has number \<open>k\<close>.\<close>

definition batch_rep :: "Schema \<Rightarrow> PendingBatch \<Rightarrow> nat \<Rightarrow> Cells list \<Rightarrow> bool" where
  "batch_rep S b k rows \<longleftrightarrow>
     pb_row_count b = length rows \<and> pb_start_rid b = word_of_nat k \<and> length (pb_row_ts b) = length rows \<and>
     pb_col_data b = map (\<lambda>ci. col_src (sc_columns S ! ci) (column_of rows ci)) [0..<column_count S]"

abbreviation column_images :: "Schema \<Rightarrow> Cells list \<Rightarrow> byte list list" where
  "column_images S rows \<equiv>
     map (\<lambda>ci. column_bytes_of (sc_columns S ! ci) (column_of rows ci)) [0..<column_count S]"

lemma batch_payload_eq:
  assumes "batch_rep S b k rows" "list_all (row_ok S) rows"
  shows "batch_payload_bytes S lsn b =
    batch_header_bytes (length rows) (column_count S) lsn @
    col_metas_bytes (zip (sc_columns S) (map length (column_images S rows))) (32 + column_count S * 32)
      (32 + column_count S * 32 + length (concat (map padded (column_images S rows)))) (pad8 ((length rows + 7) div 8)) @
    concat (map padded (column_images S rows)) @ replicate (column_count S * pad8 ((length rows + 7) div 8)) 0"
proof -
  let ?cts = "sc_columns S" and ?rc = "length rows"
  let ?src = "\<lambda>ci. col_src (?cts ! ci) (column_of rows ci)"
  let ?cols = "map (\<lambda>ci. (?cts ! ci, ?src ci)) [0..<column_count S]"
  have zip: "zip ?cts (pb_col_data b) = ?cols"
    using assms(1) by (intro nth_equalityI) (auto simp: batch_rep_def column_count_def)
  have img: "column_image (?cts ! ci) ?rc (?src ci) = column_bytes_of (?cts ! ci) (column_of rows ci)"
    "col_page_size (?cts ! ci) ?rc (?src ci) = length (column_bytes_of (?cts ! ci) (column_of rows ci))"
    if "ci < column_count S" for ci
    using column_image_eq [OF column_of_ok [OF assms(2), of ci]] that
    by (simp_all add: column_of_def column_count_def)
  have sizes: "map (\<lambda>(ct, src). (ct, col_page_size ct ?rc src)) ?cols = zip ?cts (map length (column_images S rows))"
    by (rule nth_equalityI) (auto simp: img column_count_def)
  have data: "map (\<lambda>(ct, src). column_image ct ?rc src @
      replicate (pad8 (col_page_size ct ?rc src) - length (column_image ct ?rc src)) 0) ?cols
    = map padded (column_images S rows)"
    by (simp add: img padded_def)
  have rc: "pb_row_count b = ?rc" using assms(1) by (simp add: batch_rep_def)
  have "map (\<lambda>(ct, n). pad8 n) (zip ?cts (map length (column_images S rows))) = map length (map padded (column_images S rows))"
    by (rule nth_equalityI) (auto simp: column_count_def)
  then show ?thesis
    unfolding batch_payload_bytes_def Let_def zip rc sizes data length_concat by (simp only:)
qed

lemma batch_header_fields:
  "length (batch_header_bytes rc cc lsn) = 32"
  "u64_at (batch_header_bytes rc cc lsn @ r) 8 = word_of_nat rc"
  "u64_at (batch_header_bytes rc cc lsn @ r) 16 = word_of_nat cc"
  using at_put(3) [of "put_u32 0 @ replicate 4 0" 8] at_put(3) [of "put_u32 0 @ replicate 4 0 @ put_u64 (word_of_nat rc)" 16]
  by (simp_all add: batch_header_bytes_def)

lemma take_suc_length: "i < length cs \<Longrightarrow> length (concat (take (Suc i) cs)) = length (concat (take i cs)) + length (cs ! i)"
  by (simp add: take_Suc_conv_app_nth)

lemma concat_drop_nth:
  assumes "i < length cs"
  shows "drop (length (concat (take i cs))) (concat cs) = cs ! i @ concat (drop (Suc i) cs)"
proof -
  have "concat cs = concat (take i cs) @ cs ! i @ concat (drop (Suc i) cs)"
    using id_take_nth_drop [OF assms] by (metis concat.simps(2) concat_append)
  then show ?thesis by simp
qed

lemma length_concat_take_le: "length (concat (take i cs)) \<le> length (concat cs)"
  by (metis append_take_drop_id concat_append le_add1 length_append)

text \<open>Reading a string out of the image of its column.\<close>

lemma string_column_cell:
  fixes r :: "byte list"
  assumes "loc < length cells" "length (concat cells) < 2 ^ 32"
  defines "src \<equiv> concat (map put_u32 (cums 0 cells)) @ concat cells @ r"
  shows "u32_at src (loc * 4) = word_of_nat (length (concat (take (Suc loc) cells)))"
    and "take (length (cells ! loc)) (drop (length cells * 4 + length (concat (take loc cells))) src) = cells ! loc"
proof -
  have "take 4 (drop (loc * 4) (concat (map put_u32 (cums 0 cells)) @ concat cells @ r)) = map put_u32 (cums 0 cells) ! loc"
    using assms(1) by (intro concat_fixed_nth) (auto simp: list_all_iff)
  then show "u32_at src (loc * 4) = word_of_nat (length (concat (take (Suc loc) cells)))"
    using assms(1) by (simp add: src_def u32_at_def cums_nth)
  have "length (concat (take loc cells)) \<le> length (concat cells)" by (rule length_concat_take_le)
  then have "drop (length cells * 4 + length (concat (take loc cells))) src = (cells ! loc @ concat (drop (Suc loc) cells)) @ r"
    using concat_drop_nth [OF assms(1)] by (simp add: src_def)
  then show "take (length (cells ! loc)) (drop (length cells * 4 + length (concat (take loc cells))) src) = cells ! loc"
    by simp
qed

lemma page_cell_column:
  assumes "u64_at payload 8 = word_of_nat (length cells)" "u64_at payload 16 = word_of_nat cc"
    and "u64_at payload (32 + ci * 32 + 8) = word_of_nat off"
    and "u64_at payload (32 + ci * 32 + 16) = word_of_nat (length (column_bytes_of ct cells))"
    and "drop off payload = column_bytes_of ct cells @ r"
    and "ci < cc" "cc < 2 ^ 64" "off < 2 ^ 64" "length (column_bytes_of ct cells) < 2 ^ 32" "length cells < 2 ^ 64"
    and "loc < length cells" "list_all (cell_ok ct) cells"
  shows "page_cell payload loc ct ci = cell_val ct (cells ! loc)"
proof -
  have f: "unat (u64_at payload 8) = length cells" "unat (u64_at payload 16) = cc"
    "unat (u64_at payload (32 + ci * 32 + 8)) = off"
    "unat (u64_at payload (32 + ci * 32 + 16)) = length (column_bytes_of ct cells)"
    using assms by (simp_all add: unat_word_of_nat64)
  show ?thesis
  proof (cases "ct = kVarChar")
    case False
    then have "list_all (\<lambda>c. length c = column_elem_size ct) cells"
      using assms(12) by (simp add: list_all_iff cell_ok_def)
    from concat_fixed_nth [OF this assms(11), of r] show ?thesis
      using False assms(5,6) unfolding page_cell_def Let_def f
      by (simp add: cell_val_def column_bytes_of_def)
  next
    case True
    let ?src = "concat (map put_u32 (cums 0 cells)) @ concat cells @ r"
    have src: "drop off payload = ?src" using assms(5) True by (simp add: column_bytes_of_def)
    have small: "length (concat cells) < 2 ^ 32" using assms(9) True by (simp add: column_bytes_of_def)
    have size: "length (column_bytes_of ct cells) = length cells * 4 + length (concat cells)"
      using True by (simp add: column_bytes_of_def)
    have sub: "length (concat (take i cells)) < 2 ^ 32" for i
      using length_concat_take_le [of i cells] small by simp
    show ?thesis
    proof (cases "concat cells = []")
      case True
      then have "cells ! loc = []" using assms(11) by (metis concat_eq_Nil_conv nth_mem)
      then show ?thesis
        using True \<open>ct = kVarChar\<close> unfolding page_cell_def Let_def f size src by (simp add: cell_val_def)
    next
      case False
      have prev: "(if \<not> cc \<le> ci \<and> length cells * 4 < length cells * 4 + length (concat cells) \<and> loc \<noteq> 0
          then u32_at ?src ((loc - 1) * 4) else 0) = word_of_nat (length (concat (take loc cells)))"
        using string_column_cell(1) [of "loc - 1" cells r] assms(6,11) small False by (cases loc) auto
      have fin: "u32_at ?src (loc * 4) = word_of_nat (length (concat (take (Suc loc) cells)))"
        by (rule string_column_cell(1) [OF assms(11) small])
      have len: "word_of_nat (length (concat (take (Suc loc) cells))) - word_of_nat (length (concat (take loc cells)))
          = (word_of_nat (length (cells ! loc)) :: u32)"
        by (simp add: take_suc_length [OF assms(11)])
      have "length (cells ! loc) < 2 ^ 32"
        using sub [of "Suc loc"] take_suc_length [OF assms(11)] by simp
      then have cell: "take (unat (word_of_nat (length (cells ! loc)) :: u32))
          (drop (length cells * 4 + unat (word_of_nat (length (concat (take loc cells))) :: u32)) ?src) = cells ! loc"
        using string_column_cell(2) [OF assms(11) small, of r] sub [of loc] by (simp add: unat_word_of_nat32)
      show ?thesis
        using \<open>ct = kVarChar\<close> assms(6) False len cell
        unfolding page_cell_def Let_def f size src prev by (simp add: fin cell_val_def)
    qed
  qed
qed

text \<open>Where a page has the image of a column.\<close>

lemma batch_payload_column:
  assumes "batch_rep S b k rows" "list_all (row_ok S) rows" "length (batch_payload_bytes S lsn b) < 2 ^ 32"
    and "ci < column_count S"
  shows "\<exists>off r'. u64_at (batch_payload_bytes S lsn b @ r) (32 + ci * 32 + 8) = word_of_nat off \<and>
    u64_at (batch_payload_bytes S lsn b @ r) (32 + ci * 32 + 16) =
      word_of_nat (length (column_bytes_of (sc_columns S ! ci) (column_of rows ci))) \<and>
    drop off (batch_payload_bytes S lsn b @ r) = column_bytes_of (sc_columns S ! ci) (column_of rows ci) @ r' \<and>
    off < 2 ^ 32 \<and> length (column_bytes_of (sc_columns S ! ci) (column_of rows ci)) < 2 ^ 32 \<and> column_count S < 2 ^ 32"
proof -
  let ?ct = "sc_columns S ! ci" and ?cc = "column_count S" and ?imgs = "column_images S rows"
  let ?cells = "column_of rows ci" and ?H = "batch_header_bytes (length rows) (column_count S) lsn"
  let ?cs = "zip (sc_columns S) (map length ?imgs)"
  let ?off = "sum_list (map (\<lambda>c. pad8 (length c)) (take ci ?imgs))"
  obtain noff bm z where pl: "batch_payload_bytes S lsn b = ?H @ col_metas_bytes ?cs (32 + ?cc * 32) noff bm @
      concat (map padded ?imgs) @ z"
    using batch_payload_eq [OF assms(1,2)] by blast
  let ?M = "col_metas_bytes ?cs (32 + ?cc * 32) noff bm" and ?D = "concat (map padded ?imgs)"
  let ?p = "batch_payload_bytes S lsn b @ r"
  have len_cs: "length ?cs = ?cc" by (simp add: column_count_def)
  have ci: "ci < length ?cs" "ci < length ?imgs" using assms(4) len_cs by simp_all
  have off: "sum_list (map (\<lambda>(ct, n). pad8 n) (take ci ?cs)) = ?off"
    by (rule arg_cong [where f = sum_list], rule nth_equalityI) (auto simp: column_count_def)
  have meta: "u64_at ?p (32 + j) = u64_at (?M @ ?D @ z @ r) j" for j
    unfolding pl append_assoc by (rule at_append) (simp add: batch_header_fields)
  have "u64_at ?p (32 + (ci * 32 + 8)) = word_of_nat (32 + ?cc * 32 + ?off)"
    using col_metas_fields [OF ci(1)] off by (simp only: meta)
  then have f1: "u64_at ?p (32 + ci * 32 + 8) = word_of_nat (32 + ?cc * 32 + ?off)" by (simp add: add.assoc)
  have "u64_at ?p (32 + (ci * 32 + 16)) = word_of_nat (snd (?cs ! ci))"
    using col_metas_fields [OF ci(1)] by (simp only: meta)
  then have f2: "u64_at ?p (32 + ci * 32 + 16) = word_of_nat (length (column_bytes_of ?ct ?cells))"
    using ci by (simp add: add.assoc)
  obtain r' where r': "drop ?off (?D @ z @ r) = ?imgs ! ci @ r'" using drop_padded [OF ci(2)] by blast
  have "drop (32 + ?cc * 32 + ?off) ?p = drop ?off (drop (32 + ?cc * 32) ?p)" by (simp only: drop_drop add.commute)
  also have "drop (32 + ?cc * 32) ?p = ?D @ z @ r"
    using len_cs by (simp add: pl batch_header_fields mult.commute)
  finally have f3: "drop (32 + ?cc * 32 + ?off) ?p = column_bytes_of ?ct ?cells @ r'" using r' ci by simp
  have img_len: "length (?imgs ! ci) \<le> length ?D"
  proof -
    have "length (?imgs ! ci) \<le> length (padded (?imgs ! ci))" using pad8_ge(1) by simp
    also have "\<dots> \<le> length ?D"
      using ci(2) by (metis (no_types, lifting) length_map nth_map nth_mem elem_le_sum_list length_concat map_map)
    finally show ?thesis .
  qed
  have total: "32 + 32 * ?cc + length ?D < 2 ^ 32"
    using assms(3) len_cs by (simp add: pl batch_header_fields)
  have "?off \<le> length ?D"
  proof -
    have "?off = length (concat (map padded (take ci ?imgs)))" by (simp add: length_concat comp_def)
    then show ?thesis using length_concat_take_le [of ci "map padded ?imgs"] by (simp add: take_map)
  qed
  then have "32 + ?cc * 32 + ?off < 2 ^ 32" "?cc < 2 ^ 32" using total by simp_all
  moreover have "length (column_bytes_of ?ct ?cells) < 2 ^ 32" using img_len total ci by simp
  ultimately show ?thesis using f1 f2 f3 by blast
qed

lemma batch_payload_counts:
  assumes "batch_rep S b k rows" "list_all (row_ok S) rows"
  shows "u64_at (batch_payload_bytes S lsn b @ r) 8 = word_of_nat (length rows)"
    "u64_at (batch_payload_bytes S lsn b @ r) 16 = word_of_nat (column_count S)"
proof -
  obtain z where "batch_payload_bytes S lsn b = batch_header_bytes (length rows) (column_count S) lsn @ z"
    using batch_payload_eq [OF assms] by blast
  then show "u64_at (batch_payload_bytes S lsn b @ r) 8 = word_of_nat (length rows)"
    "u64_at (batch_payload_bytes S lsn b @ r) 16 = word_of_nat (column_count S)"
    by (simp_all add: batch_header_fields)
qed

text \<open>No null bit is ever set.\<close>

lemma batch_payload_nulls:
  assumes "batch_rep S b k rows" "list_all (row_ok S) rows" "length (batch_payload_bytes S lsn b) < 2 ^ 32"
    and "ci < column_count S"
  shows "take ((length rows + 7) div 8) (drop (unat (u64_at (batch_payload_bytes S lsn b) (32 + ci * 32 + 24))) (batch_payload_bytes S lsn b)) =
    replicate ((length rows + 7) div 8) 0"
proof -
  let ?cc = "column_count S" and ?imgs = "column_images S rows" and ?bm = "pad8 ((length rows + 7) div 8)"
  let ?D = "concat (map padded ?imgs)" and ?H = "batch_header_bytes (length rows) (column_count S) lsn"
  let ?noff = "32 + ?cc * 32 + length ?D"
  let ?M = "col_metas_bytes (zip (sc_columns S) (map length ?imgs)) (32 + ?cc * 32) ?noff ?bm"
  let ?z = "replicate (?cc * ?bm) (0 :: byte)"
  note pl = batch_payload_eq [OF assms(1,2), of lsn]
  have lens: "length ?H = 32" "length ?M = 32 * ?cc" by (simp_all add: batch_header_fields column_count_def)
  have ci: "ci < length (zip (sc_columns S) (map length ?imgs))" using assms(4) by (simp add: column_count_def)
  have "u64_at (?H @ ?M @ ?D @ ?z) (32 + (ci * 32 + 24)) = u64_at (?M @ ?D @ ?z) (ci * 32 + 24)"
    by (rule at_append) (simp add: lens)
  then have w: "u64_at (batch_payload_bytes S lsn b) (32 + ci * 32 + 24) = word_of_nat (?noff + ci * ?bm)"
    using col_metas_fields [OF ci] by (simp only: pl add.assoc)
  have in_z: "ci * ?bm + (length rows + 7) div 8 \<le> ?cc * ?bm"
  proof -
    have "(length rows + 7) div 8 \<le> ?bm" by (rule pad8_ge(1))
    moreover have "Suc ci * ?bm \<le> ?cc * ?bm" using assms(4) by (intro mult_le_mono1) simp
    ultimately show ?thesis by simp
  qed
  have cols: "min (length (sc_columns S)) ?cc = ?cc" by (simp add: column_count_def)
  have "length (batch_payload_bytes S lsn b) = ?noff + ?cc * ?bm" by (simp add: pl lens cols)
  then have "?noff + ci * ?bm < 2 ^ 64" using assms(3) in_z by simp
  then have u: "unat (u64_at (batch_payload_bytes S lsn b) (32 + ci * 32 + 24)) = ?noff + ci * ?bm"
    by (simp only: w unat_word_of_nat64)
  have "drop (?noff + ci * ?bm) (batch_payload_bytes S lsn b) = drop (ci * ?bm) ?z" by (simp add: pl lens cols)
  then show ?thesis using in_z unfolding u by (simp add: min_def)
qed

lemma page_cell_batch:
  assumes "batch_rep S b k rows" "list_all (row_ok S) rows" "length (batch_payload_bytes S lsn b) < 2 ^ 32"
    and "ci < column_count S" "loc < length rows" "length rows < 2 ^ 32"
  shows "page_cell (batch_payload_bytes S lsn b @ r) loc (sc_columns S ! ci) ci = cell_val (sc_columns S ! ci) (rows ! loc ! ci)"
proof -
  let ?ct = "sc_columns S ! ci" and ?cells = "column_of rows ci"
  obtain off r' where f: "u64_at (batch_payload_bytes S lsn b @ r) (32 + ci * 32 + 8) = word_of_nat off"
      "u64_at (batch_payload_bytes S lsn b @ r) (32 + ci * 32 + 16) = word_of_nat (length (column_bytes_of ?ct ?cells))"
      "drop off (batch_payload_bytes S lsn b @ r) = column_bytes_of ?ct ?cells @ r'"
      "off < 2 ^ 32" "length (column_bytes_of ?ct ?cells) < 2 ^ 32" "column_count S < 2 ^ 32"
    using batch_payload_column [OF assms(1-4)] by blast
  have "page_cell (batch_payload_bytes S lsn b @ r) loc ?ct ci = cell_val ?ct (?cells ! loc)"
    using f assms(4-6) column_of_ok [OF assms(2), of ci] batch_payload_counts [OF assms(1,2)]
    by (intro page_cell_column [of _ _ "column_count S" _ off _ r']) (auto simp: column_of_def column_count_def)
  then show ?thesis using assms(5) by (simp add: column_of_def)
qed

section \<open>Chunks of rows\<close>

definition chunk_start :: "'a list list \<Rightarrow> nat \<Rightarrow> nat" where
  "chunk_start cs i = length (concat (take i cs))"

lemma chunk_start_Suc: "i < length cs \<Longrightarrow> chunk_start cs (Suc i) = chunk_start cs i + length (cs ! i)"
  by (simp add: chunk_start_def take_suc_length)

lemma chunk_start_le: "chunk_start cs i \<le> length (concat cs)"
  unfolding chunk_start_def by (rule length_concat_take_le)

lemma chunk_start_mono: "i \<le> j \<Longrightarrow> chunk_start cs i \<le> chunk_start cs j"
  using length_concat_take_le [of i "take j cs"] by (simp add: chunk_start_def min_absorb1)

lemma chunk_start_next: "i < j \<Longrightarrow> i < length cs \<Longrightarrow> chunk_start cs i + length (cs ! i) \<le> chunk_start cs j"
  using chunk_start_Suc [of i cs] chunk_start_mono [of "Suc i" j cs] by simp

lemma chunk_start_end: "i < length cs \<Longrightarrow> chunk_start cs i + length (cs ! i) \<le> length (concat cs)"
  using chunk_start_next [of i "length cs" cs] chunk_start_le [of cs "length cs"] by simp

lemma chunk_start_append [simp]:
  "i \<le> length cs \<Longrightarrow> chunk_start (cs @ ds) i = chunk_start cs i"
  "chunk_start cs (length cs) = length (concat cs)" "chunk_start cs 0 = 0"
  "chunk_start (cs @ ds) (length cs + j) = length (concat cs) + chunk_start ds j"
  by (simp_all add: chunk_start_def)

lemma chunk_find:
  "r < length (concat cs) \<Longrightarrow> \<exists>i < length cs. chunk_start cs i \<le> r \<and> r < chunk_start cs i + length (cs ! i) \<and>
     concat cs ! r = cs ! i ! (r - chunk_start cs i)"
proof (induction cs rule: rev_induct)
  case (snoc c cs)
  show ?case
  proof (cases "r < length (concat cs)")
    case True
    with snoc.IH obtain i where i: "i < length cs" "chunk_start cs i \<le> r" "r < chunk_start cs i + length (cs ! i)"
      "concat cs ! r = cs ! i ! (r - chunk_start cs i)" by blast
    with True show ?thesis by (intro exI [of _ i]) (simp add: nth_append)
  next
    case False
    with snoc.prems show ?thesis by (intro exI [of _ "length cs"]) (simp add: nth_append)
  qed
qed simp

lemma chunk_index_unique:
  assumes "i < length cs" "j < length cs" "chunk_start cs i \<le> r" "r < chunk_start cs i + length (cs ! i)"
    "chunk_start cs j \<le> r" "r < chunk_start cs j + length (cs ! j)"
  shows "i = j"
  using chunk_start_next [of i j cs] chunk_start_next [of j i cs] assms by (cases i j rule: linorder_cases) auto

section \<open>The representation\<close>

definition page_img :: "Schema \<Rightarrow> nat \<Rightarrow> Cells list \<Rightarrow> byte list \<Rightarrow> bool" where
  "page_img S k rows img \<longleftrightarrow> (\<exists>lsn b. batch_rep S b k rows \<and> img = page_bytes S lsn b \<and>
     length (batch_payload_bytes S lsn b) < 2 ^ 32)"

definition page_range :: "Cells list list \<Rightarrow> byte list list \<Rightarrow> nat \<Rightarrow> RowRange" where
  "page_range pcs imgs i = \<lparr>rg_start = word_of_nat (chunk_start pcs i), rg_count = length (pcs ! i),
     rg_page_id = word_of_nat (chunk_start imgs i)\<rparr>"

definition pages_rep :: "Schema \<Rightarrow> byte list \<Rightarrow> RowRange list \<Rightarrow> Cells list list \<Rightarrow> bool" where
  "pages_rep S bs pages pcs \<longleftrightarrow> (\<exists>imgs. bs = concat imgs \<and> length imgs = length pcs \<and>
     (\<forall>i < length pcs. page_img S (chunk_start pcs i) (pcs ! i) (imgs ! i)) \<and>
     pages = map (page_range pcs imgs) [0..<length pcs])"

definition pending :: "Table \<Rightarrow> PendingBatch list" where
  "pending t = tb_queue t @ (case tb_active t of None \<Rightarrow> [] | Some b \<Rightarrow> [b])"

definition batches_rep :: "Schema \<Rightarrow> nat \<Rightarrow> PendingBatch list \<Rightarrow> Cells list list \<Rightarrow> bool" where
  "batches_rep S k bs ucs \<longleftrightarrow> length bs = length ucs \<and>
     (\<forall>j < length ucs. batch_rep S (bs ! j) (k + chunk_start ucs j) (ucs ! j))"

definition chunks_ok :: "Schema \<Rightarrow> Cells list list \<Rightarrow> bool" where
  "chunks_ok S cs \<longleftrightarrow> list_all (\<lambda>c. c \<noteq> [] \<and> length c \<le> kBatchSize \<and> list_all (row_ok S) c) cs"

definition free_ok :: "Table \<Rightarrow> bool" where
  "free_ok t \<longleftrightarrow> list_all (\<lambda>b. pb_col_data b = replicate (column_count (tb_schema t)) [] \<and> pb_row_ts b = [] \<and>
     pb_row_count b = 0) (tb_free t)"

text \<open>A full batch never stays active.\<close>

definition active_ok :: "Table \<Rightarrow> bool" where
  "active_ok t \<longleftrightarrow> (case tb_active t of None \<Rightarrow> True | Some b \<Rightarrow> pb_row_count b < kBatchSize)"

definition chunks_rep :: "Table \<Rightarrow> Cells list list \<Rightarrow> Cells list list \<Rightarrow> bool" where
  "chunks_rep t pcs ucs \<longleftrightarrow>
     pages_rep (tb_schema t) (mf_disk (tb_file t)) (tb_pages t) pcs \<and>
     batches_rep (tb_schema t) (length (concat pcs)) (pending t) ucs \<and>
     chunks_ok (tb_schema t) (pcs @ ucs) \<and> free_ok t \<and> active_ok t \<and> mmap_inv (tb_file t) \<and>
     tb_row_count t = length (concat (pcs @ ucs))"

text \<open>The table holds exactly these rows, in this order.\<close>

definition table_rep :: "Table \<Rightarrow> Cells list \<Rightarrow> bool" where
  "table_rep t rows \<longleftrightarrow> (\<exists>pcs ucs. chunks_rep t pcs ucs \<and> rows = concat (pcs @ ucs))"

text \<open>Row numbers and file offsets fit in 64 bits.\<close>

definition table_small :: "Table \<Rightarrow> bool" where
  "table_small t \<longleftrightarrow> tb_row_count t < 2 ^ 64 \<and> length (mf_disk (tb_file t)) < 2 ^ 64"

lemma word_of_nat64_less: "a < 2 ^ 64 \<Longrightarrow> b < 2 ^ 64 \<Longrightarrow> (word_of_nat a :: u64) < word_of_nat b \<longleftrightarrow> a < b"
  by (simp add: word_less_nat_alt unat_word_of_nat64)

lemma word_of_nat64_le: "a < 2 ^ 64 \<Longrightarrow> b < 2 ^ 64 \<Longrightarrow> (word_of_nat a :: u64) \<le> word_of_nat b \<longleftrightarrow> a \<le> b"
  by (simp add: word_le_nat_alt unat_word_of_nat64)

lemma unat_diff64: "b \<le> a \<Longrightarrow> a < 2 ^ 64 \<Longrightarrow> unat (word_of_nat a - word_of_nat b :: u64) = a - b"
  by (metis le_less_trans diff_le_self of_nat_diff unat_word_of_nat64)

text \<open>A start plus a count that may be the very last row plus one.\<close>

lemma range_end_less:
  assumes "s + n \<le> m" "m < 2 ^ 64" "r < 2 ^ 64"
  shows "word_of_nat r < (word_of_nat s + word_of_nat n :: u64) \<longleftrightarrow> r < s + n"
  using word_of_nat64_less [of r "s + n"] assms by simp

lemma in_batch_iff:
  assumes "batch_rep S b k rows" "k + length rows < 2 ^ 64" "r < 2 ^ 64"
  shows "in_batch (word_of_nat r) b \<longleftrightarrow> k \<le> r \<and> r < k + length rows"
  using assms word_of_nat64_le [of k r] range_end_less [of k "length rows" "k + length rows" r]
  by (simp add: in_batch_def batch_rep_def)

lemma locate_page_flushed:
  assumes "pages = map (page_range pcs imgs) [0..<length pcs]" "i < length pcs"
    "chunk_start pcs i \<le> r" "r < chunk_start pcs i + length (pcs ! i)" "length (concat pcs) < 2 ^ 64"
  shows "locate_page (word_of_nat r) pages = Some (page_range pcs imgs i)"
proof -
  have b: "chunk_start pcs j < 2 ^ 64" for j using chunk_start_le [of pcs j] assms(5) by simp
  have e: "chunk_start pcs i + length (pcs ! i) < 2 ^ 64" using chunk_start_end [OF assms(2)] assms(5) by simp
  have r: "r < 2 ^ 64" using e assms(4) by simp
  have "bin_search (\<lambda>j. \<not> word_of_nat r < rg_start (pages ! j)) 0 (length pages) = Suc i"
  proof (rule bin_search_eq)
    fix j assume j: "j < length pages"
    then have "rg_start (pages ! j) = word_of_nat (chunk_start pcs j)" using assms(1) by (simp add: page_range_def)
    moreover have "\<not> r < chunk_start pcs j \<longleftrightarrow> j < Suc i"
      using chunk_start_mono [of j i pcs] chunk_start_next [of i j pcs] assms(2-4) by (cases "j \<le> i") auto
    ultimately show "\<not> word_of_nat r < rg_start (pages ! j) \<longleftrightarrow> j < Suc i"
      using word_of_nat64_less [OF r b] by simp
  qed (use assms in auto)
  moreover have "pages ! i = page_range pcs imgs i" using assms(1,2) by simp
  ultimately show ?thesis
    using word_of_nat64_less [OF r b, of i] range_end_less [of "chunk_start pcs i" "length (pcs ! i)" _ r, OF order_refl e r] assms(3,4)
    by (simp add: locate_page_def Let_def page_range_def not_le)
qed

lemma locate_page_pending:
  assumes "pages = map (page_range pcs imgs) [0..<length pcs]" "length (concat pcs) \<le> r" "r < 2 ^ 64"
  shows "locate_page (word_of_nat r) pages = None"
proof -
  have b: "chunk_start pcs j < 2 ^ 64" "chunk_start pcs j \<le> r" for j using chunk_start_le [of pcs j] assms by simp_all
  have "bin_search (\<lambda>j. \<not> word_of_nat r < rg_start (pages ! j)) 0 (length pages) = length pages"
    using assms(1) b word_of_nat64_less [OF assms(3) b(1)] by (intro bin_search_eq) (simp_all add: page_range_def not_less)
  moreover have "word_of_nat (chunk_start pcs j) + word_of_nat (length (pcs ! j)) \<le> (word_of_nat r :: u64)" if "j < length pcs" for j
    using chunk_start_end [OF that] assms range_end_less [of "chunk_start pcs j" "length (pcs ! j)" _ r, OF order_refl]
    by (simp add: not_less [symmetric])
  ultimately show ?thesis
    using assms(1) by (auto simp: locate_page_def Let_def page_range_def)
qed

lemma find_unique: "j < length xs \<Longrightarrow> p (xs ! j) \<Longrightarrow> (\<And>i. i < length xs \<Longrightarrow> p (xs ! i) \<Longrightarrow> i = j) \<Longrightarrow> find p xs = Some (xs ! j)"
proof (induction xs arbitrary: j)
  case (Cons x xs)
  show ?case
  proof (cases j)
    case 0
    with Cons.prems show ?thesis by simp
  next
    case (Suc k)
    have "\<not> p x" using Cons.prems(3) [of 0] Suc by auto
    moreover have "find p xs = Some (xs ! k)"
    proof (rule Cons.IH)
      show "i = k" if "i < length xs" "p (xs ! i)" for i using Cons.prems(3) [of "Suc i"] that Suc by simp
    qed (use Cons.prems Suc in auto)
    ultimately show ?thesis using Suc by simp
  qed
qed simp

lemma pending_batch_eq:
  assumes "j < length (pending t)" "\<And>i. i < length (pending t) \<Longrightarrow> in_batch rid (pending t ! i) \<longleftrightarrow> i = j"
  shows "pending_batch rid t = Some (pending t ! j)"
proof -
  let ?q = "tb_queue t"
  have find: "find (in_batch rid) ?q = Some (?q ! j)" if "j < length ?q"
  proof (rule find_unique [OF that])
    show "in_batch rid (?q ! j)" using assms(2) [of j] that by (simp add: pending_def nth_append)
    show "i = j" if "i < length ?q" "in_batch rid (?q ! i)" for i
      using assms(2) [of i] that by (simp add: pending_def nth_append)
  qed
  show ?thesis
  proof (cases "tb_active t")
    case None
    then show ?thesis using find assms(1) by (simp add: pending_batch_def pending_def)
  next
    case (Some b)
    have "in_batch rid b \<longleftrightarrow> j = length ?q"
      using assms(2) [of "length ?q"] Some by (auto simp: pending_def)
    then show ?thesis using find assms(1) Some by (auto simp: pending_batch_def pending_def nth_append)
  qed
qed

lemma length_header_bytes [simp]: "length (header_bytes h) = 32"
  by (simp add: header_bytes_def)

lemma batch_rep_cell:
  assumes "batch_rep S b k rows" "list_all (row_ok S) rows" "ci < column_count S" "loc < length rows"
  shows "batch_cell b loc (sc_columns S ! ci) ci = cell_val (sc_columns S ! ci) (rows ! loc ! ci)"
proof -
  have "pb_col_data b ! ci = col_src (sc_columns S ! ci) (column_of rows ci)"
    using assms(1,3) by (simp add: batch_rep_def)
  then show ?thesis
    using batch_cell_nth [OF column_of_ok [OF assms(2)], of ci loc b ci] assms(3,4)
    by (simp add: column_of_def column_count_def)
qed

lemma kBatchSize_small: "n \<le> kBatchSize \<Longrightarrow> n < 2 ^ 32"
  by (simp add: kBatchSize_def)

text \<open>Every cell of the table is found, wherever its row is.\<close>

lemma read_cell_nth:
  assumes "table_rep t rows" "table_small t" "r < length rows" "ci < column_count (tb_schema t)"
  shows "read_cell t (word_of_nat r) ci = cell_val (sc_columns (tb_schema t) ! ci) (rows ! r ! ci)"
proof -
  let ?S = "tb_schema t"
  obtain pcs ucs where rep: "chunks_rep t pcs ucs" and rows: "rows = concat (pcs @ ucs)"
    using assms(1) by (auto simp: table_rep_def)
  have small: "length (concat (pcs @ ucs)) < 2 ^ 64" "length (mf_disk (tb_file t)) < 2 ^ 64"
    using assms(2) rep by (simp_all add: table_small_def chunks_rep_def)
  have r64: "r < 2 ^ 64" using assms(3) small(1) rows by simp
  obtain imgs where imgs: "mf_disk (tb_file t) = concat imgs" "length imgs = length pcs"
      "\<And>i. i < length pcs \<Longrightarrow> page_img ?S (chunk_start pcs i) (pcs ! i) (imgs ! i)"
      "tb_pages t = map (page_range pcs imgs) [0..<length pcs]"
    using rep by (auto simp: chunks_rep_def pages_rep_def)
  have ok: "list_all (row_ok ?S) c" "length c < 2 ^ 32" if "c \<in> set (pcs @ ucs)" for c
    using that rep kBatchSize_small by (auto simp: chunks_rep_def chunks_ok_def list_all_iff)
  show ?thesis
  proof (cases "r < length (concat pcs)")
    case True
    then obtain i where i: "i < length pcs" "chunk_start pcs i \<le> r" "r < chunk_start pcs i + length (pcs ! i)"
      "concat pcs ! r = pcs ! i ! (r - chunk_start pcs i)" using chunk_find by blast
    have loc: "locate_page (word_of_nat r) (tb_pages t) = Some (page_range pcs imgs i)"
      using locate_page_flushed [OF imgs(4) i(1-3)] small by simp
    obtain lsn b where b: "batch_rep ?S b (chunk_start pcs i) (pcs ! i)" "imgs ! i = page_bytes ?S lsn b"
      "length (batch_payload_bytes ?S lsn b) < 2 ^ 32" using imgs(3) [OF i(1)] by (auto simp: page_img_def)
    have off: "unat (word_of_nat (chunk_start imgs i) :: u64) = chunk_start imgs i"
      using chunk_start_le [of imgs i] small(2) imgs(1) by (simp add: unat_word_of_nat64)
    have "drop (chunk_start imgs i) (mf_disk (tb_file t)) = imgs ! i @ concat (drop (Suc i) imgs)"
      using concat_drop_nth [of i imgs] i(1) imgs(1,2) by (simp add: chunk_start_def)
    then have "drop (chunk_start imgs i + 32) (mf_disk (tb_file t)) = batch_payload_bytes ?S lsn b @ concat (drop (Suc i) imgs)"
      using b(2) by (simp add: page_bytes_def Let_def drop_drop [symmetric] add.commute [of _ 32] del: drop_drop)
    moreover have "mf_data (tb_file t) = mf_disk (tb_file t)" using rep by (simp add: chunks_rep_def mmap_inv_data)
    moreover have "unat (word_of_nat r - word_of_nat (chunk_start pcs i) :: u64) = r - chunk_start pcs i"
      using unat_diff64 [OF i(2) r64] .
    ultimately have "read_cell t (word_of_nat r) ci = page_cell (batch_payload_bytes ?S lsn b @ concat (drop (Suc i) imgs))
        (r - chunk_start pcs i) (sc_columns ?S ! ci) ci"
      by (simp add: read_cell_def Let_def loc page_range_def off kPageHeaderSize_def)
    also have "\<dots> = cell_val (sc_columns ?S ! ci) (pcs ! i ! (r - chunk_start pcs i) ! ci)"
      using page_cell_batch [OF b(1) _ b(3) assms(4), of "r - chunk_start pcs i"] ok [of "pcs ! i"] i by auto
    finally show ?thesis using i(4) True rows by (simp add: nth_append)
  next
    case False
    then have "r - length (concat pcs) < length (concat ucs)" using assms(3) rows by simp
    then obtain j where j: "j < length ucs" "chunk_start ucs j \<le> r - length (concat pcs)"
      "r - length (concat pcs) < chunk_start ucs j + length (ucs ! j)"
      "concat ucs ! (r - length (concat pcs)) = ucs ! j ! (r - length (concat pcs) - chunk_start ucs j)"
      using chunk_find by blast
    let ?k = "\<lambda>i. length (concat pcs) + chunk_start ucs i"
    have brep: "length (pending t) = length ucs" "\<And>i. i < length ucs \<Longrightarrow> batch_rep ?S (pending t ! i) (?k i) (ucs ! i)"
      using rep by (simp_all add: chunks_rep_def batches_rep_def)
    have bound: "?k i + length (ucs ! i) < 2 ^ 64" if "i < length ucs" for i
      using chunk_start_end [OF that] small(1) by simp
    have "in_batch (word_of_nat r) (pending t ! i) \<longleftrightarrow> i = j" if "i < length ucs" for i
      using in_batch_iff [OF brep(2) [OF that] bound [OF that] r64] j False
        chunk_index_unique [of i ucs j "r - length (concat pcs)"] that by auto
    then have "pending_batch (word_of_nat r) t = Some (pending t ! j)"
      using pending_batch_eq [of j t "word_of_nat r"] brep(1) j(1) by simp
    moreover have "locate_page (word_of_nat r) (tb_pages t) = None"
      using locate_page_pending [OF imgs(4) _ r64] False by simp
    moreover have "unat (word_of_nat r - word_of_nat (?k j) :: u64) = r - ?k j"
      using unat_diff64 [of "?k j" r] j(2) False r64 by simp
    moreover have "pb_start_rid (pending t ! j) = word_of_nat (?k j)" using brep(2) [OF j(1)] by (simp add: batch_rep_def)
    ultimately have "read_cell t (word_of_nat r) ci = batch_cell (pending t ! j) (r - ?k j) (sc_columns ?S ! ci) ci"
      by (simp add: read_cell_def Let_def)
    also have "\<dots> = cell_val (sc_columns ?S ! ci) (ucs ! j ! (r - ?k j) ! ci)"
      using batch_rep_cell [OF brep(2) [OF j(1)] _ assms(4)] ok [of "ucs ! j"] j False by auto
    finally show ?thesis using j(4) False rows by (simp add: nth_append)
  qed
qed

end
