(* ===== verification/Table_Refine.thy ===== *)
theory Table_Refine
  imports Table_Rows
begin

text \<open>
  The operations of a table against its abstract view: reading, inserting, flushing,
  recovering, vacuuming.
\<close>

section \<open>Reading rows\<close>

text \<open>What one row does to one column.\<close>

definition col_step :: "Table \<Rightarrow> nat \<Rightarrow> nat \<Rightarrow> RowId \<Rightarrow> byte list \<times> u32 \<Rightarrow> byte list \<times> u32" where
  "col_step t ci i rid s =
     (case s of (buf, cum) \<Rightarrow>
        let ct = sc_columns (tb_schema t) ! ci; (len, bs) = read_cell t rid ci
        in if ct = kVarChar then (poke (i * 4) (put_u32 (cum + len)) buf @ bs, cum + len)
           else (poke (i * column_elem_size ct) bs buf, cum))"

fun col_loop :: "Table \<Rightarrow> nat \<Rightarrow> nat \<Rightarrow> RowId list \<Rightarrow> byte list \<times> u32 \<Rightarrow> byte list \<times> u32" where
  "col_loop t ci i [] s = s"
| "col_loop t ci i (rid # rids) s = col_loop t ci (Suc i) rids (col_step t ci i rid s)"

definition at_col :: "ScanState \<Rightarrow> nat \<Rightarrow> byte list \<times> u32" where
  "at_col st ci = (fst st ! ci, snd st ! ci)"

definition scan_wide :: "nat \<Rightarrow> ScanState \<Rightarrow> bool" where
  "scan_wide n st \<longleftrightarrow> length (fst st) = n \<and> length (snd st) = n"

lemma read_column_at:
  assumes "scan_wide n st" "ci < n"
  shows "scan_wide n (read_column t i rid ci st) \<and>
    at_col (read_column t i rid ci st) cj = (if cj = ci then col_step t ci i rid (at_col st ci) else at_col st cj)"
  using assms
  by (cases st) (auto simp: read_column_def col_step_def at_col_def scan_wide_def Let_def split: prod.splits)

lemma fold_read_column:
  assumes "scan_wide n st" "distinct cols" "set cols \<subseteq> {..<n}"
  shows "scan_wide n (fold (read_column t i rid) cols st) \<and>
    at_col (fold (read_column t i rid) cols st) cj =
      (if cj \<in> set cols then col_step t cj i rid (at_col st cj) else at_col st cj)"
  using assms
proof (induction cols arbitrary: st)
  case (Cons c cols)
  have 1: "scan_wide n (read_column t i rid c st) \<and>
      at_col (read_column t i rid c st) cj = (if cj = c then col_step t c i rid (at_col st c) else at_col st cj)" for cj
    using Cons.prems by (intro read_column_at) auto
  then show ?case using Cons by auto
qed simp

lemma read_rows_loop_at:
  assumes "scan_wide n st" "distinct cols" "set cols \<subseteq> {..<n}"
  shows "scan_wide n (read_rows_loop t cols i rids st) \<and>
    at_col (read_rows_loop t cols i rids st) cj =
      (if cj \<in> set cols then col_loop t cj i rids (at_col st cj) else at_col st cj)"
  using assms(1)
proof (induction rids arbitrary: i st)
  case (Cons rid rids)
  show ?case using Cons.IH [of "fold (read_column t i rid) cols st" "Suc i"] fold_read_column [OF Cons.prems assms(2,3)]
    by (auto split: if_splits)
qed simp

lemma poke_append: "length p = k \<Longrightarrow> length b = length z \<Longrightarrow> poke k b (p @ z @ r) = p @ b @ r"
  by (simp add: poke_def)

lemma col_loop_fixed:
  assumes "ct = sc_columns (tb_schema t) ! ci" "ct \<noteq> kVarChar"
    "list_all2 (\<lambda>rid c. read_cell t rid ci = (0, c) \<and> length c = column_elem_size ct) rids cells"
    "length p = i * column_elem_size ct"
  shows "col_loop t ci i rids (p @ replicate (length rids * column_elem_size ct) 0, cum) = (p @ concat cells, cum)"
  using assms(3,4)
proof (induction rids cells arbitrary: i p rule: list_all2_induct)
  case (Cons rid rids c cells)
  let ?es = "column_elem_size ct"
  have "poke (i * ?es) c (p @ replicate ?es 0 @ replicate (length rids * ?es) 0) = p @ c @ replicate (length rids * ?es) 0"
    using Cons by (intro poke_append) auto
  then have "col_step t ci i rid (p @ replicate (length (rid # rids) * ?es) 0, cum) =
      ((p @ c) @ replicate (length rids * ?es) 0, cum)"
    using Cons assms(1,2) by (simp add: col_step_def replicate_add)
  moreover have "col_loop t ci (Suc i) rids ((p @ c) @ replicate (length rids * ?es) 0, cum) = ((p @ c) @ concat cells, cum)"
    using Cons by (intro Cons.IH) simp
  ultimately show ?case by simp
qed simp

lemma col_loop_string:
  assumes "sc_columns (tb_schema t) ! ci = kVarChar"
    "list_all2 (\<lambda>rid c. read_cell t rid ci = (word_of_nat (length c), c)) rids cells" "length p = i * 4"
  shows "col_loop t ci i rids (p @ replicate (length rids * 4) 0 @ blob, cum) =
    (p @ concat (map put_u32 (cums cum cells)) @ blob @ concat cells, cum + word_of_nat (length (concat cells)))"
  using assms(2,3)
proof (induction rids cells arbitrary: i p blob cum rule: list_all2_induct)
  case (Cons rid rids c cells)
  let ?cum = "cum + word_of_nat (length c)"
  have "poke (i * 4) (put_u32 ?cum) (p @ replicate 4 0 @ (replicate (length rids * 4) 0 @ blob)) =
      p @ put_u32 ?cum @ (replicate (length rids * 4) 0 @ blob)"
    using Cons by (intro poke_append) auto
  then have "col_step t ci i rid (p @ replicate (length (rid # rids) * 4) 0 @ blob, cum) =
      ((p @ put_u32 ?cum) @ replicate (length rids * 4) 0 @ (blob @ c), ?cum)"
    using Cons assms(1) by (simp add: col_step_def replicate_add Let_def)
  moreover have "length (p @ put_u32 ?cum) = Suc i * 4" using Cons by simp
  note Cons.IH [OF this, of "blob @ c" ?cum]
  ultimately show ?case by (simp add: add.assoc)
qed simp

definition cells_at :: "Cells list \<Rightarrow> nat list \<Rightarrow> nat \<Rightarrow> byte list list" where
  "cells_at rows rs ci = map (\<lambda>r. rows ! r ! ci) rs"

lemma table_rep_rows_ok: "table_rep t rows \<Longrightarrow> list_all (row_ok (tb_schema t)) rows"
  by (fastforce simp: table_rep_def chunks_rep_def chunks_ok_def list_all_iff)

lemma col_loop_correct:
  assumes "table_rep t rows" "table_small t" "\<forall>r \<in> set rs. r < length rows" "ci < column_count (tb_schema t)"
  defines "ct \<equiv> sc_columns (tb_schema t) ! ci"
  shows "fst (col_loop t ci 0 (map word_of_nat rs) (replicate (length rs * scan_width ct) 0, 0)) =
    column_bytes_of ct (cells_at rows rs ci)"
proof -
  have read: "read_cell t (word_of_nat r) ci = cell_val ct (rows ! r ! ci) \<and> cell_ok ct (rows ! r ! ci)" if "r \<in> set rs" for r
    using read_cell_nth [OF assms(1,2) _ assms(4)] table_rep_rows_ok [OF assms(1)] assms(3,4) that
    by (auto simp: list_all_iff row_ok_nth ct_def column_count_def)
  show ?thesis
  proof (cases "ct = kVarChar")
    case True
    have "list_all2 (\<lambda>rid c. read_cell t rid ci = (word_of_nat (length c), c)) (map word_of_nat rs) (cells_at rows rs ci)"
      using read True by (auto simp: cells_at_def list_all2_conv_all_nth cell_val_def)
    from col_loop_string [OF _ this, of "[]" 0 "[]" 0] show ?thesis
      using True by (simp add: ct_def scan_width_def column_bytes_of_def)
  next
    case False
    have "list_all2 (\<lambda>rid c. read_cell t rid ci = (0, c) \<and> length c = column_elem_size ct) (map word_of_nat rs) (cells_at rows rs ci)"
      using read False by (auto simp: cells_at_def list_all2_conv_all_nth cell_val_def cell_ok_def)
    from col_loop_fixed [OF _ False this, of "[]" 0 0] show ?thesis
      using False by (simp add: ct_def scan_width_def column_bytes_of_def)
  qed
qed

lemma read_rows_data:
  assumes "table_rep t rows" "table_small t" "\<forall>r \<in> set rs. r < length rows" "rs \<noteq> []"
    and "cols \<noteq> []" "distinct cols" "set cols \<subseteq> {..<column_count (tb_schema t)}"
  defines "cts \<equiv> sc_columns (tb_schema t)"
  defines "data \<equiv> map (\<lambda>ci. if ci \<in> set cols then column_bytes_of (cts ! ci) (cells_at rows rs ci) else []) [0..<length cts]"
  shows "read_rows t (map word_of_nat rs) cols =
    Inr \<lparr>sr_col_data = data,
         sr_columns = map2 (\<lambda>ct d. \<lparr>cd_type = column_type_tag ct, cd_data = d, cd_nulls = None\<rparr>) cts data,
         sr_row_count = 0\<rparr>"
proof -
  let ?n = "length cts"
  let ?bufs = "map (\<lambda>ci. if ci \<in> set cols then replicate (length rs * scan_width (cts ! ci)) 0 else []) [0..<?n]"
  let ?st = "(?bufs, replicate ?n 0)"
  let ?r = "read_rows_loop t cols 0 (map word_of_nat rs) ?st"
  have w: "scan_wide ?n ?st" "set cols \<subseteq> {..<?n}" using assms(7) by (auto simp: scan_wide_def cts_def column_count_def)
  note at = read_rows_loop_at [OF w(1) assms(6) w(2)]
  have "fst ?r ! ci = data ! ci" if "ci < ?n" for ci
  proof -
    have "fst ?r ! ci = fst (at_col ?r ci)" by (simp add: at_col_def)
    also have "\<dots> = (if ci \<in> set cols then fst (col_loop t ci 0 (map word_of_nat rs) (at_col ?st ci)) else ?bufs ! ci)"
      using at [of t 0 "map word_of_nat rs" ci] by (simp add: at_col_def)
    also have "\<dots> = data ! ci"
      using col_loop_correct [OF assms(1-3), of ci] that by (simp add: at_col_def data_def cts_def column_count_def)
    finally show ?thesis .
  qed
  moreover have "length (fst ?r) = ?n" using at [of t 0 "map word_of_nat rs"] by (simp add: scan_wide_def)
  ultimately have "fst ?r = data" by (intro nth_equalityI) (simp_all add: data_def)
  then show ?thesis
    using assms(4,5) by (auto simp: read_rows_def Let_def cts_def [symmetric] split: prod.splits)
qed

section \<open>Insertion\<close>

text \<open>The columns of an insertion carry the cells of a row.\<close>

definition carries :: "Schema \<Rightarrow> ColumnData list \<Rightarrow> Cells \<Rightarrow> bool" where
  "carries S columns r \<longleftrightarrow> row_ok S r \<and> map cd_data columns = map2 cell_src (sc_columns S) r"

lemma carries_length:
  assumes "carries S columns r"
  shows "length columns = column_count S \<and> length r = column_count S"
proof -
  have "length (sc_columns S) = length r" using assms by (auto simp: carries_def row_ok_def dest: list_all2_lengthD)
  moreover have "length (map cd_data columns) = length (map2 cell_src (sc_columns S) r)"
    using assms by (simp only: carries_def)
  ultimately show ?thesis by (simp add: column_count_def)
qed

lemma batch_push_rep:
  assumes "batch_rep S b k rows" "carries S columns r"
  shows "batch_rep S (batch_push ts columns b) k (rows @ [r])"
proof -
  note len = carries_length [OF assms(2)]
  have nth: "cd_data (columns ! ci) = cell_src (sc_columns S ! ci) (r ! ci)" if "ci < column_count S" for ci
  proof -
    have "map cd_data columns ! ci = map2 cell_src (sc_columns S) r ! ci" using assms(2) by (simp add: carries_def)
    then show ?thesis using that len by (simp add: column_count_def)
  qed
  have "map2 (\<lambda>d c. d @ cd_data c) (pb_col_data b) columns =
      map (\<lambda>ci. col_src (sc_columns S ! ci) (column_of (rows @ [r]) ci)) [0..<column_count S]"
    using assms(1) len nth by (intro nth_equalityI) (simp_all add: batch_rep_def column_of_def)
  then show ?thesis using assms(1) by (simp add: batch_rep_def batch_push_def)
qed

lemma batches_rep_snoc:
  "batches_rep S k (bs @ [b]) (cs @ [c]) \<longleftrightarrow> batches_rep S k bs cs \<and> batch_rep S b (k + length (concat cs)) c"
  by (cases "length bs = length cs") (simp_all add: batches_rep_def All_less_Suc nth_append conj_commute cong: conj_cong)

text \<open>The batch that the next row goes to, with the rows it already has.\<close>

definition open_batch :: "Table \<Rightarrow> Cells list list \<Rightarrow> Cells list list \<Rightarrow> PendingBatch \<Rightarrow> Cells list \<Rightarrow> bool" where
  "open_batch t pcs qcs b ac \<longleftrightarrow>
     pages_rep (tb_schema t) (mf_disk (tb_file t)) (tb_pages t) pcs \<and>
     batches_rep (tb_schema t) (length (concat pcs)) (tb_queue t) qcs \<and>
     batch_rep (tb_schema t) b (length (concat (pcs @ qcs))) ac \<and>
     chunks_ok (tb_schema t) (pcs @ qcs) \<and> list_all (row_ok (tb_schema t)) ac \<and> free_ok t \<and> mmap_inv (tb_file t) \<and>
     length ac < kBatchSize \<and> tb_row_count t = length (concat (pcs @ qcs)) + length ac"

lemma acquire_rep:
  assumes "chunks_rep t pcs ucs" "acquire_batch t = Some (b, t1)"
  shows "\<exists>qcs ac. open_batch t1 pcs qcs b ac \<and> concat ucs = concat qcs @ ac \<and> t1 = t\<lparr>tb_free := tb_free t1\<rparr>"
proof (cases "tb_active t")
  case (Some b0)
  then have pend: "pending t = tb_queue t @ [b0]" by (simp add: pending_def)
  then have "length ucs = length (tb_queue t) + 1" using assms(1) by (auto simp: chunks_rep_def batches_rep_def)
  then obtain qcs ac where ucs: "ucs = qcs @ [ac]" by (cases ucs rule: rev_cases) auto
  have rep: "batches_rep (tb_schema t) (length (concat pcs)) (tb_queue t) qcs"
    "batch_rep (tb_schema t) b0 (length (concat (pcs @ qcs))) ac"
    using assms(1) by (simp_all add: chunks_rep_def pend ucs batches_rep_snoc)
  have "ac \<noteq> []" using assms(1) by (simp add: chunks_rep_def chunks_ok_def ucs)
  then have "b = b0" "t1 = t" using assms(2) Some rep(2) by (auto simp: acquire_batch_def batch_rep_def)
  then have "open_batch t1 pcs qcs b ac"
    using assms(1) rep Some by (simp add: open_batch_def chunks_rep_def ucs chunks_ok_def active_ok_def batch_rep_def)
  then show ?thesis using \<open>t1 = t\<close> ucs by (intro exI [of _ qcs] exI [of _ ac]) simp
next
  case None
  then have pend: "pending t = tb_queue t" by (simp add: pending_def)
  from assms(2) None have free: "tb_free t \<noteq> []" by (auto simp: acquire_batch_def get_free_batch_def split: if_splits)
  then have last: "last (tb_free t) \<in> set (tb_free t)" by simp
  have t1: "t1 = t\<lparr>tb_free := butlast (tb_free t)\<rparr>" "b = (last (tb_free t))\<lparr>pb_start_rid := word_of_nat (tb_row_count t)\<rparr>"
    using assms(1,2) None free last by (auto simp: acquire_batch_def get_free_batch_def chunks_rep_def free_ok_def list_all_iff)
  have "batch_rep (tb_schema t) b (length (concat (pcs @ ucs))) []"
    using assms(1) last t1(2)
    by (auto simp: batch_rep_def chunks_rep_def free_ok_def list_all_iff column_of_def map_replicate_const)
  then have "open_batch t1 pcs ucs b []"
    using assms(1) free unfolding open_batch_def chunks_rep_def
    by (auto simp: t1 pend chunks_ok_def free_ok_def list_all_iff kBatchSize_def dest: in_set_butlastD)
  then show ?thesis using t1 by (intro exI [of _ ucs] exI [of _ "[]"]) simp
qed

lemma acquire_some: "tb_active t \<noteq> None \<or> tb_free t \<noteq> [] \<Longrightarrow> \<exists>b t1. acquire_batch t = Some (b, t1)"
  by (cases "tb_active t") (auto simp: acquire_batch_def get_free_batch_def)

lemma pending_store [simp]: "pending (store_batch b t) = tb_queue t @ [b]"
  by (simp add: store_batch_def pending_def push_flush_queue_def)

lemma store_batch_same [simp]:
  "tb_schema (store_batch b t) = tb_schema t" "tb_file (store_batch b t) = tb_file t"
  "tb_pages (store_batch b t) = tb_pages t" "tb_row_count (store_batch b t) = tb_row_count t"
  "tb_free (store_batch b t) = tb_free t" "tb_vindex (store_batch b t) = tb_vindex t"
  "tb_lsn (store_batch b t) = tb_lsn t" "tb_file_open (store_batch b t) = tb_file_open t"
  by (simp_all add: store_batch_def push_flush_queue_def)

lemma store_active_ok: "active_ok (store_batch b t)"
  by (simp add: store_batch_def push_flush_queue_def active_ok_def batch_full_def)

lemma store_rep:
  assumes "open_batch t pcs qcs b ac" "batch_rep (tb_schema t) b' (length (concat (pcs @ qcs))) (ac @ new)"
    "new \<noteq> []" "length (ac @ new) \<le> kBatchSize" "list_all (row_ok (tb_schema t)) new"
  shows "chunks_rep (store_batch b' (t\<lparr>tb_row_count := tb_row_count t + length new\<rparr>)) pcs (qcs @ [ac @ new])"
  using assms store_active_ok
  by (simp add: chunks_rep_def open_batch_def batches_rep_snoc chunks_ok_def free_ok_def)

lemma insert_row_rep:
  assumes "table_rep t rows" "carries (tb_schema t) columns r" "tb_active t \<noteq> None \<or> tb_free t \<noteq> []"
  shows "\<exists>t' a'. insert_row_with src columns t a = Some (Inr (word_of_nat (length rows)), t', a') \<and> table_rep t' (rows @ [r])"
proof -
  obtain pcs ucs where rep: "chunks_rep t pcs ucs" and rows: "rows = concat (pcs @ ucs)"
    using assms(1) by (auto simp: table_rep_def)
  obtain b t1 where acq: "acquire_batch t = Some (b, t1)" using acquire_some [OF assms(3)] by blast
  then obtain qcs ac where o: "open_batch t1 pcs qcs b ac" "concat ucs = concat qcs @ ac" "t1 = t\<lparr>tb_free := tb_free t1\<rparr>"
    using acquire_rep [OF rep acq] by blast
  have S: "tb_schema t1 = tb_schema t" by (subst o(3)) simp
  obtain ts a' where ts: "src a = (ts, a')" by fastforce
  have b: "batch_rep (tb_schema t1) b (length (concat (pcs @ qcs))) ac" using o(1) by (simp add: open_batch_def)
  have "batch_rep (tb_schema t1) (batch_push ts columns b) (length (concat (pcs @ qcs))) (ac @ [r])"
    using batch_push_rep [OF b] assms(2) S by simp
  then have "chunks_rep (store_batch (batch_push ts columns b) (t1\<lparr>tb_row_count := tb_row_count t1 + 1\<rparr>)) pcs (qcs @ [ac @ [r]])"
    using store_rep [OF o(1), of _ "[r]"] o(1) assms(2) S by (simp add: open_batch_def carries_def)
  moreover have "concat (pcs @ qcs @ [ac @ [r]]) = rows @ [r]" using rows o(2) by simp
  ultimately have "table_rep (store_batch (batch_push ts columns b) (t1\<lparr>tb_row_count := tb_row_count t1 + 1\<rparr>)) (rows @ [r])"
    unfolding table_rep_def by metis
  moreover have "pb_start_rid b + word_of_nat (pb_row_count b) = word_of_nat (length rows)"
    using b rows o(2) by (simp add: batch_rep_def)
  moreover have "length columns = column_count (tb_schema t)" using carries_length [OF assms(2)] by simp
  ultimately show ?thesis using acq ts by (simp add: insert_row_with_def)
qed

lemma batch_push_rows_rep:
  assumes "batch_rep S b k ac" "list_all2 (carries S) rows new" "batch_push_rows src rows b a = (b', a')"
  shows "batch_rep S b' k (ac @ new)"
  using assms(2,1,3)
proof (induction rows new arbitrary: b ac a rule: list_all2_induct)
  case (Cons row rows r new)
  obtain ts a1 where ts: "src a = (ts, a1)" by fastforce
  have "batch_rep S (batch_push ts row b) k (ac @ [r])" using Cons by (intro batch_push_rep) auto
  then show ?case using Cons.IH [of "batch_push ts row b" "ac @ [r]" a1] Cons.prems ts by simp
qed simp

lemma carries_ok: "list_all2 (carries S) cols new \<Longrightarrow> list_all (row_ok S) new"
  by (auto simp: list_all2_conv_all_nth list_all_length carries_def)

lemma insert_rows_loop_rep:
  assumes "table_rep t rows" "list_all2 (carries (tb_schema t)) cols new"
    "insert_rows_loop src cols res t a = Some (res', t', a')"
  shows "table_rep t' (rows @ new) \<and> res' = res @ map word_of_nat [length rows..<length rows + length new]"
  using assms
proof (induction src cols res t a arbitrary: rows new rule: insert_rows_loop.induct)
  case (1 src cols res t a)
  show ?case
  proof (cases "cols = []")
    case True
    with "1.prems" show ?thesis by (simp add: insert_rows_loop.simps)
  next
    case False
    obtain pcs ucs where rep: "chunks_rep t pcs ucs" and rows: "rows = concat (pcs @ ucs)"
      using "1.prems"(1) by (auto simp: table_rep_def)
    from "1.prems"(3) False obtain b t1 where acq: "acquire_batch t = Some (b, t1)"
      by (subst (asm) insert_rows_loop.simps) (auto split: option.splits)
    obtain qcs ac where o: "open_batch t1 pcs qcs b ac" "concat ucs = concat qcs @ ac" "t1 = t\<lparr>tb_free := tb_free t1\<rparr>"
      using acquire_rep [OF rep acq] by blast
    have S: "tb_schema t1 = tb_schema t" by (subst o(3)) simp
    have len: "length cols = length new" using "1.prems"(2) by (rule list_all2_lengthD)
    have b: "batch_rep (tb_schema t1) b (length (concat (pcs @ qcs))) ac" "length ac < kBatchSize"
      using o(1) by (simp_all add: open_batch_def)
    define n where "n = min (length cols) (kBatchSize - pb_row_count b)"
    have n: "0 < n" "n \<le> length cols" "length ac + n \<le> kBatchSize"
      using False b by (auto simp: n_def batch_rep_def)
    have ne: "new \<noteq> []" using n(1,2) len by auto
    obtain b' a1 where push: "batch_push_rows src (take n cols) b a = (b', a1)" by fastforce
    define t2 where "t2 = store_batch b' (t1\<lparr>tb_row_count := tb_row_count t1 + n\<rparr>)"
    have tk: "list_all2 (carries (tb_schema t1)) (take n cols) (take n new)"
      "list_all2 (carries (tb_schema t2)) (drop n cols) (drop n new)"
      using "1.prems"(2) S by (simp_all add: list_all2_takeI list_all2_dropI t2_def)
    have "chunks_rep t2 pcs (qcs @ [ac @ take n new])"
      using store_rep [OF o(1), of b' "take n new"] batch_push_rows_rep [OF b(1) tk(1) push] carries_ok [OF tk(1)] n len ne
      by (simp add: t2_def min_absorb2)
    moreover have "concat (pcs @ qcs @ [ac @ take n new]) = rows @ take n new" using rows o(2) by simp
    ultimately have rep2: "table_rep t2 (rows @ take n new)" unfolding table_rep_def by metis
    have start: "pb_start_rid b + word_of_nat (pb_row_count b) = word_of_nat (length rows)"
      using b(1) rows o(2) by (simp add: batch_rep_def)
    let ?res = "res @ map (\<lambda>i. word_of_nat (length rows) + word_of_nat i) [0..<n]"
    have loop: "insert_rows_loop src (drop n cols) ?res t2 a1 = Some (res', t', a')"
      using "1.prems"(3) False acq n(1) push start
      by (subst (asm) insert_rows_loop.simps) (simp add: n_def [symmetric] Let_def t2_def)
    have ih: "table_rep t2 R \<Longrightarrow> list_all2 (carries (tb_schema t2)) (drop n cols) N \<Longrightarrow>
        insert_rows_loop src (drop n cols) ?res t2 a1 = Some (res', t', a') \<Longrightarrow>
        table_rep t' (R @ N) \<and> res' = ?res @ map word_of_nat [length R..<length R + length N]" for R N
      using "1.IH"(2) [OF False acq refl n_def _ refl push [symmetric] refl, unfolded start] n(1) by (simp add: t2_def)
    note fin = ih [OF rep2 tk(2) loop]
    have L: "length (rows @ take n new) = length rows + n" using n(2) len by simp
    have e1: "map (\<lambda>i. word_of_nat (length rows) + word_of_nat i) [0..<n] = (map word_of_nat [length rows..<length rows + n] :: RowId list)"
      by (rule nth_equalityI) simp_all
    have e2: "[length rows..<length rows + length new] = [length rows..<length rows + n] @ [length rows + n..<length rows + n + length (drop n new)]"
      using upt_add_eq_append [of "length rows" "length rows + n" "length new - n"] n(2) len by simp
    have "res' = res @ map word_of_nat [length rows..<length rows + length new]"
      using fin unfolding L e1 e2 by simp
    moreover have "table_rep t' (rows @ new)" using fin by simp
    ultimately show ?thesis by simp
  qed
qed

section \<open>Flushing\<close>

definition os_ok :: "OsEnv \<Rightarrow> bool" where "os_ok e \<longleftrightarrow> os_ftruncate e = None \<and> os_mmap e"

lemma os_ok_fine [simp]: "os_ok os_fine"
  by (simp add: os_ok_def os_fine_def)

text \<open>The page of a batch stays below the 32-bit size field of the page header.\<close>

definition batch_small :: "Schema \<Rightarrow> PendingBatch \<Rightarrow> bool" where
  "batch_small S b \<longleftrightarrow> length (batch_payload_bytes S 0 b) < 2 ^ 32"

lemma payload_length_lsn: "length (batch_payload_bytes S lsn b) = length (batch_payload_bytes S lsn' b)"
  by (simp add: batch_payload_bytes_def Let_def batch_header_fields(1))

lemma append_page:
  assumes "mmap_inv f" "os_ok env" "bytes \<noteq> []"
  shows "\<exists>f'. mmap_resize env (mf_size f + length bytes) f = (kOk, f') \<and>
    mmap_inv (mf_poke (mf_size f) bytes f') \<and> mf_disk (mf_poke (mf_size f) bytes f') = mf_disk f @ bytes"
proof -
  have f: "mf_fd f" "mf_size f = length (mf_disk f)" using assms(1) by (simp_all add: mmap_inv_def)
  then obtain f' where f': "mmap_resize env (mf_size f + length bytes) f = (kOk, f')"
    using mmap_resize_fine [of f env] assms(2) by (auto simp: os_ok_def)
  note inv = mmap_resize_ok [OF assms(1) f']
  have "mf_disk (mf_poke (mf_size f) bytes f') = mf_disk f @ bytes"
    using inv f(2) by (simp add: mf_poke_def poke_def ftruncate_def)
  then show ?thesis using f' inv f(2) by (auto simp: mmap_inv_def mf_poke_def poke_def)
qed

lemma pages_rep_snoc:
  assumes "pages_rep S bs pages pcs" "page_img S (length (concat pcs)) c img"
  shows "pages_rep S (bs @ img) (pages @ [\<lparr>rg_start = word_of_nat (length (concat pcs)), rg_count = length c,
    rg_page_id = word_of_nat (length bs)\<rparr>]) (pcs @ [c])"
proof -
  obtain imgs where imgs: "bs = concat imgs" "length imgs = length pcs"
      "\<forall>i < length pcs. page_img S (chunk_start pcs i) (pcs ! i) (imgs ! i)"
      "pages = map (page_range pcs imgs) [0..<length pcs]"
    using assms(1) by (auto simp: pages_rep_def)
  have "page_range (pcs @ [c]) (imgs @ [img]) i = page_range pcs imgs i" if "i < length pcs" for i
    using that imgs(2) by (simp add: page_range_def nth_append)
  moreover have "page_range (pcs @ [c]) (imgs @ [img]) (length pcs) =
      \<lparr>rg_start = word_of_nat (length (concat pcs)), rg_count = length c, rg_page_id = word_of_nat (length bs)\<rparr>"
    using chunk_start_append(2) [of imgs] imgs(1,2) by (simp add: page_range_def)
  ultimately show ?thesis
    unfolding pages_rep_def using imgs assms(2)
    by (intro exI [of _ "imgs @ [img]"]) (simp add: All_less_Suc nth_append)
qed

lemma page_bytes_ne: "page_bytes S lsn b \<noteq> []"
  by (metis length_header_bytes append_is_Nil_conv list.size(3) page_bytes_def zero_neq_numeral)

lemma write_batch_rep:
  assumes "pages_rep (tb_schema t) (mf_disk (tb_file t)) (tb_pages t) pcs" "mmap_inv (tb_file t)" "os_ok env"
    "batch_rep (tb_schema t) b (length (concat pcs)) c" "c \<noteq> []" "batch_small (tb_schema t) b"
  shows "\<exists>f p vi. write_batch_to_page env b t = (kOk, t\<lparr>tb_file := f, tb_pages := p, tb_vindex := vi\<rparr>) \<and>
    pages_rep (tb_schema t) (mf_disk f) p (pcs @ [c]) \<and> mmap_inv f \<and>
    vi = insert_bulk (batch_entries (word_of_nat (length (mf_disk (tb_file t)))) b) (tb_vindex t)"
proof -
  let ?img = "page_bytes (tb_schema t) (tb_lsn t) b" and ?f = "tb_file t"
  obtain f' where f': "mmap_resize env (mf_size ?f + length ?img) ?f = (kOk, f')"
      "mmap_inv (mf_poke (mf_size ?f) ?img f')" "mf_disk (mf_poke (mf_size ?f) ?img f') = mf_disk ?f @ ?img"
    using append_page [OF assms(2,3) page_bytes_ne] by blast
  have "page_img (tb_schema t) (length (concat pcs)) c ?img"
    using assms(4,6) payload_length_lsn [of "tb_schema t" "tb_lsn t" b 0] unfolding page_img_def batch_small_def
    by (intro exI [of _ "tb_lsn t"] exI [of _ b]) simp
  note pages = pages_rep_snoc [OF assms(1) this]
  have "pb_row_count b \<noteq> 0" using assms(4,5) by (simp add: batch_rep_def)
  then have "write_batch_to_page env b t = (kOk, t\<lparr>tb_file := mf_poke (mf_size ?f) ?img f',
      tb_pages := tb_pages t @ [\<lparr>rg_start = word_of_nat (length (concat pcs)), rg_count = length c,
        rg_page_id = word_of_nat (length (mf_disk ?f))\<rparr>],
      tb_vindex := insert_bulk (batch_entries (word_of_nat (length (mf_disk ?f))) b) (tb_vindex t)\<rparr>)"
    using f'(1) assms(2,4) by (simp add: write_batch_to_page_def Let_def mmap_inv_def batch_rep_def)
  then show ?thesis using pages f'(2,3) by (intro exI) (auto simp: f'(3))
qed

lemma batches_rep_Cons:
  "batches_rep S k (b # bs) (c # cs) \<longleftrightarrow> batch_rep S b k c \<and> batches_rep S (k + length c) bs cs"
  by (auto simp: batches_rep_def All_less_Suc2 chunk_start_def add.assoc)

lemma flush_loop_rep:
  assumes "chunks_rep t pcs ucs" "tb_active t = None" "list_all os_ok envs" "list_all (batch_small (tb_schema t)) (tb_queue t)"
  shows "\<exists>t'. flush_loop envs t = (kOk, t') \<and> chunks_rep t' (pcs @ ucs) [] \<and> tb_queue t' = [] \<and> tb_active t' = None \<and>
    tb_schema t' = tb_schema t"
  using assms
proof (induction envs t arbitrary: pcs ucs rule: flush_loop.induct)
  case (1 envs t)
  show ?case
  proof (cases "tb_queue t")
    case Nil
    then have "ucs = []" using "1.prems"(1,2) by (simp add: chunks_rep_def batches_rep_def pending_def)
    then show ?thesis using Nil "1.prems" by (simp add: flush_loop.simps pop_flush_queue_def)
  next
    case (Cons b q)
    let ?S = "tb_schema t" and ?t1 = "t\<lparr>tb_queue := q\<rparr>"
    have pend: "pending t = b # q" using Cons "1.prems"(2) by (simp add: pending_def)
    then obtain c cs where ucs: "ucs = c # cs" using "1.prems"(1) by (cases ucs) (auto simp: chunks_rep_def batches_rep_def)
    have b: "batch_rep ?S b (length (concat pcs)) c" "batches_rep ?S (length (concat pcs) + length c) q cs"
      using "1.prems"(1) by (simp_all add: chunks_rep_def pend ucs batches_rep_Cons)
    define env where "env = (case envs of [] \<Rightarrow> os_fine | e # _ \<Rightarrow> e)"
    have env: "os_ok env" "list_all os_ok (tl envs)" using "1.prems"(3) by (cases envs; simp add: env_def)+
    obtain f p vi where w: "write_batch_to_page env b ?t1 = (kOk, ?t1\<lparr>tb_file := f, tb_pages := p, tb_vindex := vi\<rparr>)"
        "pages_rep ?S (mf_disk f) p (pcs @ [c])" "mmap_inv f"
      using write_batch_rep [of ?t1 pcs env b c] env(1) b(1) "1.prems"(1,4) Cons
      by (auto simp: chunks_rep_def chunks_ok_def ucs)
    let ?t3 = "return_free_batch b (?t1\<lparr>tb_file := f, tb_pages := p, tb_vindex := vi\<rparr>)"
    have "chunks_rep ?t3 (pcs @ [c]) cs"
      using "1.prems"(1,2) w(2,3) b
      by (auto simp: chunks_rep_def return_free_batch_def pending_def ucs chunks_ok_def free_ok_def active_ok_def
          batch_rep_def map_replicate_const)
    moreover have "flush_loop envs t = flush_loop (tl envs) ?t3"
      by (subst flush_loop.simps) (simp add: pop_flush_queue_def Cons w(1) env_def [symmetric])
    moreover have "chunks_rep ?t3 (pcs @ [c]) cs \<Longrightarrow> \<exists>t'. flush_loop (tl envs) ?t3 = (kOk, t') \<and>
        chunks_rep t' ((pcs @ [c]) @ cs) [] \<and> tb_queue t' = [] \<and> tb_active t' = None \<and> tb_schema t' = tb_schema ?t3"
      using env(2) "1.prems"(2,4) Cons
      by (intro "1.IH" [OF _ refl env_def w(1) [symmetric]]) (simp_all add: pop_flush_queue_def return_free_batch_def)
    ultimately show ?thesis using ucs by (simp add: return_free_batch_def)
  qed
qed

lemma queue_active_rep:
  assumes "chunks_rep t pcs ucs"
  shows "chunks_rep (queue_active t) pcs ucs \<and> tb_active (queue_active t) = None \<and>
    tb_queue (queue_active t) = pending t \<and> tb_schema (queue_active t) = tb_schema t"
proof (cases "tb_active t")
  case None
  then show ?thesis using assms by (simp add: queue_active_def pending_def)
next
  case (Some b)
  then have pend: "pending t = tb_queue t @ [b]" by (simp add: pending_def)
  then obtain qcs ac where ucs: "ucs = qcs @ [ac]"
    using assms by (cases ucs rule: rev_cases) (auto simp: chunks_rep_def batches_rep_def)
  have "batch_rep (tb_schema t) b (length (concat pcs) + length (concat qcs)) ac" "ac \<noteq> []"
    using assms by (simp_all add: chunks_rep_def pend ucs batches_rep_snoc chunks_ok_def)
  then have "queue_active t = push_flush_queue b (t\<lparr>tb_active := None\<rparr>)"
    using Some by (simp add: queue_active_def batch_rep_def)
  then show ?thesis using assms pend by (simp add: push_flush_queue_def pending_def chunks_rep_def free_ok_def active_ok_def)
qed

lemma flush_pending_rep:
  assumes "table_rep t rows" "list_all os_ok envs" "list_all (batch_small (tb_schema t)) (pending t)"
  shows "\<exists>t'. flush_pending envs t = (kOk, t') \<and> table_rep t' rows \<and> pending t' = [] \<and> tb_schema t' = tb_schema t"
proof -
  obtain pcs ucs where rep: "chunks_rep t pcs ucs" and rows: "rows = concat (pcs @ ucs)"
    using assms(1) by (auto simp: table_rep_def)
  note q = queue_active_rep [OF rep]
  obtain t' where t': "flush_loop envs (queue_active t) = (kOk, t')" "chunks_rep t' (pcs @ ucs) []" "tb_queue t' = []"
      "tb_active t' = None" "tb_schema t' = tb_schema t"
    using flush_loop_rep [of "queue_active t" pcs ucs envs] q assms(2,3) by auto
  then have "table_rep t' rows" unfolding table_rep_def using rows by (metis append_Nil2)
  then show ?thesis using t' by (simp add: flush_pending_def pending_def)
qed

section \<open>Recovery\<close>

lemma page_header_read:
  assumes "length (batch_payload_bytes S lsn b) < 2 ^ 32" "pb_row_count b < 2 ^ 32"
  defines "P \<equiv> batch_payload_bytes S lsn b"
  shows "\<exists>h. header_of_bytes (page_bytes S lsn b @ r) = Some (h, P @ r) \<and> ph_magic h = kPageMagic \<and>
    unat (ph_data_size h) = length P \<and> ph_row_count h = word_of_nat (pb_row_count b) \<and> validate_page h (P @ r) = kOk"
proof -
  let ?h = "batch_page_header (pb_row_count b) P"
  have "header_of_bytes (page_bytes S lsn b @ r) = Some (?h, P @ r)"
    using header.dec_enc [of ?h "P @ r"] by (simp add: page_bytes_def P_def Let_def)
  moreover have "ph_magic ?h = kPageMagic" "unat (ph_data_size ?h) = length P" "ph_row_count ?h = word_of_nat (pb_row_count b)"
    using assms(1) by (simp_all add: batch_page_header_def P_def unat_word_of_nat32)
  moreover from this have "validate_page ?h (P @ r) = kOk"
    by (simp add: validate_page_def batch_page_header_def set_page_checksum_def page_crc_def)
  ultimately show ?thesis by blast
qed

lemma recover_loop_page:
  assumes "page_img S k c img" "length c < 2 ^ 32" "drop off bs = img @ r" "off + length img \<le> length bs"
  shows "recover_loop bs off start acc = recover_loop bs (off + length img) (start + word_of_nat (length c))
    (acc @ [\<lparr>rg_start = start, rg_count = length c, rg_page_id = word_of_nat off\<rparr>])"
proof -
  obtain lsn b where b: "batch_rep S b k c" "img = page_bytes S lsn b" "length (batch_payload_bytes S lsn b) < 2 ^ 32"
    using assms(1) by (auto simp: page_img_def)
  let ?P = "batch_payload_bytes S lsn b"
  have rc: "pb_row_count b = length c" using b(1) by (simp add: batch_rep_def)
  then obtain h where h: "header_of_bytes (drop off bs) = Some (h, ?P @ r)" "ph_magic h = kPageMagic"
      "unat (ph_data_size h) = length ?P" "ph_row_count h = word_of_nat (length c)" "validate_page h (?P @ r) = kOk"
    using page_header_read [OF b(3), of r] assms(2,3) b(2) by auto
  have len: "length img = 32 + length ?P" by (simp add: b(2) page_bytes_def Let_def)
  have "unat (word_of_nat (length c) :: u32) = length c" "ucast (word_of_nat (length c) :: u32) = (word_of_nat (length c) :: u64)"
    using assms(2) by (simp_all add: unat_word_of_nat32 unsigned_of_nat take_bit_nat_eq_self)
  then show ?thesis
    using h len assms(4) by (subst recover_loop.simps) (simp add: kPageHeaderSize_def)
qed

lemma recover_loop_pages:
  assumes "length imgs = length pcs" "\<And>i. i < length pcs \<Longrightarrow> page_img S (chunk_start pcs i) (pcs ! i) (imgs ! i)"
    "chunks_ok S pcs"
  shows "recover_loop (concat imgs @ tail) 0 0 [] =
    recover_loop (concat imgs @ tail) (length (concat imgs)) (word_of_nat (length (concat pcs)))
      (map (page_range pcs imgs) [0..<length pcs])"
proof -
  let ?bs = "concat imgs @ tail"
  let ?at = "\<lambda>i. recover_loop ?bs (chunk_start imgs i) (word_of_nat (chunk_start pcs i)) (map (page_range pcs imgs) [0..<i])"
  have "?at i = ?at (length pcs)" if "i \<le> length pcs" for i
    using that
  proof (induction rule: inc_induct)
    case (step j)
    have j: "j < length imgs" "j < length pcs" using step assms(1) by simp_all
    have "drop (chunk_start imgs j) ?bs = imgs ! j @ concat (drop (Suc j) imgs) @ tail"
      using concat_drop_nth [OF j(1)] chunk_start_le [of imgs j] by (simp add: chunk_start_def)
    moreover have "chunk_start imgs j + length (imgs ! j) \<le> length ?bs" using chunk_start_end [OF j(1)] by simp
    moreover have "length (pcs ! j) < 2 ^ 32"
      using assms(3) j(2) kBatchSize_small by (simp add: chunks_ok_def list_all_length)
    ultimately have "?at j = ?at (Suc j)"
      using recover_loop_page [OF assms(2) [OF j(2)], of "chunk_start imgs j" ?bs] j
      by (simp add: chunk_start_Suc page_range_def)
    then show ?case using step by simp
  qed simp
  from this [of 0] show ?thesis
    using chunk_start_append(2) [of imgs] assms(1) by simp
qed

text \<open>Bytes that do not start with a complete valid page.\<close>

definition torn :: "byte list \<Rightarrow> bool" where
  "torn bs \<longleftrightarrow> (case header_of_bytes bs of None \<Rightarrow> True
     | Some (h, payload) \<Rightarrow> ph_magic h \<noteq> kPageMagic \<or> length bs < 32 + unat (ph_data_size h) \<or> validate_page h payload \<noteq> kOk)"

lemma recover_loop_torn:
  assumes "torn tail" "32 \<le> length tail" "p \<noteq> []"
  shows "recover_loop (p @ tail) (length p) start acc = (acc, start, Some (length p))"
proof -
  obtain h pl where "header_of_bytes tail = Some (h, pl)"
    using header.get_many_short [of tail] assms(2) by (auto simp: header_of_bytes_def get_complete)
  then show ?thesis
    using assms by (subst recover_loop.simps) (auto simp: torn_def kPageHeaderSize_def)
qed

lemma recover_loop_end: "length tail < 32 \<Longrightarrow> recover_loop (p @ tail) (length p) start acc = (acc, start, None)"
  by (subst recover_loop.simps) (simp add: kPageHeaderSize_def)

text \<open>Reopening a table: a fresh object, its file, recovery.\<close>

definition reopen :: "OsEnv \<Rightarrow> string \<Rightarrow> Schema \<Rightarrow> byte list \<Rightarrow> Table" where
  "reopen env name S bs = snd (recover env (snd (open_file env bs (table_init name S))))"

lemma open_file_fresh:
  assumes "os_ok env" "os_open env" "os_fstat env"
  shows "\<exists>f. open_file env bs (table_init name S) = (kOk, (table_init name S)\<lparr>tb_file := f, tb_file_open := True\<rparr>) \<and>
    mmap_inv f \<and> mf_disk f = bs"
proof -
  have "\<exists>f. mmap_open env bs 0 mmap_init = (False, f)"
    using assms by (cases "bs = []") (simp_all add: mmap_open_def mmap_init_def os_ok_def)
  then obtain f where f: "mmap_open env bs 0 mmap_init = (False, f)" ..
  with mmap_open_inv [OF f] show ?thesis by (simp add: open_file_def table_init_def)
qed

lemma recovered_rep:
  assumes "chunks_rep t pcs []" "mf_disk f = mf_disk (tb_file t)" "mmap_inv f" "table_small t"
  shows "table_rep ((table_init name (tb_schema t))\<lparr>tb_file := f, tb_file_open := True, tb_pages := tb_pages t,
    tb_row_count := unat (word_of_nat (length (concat pcs)) :: u64)\<rparr>) (concat pcs)"
proof -
  have "length (concat pcs) < 2 ^ 64" using assms(1,4) by (simp add: table_small_def chunks_rep_def)
  then show ?thesis
    unfolding table_rep_def using assms
    by (intro exI [of _ pcs] exI [of _ "[]"])
      (auto simp: chunks_rep_def pending_def batches_rep_def table_init_def free_ok_def active_ok_def empty_batch_def
        unat_word_of_nat64 list_all_iff)
qed

lemma reopen_rep:
  assumes "table_rep t rows" "table_small t" "pending t = []" "os_ok env" "os_open env" "os_fstat env"
    and "tail = [] \<or> torn tail \<and> 32 \<le> length tail \<and> rows \<noteq> []"
  shows "table_rep (reopen env name (tb_schema t) (mf_disk (tb_file t) @ tail)) rows"
proof -
  obtain pcs where rep: "chunks_rep t pcs []" and rows: "rows = concat pcs"
    using assms(1,3) by (fastforce simp: table_rep_def chunks_rep_def batches_rep_def)
  obtain imgs where imgs: "mf_disk (tb_file t) = concat imgs" "length imgs = length pcs"
      "\<And>i. i < length pcs \<Longrightarrow> page_img (tb_schema t) (chunk_start pcs i) (pcs ! i) (imgs ! i)"
      "tb_pages t = map (page_range pcs imgs) [0..<length pcs]"
    using rep by (auto simp: chunks_rep_def pages_rep_def)
  let ?bs = "concat imgs @ tail" and ?n = "word_of_nat (length (concat pcs)) :: u64"
  obtain f where f: "open_file env ?bs (table_init name (tb_schema t)) =
        (kOk, (table_init name (tb_schema t))\<lparr>tb_file := f, tb_file_open := True\<rparr>)" "mmap_inv f" "mf_disk f = ?bs"
    using open_file_fresh [OF assms(4-6)] by blast
  have loop: "recover_loop ?bs 0 0 [] = recover_loop ?bs (length (concat imgs)) ?n (tb_pages t)"
    using recover_loop_pages [OF imgs(2,3)] rep imgs(4) by (simp add: chunks_rep_def)
  have none: "pcs = []" if "concat imgs = []"
  proof (rule ccontr)
    assume "pcs \<noteq> []"
    then have "0 < length imgs" using imgs(2) by simp
    with that have "imgs ! 0 = []" by (metis concat_eq_Nil_conv nth_mem)
    with imgs(3) [of 0] \<open>pcs \<noteq> []\<close> page_bytes_ne show False by (metis length_greater_0_conv page_img_def)
  qed
  define f' where "f' = (if tail = [] then f else snd (mmap_resize env (length (concat imgs)) f))"
  have "mmap_inv f' \<and> mf_disk f' = concat imgs"
  proof (cases "tail = []")
    case False
    obtain g where g: "mmap_resize env (length (concat imgs)) f = (kOk, g)"
      using mmap_resize_fine [of f env] f(2) assms(4) by (auto simp: os_ok_def mmap_inv_def)
    with mmap_resize_ok [OF f(2) g] f(3) False show ?thesis by (simp add: f'_def ftruncate_def)
  qed (use f in \<open>simp add: f'_def\<close>)
  note rec = recovered_rep [OF rep _ conjunct1 [OF this] assms(2), of name] and disk = conjunct2 [OF this]
  have "reopen env name (tb_schema t) ?bs = (table_init name (tb_schema t))\<lparr>tb_file := f', tb_file_open := True,
      tb_pages := tb_pages t, tb_row_count := unat ?n\<rparr>"
  proof (cases "tail = []")
    case True
    with recover_loop_end [of "[]" "concat imgs" ?n "tb_pages t"] loop
    have "recover_loop (concat imgs) 0 0 [] = (tb_pages t, ?n, None)" by simp
    moreover note none
    moreover have "pcs = [] \<Longrightarrow> tb_pages t = []" using imgs(4) by simp
    ultimately show ?thesis
      using True f mmap_inv_data [OF f(2)]
      by (auto simp: reopen_def recover_def table_init_def mmap_inv_def f'_def)
  next
    case False
    then have tail: "torn tail" "32 \<le> length tail" "rows \<noteq> []" using assms(7) by simp_all
    with rows none have "concat imgs \<noteq> []" by (metis concat.simps(1))
    with recover_loop_torn [OF tail(1,2), of "concat imgs"] loop
    have "recover_loop ?bs 0 0 [] = (tb_pages t, ?n, Some (length (concat imgs)))" by simp
    then show ?thesis
      using False f mmap_inv_data [OF f(2)]
      by (auto simp: reopen_def recover_def table_init_def mmap_inv_def f'_def)
  qed
  then show ?thesis using rec disk imgs(1) rows by simp
qed

end
