(* ===== verification/Table_Vacuum.thy ===== *)
theory Table_Vacuum
  imports Table_Refine
begin

text \<open>
  Vacuum against the abstract view of a table: it leaves exactly the rows whose newest version
  is not a tombstone, in their old order, renumbered from zero.
\<close>

section \<open>Repacking columns\<close>

lemma repack_string:
  assumes "list_all (cell_ok kVarChar) cells" "length (concat cells) < 2 ^ 32"
  shows "repack_column (length cells) kVarChar (column_bytes_of kVarChar cells) = col_src kVarChar cells"
proof -
  let ?raw = "concat (map put_u32 (cums 0 cells)) @ concat cells @ []"
  have sub: "length (concat (take i cells)) < 2 ^ 32" for i
    using length_concat_take_le [of i cells] assms(2) by simp
  have cell: "put_u32 (u32_at ?raw (i * 4) - (if i = 0 then 0 else u32_at ?raw ((i - 1) * 4))) @
      take (unat (u32_at ?raw (i * 4) - (if i = 0 then 0 else u32_at ?raw ((i - 1) * 4))))
        (drop (length cells * 4 + unat (if i = 0 then 0 else u32_at ?raw ((i - 1) * 4))) ?raw) = cell_src kVarChar (cells ! i)"
    if i: "i < length cells" for i
  proof -
    have prev: "(if i = 0 then 0 else u32_at ?raw ((i - 1) * 4)) = word_of_nat (length (concat (take i cells)))"
      using string_column_cell(1) [of "i - 1" cells "[]"] i assms(2) by (cases i) auto
    have fin: "u32_at ?raw (i * 4) = word_of_nat (length (concat (take (Suc i) cells)))"
      by (rule string_column_cell(1) [OF i assms(2)])
    have len: "u32_at ?raw (i * 4) - (if i = 0 then 0 else u32_at ?raw ((i - 1) * 4)) = word_of_nat (length (cells ! i))"
      unfolding prev fin by (simp add: take_suc_length [OF i])
    have "length (cells ! i) < 2 ^ 32" using sub [of "Suc i"] take_suc_length [OF i] by simp
    then show ?thesis
      unfolding len unfolding prev
      using string_column_cell(2) [OF i assms(2), of "[]"] sub [of i] by (simp add: unat_word_of_nat32 cell_src_def)
  qed
  have "map (\<lambda>i. let prev = (if i = 0 then 0 else u32_at ?raw ((i - 1) * 4)); len = u32_at ?raw (i * 4) - prev
      in put_u32 len @ take (unat len) (drop (length cells * 4 + unat prev) ?raw)) [0..<length cells] =
      map (\<lambda>i. cell_src kVarChar (cells ! i)) [0..<length cells]"
    unfolding Let_def by (rule map_cong [OF refl], rule cell) simp
  also have "\<dots> = map (cell_src kVarChar) (map ((!) cells) [0..<length cells])" by simp
  also have "\<dots> = map (cell_src kVarChar) cells" by (simp only: map_nth)
  finally have "map (\<lambda>i. let prev = (if i = 0 then 0 else u32_at ?raw ((i - 1) * 4)); len = u32_at ?raw (i * 4) - prev
      in put_u32 len @ take (unat len) (drop (length cells * 4 + unat prev) ?raw)) [0..<length cells] =
      map (cell_src kVarChar) cells" .
  then show ?thesis by (simp only: repack_column_def column_bytes_of_def col_src_def append_Nil2 if_True simp_thms)
qed

lemma repack_column_eq:
  assumes "list_all (cell_ok ct) cells" "ct = kVarChar \<Longrightarrow> length (concat cells) < 2 ^ 32"
  shows "repack_column (length cells) ct (column_bytes_of ct cells) = col_src ct cells"
proof (cases "ct = kVarChar")
  case True
  then show ?thesis using assms repack_string [of cells] by simp
next
  case False
  then show ?thesis by (simp add: repack_column_def column_bytes_of_def col_src_fixed)
qed

lemma skip_strings_eq:
  "list_all (cell_ok kVarChar) cells \<Longrightarrow> n \<le> length cells \<Longrightarrow>
   skip_strings n (col_src kVarChar cells) = col_src kVarChar (drop n cells)"
proof (induction n arbitrary: cells)
  case (Suc n)
  then obtain c cs where cells: "cells = c # cs" by (cases cells) auto
  with Suc have "cell_ok kVarChar c" by simp
  note src = cell_src_string [OF this, of "col_src kVarChar cs"]
  show ?case using Suc cells src by simp
qed simp

lemma concat_fixed_slice:
  "list_all (\<lambda>c. length c = k) cells \<Longrightarrow> take (n * k) (concat cells) = concat (take n cells) \<and>
   drop (n * k) (concat cells) = concat (drop n cells)"
proof (induction n arbitrary: cells)
  case (Suc n)
  then show ?case by (cases cells) (auto simp: add.commute)
qed simp

lemma slice_column_eq:
  assumes "list_all (cell_ok ct) cells" "w + n \<le> length cells"
  shows "slice_column w n ct (col_src ct cells) = col_src ct (take n (drop w cells))"
proof (cases "ct = kVarChar")
  case True
  have "skip_strings w (col_src kVarChar cells) = col_src kVarChar (drop w cells)"
    using assms True by (intro skip_strings_eq) simp_all
  moreover have "skip_strings n (col_src kVarChar (drop w cells)) = col_src kVarChar (drop n (drop w cells))"
    using assms True by (intro skip_strings_eq) (auto simp: list_all_iff dest: in_set_dropD)
  moreover have "col_src kVarChar (drop w cells) = col_src kVarChar (take n (drop w cells)) @ col_src kVarChar (drop n (drop w cells))"
    by (metis append_take_drop_id col_src_simps(3))
  ultimately show ?thesis using True by (simp add: slice_column_def Let_def)
next
  case False
  then have "list_all (\<lambda>c. length c = column_elem_size ct) cells" using assms(1) by (simp add: list_all_iff cell_ok_def)
  moreover from this have "list_all (\<lambda>c. length c = column_elem_size ct) (drop w cells)"
    by (auto simp: list_all_iff dest: in_set_dropD)
  ultimately show ?thesis
    using False concat_fixed_slice [of "column_elem_size ct" cells w] concat_fixed_slice [of "column_elem_size ct" "drop w cells" n]
    by (simp add: slice_column_def col_src_fixed)
qed

section \<open>Writing back\<close>

definition batch_of :: "Schema \<Rightarrow> Cells list \<Rightarrow> PendingBatch" where
  "batch_of S rows = \<lparr>pb_col_data = map (\<lambda>ci. col_src (sc_columns S ! ci) (column_of rows ci)) [0..<column_count S],
     pb_row_ts = replicate (length rows) 0, pb_row_count = length rows, pb_start_rid = 0\<rparr>"

lemma batch_small_rep: "batch_rep S b k rows \<Longrightarrow> batch_small S b \<longleftrightarrow> batch_small S (batch_of S rows)"
  by (simp add: batch_small_def batch_payload_bytes_def batch_rep_def batch_of_def Let_def)

lemma vacuum_loop_rep:
  assumes "chunks_rep t pcs []" "pending t = []" "concat pcs = take w rows" "w \<le> length rows"
    and "list_all os_ok envs" "list_all (row_ok (tb_schema t)) rows"
    and "data = map (\<lambda>ci. col_src (sc_columns (tb_schema t) ! ci) (column_of rows ci)) [0..<column_count (tb_schema t)]"
    and "\<And>k. batch_small (tb_schema t) (batch_of (tb_schema t) (take kBatchSize (drop k rows)))"
  shows "table_rep (fst (vacuum_loop envs w (length rows) data a t)) rows \<and>
    pending (fst (vacuum_loop envs w (length rows) data a t)) = []"
  using assms
proof (induction envs w "length rows" data a t arbitrary: pcs rule: vacuum_loop.induct)
  case (1 envs w data a t)
  show ?case
  proof (cases "w < length rows")
    case False
    then have "concat pcs = rows" using 1 by simp
    then have "table_rep t rows" unfolding table_rep_def using "1.prems"(1) by (metis append_Nil2)
    then show ?thesis using False "1.prems"(2) by (simp add: vacuum_loop.simps)
  next
    case True
    let ?S = "tb_schema t"
    define n where "n = min kBatchSize (length rows - w)"
    let ?c = "take n (drop w rows)"
    have n: "0 < n" "w + n \<le> length rows" "n \<le> kBatchSize" using True by (auto simp: n_def kBatchSize_def)
    have c: "?c \<noteq> []" "length ?c = n" "?c = take kBatchSize (drop w rows)"
      using n True by (auto simp: n_def min_def)
    obtain ts a' where ts: "allocate_ts a = (ts, a')" by fastforce
    define b where "b = \<lparr>pb_col_data = map2 (slice_column w n) (sc_columns ?S) data,
      pb_row_ts = replicate n ts, pb_row_count = n, pb_start_rid = word_of_nat w\<rparr>"
    have "map2 (slice_column w n) (sc_columns ?S) data =
        map (\<lambda>ci. col_src (sc_columns ?S ! ci) (column_of ?c ci)) [0..<column_count ?S]"
    proof (rule nth_equalityI)
      fix ci assume "ci < length (map2 (slice_column w n) (sc_columns ?S) data)"
      then have ci: "ci < column_count ?S" by (simp add: column_count_def)
      have "slice_column w n (sc_columns ?S ! ci) (col_src (sc_columns ?S ! ci) (column_of rows ci)) =
          col_src (sc_columns ?S ! ci) (take n (drop w (column_of rows ci)))"
        using column_of_ok [OF "1.prems"(6), of ci] n ci by (intro slice_column_eq) (simp_all add: column_of_def column_count_def)
      then show "map2 (slice_column w n) (sc_columns ?S) data ! ci =
          map (\<lambda>ci. col_src (sc_columns ?S ! ci) (column_of ?c ci)) [0..<column_count ?S] ! ci"
        using ci "1.prems"(7) by (simp add: column_of_def column_count_def take_map drop_map)
    qed (simp add: "1.prems"(7) column_count_def)
    then have b: "batch_rep ?S b (length (concat pcs)) ?c"
      using c(2) "1.prems"(3,4) by (simp add: b_def batch_rep_def)
    have small: "batch_small ?S b" using batch_small_rep [OF b] c(3) "1.prems"(8) by simp
    define env where "env = (case envs of [] \<Rightarrow> os_fine | e # _ \<Rightarrow> e)"
    have env: "os_ok env" "list_all os_ok (tl envs)" using "1.prems"(5) by (cases envs; simp add: env_def)+
    obtain f p vi where wr: "write_batch_to_page env b t = (kOk, t\<lparr>tb_file := f, tb_pages := p, tb_vindex := vi\<rparr>)"
        "pages_rep ?S (mf_disk f) p (pcs @ [?c])" "mmap_inv f"
      using write_batch_rep [of t pcs env b ?c] "1.prems"(1) env(1) b c(1) small by (auto simp: chunks_rep_def)
    let ?t' = "t\<lparr>tb_file := f, tb_pages := p, tb_vindex := vi\<rparr>\<lparr>tb_row_count := w + n\<rparr>"
    have rows_c: "list_all (row_ok ?S) ?c" using "1.prems"(6) by (auto simp: list_all_iff dest: in_set_takeD in_set_dropD)
    have "chunks_rep ?t' (pcs @ [?c]) []"
      using "1.prems"(1,2,3) wr(2,3) c rows_c n "1.prems"(4)
      by (auto simp: chunks_rep_def pending_def batches_rep_def chunks_ok_def free_ok_def active_ok_def)
    moreover have "concat (pcs @ [?c]) = take (w + n) rows" using "1.prems"(3) by (simp add: take_add)
    moreover have "vacuum_loop envs w (length rows) data a t = vacuum_loop (tl envs) (w + n) (length rows) data a' ?t'"
      using True by (subst vacuum_loop.simps) (simp add: n_def [symmetric] ts b_def [symmetric] env_def [symmetric] wr(1) Let_def)
    moreover have "chunks_rep ?t' (pcs @ [?c]) [] \<Longrightarrow> concat (pcs @ [?c]) = take (w + n) rows \<Longrightarrow>
        table_rep (fst (vacuum_loop (tl envs) (w + n) (length rows) data a' ?t')) rows \<and>
        pending (fst (vacuum_loop (tl envs) (w + n) (length rows) data a' ?t')) = []"
      using "1.hyps" [OF True n_def refl ts [symmetric] b_def env_def refl wr(1) [symmetric]] "1.prems" env(2) n(2)
      by (simp add: pending_def)
    ultimately show ?thesis by simp
  qed
qed

section \<open>Vacuum\<close>

text \<open>The rows a vacuum keeps, as it finds them in the flushed table.\<close>

definition live_rows :: "TimestampAllocator \<Rightarrow> Table \<Rightarrow> RowId list" where
  "live_rows a t =
     (case max_timestamp (tb_vindex t) of (mt, vi) \<Rightarrow> alive_rows (max (fst (allocate_ts a)) mt) (tb_row_count t) vi)"

lemma alive_rows_eq:
  "\<exists>rs. alive_rows max_ts n vi = map word_of_nat rs \<and> (\<forall>r \<in> set rs. r < n)"
  by (rule exI [of _ "filter (\<lambda>r. case fst (search (word_of_nat r) max_ts kInvalidTxId vi) of Inl _ \<Rightarrow> False
      | Inr off \<Rightarrow> off \<noteq> kNotFoundOff) [0..<n]"]) (auto simp: alive_rows_def filter_map comp_def)

text \<open>Strings of a column are scanned through 32-bit offsets, so their total size has to fit.\<close>

definition scan_small :: "Schema \<Rightarrow> Cells list \<Rightarrow> bool" where
  "scan_small S rows \<longleftrightarrow> (\<forall>ci < column_count S. length (concat (column_of rows ci)) < 2 ^ 32)"

definition pages_small :: "Schema \<Rightarrow> Cells list \<Rightarrow> bool" where
  "pages_small S rows \<longleftrightarrow> (\<forall>k. batch_small S (batch_of S (take kBatchSize (drop k rows))))"

lemma reset_rep:
  assumes "chunks_rep t pcs []" "pending t = []" "os_ok env"
  shows "chunks_rep (reset_table env t) [] [] \<and> pending (reset_table env t) = [] \<and> tb_schema (reset_table env t) = tb_schema t"
proof -
  have inv: "mmap_inv (tb_file t)" using assms(1) by (simp add: chunks_rep_def)
  obtain f where f: "mmap_resize env 0 (tb_file t) = (kOk, f)"
    using mmap_resize_fine [of "tb_file t" env 0] inv assms(3) by (auto simp: os_ok_def mmap_inv_def)
  with mmap_resize_ok [OF inv f] have "mmap_inv f" "mf_disk f = []" by (simp_all add: ftruncate_def)
  with f assms(1,2) show ?thesis
    by (auto simp: reset_table_def chunks_rep_def pages_rep_def pending_def batches_rep_def chunks_ok_def free_ok_def active_ok_def)
qed

lemma vacuum_rep:
  fixes a :: TimestampAllocator
  assumes "table_rep t rows" "list_all os_ok fenvs" "os_ok renv" "list_all os_ok envs"
    and "list_all (batch_small (tb_schema t)) (pending t)"
    and "flush_pending fenvs t = (kOk, t1)" "table_small t1" "column_count (tb_schema t) \<noteq> 0"
  defines "live \<equiv> map (\<lambda>rid. rows ! unat rid) (live_rows a t1)"
  assumes "scan_small (tb_schema t) live" "pages_small (tb_schema t) live"
  shows "\<exists>t' a'. table_vacuum fenvs renv envs a t = (Inr (length live), t', a') \<and> table_rep t' live \<and> pending t' = []"
proof -
  let ?S = "tb_schema t"
  have t1: "table_rep t1 rows" "pending t1 = []" "tb_schema t1 = ?S"
    using flush_pending_rep [OF assms(1,2,5)] assms(6) by auto
  then obtain pcs where rep: "chunks_rep t1 pcs []" and rows: "rows = concat pcs"
    by (fastforce simp: table_rep_def chunks_rep_def batches_rep_def)
  have rc: "tb_row_count t1 = length rows" using rep rows by (simp add: chunks_rep_def)
  obtain probe a1 where probe: "allocate_ts a = (probe, a1)" by fastforce
  obtain mt vi where mt: "max_timestamp (tb_vindex t1) = (mt, vi)" by fastforce
  obtain rs where rs: "alive_rows (max probe mt) (length rows) vi = map word_of_nat rs" "\<forall>r \<in> set rs. r < length rows"
    using alive_rows_eq by blast
  have lr: "live_rows a t1 = map word_of_nat rs" by (simp add: live_rows_def mt probe rc rs(1))
  have "length rows < 2 ^ 64" using assms(7) rc by (simp add: table_small_def)
  then have live: "live = map ((!) rows) rs" "length live = length rs"
    using rs(2) by (auto simp: live_def lr unat_word_of_nat64 order_less_trans)
  let ?t1 = "t1\<lparr>tb_vindex := vi\<rparr>"
  have rep1: "chunks_rep ?t1 pcs []" "pending ?t1 = []" "tb_schema ?t1 = ?S" "table_small ?t1" "table_rep ?t1 rows"
    using rep t1 assms(7) rows by (auto simp: chunks_rep_def pending_def free_ok_def active_ok_def table_small_def table_rep_def)
  note reset = reset_rep [OF rep1(1,2) assms(3)]
  have ok: "list_all (row_ok ?S) live"
    using table_rep_rows_ok [OF assms(1)] rs(2) live(1) by (auto simp: list_all_iff)
  show ?thesis
  proof (cases "rows = [] \<or> rs = []")
    case True
    have "table_rep t1 [] \<and> pending t1 = []" if "rows = []" using t1 that by simp
    moreover have "table_rep (reset_table renv ?t1) []" using reset unfolding table_rep_def
      by (intro exI [of _ "[]"]) simp
    ultimately show ?thesis
      using True assms(6) probe mt rs reset live rc by (auto simp: table_vacuum_def Let_def)
  next
    case False
    let ?cts = "sc_columns ?S" and ?cols = "[0..<length (sc_columns ?S)]"
    let ?imgs = "map (\<lambda>ci. column_bytes_of (?cts ! ci) (column_of live ci)) ?cols"
    have read: "read_rows ?t1 (map word_of_nat rs) ?cols = Inr \<lparr>sr_col_data = ?imgs,
        sr_columns = map2 (\<lambda>ct d. \<lparr>cd_type = column_type_tag ct, cd_data = d, cd_nulls = None\<rparr>) ?cts ?imgs, sr_row_count = 0\<rparr>"
    proof -
      have e: "map (\<lambda>ci. if ci \<in> set ?cols then column_bytes_of (?cts ! ci) (cells_at rows rs ci) else []) [0..<length ?cts] = ?imgs"
        by (intro map_cong refl) (simp add: cells_at_def column_of_def live(1) comp_def)
      have "?cols \<noteq> []" "set ?cols \<subseteq> {..<column_count (tb_schema ?t1)}"
        using assms(8) rep1(3) by (auto simp: column_count_def)
      from read_rows_data [OF rep1(5,4) rs(2) _ this(1) distinct_upt this(2)] show ?thesis
        using False unfolding rep1(3) e by blast
    qed
    let ?data = "map2 (repack_column (length rs)) ?cts ?imgs"
    have data: "?data = map (\<lambda>ci. col_src (?cts ! ci) (column_of live ci)) [0..<column_count ?S]"
    proof (rule nth_equalityI)
      fix ci assume "ci < length ?data"
      then have ci: "ci < column_count ?S" by (simp add: column_count_def)
      have "repack_column (length (column_of live ci)) (?cts ! ci) (column_bytes_of (?cts ! ci) (column_of live ci)) =
          col_src (?cts ! ci) (column_of live ci)"
        using column_of_ok [OF ok, of ci] ci assms(10) by (intro repack_column_eq) (simp_all add: column_count_def scan_small_def)
      then show "?data ! ci = map (\<lambda>ci. col_src (?cts ! ci) (column_of live ci)) [0..<column_count ?S] ! ci"
        using ci live(2) by (simp add: column_count_def column_of_def)
    qed (simp add: column_count_def)
    obtain t2 a2 where t2: "vacuum_loop envs 0 (length rs) ?data a1 (reset_table renv ?t1) = (t2, a2)" by fastforce
    have "table_rep t2 live \<and> pending t2 = []"
      using vacuum_loop_rep [of "reset_table renv ?t1" "[]" 0 live envs ?data a1] reset ok assms(4,11) data rep1(3) t2 live(2)
      by (simp add: pages_small_def)
    moreover have "table_vacuum fenvs renv envs a t = (Inr (length live), t2, a2)"
      using False assms(6) rc probe mt rs(1) read t2 live(2) rep1(3) by (simp add: table_vacuum_def Let_def)
    ultimately show ?thesis by blast
  qed
qed

end
