(* ===== verification/Table_History.thy ===== *)
theory Table_History
  imports Table_Vacuum
begin

text \<open>
  A table over its life: the step relation \<open>table_history t rows\<close> relates a table to the rows
  that were inserted and not vacuumed away, over any sequence of insertions, flushes, commits,
  prunes, vacuums and crashes after a flush. By rule induction the table always holds exactly
  these rows. The other results are what a reader gets, and two ways in which a failure loses
  flushed rows.
\<close>

section \<open>Operations that do not move rows\<close>

lemma commit_batch_rep: "batch_rep S b k rows \<Longrightarrow> batch_rep S (commit_batch rids target ts b) k rows"
proof -
  have step: "batch_rep S b k rows \<Longrightarrow> batch_rep S (commit_batch_row target ts rid b) k rows" for rid b
    by (simp add: commit_batch_row_def batch_rep_def Let_def)
  show "batch_rep S b k rows \<Longrightarrow> batch_rep S (commit_batch rids target ts b) k rows"
    unfolding commit_batch_def by (induction rids arbitrary: b) (simp_all add: step)
qed

lemma commit_batch_count: "pb_row_count (commit_batch rids target ts b) = pb_row_count b"
proof -
  have step: "pb_row_count (commit_batch_row target ts rid b) = pb_row_count b" for rid b
    by (simp add: commit_batch_row_def Let_def)
  show ?thesis unfolding commit_batch_def by (induction rids arbitrary: b) (simp_all add: step)
qed

lemma pending_commit:
  "pending (table_commit_rows rids tx ts t) = map (commit_batch rids (tx OR kTxIdFlag) ts) (pending t)"
  by (simp add: pending_def table_commit_rows_def Let_def split: option.splits)

lemma commit_rep: "table_rep t rows \<Longrightarrow> table_rep (table_commit_rows rids tx ts t) rows"
proof -
  assume "table_rep t rows"
  then obtain pcs ucs where rep: "chunks_rep t pcs ucs" "rows = concat (pcs @ ucs)" by (auto simp: table_rep_def)
  have "batches_rep (tb_schema t) k (map (commit_batch rids (tx OR kTxIdFlag) ts) bs) cs"
    if "batches_rep (tb_schema t) k bs cs" for k bs cs
    using that by (simp add: batches_rep_def commit_batch_rep)
  moreover have "active_ok (table_commit_rows rids tx ts t)"
    using rep(1) by (simp add: chunks_rep_def active_ok_def table_commit_rows_def Let_def commit_batch_count split: option.splits)
  moreover have "tb_schema (table_commit_rows rids tx ts t) = tb_schema t" "tb_file (table_commit_rows rids tx ts t) = tb_file t"
    "tb_pages (table_commit_rows rids tx ts t) = tb_pages t" "tb_free (table_commit_rows rids tx ts t) = tb_free t"
    "tb_row_count (table_commit_rows rids tx ts t) = tb_row_count t"
    by (simp_all add: table_commit_rows_def Let_def)
  ultimately have "chunks_rep (table_commit_rows rids tx ts t) pcs ucs"
    using rep(1) by (simp add: chunks_rep_def pending_commit free_ok_def)
  with rep(2) show ?thesis unfolding table_rep_def by blast
qed

lemma vindex_rep: "table_rep t rows \<Longrightarrow> table_rep (t\<lparr>tb_vindex := vi\<rparr>) rows"
  by (simp add: table_rep_def chunks_rep_def pending_def free_ok_def active_ok_def)

lemma lsn_rep: "table_rep t rows \<Longrightarrow> table_rep (t\<lparr>tb_lsn := l\<rparr>) rows"
  by (simp add: table_rep_def chunks_rep_def pending_def free_ok_def active_ok_def)

section \<open>Histories\<close>

inductive table_history :: "Table \<Rightarrow> Cells list \<Rightarrow> bool" where
  created: "open_file env [] (table_init name S) = (kOk, t) \<Longrightarrow> table_history t []"
| row: "table_history t rows \<Longrightarrow> carries (tb_schema t) columns r \<Longrightarrow>
    insert_row_with src columns t a = Some (Inr rid, t', a') \<Longrightarrow> table_history t' (rows @ [r])"
| batch: "table_history t rows \<Longrightarrow> list_all2 (carries (tb_schema t)) cols new \<Longrightarrow>
    insert_rows_with src cols t a = Some (Inr rids, t', a') \<Longrightarrow> table_history t' (rows @ new)"
| flush: "table_history t rows \<Longrightarrow> list_all os_ok envs \<Longrightarrow> list_all (batch_small (tb_schema t)) (pending t) \<Longrightarrow>
    flush_pending envs t = (kOk, t') \<Longrightarrow> table_history t' rows"
| logged: "table_history t rows \<Longrightarrow> table_history (t\<lparr>tb_lsn := l\<rparr>) rows"
| commit: "table_history t rows \<Longrightarrow> table_history (table_commit_rows rids tx ts t) rows"
| versions: "table_history t rows \<Longrightarrow> table_history (insert_version_entries es t) rows"
| prune: "table_history t rows \<Longrightarrow> prune_version_index cutoff t = (n, t') \<Longrightarrow> table_history t' rows"
| vacuum: "table_history t rows \<Longrightarrow> list_all os_ok fenvs \<Longrightarrow> os_ok renv \<Longrightarrow> list_all os_ok envs \<Longrightarrow>
    list_all (batch_small (tb_schema t)) (pending t) \<Longrightarrow> flush_pending fenvs t = (kOk, t1) \<Longrightarrow> table_small t1 \<Longrightarrow>
    column_count (tb_schema t) \<noteq> 0 \<Longrightarrow> live = map (\<lambda>rid. rows ! unat rid) (live_rows a t1) \<Longrightarrow>
    scan_small (tb_schema t) live \<Longrightarrow> pages_small (tb_schema t) live \<Longrightarrow>
    table_vacuum fenvs renv envs a t = (res, t', a') \<Longrightarrow> table_history t' live"
| crash: "table_history t rows \<Longrightarrow> table_small t \<Longrightarrow> pending t = [] \<Longrightarrow> os_ok env \<Longrightarrow> os_open env \<Longrightarrow> os_fstat env \<Longrightarrow>
    tail = [] \<or> torn tail \<and> 32 \<le> length tail \<and> rows \<noteq> [] \<Longrightarrow>
    table_history (reopen env name (tb_schema t) (mf_disk (tb_file t) @ tail)) rows"

lemma created_rep:
  assumes "open_file env [] (table_init name S) = (kOk, t)"
  shows "table_rep t []"
proof -
  obtain threw f where f: "mmap_open env [] 0 mmap_init = (threw, f)" by fastforce
  with assms have t: "\<not> threw" "t = (table_init name S)\<lparr>tb_file := f, tb_file_open := True\<rparr>"
    by (auto simp: open_file_def table_init_def split: if_splits)
  with mmap_open_inv [of env "[]" f] f have "mmap_inv f" "mf_disk f = []" by simp_all
  then have "chunks_rep t [] []"
    by (simp add: t chunks_rep_def pages_rep_def pending_def batches_rep_def chunks_ok_def free_ok_def active_ok_def
        table_init_def empty_batch_def list_all_iff)
  then show ?thesis unfolding table_rep_def by (intro exI [of _ "[]"]) simp
qed

lemma history_rep:
  assumes "table_history t rows"
  shows "table_rep t rows"
  using assms
proof induction
  case (created env name S t)
  then show ?case by (rule created_rep)
next
  case (row t rows columns r src a rid t' a')
  have "tb_active t \<noteq> None \<or> tb_free t \<noteq> []"
    using row.hyps(3) carries_length [OF row.hyps(2)]
    by (auto simp: insert_row_with_def acquire_batch_def get_free_batch_def split: option.splits)
  from insert_row_rep [OF row.IH row.hyps(2) this, of src a] row.hyps(3) show ?case by auto
next
  case (batch t rows cols new src a rids t' a')
  show ?case
  proof (cases "cols = []")
    case True
    with batch show ?thesis by (simp add: insert_rows_with_def)
  next
    case False
    then obtain res where "insert_rows_loop src cols [] t a = Some (res, t', a')"
      using batch.hyps(3) by (auto simp: insert_rows_with_def split: if_splits)
    with insert_rows_loop_rep [OF batch.IH batch.hyps(2)] show ?thesis by blast
  qed
next
  case (flush t rows envs t')
  with flush_pending_rep [OF flush.IH flush.hyps(2,3)] show ?case by auto
next
  case (vacuum t rows fenvs renv envs t1 live a res t' a')
  then show ?case using vacuum_rep [OF vacuum.IH vacuum.hyps(2-8), of a] by auto
next
  case (crash t rows env tail name)
  then show ?case by (intro reopen_rep)
qed (auto simp: lsn_rep commit_rep insert_version_entries_def prune_version_index_def Let_def split: prod.splits intro: vindex_rep)

text \<open>
  C6: Over any history of insertions of rows and batches, flushes, commits, rollbacks, prunes,
  vacuums and crashes after a flush (with a torn page at the end of the file or not), in which every
  write to the file succeeds and pages and file keep to the sizes of their fields, the pages
  in the file, the queued batches and the active batch hold exactly the rows that were inserted
  and survived the vacuums, in order, each cell with the bytes it was inserted with. A write that
  fails is a real exception: \<open>failed_flush_destroys_pages\<close>.
\<close>

theorem table_holds_its_history: "table_history t rows \<Longrightarrow> table_rep t rows"
  by (rule history_rep)

lemma acquire_same:
  "acquire_batch t = Some (b, t1) \<Longrightarrow> tb_file t1 = tb_file t \<and> tb_schema t1 = tb_schema t"
  by (auto simp: acquire_batch_def get_free_batch_def split: option.splits if_splits)

lemma insert_row_same:
  "insert_row_with src columns t a = Some (r, t', a') \<Longrightarrow> tb_file t' = tb_file t \<and> tb_schema t' = tb_schema t"
  by (cases "src a") (auto simp: insert_row_with_def dest: acquire_same split: if_splits)

definition sample_schema :: Schema where
  "sample_schema = \<lparr>sc_columns = [kInt32, kVarChar], sc_names = [''id'', ''name'']\<rparr>"

definition sample_row :: Cells where "sample_row = [[7, 0, 0, 0], [0x68, 0x69]]"

definition sample_columns :: "ColumnData list" where
  "sample_columns = [\<lparr>cd_type = 0, cd_data = [7, 0, 0, 0], cd_nulls = None\<rparr>,
     \<lparr>cd_type = 4, cd_data = [2, 0, 0, 0, 0x68, 0x69], cd_nulls = None\<rparr>]"

definition sample_empty :: Table where
  "sample_empty = snd (open_file os_fine [] (table_init ''t'' sample_schema))"

definition sample_table :: Table where
  "sample_table = fst (snd (the (insert_row_with allocate_ts sample_columns sample_empty ts_init)))"

lemma sample_carries: "carries sample_schema sample_columns sample_row"
proof -
  have "put_u32 2 = [2, 0, 0, 0]" by code_simp
  then show ?thesis
    by (simp add: carries_def sample_schema_def sample_columns_def sample_row_def row_ok_def cell_ok_def cell_src_def)
qed

lemma sample_empty_history: "table_history sample_empty []" "tb_schema sample_empty = sample_schema"
  "tb_free sample_empty \<noteq> []" "tb_row_count sample_empty = 0" "length (tb_free sample_empty) = 64"
proof -
  obtain f where f: "open_file os_fine [] (table_init ''t'' sample_schema) =
      (kOk, (table_init ''t'' sample_schema)\<lparr>tb_file := f, tb_file_open := True\<rparr>)"
    using open_file_fresh [of os_fine "[]"] by (auto simp: os_fine_def os_ok_def)
  then show "table_history sample_empty []" by (simp add: sample_empty_def table_history.created)
  show "tb_schema sample_empty = sample_schema" "tb_free sample_empty \<noteq> []" "tb_row_count sample_empty = 0"
    "length (tb_free sample_empty) = 64"
    using f by (simp_all add: sample_empty_def table_init_def kMaxBatches_def)
qed

lemma sample_inserted:
  "\<exists>a'. insert_row_with allocate_ts sample_columns sample_empty ts_init = Some (Inr 0, sample_table, a')"
  using insert_row_rep [OF history_rep [OF sample_empty_history(1)], of sample_columns sample_row allocate_ts ts_init]
    sample_carries sample_empty_history by (auto simp: sample_table_def)

lemma sample_history: "table_history sample_table [sample_row]"
  using sample_inserted sample_carries sample_empty_history
    table_history.row [of sample_empty "[]" sample_columns sample_row] by auto

theorem table_holds_its_history_witness: "table_rep sample_table [sample_row]"
  by (rule table_holds_its_history [OF sample_history])

text \<open>
  C27: Reading back: for a table with any history of successful writes, \<open>read_rows\<close> with a list of row
  numbers and a list of different columns delivers, for each of these columns, the cells of these rows as they were
  inserted, in the order asked for; fixed-size cells side by side, strings behind their
  cumulative end offsets. It makes no difference whether a row is in the file, queued or in the
  active batch.
\<close>

theorem read_rows_returns_inserted_cells:
  assumes "table_history t rows" "table_small t" "\<forall>r \<in> set rs. r < length rows" "rs \<noteq> []"
    and "cols \<noteq> []" "distinct cols" "set cols \<subseteq> {..<column_count (tb_schema t)}"
  shows "\<exists>scan. read_rows t (map word_of_nat rs) cols = Inr scan \<and>
    (\<forall>ci \<in> set cols. sr_col_data scan ! ci = column_bytes_of (sc_columns (tb_schema t) ! ci) (map (\<lambda>r. rows ! r ! ci) rs))"
proof -
  have "\<forall>ci \<in> set cols. ci < length (sc_columns (tb_schema t))" using assms(7) by (auto simp: column_count_def)
  with read_rows_data [OF history_rep [OF assms(1)] assms(2-7)] show ?thesis
    by (simp add: cells_at_def)
qed

lemma sample_small: "table_small sample_table" "tb_schema sample_table = sample_schema"
proof -
  have "mf_disk (tb_file sample_empty) = []"
    by (simp add: sample_empty_def open_file_def table_init_def mmap_open_def mmap_init_def os_fine_def)
  moreover obtain pcs ucs where "chunks_rep sample_table pcs ucs" "[sample_row] = concat (pcs @ ucs)"
    using history_rep [OF sample_history] by (auto simp: table_rep_def)
  then have "tb_row_count sample_table = length [sample_row]" unfolding chunks_rep_def by metis
  ultimately show "table_small sample_table" "tb_schema sample_table = sample_schema"
    using sample_inserted sample_empty_history(2) insert_row_same by (auto simp: table_small_def)
qed

theorem read_rows_returns_inserted_cells_witness:
  "\<exists>scan. read_rows sample_table [0] [1] = Inr scan \<and> sr_col_data scan ! 1 = [2, 0, 0, 0, 0x68, 0x69]"
proof -
  have "put_u32 2 = [2, 0, 0, 0]" by code_simp
  then show ?thesis
    using read_rows_returns_inserted_cells [OF sample_history sample_small(1), of "[0]" "[1]"]
    by (simp add: sample_small(2) sample_schema_def column_count_def sample_row_def column_bytes_of_def)
qed

section \<open>Insertion does not block while batches are free\<close>

text \<open>The rows that fit without waiting for a batch to be flushed.\<close>

definition room :: "Table \<Rightarrow> nat" where
  "room t = length (tb_free t) * kBatchSize + (case tb_active t of None \<Rightarrow> 0 | Some b \<Rightarrow> kBatchSize - pb_row_count b)"

lemma acquire_room:
  assumes "chunks_rep t pcs ucs" "0 < room t"
  shows "\<exists>b t1. acquire_batch t = Some (b, t1) \<and> pb_row_count b < kBatchSize \<and>
    room t = length (tb_free t1) * kBatchSize + (kBatchSize - pb_row_count b)"
proof (cases "tb_active t")
  case (Some b)
  then show ?thesis using assms(1) by (auto simp: acquire_batch_def room_def chunks_rep_def active_ok_def)
next
  case None
  then have "tb_free t \<noteq> []" using assms(2) by (auto simp: room_def)
  moreover from this have "pb_row_count (last (tb_free t)) = 0"
    using assms(1) by (simp add: chunks_rep_def free_ok_def list_all_iff)
  ultimately show ?thesis
    using None by (cases "tb_free t" rule: rev_cases) (auto simp: acquire_batch_def get_free_batch_def room_def kBatchSize_def)
qed

lemma insert_rows_loop_some:
  assumes "table_rep t rows" "list_all2 (carries (tb_schema t)) cols new" "length cols \<le> room t"
  shows "\<exists>r. insert_rows_loop src cols res t a = Some r"
  using assms
proof (induction src cols res t a arbitrary: rows new rule: insert_rows_loop.induct)
  case (1 src cols res t a)
  show ?case
  proof (cases "cols = []")
    case True
    then show ?thesis by (simp add: insert_rows_loop.simps)
  next
    case False
    obtain pcs ucs where rep: "chunks_rep t pcs ucs" using "1.prems"(1) by (auto simp: table_rep_def)
    have "0 < room t" using False "1.prems"(3) by (cases "room t") auto
    then obtain b t1 where acq: "acquire_batch t = Some (b, t1)" "pb_row_count b < kBatchSize"
        "room t = length (tb_free t1) * kBatchSize + (kBatchSize - pb_row_count b)"
      using acquire_room [OF rep] by blast
    define n where "n = min (length cols) (kBatchSize - pb_row_count b)"
    have n: "0 < n" "n \<le> length cols" using False acq(2) by (auto simp: n_def)
    obtain b' a1 where push: "batch_push_rows src (take n cols) b a = (b', a1)" by fastforce
    let ?t2 = "store_batch b' (t1\<lparr>tb_row_count := tb_row_count t1 + n\<rparr>)"
    let ?res = "res @ map (\<lambda>i. pb_start_rid b + word_of_nat (pb_row_count b) + word_of_nat i) [0..<n]"
    have step: "insert_rows_loop src cols res t a = insert_rows_loop src (drop n cols) ?res ?t2 a1"
      using False acq(1) n(1) push by (subst insert_rows_loop.simps) (simp add: n_def [symmetric] Let_def)
    have len: "length cols = length new" using "1.prems"(2) by (rule list_all2_lengthD)
    have S: "tb_schema t1 = tb_schema t" using acquire_same [OF acq(1)] by simp
    have "insert_rows_loop src (take n cols) res t a = insert_rows_loop src [] ?res ?t2 a1"
      using n acq(1) push by (subst insert_rows_loop.simps) (auto simp: n_def Let_def min_def)
    then have "table_rep ?t2 (rows @ take n new)"
      using insert_rows_loop_rep [OF "1.prems"(1) list_all2_takeI [OF "1.prems"(2)], of src n res a ?res ?t2 a1]
      by (simp add: insert_rows_loop.simps)
    moreover have "list_all2 (carries (tb_schema ?t2)) (drop n cols) (drop n new)"
      using "1.prems"(2) S by (simp add: list_all2_dropI)
    moreover have "length (drop n cols) \<le> room ?t2"
      using "1.prems"(3) acq(3) by (auto simp: room_def n_def)
    ultimately have "\<exists>r. insert_rows_loop src (drop n cols) ?res ?t2 a1 = Some r"
      using "1.IH"(2) [OF False acq(1) refl n_def _ refl push [symmetric] refl] n(1) by simp
    then show ?thesis using step by simp
  qed
qed

text \<open>
  C39: An insertion of rows completes, without waiting for another thread, whenever the free
  batches and the rest of the active batch have room for the rows.
\<close>

theorem insert_rows_completes:
  assumes "table_history t rows" "list_all2 (carries (tb_schema t)) cols new" "length cols \<le> room t"
  shows "\<exists>rids t' a'. insert_rows_with src cols t a = Some (Inr rids, t', a')"
proof (cases "cols = []")
  case True
  then show ?thesis by (simp add: insert_rows_with_def)
next
  case False
  then have "length (hd cols) = column_count (tb_schema t)"
    using assms(2) carries_length by (cases cols; cases new) auto
  moreover obtain r where "insert_rows_loop src cols [] t a = Some r"
    using insert_rows_loop_some [OF history_rep [OF assms(1)] assms(2,3)] by blast
  ultimately show ?thesis using False by (cases r) (simp add: insert_rows_with_def)
qed

lemma sample_batch:
  "list_all2 (carries (tb_schema sample_empty)) [sample_columns, sample_columns] [sample_row, sample_row]"
  "length [sample_columns, sample_columns] \<le> room sample_empty"
  using sample_carries sample_empty_history(2,5) by (simp_all add: room_def kBatchSize_def)

theorem insert_rows_completes_witness:
  "\<exists>rids t' a'. insert_rows_with allocate_ts [sample_columns, sample_columns] sample_empty ts_init = Some (Inr rids, t', a')"
  by (rule insert_rows_completes [OF sample_empty_history(1) sample_batch])

text \<open>
  A batch insertion into a table with any history returns the consecutive numbers of the new
  rows, whatever batches they were spread over.
\<close>

theorem insert_rows_numbers_rows:
  assumes "table_history t rows" "list_all2 (carries (tb_schema t)) cols new"
    "insert_rows_with src cols t a = Some (Inr rids, t', a')"
  shows "rids = map word_of_nat [length rows..<length rows + length new]"
proof (cases "cols = []")
  case True
  with assms show ?thesis by (simp add: insert_rows_with_def)
next
  case False
  then have "insert_rows_loop src cols [] t a = Some (rids, t', a')"
    using assms(3) by (auto simp: insert_rows_with_def split: if_splits)
  from insert_rows_loop_rep [OF history_rep [OF assms(1)] assms(2) this] show ?thesis by simp
qed

theorem insert_rows_numbers_rows_witness:
  "\<exists>t' a'. insert_rows_with allocate_ts [sample_columns, sample_columns] sample_empty ts_init = Some (Inr [0, 1], t', a')"
proof -
  obtain rids t' a' where r: "insert_rows_loop allocate_ts [sample_columns, sample_columns] [] sample_empty ts_init = Some (rids, t', a')"
    using insert_rows_loop_some [OF history_rep [OF sample_empty_history(1)] sample_batch] by fastforce
  then have i: "insert_rows_with allocate_ts [sample_columns, sample_columns] sample_empty ts_init = Some (Inr rids, t', a')"
    using sample_empty_history(2) carries_length [OF sample_carries] by (simp add: insert_rows_with_def)
  from insert_rows_numbers_rows [OF sample_empty_history(1) sample_batch(1) i] i show ?thesis by (simp add: upt_rec)
qed

section \<open>Failures that lose flushed rows\<close>

text \<open>
  After a failed resize the file object has no mapping and size zero (the branch that should
  restore the mapping tests the size after it was cleared). The batch is kept and the next flush
  succeeds, but it writes the page at offset zero and cuts the file to that one page: every page
  flushed before is destroyed.
\<close>

theorem failed_flush_destroys_pages:
  assumes "mmap_inv (tb_file t)" "tb_queue t = [b]" "tb_active t = None" "pb_row_count b \<noteq> 0"
    "os_ftruncate env = Some err" "os_ok env'"
  shows "\<exists>t1 t2. flush_pending [env] t = (if err = ENOSPC then kNoSpace else kIoError, t1) \<and>
    flush_pending [env'] t1 = (kOk, t2) \<and> mf_disk (tb_file t2) = page_bytes (tb_schema t) (tb_lsn t) b \<and>
    take (length (tb_pages t)) (tb_pages t2) = tb_pages t"
proof -
  let ?f = "tb_file t" and ?img = "page_bytes (tb_schema t) (tb_lsn t) b" and ?e = "if err = ENOSPC then kNoSpace else kIoError"
  define f1 where "f1 = ?f\<lparr>mf_mapped := False, mf_size := 0\<rparr>"
  let ?t1 = "t\<lparr>tb_file := f1, tb_queue := []\<rparr>"
  have ne: "length ?img \<noteq> 0" using page_bytes_ne by simp
  have "mmap_resize env (mf_size ?f + length ?img) ?f = (?e, f1)"
    using mmap_resize_failed [OF assms(1) _ assms(5), of "mf_size ?f + length ?img"] ne by (simp add: f1_def)
  then have w1: "write_batch_to_page env b (t\<lparr>tb_queue := []\<rparr>) = (?e, ?t1)"
    using assms(4) by (simp add: write_batch_to_page_def Let_def)
  then have 1: "flush_pending [env] t = (?e, push_flush_queue b ?t1)"
    using assms(2,3) by (subst flush_pending_def, subst flush_loop.simps) (simp add: queue_active_def pop_flush_queue_def)
  have fd: "mf_fd ?f" using assms(1) by (simp add: mmap_inv_def)
  have resize: "mmap_resize env' (length ?img) f1 = (kOk, f1\<lparr>mf_disk := ftruncate (length ?img) (mf_disk ?f), mf_mapped := True, mf_size := length ?img\<rparr>)"
    using ne fd assms(6) by (simp add: f1_def mmap_resize_def do_munmap_def os_ok_def)
  define f2 where "f2 = f1\<lparr>mf_mapped := True, mf_size := length ?img, mf_disk := ?img\<rparr>"
  define t2 where "t2 = ?t1\<lparr>tb_file := f2, tb_pages := tb_pages t @ [\<lparr>rg_start = pb_start_rid b, rg_count = pb_row_count b, rg_page_id = 0\<rparr>],
      tb_vindex := insert_bulk (batch_entries 0 b) (tb_vindex t)\<rparr>"
  have w2: "write_batch_to_page env' b ?t1 = (kOk, t2)"
    using assms(4) resize by (simp add: write_batch_to_page_def Let_def f1_def f2_def t2_def mf_poke_def poke_def)
  have "flush_pending [env'] (push_flush_queue b ?t1) = (kOk, return_free_batch b t2)"
    using assms(3) w2
    by (subst flush_pending_def, subst flush_loop.simps)
      (simp add: queue_active_def push_flush_queue_def pop_flush_queue_def flush_loop.simps return_free_batch_def t2_def)
  moreover have "mf_disk (tb_file (return_free_batch b t2)) = ?img"
    "take (length (tb_pages t)) (tb_pages (return_free_batch b t2)) = tb_pages t"
    by (simp_all add: return_free_batch_def t2_def f2_def)
  ultimately show ?thesis using 1 by blast
qed

definition sample_full_disk :: Table where
  "sample_full_disk = sample_empty\<lparr>tb_file := \<lparr>mf_mapped = True, mf_size = 3, mf_fd = True, mf_disk = [1, 2, 3]\<rparr>,
     tb_active := None, tb_queue := [batch_of sample_schema [sample_row]]\<rparr>"

theorem failed_flush_destroys_pages_witness:
  "\<exists>t1 t2. flush_pending [os_fine\<lparr>os_ftruncate := Some ENOSPC\<rparr>] sample_full_disk = (kNoSpace, t1) \<and>
    flush_pending [os_fine] t1 = (kOk, t2) \<and>
    mf_disk (tb_file t2) = page_bytes (tb_schema sample_full_disk) (tb_lsn sample_full_disk) (batch_of sample_schema [sample_row])"
  using failed_flush_destroys_pages [of sample_full_disk "batch_of sample_schema [sample_row]" "os_fine\<lparr>os_ftruncate := Some ENOSPC\<rparr>" ENOSPC os_fine]
  by (auto simp: sample_full_disk_def mmap_inv_def batch_of_def)

lemma write_batch_appends:
  assumes "mmap_inv (tb_file t)" "os_ok env"
  shows "\<exists>t' x. write_batch_to_page env b t = (kOk, t') \<and> mf_disk (tb_file t') = mf_disk (tb_file t) @ x \<and> mmap_inv (tb_file t')"
proof (cases "pb_row_count b = 0")
  case True
  then show ?thesis using assms(1) by (simp add: write_batch_to_page_def)
next
  case False
  from append_page [OF assms page_bytes_ne, of "tb_schema t" "tb_lsn t" b] False show ?thesis
    by (auto simp: write_batch_to_page_def Let_def)
qed

lemma flush_loop_appends:
  "mmap_inv (tb_file t) \<Longrightarrow> list_all os_ok envs \<Longrightarrow>
   \<exists>x. mf_disk (tb_file (snd (flush_loop envs t))) = mf_disk (tb_file t) @ x \<and> mmap_inv (tb_file (snd (flush_loop envs t)))"
proof (induction envs t rule: flush_loop.induct)
  case (1 envs t)
  show ?case
  proof (cases "tb_queue t")
    case Nil
    then show ?thesis using "1.prems" by (simp add: flush_loop.simps pop_flush_queue_def)
  next
    case (Cons b q)
    let ?t1 = "t\<lparr>tb_queue := q\<rparr>"
    define env where "env = (case envs of [] \<Rightarrow> os_fine | e # _ \<Rightarrow> e)"
    have env: "os_ok env" "list_all os_ok (tl envs)" using "1.prems"(2) by (cases envs; simp add: env_def)+
    obtain t2 x where w: "write_batch_to_page env b ?t1 = (kOk, t2)" "mf_disk (tb_file t2) = mf_disk (tb_file t) @ x" "mmap_inv (tb_file t2)"
      using write_batch_appends [of ?t1 env b] "1.prems"(1) env(1) by auto
    have "flush_loop envs t = flush_loop (tl envs) (return_free_batch b t2)"
      by (subst flush_loop.simps) (simp add: pop_flush_queue_def Cons w(1) env_def [symmetric])
    moreover have "\<exists>y. mf_disk (tb_file (snd (flush_loop (tl envs) (return_free_batch b t2)))) = mf_disk (tb_file t2) @ y \<and>
        mmap_inv (tb_file (snd (flush_loop (tl envs) (return_free_batch b t2))))"
      using "1.IH" [OF _ refl env_def w(1) [symmetric]] env(2) w(3) Cons
      by (simp add: pop_flush_queue_def return_free_batch_def)
    ultimately show ?thesis using w(2) by auto
  qed
qed

lemma header_magic:
  "32 \<le> length bs \<Longrightarrow> \<exists>h r. header_of_bytes bs = Some (h, r) \<and> ph_magic h = u32_at bs 0"
  by (simp add: header_of_bytes_def get_complete)

lemma reopen_no_magic:
  fixes name :: string and S :: Schema
  assumes "32 \<le> length bs" "u32_at bs 0 \<noteq> kPageMagic" "os_ok env" "os_open env" "os_fstat env"
  defines "t \<equiv> reopen env name S bs"
  shows "tb_row_count t = 0 \<and> tb_pages t = [] \<and> mf_disk (tb_file t) = bs"
proof -
  obtain f where f: "open_file env bs (table_init name S) = (kOk, (table_init name S)\<lparr>tb_file := f, tb_file_open := True\<rparr>)"
      "mmap_inv f" "mf_disk f = bs"
    using open_file_fresh [OF assms(3-5)] by blast
  have "recover_loop bs 0 0 [] = ([], 0, None)"
    using header_magic [OF assms(1)] assms(1,2) by (subst recover_loop.simps) (auto simp: kPageHeaderSize_def)
  then show ?thesis
    using f mmap_inv_data [OF f(2)] assms(1) by (auto simp: t_def reopen_def recover_def table_init_def mmap_inv_def)
qed

text \<open>
  If a crash leaves the very first page without its magic number (the file is extended with
  zeros before the page is written), recovery neither reads nor removes it: it cuts the file
  only behind a first good page. Pages written later go behind it, and no later recovery finds
  any of them: rows that were flushed successfully are gone after the next restart.
\<close>

theorem torn_first_page_hides_later_rows:
  assumes "32 \<le> length bs" "u32_at bs 0 \<noteq> kPageMagic" "os_ok env" "os_open env" "os_fstat env"
    and "mf_disk (tb_file t) = bs" "mmap_inv (tb_file t)" "list_all os_ok envs" "flush_pending envs t = (st, t')"
  shows "mf_disk (tb_file (reopen env name S bs)) = bs \<and> tb_row_count (reopen env name S (mf_disk (tb_file t'))) = 0"
proof -
  have "tb_file (queue_active t) = tb_file t"
    by (simp add: queue_active_def push_flush_queue_def split: option.splits)
  then obtain x where "mf_disk (tb_file t') = bs @ x"
    using flush_loop_appends [of "queue_active t" envs] assms(6-9) by (auto simp: flush_pending_def)
  moreover have "u32_at (bs @ x) 0 = u32_at bs 0" using assms(1) by (simp add: u32_at_def)
  ultimately show ?thesis
    using reopen_no_magic [of "bs @ x" env name S] reopen_no_magic [of bs env name S] assms(1-5) by simp
qed

definition sample_torn :: Table where
  "sample_torn = sample_empty\<lparr>tb_file := \<lparr>mf_mapped = True, mf_size = 64, mf_fd = True, mf_disk = replicate 64 0\<rparr>,
     tb_active := None, tb_queue := [batch_of sample_schema [sample_row]]\<rparr>"

theorem torn_first_page_hides_later_rows_witness:
  "tb_row_count (reopen os_fine ''t'' sample_schema (mf_disk (tb_file (snd (flush_pending [] sample_torn))))) = 0"
proof -
  obtain st t' where t': "flush_pending [] sample_torn = (st, t')" by fastforce
  have "u32_at (replicate 64 0) 0 = 0" by code_simp
  then show ?thesis
    using torn_first_page_hides_later_rows [of "replicate 64 0" os_fine sample_torn "[]" st t' "''t''" sample_schema] t'
    by (simp add: sample_torn_def mmap_inv_def kPageMagic_def) (simp add: os_fine_def os_ok_def)
qed

end
