(* ===== verification/Table_Scan.thy ===== *)
theory Table_Scan
  imports Table_Refine
begin

text \<open>
  The full scan of a table, \<open>Executor::read_table_columns\<close> in
  \<open>src/src/query/executor_scan.cpp\<close>: the pages of the file are read one after the other and
  their columns are joined. The scan does not look at the pending batches; its callers flush
  first.
\<close>

section \<open>The scan\<close>

record ScanColumn =
  sk_offs :: "u32 list"
  sk_blob :: "byte list"
  sk_data :: "byte list"
  sk_nulls :: "byte list"

definition scan_column_init :: ScanColumn where
  "scan_column_init = \<lparr>sk_offs = [], sk_blob = [], sk_data = [], sk_nulls = []\<rparr>"

text \<open>The body of the loop over the columns of one page. Strings of a page that has none end it
  early, before the null bitmap.\<close>

definition scan_nulls :: "byte list \<Rightarrow> nat \<Rightarrow> nat \<Rightarrow> ScanColumn \<Rightarrow> ScanColumn" where
  "scan_nulls payload rc ci c =
     (let missing = (unat (u64_at payload 16) \<le> ci);
          nulls_off = unat (u64_at payload (32 + ci * 32 + 24));
          bm = (rc + 7) div 8
      in c\<lparr>sk_nulls := sk_nulls c @
             (if missing then replicate bm 0xFF
              else if nulls_off \<noteq> 0 then take bm (drop nulls_off payload) else replicate bm 0)\<rparr>)"

definition scan_page_column :: "byte list \<Rightarrow> nat \<Rightarrow> ColumnType \<Rightarrow> nat \<Rightarrow> ScanColumn \<Rightarrow> ScanColumn" where
  "scan_page_column payload rc ct ci c =
     (let missing = (unat (u64_at payload 16) \<le> ci);
          src = drop (unat (u64_at payload (32 + ci * 32 + 8))) payload;
          src_size = (if missing then 0 else unat (u64_at payload (32 + ci * 32 + 16)))
      in if ct = kVarChar then
           let off_bytes = rc * 4; adj = (if sk_offs c = [] then 0 else last (sk_offs c))
           in if src_size \<le> off_bytes then c\<lparr>sk_offs := sk_offs c @ replicate rc adj\<rparr>
              else scan_nulls payload rc ci
                (c\<lparr>sk_offs := sk_offs c @ map (\<lambda>r. u32_at src (r * 4) + adj) [0..<rc],
                   sk_blob := sk_blob c @ take (src_size - off_bytes) (drop off_bytes src)\<rparr>)
         else scan_nulls payload rc ci
                (c\<lparr>sk_data := sk_data c @
                   (if missing then replicate (rc * column_elem_size ct) 0 else take src_size src)\<rparr>))"

definition scan_page :: "Schema \<Rightarrow> byte list \<Rightarrow> nat \<Rightarrow> ScanColumn list \<Rightarrow> ScanColumn list" where
  "scan_page S payload rc cs =
     map (\<lambda>ci. scan_page_column payload rc (sc_columns S ! ci) ci (cs ! ci)) [0..<column_count S]"

text \<open>The loop over the pages, which ends at the first page that cannot be read.\<close>

function scan_loop :: "Table \<Rightarrow> nat \<Rightarrow> nat \<Rightarrow> ScanColumn list \<Rightarrow> nat \<times> ScanColumn list" where
  "scan_loop t off rows cs =
     (if off + kPageHeaderSize \<le> mf_size (tb_file t) then
        case read_page t (word_of_nat off) of Inl e \<Rightarrow> (rows, cs)
        | Inr page \<Rightarrow>
            (case header_of_bytes page of None \<Rightarrow> (rows, cs)
             | Some (h, payload) \<Rightarrow>
                 scan_loop t (off + (kPageHeaderSize + unat (ph_data_size h))) (rows + unat (ph_row_count h))
                   (scan_page (tb_schema t) payload (unat (ph_row_count h)) cs))
      else (rows, cs))"
  by pat_completeness auto
termination
  by (relation "measure (\<lambda>(t, off, r, cs). Suc (mf_size (tb_file t)) - off)") (auto simp: kPageHeaderSize_def)

declare scan_loop.simps [simp del]

definition scan_column_data :: "ColumnType \<Rightarrow> ScanColumn \<Rightarrow> ColumnData" where
  "scan_column_data ct c =
     \<lparr>cd_type = column_type_tag ct,
      cd_data = (if ct = kVarChar then concat (map put_u32 (sk_offs c)) @ sk_blob c else sk_data c),
      cd_nulls = (if sk_nulls c = [] then None else Some (sk_nulls c))\<rparr>"

definition read_table_columns :: "Table \<Rightarrow> TableScanResult StatusOr" where
  "read_table_columns t =
     (let S = tb_schema t; cc = column_count S
      in if cc = 0 then Inr scan_empty
         else if \<not> mf_fd (tb_file t) \<or> mf_size (tb_file t) = 0
         then Inr \<lparr>sr_col_data = replicate cc [],
                   sr_columns = replicate cc \<lparr>cd_type = 0, cd_data = [], cd_nulls = None\<rparr>, sr_row_count = 0\<rparr>
         else
           let (rows, cs) = scan_loop t 0 0 (replicate cc scan_column_init);
               cols = map2 scan_column_data (sc_columns S) cs
           in Inr \<lparr>sr_col_data = map cd_data cols, sr_columns = cols, sr_row_count = rows\<rparr>)"

end
