(* ===== verification/Scan_Rows.thy ===== *)
theory Scan_Rows
  imports Table_Scan Table_History
begin

text \<open>
  What the full scan of a flushed table delivers: the columns of all rows, in row order.
\<close>

section \<open>One page\<close>

lemma cums_append: "cums n (cs @ ds) = cums n cs @ cums (n + word_of_nat (length (concat cs))) ds"
  by (induction cs arbitrary: n) (simp_all add: add.assoc)

lemma last_cums: "cs \<noteq> [] \<Longrightarrow> last (cums 0 cs) = word_of_nat (length (concat cs))"
  by (cases cs rule: rev_cases) (simp_all add: cums_append)

lemma cums_empty: "concat cells = [] \<Longrightarrow> cums n cells = replicate (length cells) n"
  by (induction cells) simp_all

lemma scan_nulls_fields [simp]:
  "sk_offs (scan_nulls p rc ci c) = sk_offs c" "sk_blob (scan_nulls p rc ci c) = sk_blob c"
  "sk_data (scan_nulls p rc ci c) = sk_data c"
  by (simp_all add: scan_nulls_def Let_def)

text \<open>The state of a column that has taken in the given cells.\<close>

definition scanned :: "ColumnType \<Rightarrow> byte list list \<Rightarrow> ScanColumn \<Rightarrow> bool" where
  "scanned ct cells c \<longleftrightarrow>
     (if ct = kVarChar then sk_offs c = cums 0 cells \<and> sk_blob c = concat cells else sk_data c = concat cells)"

lemma scanned_page:
  assumes "batch_rep S b k rows" "list_all (row_ok S) rows" "length (batch_payload_bytes S lsn b) < 2 ^ 32"
    and "ci < column_count S" "scanned (sc_columns S ! ci) cells c"
  shows "scanned (sc_columns S ! ci) (cells @ column_of rows ci)
    (scan_page_column (batch_payload_bytes S lsn b @ r) (length rows) (sc_columns S ! ci) ci c)"
proof -
  let ?ct = "sc_columns S ! ci" and ?new = "column_of rows ci" and ?p = "batch_payload_bytes S lsn b @ r"
  obtain off r' where f: "u64_at ?p (32 + ci * 32 + 8) = word_of_nat off"
      "u64_at ?p (32 + ci * 32 + 16) = word_of_nat (length (column_bytes_of ?ct ?new))"
      "drop off ?p = column_bytes_of ?ct ?new @ r'"
      "off < 2 ^ 32" "length (column_bytes_of ?ct ?new) < 2 ^ 32" "column_count S < 2 ^ 32"
    using batch_payload_column [OF assms(1-4)] by blast
  have u: "unat (u64_at ?p 16) = column_count S" "unat (u64_at ?p (32 + ci * 32 + 8)) = off"
    "unat (u64_at ?p (32 + ci * 32 + 16)) = length (column_bytes_of ?ct ?new)"
    using f batch_payload_counts(2) [OF assms(1,2), of lsn r] by (simp_all add: unat_word_of_nat64)
  have n: "length ?new = length rows" by (simp add: column_of_def)
  show ?thesis
  proof (cases "?ct = kVarChar")
    case False
    then have "column_bytes_of ?ct ?new = concat ?new" by (simp add: column_bytes_of_def)
    then show ?thesis
      using False u f(3) assms(4,5) by (simp add: scan_page_column_def Let_def scanned_def)
  next
    case True
    then have img: "column_bytes_of ?ct ?new = concat (map put_u32 (cums 0 ?new)) @ concat ?new"
      by (simp add: column_bytes_of_def)
    have sz: "length (column_bytes_of ?ct ?new) = length rows * 4 + length (concat ?new)"
      using n by (simp add: img)
    have c: "sk_offs c = cums 0 cells" "sk_blob c = concat cells" using assms(5) True by (simp_all add: scanned_def)
    define adj where "adj = (if sk_offs c = [] then 0 else last (sk_offs c))"
    have adj: "adj = word_of_nat (length (concat cells))"
    proof (cases "cells = []")
      case True
      then show ?thesis using c by (simp add: adj_def)
    next
      case False
      then have "cums 0 cells \<noteq> []" by (metis length_cums length_0_conv)
      then show ?thesis using c False by (simp add: adj_def last_cums)
    qed
    have all: "cums 0 (cells @ ?new) = cums 0 cells @ cums adj ?new" by (simp add: cums_append adj)
    show ?thesis
    proof (cases "concat ?new = []")
      case True
      then have "cums adj ?new = replicate (length rows) adj" using cums_empty n by metis
      then show ?thesis
        using \<open>?ct = kVarChar\<close> True u assms(4) c sz all
        by (simp add: scan_page_column_def Let_def scanned_def) (simp add: adj_def)
    next
      case False
      have b32: "length (concat ?new) < 2 ^ 32" using f(5) sz by simp
      have "u32_at (drop off ?p) (j * 4) + adj = cums adj ?new ! j" if "j < length rows" for j
        using string_column_cell(1) [of j ?new r'] that n b32 f(3) img by (simp add: cums_nth add.commute)
      then have offs: "map (\<lambda>j. u32_at (drop off ?p) (j * 4) + adj) [0..<length rows] = cums adj ?new"
        using n by (intro nth_equalityI) simp_all
      have blob: "take (length (concat ?new)) (drop (length rows * 4) (drop off ?p)) = concat ?new"
        using n by (simp only: f(3) img) simp
      show ?thesis
        using \<open>?ct = kVarChar\<close> False u assms(4) c sz all offs blob
        unfolding scan_page_column_def Let_def adj_def [symmetric] u scanned_def
        by (simp del: drop_drop drop_append concat_eq_Nil_conv)
    qed
  qed
qed

text \<open>The null bytes of a column are zero and as many as the rows need, unless a page has only empty
  strings.\<close>

definition nulls_clear :: "ColumnType \<Rightarrow> byte list list \<Rightarrow> byte list \<Rightarrow> bool" where
  "nulls_clear ct cells ns \<longleftrightarrow> (ct = kVarChar \<longrightarrow> [] \<notin> set cells) \<longrightarrow> set ns \<subseteq> {0} \<and> length cells \<le> 8 * length ns"

lemma nulls_page:
  assumes "batch_rep S b k rows" "list_all (row_ok S) rows" "length (batch_payload_bytes S lsn b) < 2 ^ 32" "rows \<noteq> []"
    and "ci < column_count S" "nulls_clear (sc_columns S ! ci) cells (sk_nulls c)"
  shows "nulls_clear (sc_columns S ! ci) (cells @ column_of rows ci)
    (sk_nulls (scan_page_column (batch_payload_bytes S lsn b) (length rows) (sc_columns S ! ci) ci c))"
proof -
  let ?ct = "sc_columns S ! ci" and ?new = "column_of rows ci" and ?p = "batch_payload_bytes S lsn b"
  obtain off r' where f: "u64_at ?p (32 + ci * 32 + 16) = word_of_nat (length (column_bytes_of ?ct ?new))"
      "length (column_bytes_of ?ct ?new) < 2 ^ 32" "column_count S < 2 ^ 32"
    using batch_payload_column [OF assms(1-3,5), of "[]"] by auto
  have u: "unat (u64_at ?p 16) = column_count S" "unat (u64_at ?p (32 + ci * 32 + 16)) = length (column_bytes_of ?ct ?new)"
    using f batch_payload_counts(2) [OF assms(1,2), of lsn "[]"] by (simp_all add: unat_word_of_nat64)
  have n: "length ?new = length rows" by (simp add: column_of_def)
  have z: "sk_nulls (scan_nulls ?p (length rows) ci c') = sk_nulls c' @ replicate ((length rows + 7) div 8) 0" for c'
    using batch_payload_nulls [OF assms(1-3,5)] u(1) assms(5) by (simp add: scan_nulls_def Let_def del: drop_drop)
  have "sk_nulls (scan_page_column ?p (length rows) ?ct ci c) = sk_nulls c @ replicate ((length rows + 7) div 8) 0"
    if "?ct = kVarChar \<longrightarrow> [] \<notin> set ?new"
  proof (cases "?ct = kVarChar")
    case False
    then show ?thesis by (simp add: scan_page_column_def Let_def z)
  next
    case True
    have "?new \<noteq> []" using n assms(4) by auto
    then have "concat ?new \<noteq> []" using that True by (metis concat_eq_Nil_conv hd_in_set)
    then have "\<not> length (column_bytes_of ?ct ?new) \<le> length rows * 4" using True n by (simp add: column_bytes_of_def)
    then show ?thesis using True u assms(5) by (simp add: scan_page_column_def Let_def z)
  qed
  then show ?thesis using assms(6) n by (auto simp: nulls_clear_def)
qed

section \<open>All pages\<close>

lemma read_page_img:
  assumes "page_img S k c img" "length c < 2 ^ 32" "mf_data (tb_file t) = mf_disk (tb_file t)"
    and "mf_size (tb_file t) = length (mf_disk (tb_file t))" "length (mf_disk (tb_file t)) < 2 ^ 64"
    and "drop off (mf_disk (tb_file t)) = img @ r" "off + length img \<le> length (mf_disk (tb_file t))"
  shows "\<exists>lsn b h. batch_rep S b k c \<and> length (batch_payload_bytes S lsn b) < 2 ^ 32 \<and>
    read_page t (word_of_nat off) = Inr img \<and> header_of_bytes img = Some (h, batch_payload_bytes S lsn b) \<and>
    unat (ph_row_count h) = length c \<and> kPageHeaderSize + unat (ph_data_size h) = length img"
proof -
  obtain lsn b where b: "batch_rep S b k c" "img = page_bytes S lsn b" "length (batch_payload_bytes S lsn b) < 2 ^ 32"
    using assms(1) by (auto simp: page_img_def)
  let ?P = "batch_payload_bytes S lsn b" and ?disk = "mf_disk (tb_file t)"
  have rc: "pb_row_count b = length c" using b(1) by (simp add: batch_rep_def)
  obtain h where h: "header_of_bytes (img @ r) = Some (h, ?P @ r)"
      "unat (ph_data_size h) = length ?P" "ph_row_count h = word_of_nat (length c)" "validate_page h (?P @ r) = kOk"
    using page_header_read [OF b(3), of r] rc b(2) assms(2) by auto
  obtain h' where h': "header_of_bytes img = Some (h', ?P)" "unat (ph_data_size h') = length ?P"
      "ph_row_count h' = word_of_nat (length c)" "validate_page h' ?P = kOk"
    using page_header_read [OF b(3), of "[]"] rc b(2) assms(2) by auto
  have len: "length img = 32 + length ?P" by (simp add: b(2) page_bytes_def Let_def)
  have img: "img = header_bytes h' @ ?P"
    using h'(1) header.dec_enc [of "batch_page_header (pb_row_count b) ?P" ?P] by (simp add: b(2) page_bytes_def Let_def)
  then have "header_of_bytes (img @ r) = Some (h', ?P @ r)" using header.dec_enc [of h' "?P @ r"] by simp
  with h(1) have hh: "h = h'" by simp
  have off: "unat (word_of_nat off :: u64) = off" "unat (word_of_nat off + word_of_nat kPageHeaderSize :: u64) = off + 32"
    "unat (word_of_nat off + word_of_nat (32 + length ?P) :: u64) = off + length img"
    using assms(5,7) len unat_word_of_nat64 [of off] unat_word_of_nat64 [of "off + 32"] unat_word_of_nat64 [of "off + (32 + length ?P)"]
    by (simp_all add: kPageHeaderSize_def)
  have "read_page_header t (word_of_nat off) = Inr h'"
    using h(1) hh assms(3,4,6,7) off len by (simp add: read_page_header_def)
  moreover have "take (32 + length ?P) (drop off ?disk) = img" using assms(6) len by simp
  moreover have "drop 32 img = ?P" by (simp add: img)
  ultimately have "read_page t (word_of_nat off) = Inr img"
    using h'(2,4) assms(3,4,7) off len by (simp add: read_page_def Let_def kPageHeaderSize_def)
  moreover have "unat (word_of_nat (length c) :: u32) = length c" using assms(2) by (simp add: unat_word_of_nat32)
  ultimately show ?thesis using b h' len by (intro exI [of _ lsn] exI [of _ b] exI [of _ h']) (simp add: kPageHeaderSize_def)
qed

definition all_scanned :: "Schema \<Rightarrow> Cells list \<Rightarrow> ScanColumn list \<Rightarrow> bool" where
  "all_scanned S rows cs \<longleftrightarrow> length cs = column_count S \<and>
     (\<forall>ci < column_count S. scanned (sc_columns S ! ci) (column_of rows ci) (cs ! ci) \<and>
        nulls_clear (sc_columns S ! ci) (column_of rows ci) (sk_nulls (cs ! ci)))"

lemma all_scanned_page:
  assumes "all_scanned S rows cs" "batch_rep S b k c" "list_all (row_ok S) c" "length (batch_payload_bytes S lsn b) < 2 ^ 32" "c \<noteq> []"
  shows "all_scanned S (rows @ c) (scan_page S (batch_payload_bytes S lsn b) (length c) cs)"
  using assms(1) scanned_page [OF assms(2-4), of _ _ _ "[]"] nulls_page [OF assms(2-5)]
  by (simp add: all_scanned_def scan_page_def column_of_def)

lemma scan_loop_pages:
  assumes "chunks_rep t pcs []" "table_small t" "mf_disk (tb_file t) = concat imgs" "length imgs = length pcs"
    and "\<And>i. i < length pcs \<Longrightarrow> page_img (tb_schema t) (chunk_start pcs i) (pcs ! i) (imgs ! i)"
    and "i \<le> length pcs" "all_scanned (tb_schema t) (concat (take i pcs)) cs"
  shows "\<exists>cs'. scan_loop t (chunk_start imgs i) (chunk_start pcs i) cs = (length (concat pcs), cs') \<and>
    all_scanned (tb_schema t) (concat pcs) cs'"
  using assms(6,7)
proof (induction arbitrary: cs rule: inc_induct)
  case base
  have "mf_size (tb_file t) = length (concat imgs)"
    using assms(1,3) by (simp add: chunks_rep_def mmap_inv_def)
  then have "scan_loop t (length (concat imgs)) (length (concat pcs)) cs = (length (concat pcs), cs)"
    by (subst scan_loop.simps) (simp add: kPageHeaderSize_def)
  then show ?case
    using base assms(4) chunk_start_append(2) [of imgs] chunk_start_append(2) [of pcs] by simp
next
  case (step j)
  let ?S = "tb_schema t" and ?disk = "mf_disk (tb_file t)"
  have j: "j < length imgs" "j < length pcs" using step assms(4) by simp_all
  have inv: "mf_size (tb_file t) = length ?disk" "mf_data (tb_file t) = ?disk"
    using assms(1) by (simp_all add: chunks_rep_def mmap_inv_data) (simp add: mmap_inv_def)
  have "list_all (row_ok ?S) (pcs ! j)" and ne: "pcs ! j \<noteq> []" and small: "length (pcs ! j) < 2 ^ 32"
    using assms(1) j(2) kBatchSize_small by (auto simp: chunks_rep_def chunks_ok_def list_all_length)
  moreover have at: "drop (chunk_start imgs j) ?disk = imgs ! j @ concat (drop (Suc j) imgs)"
    using concat_drop_nth [OF j(1)] by (simp add: assms(3) chunk_start_def)
  moreover have le: "chunk_start imgs j + length (imgs ! j) \<le> length ?disk" using chunk_start_end [OF j(1)] assms(3) by simp
  ultimately obtain lsn b h where p: "batch_rep ?S b (chunk_start pcs j) (pcs ! j)" "length (batch_payload_bytes ?S lsn b) < 2 ^ 32"
      "read_page t (word_of_nat (chunk_start imgs j)) = Inr (imgs ! j)" "header_of_bytes (imgs ! j) = Some (h, batch_payload_bytes ?S lsn b)"
      "unat (ph_row_count h) = length (pcs ! j)" "kPageHeaderSize + unat (ph_data_size h) = length (imgs ! j)"
    using read_page_img [OF assms(5) [OF j(2)] small inv(2,1) _ at le] assms(2) by (auto simp: table_small_def)
  let ?cs = "scan_page ?S (batch_payload_bytes ?S lsn b) (length (pcs ! j)) cs"
  have "all_scanned ?S (concat (take (Suc j) pcs)) ?cs"
    using all_scanned_page [OF step.prems p(1) _ p(2) ne] \<open>list_all (row_ok ?S) (pcs ! j)\<close> j(2) by (simp add: take_Suc_conv_app_nth)
  moreover have "scan_loop t (chunk_start imgs j) (chunk_start pcs j) cs =
      scan_loop t (chunk_start imgs (Suc j)) (chunk_start pcs (Suc j)) ?cs"
    using p(3-6) le inv(1) j by (subst scan_loop.simps) (simp add: chunk_start_Suc)
  ultimately show ?case using step.IH by simp
qed

lemma scan_all_rows:
  assumes "table_rep t rows" "table_small t" "pending t = []" "rows \<noteq> []" "column_count (tb_schema t) \<noteq> 0"
  shows "\<exists>scan. read_table_columns t = Inr scan \<and> sr_row_count scan = length rows \<and>
    length (sr_columns scan) = column_count (tb_schema t) \<and>
    (\<forall>ci < column_count (tb_schema t).
       cd_data (sr_columns scan ! ci) = column_bytes_of (sc_columns (tb_schema t) ! ci) (column_of rows ci) \<and>
       cd_type (sr_columns scan ! ci) = column_type_tag (sc_columns (tb_schema t) ! ci) \<and>
       sr_col_data scan ! ci = cd_data (sr_columns scan ! ci) \<and>
       (\<exists>ns. cd_nulls (sr_columns scan ! ci) = (if ns = [] then None else Some ns) \<and>
         nulls_clear (sc_columns (tb_schema t) ! ci) (column_of rows ci) ns))"
proof -
  let ?S = "tb_schema t" and ?cc = "column_count (tb_schema t)"
  obtain pcs where rep: "chunks_rep t pcs []" and rows: "rows = concat pcs"
    using assms(1,3) by (fastforce simp: table_rep_def chunks_rep_def batches_rep_def)
  obtain imgs where imgs: "mf_disk (tb_file t) = concat imgs" "length imgs = length pcs"
      "\<And>i. i < length pcs \<Longrightarrow> page_img ?S (chunk_start pcs i) (pcs ! i) (imgs ! i)"
    using rep by (auto simp: chunks_rep_def pages_rep_def)
  have "all_scanned ?S (concat (take 0 pcs)) (replicate ?cc scan_column_init)"
    by (simp add: all_scanned_def scanned_def scan_column_init_def column_of_def nulls_clear_def)
  from scan_loop_pages [OF rep assms(2) imgs(1,2,3) _ this]
  obtain cs where cs: "scan_loop t 0 0 (replicate ?cc scan_column_init) = (length rows, cs)" "all_scanned ?S rows cs"
    by (auto simp: rows)
  have "pcs \<noteq> []" using rows assms(4) by auto
  then have "imgs ! 0 \<noteq> []" "imgs ! 0 \<in> set imgs"
    using imgs(2) imgs(3) [of 0] page_bytes_ne by (metis length_greater_0_conv page_img_def, metis length_greater_0_conv nth_mem)
  then have "concat imgs \<noteq> []" by auto
  then have "mf_fd (tb_file t)" "mf_size (tb_file t) \<noteq> 0"
    using rep imgs(1) by (auto simp: chunks_rep_def mmap_inv_def)
  moreover have "scan_column_data (sc_columns ?S ! ci) (cs ! ci) =
      \<lparr>cd_type = column_type_tag (sc_columns ?S ! ci),
       cd_data = column_bytes_of (sc_columns ?S ! ci) (column_of rows ci),
       cd_nulls = (if sk_nulls (cs ! ci) = [] then None else Some (sk_nulls (cs ! ci)))\<rparr>" if "ci < ?cc" for ci
    using cs(2) that by (auto simp: all_scanned_def scanned_def scan_column_data_def column_bytes_of_def)
  ultimately show ?thesis
    using cs assms(5) by (auto simp: read_table_columns_def Let_def all_scanned_def column_count_def)
qed

text \<open>
  C16: After a flush, the full scan of a table delivers every row of its history, if the flush and
  every earlier write to the file succeeded and pages and file keep to the sizes of their fields:
  the row count is right, and each column holds the cells of all rows in row order, strings
  behind their cumulative end offsets. (After a failed flush pages can be missing:
  \<open>failed_flush_destroys_pages\<close>.)
\<close>

theorem scan_after_flush_complete:
  assumes "table_history t rows" "list_all os_ok envs" "list_all (batch_small (tb_schema t)) (pending t)"
    and "flush_pending envs t = (st, t')" "table_small t'" "rows \<noteq> []" "column_count (tb_schema t) \<noteq> 0"
  shows "st = kOk \<and> (\<exists>scan. read_table_columns t' = Inr scan \<and> sr_row_count scan = length rows \<and>
    (\<forall>ci < column_count (tb_schema t).
       cd_data (sr_columns scan ! ci) = column_bytes_of (sc_columns (tb_schema t) ! ci) (map (\<lambda>r. r ! ci) rows)))"
proof -
  from flush_pending_rep [OF history_rep [OF assms(1)] assms(2,3)] assms(4)
  have t': "st = kOk" "table_rep t' rows" "pending t' = []" "tb_schema t' = tb_schema t" by auto
  from scan_all_rows [OF t'(2) assms(5) t'(3) assms(6)] assms(7) t'(1,4) show ?thesis
    by (auto simp: column_of_def)
qed

lemma sample_row_pending:
  assumes "table_rep t [sample_row]" "tb_schema t = sample_schema" and disk: "mf_disk (tb_file t) = []"
  shows "\<exists>b. pending t = [b] \<and> batch_small sample_schema b"
proof -
  obtain pcs ucs where rep: "chunks_rep t pcs ucs" "[sample_row] = concat (pcs @ ucs)"
    using assms(1) by (auto simp: table_rep_def)
  have ne: "c \<noteq> []" if "c \<in> set (pcs @ ucs)" for c
    using rep(1) that by (auto simp: chunks_rep_def chunks_ok_def list_all_iff)
  have "pcs = []"
  proof (rule ccontr)
    assume "pcs \<noteq> []"
    with rep(1) disk obtain imgs where "concat imgs = []" "length imgs = length pcs"
      "page_img sample_schema 0 (pcs ! 0) (imgs ! 0)"
      using assms(2) by (fastforce simp: chunks_rep_def pages_rep_def)
    with \<open>pcs \<noteq> []\<close> page_bytes_ne show False
      by (metis (no_types, lifting) concat_eq_Nil_conv length_greater_0_conv nth_mem page_img_def)
  qed
  with rep(2) have cu: "concat ucs = [sample_row]" by simp
  have "ucs = [[sample_row]]"
  proof (cases ucs)
    case (Cons c cs)
    have "c \<noteq> []" "concat cs = [] \<Longrightarrow> cs = []" using ne Cons by (auto simp: neq_Nil_conv)
    then show ?thesis using cu Cons by (cases c) (auto simp: append_eq_Cons_conv)
  qed (use cu in simp)
  then obtain b where b: "pending t = [b]" "batch_rep sample_schema b 0 [sample_row]"
    using rep(1) assms(2) \<open>pcs = []\<close> by (auto simp: chunks_rep_def batches_rep_def length_Suc_conv)
  have "batch_rep sample_schema (batch_of sample_schema [sample_row]) 0 [sample_row]" by (simp add: batch_rep_def batch_of_def)
  moreover have cells: "list_all (cell_ok kInt32) [[7, 0, 0, 0]]" "list_all (cell_ok kVarChar) [[0x68, 0x69]]"
    by (simp_all add: cell_ok_def)
  ultimately have "batch_small sample_schema (batch_of sample_schema [sample_row])"
    using column_image_eq [OF cells(1)] column_image_eq [OF cells(2)]
    by (simp add: batch_small_def batch_payload_bytes_def Let_def batch_header_fields(1) batch_of_def sample_schema_def
        column_count_def column_of_def sample_row_def column_bytes_of_def pad8_def upt_rec)
  then have "batch_small sample_schema b" using b batch_small_rep by metis
  with b(1) show ?thesis by blast
qed

lemma sample_pending: "\<exists>b. pending sample_table = [b] \<and> batch_small sample_schema b"
proof (rule sample_row_pending [OF history_rep [OF sample_history] sample_small(2)])
  have "mf_disk (tb_file sample_empty) = []"
    by (simp add: sample_empty_def open_file_def table_init_def mmap_open_def mmap_init_def os_fine_def)
  then show "mf_disk (tb_file sample_table) = []" using sample_inserted insert_row_same by force
qed

text \<open>A page is below 4 GiB, so a table with few enough rows stays below \<open>2^64\<close> bytes.\<close>

lemma few_rows_small:
  assumes "table_rep t rows" "length rows < 2 ^ 30" "pending t = []"
  shows "table_small t"
proof -
  obtain pcs where rep: "chunks_rep t pcs []" and rows: "rows = concat pcs"
    using assms(1,3) by (fastforce simp: table_rep_def chunks_rep_def batches_rep_def)
  obtain imgs where imgs: "mf_disk (tb_file t) = concat imgs" "length imgs = length pcs"
      "\<And>i. i < length pcs \<Longrightarrow> page_img (tb_schema t) (chunk_start pcs i) (pcs ! i) (imgs ! i)"
    using rep by (auto simp: chunks_rep_def pages_rep_def)
  have "length img \<le> 2 ^ 33" if "img \<in> set imgs" for img
    using that imgs(2,3) by (fastforce simp: in_set_conv_nth page_img_def page_bytes_def Let_def)
  then have "length (concat imgs) \<le> length imgs * 2 ^ 33"
    unfolding length_concat by (induction imgs) (simp_all, fastforce)
  moreover have "length cs \<le> length (concat cs)" if "\<forall>c \<in> set cs. c \<noteq> []" for cs :: "Cells list list"
    using that by (induction cs) (auto simp: Suc_le_eq, metis add_lessD1 le_add2 length_greater_0_conv less_add_same_cancel2 order_le_less_trans)
  then have "length pcs \<le> length rows"
    using rep rows by (simp add: chunks_rep_def chunks_ok_def list_all_iff)
  ultimately show ?thesis
    using assms(2) imgs(1,2) rep rows by (simp add: table_small_def chunks_rep_def)
qed

theorem scan_after_flush_complete_witness:
  "\<exists>scan. read_table_columns (snd (flush_pending [] sample_table)) = Inr scan \<and> sr_row_count scan = 1 \<and>
    cd_data (sr_columns scan ! 1) = [2, 0, 0, 0, 0x68, 0x69]"
proof -
  obtain st t' where t': "flush_pending [] sample_table = (st, t')" by fastforce
  have small: "list_all (batch_small (tb_schema sample_table)) (pending sample_table)"
    using sample_pending sample_small(2) by auto
  then have "table_small t'"
    using flush_pending_rep [OF history_rep [OF sample_history], of "[]"] t' few_rows_small [of t' "[sample_row]"] by auto
  moreover have "put_u32 2 = [2, 0, 0, 0]" by code_simp
  ultimately show ?thesis
    using scan_after_flush_complete [OF sample_history _ small t'] t'
    by (auto simp: sample_small(2) sample_schema_def column_count_def sample_row_def column_bytes_of_def)
qed

end
