(* ===== verification/Gc.thy ===== *)
theory Gc
  imports Table_Read
begin

text \<open>
  The garbage collector of \<open>src/src/mvcc/gc.hpp\<close> and \<open>gc.cpp\<close>: one pass of its loop computes
  a cutoff timestamp and prunes the version index of every table up to it, within a budget of
  bytes. The loop of the thread around it is in \<open>Background\<close>.
\<close>

definition kIndexEntrySize :: nat where "kIndexEntrySize = 32"

definition compute_cutoff :: "GlobalWatermarks \<Rightarrow> TimestampAllocator \<Rightarrow> Timestamp \<times> TimestampAllocator" where
  "compute_cutoff marks a =
     (let (alloc_ts, a') = allocate_ts a; min_read = min_active_read_ts marks
      in (if alloc_ts \<le> 1 then 0
          else if 0 < min_read \<and> min_read < alloc_ts - 1 then min_read
          else alloc_ts - 1, a'))"

text \<open>The outcomes of the system calls of the flushes are given per table.\<close>

fun prune_tables_loop :: "Timestamp \<Rightarrow> nat \<Rightarrow> (nat \<Rightarrow> OsEnv list) \<Rightarrow> nat \<Rightarrow> Table list \<Rightarrow> Table list" where
  "prune_tables_loop cutoff budget envs i [] = []"
| "prune_tables_loop cutoff budget envs i (t # ts) =
     (if version_index_size t = 0 then t # prune_tables_loop cutoff budget envs (Suc i) ts
      else
        let t1 = snd (flush_pending (envs i) t);
            (removed, t2) = prune_version_index cutoff t1;
            bytes = removed * kIndexEntrySize
        in if budget \<le> bytes then t2 # ts
           else t2 # prune_tables_loop cutoff (budget - bytes) envs (Suc i) ts)"

definition prune_tables :: "Timestamp \<Rightarrow> (nat \<Rightarrow> OsEnv list) \<Rightarrow> Table list \<Rightarrow> Table list" where
  "prune_tables cutoff envs ts =
     (if cutoff = 0 then ts else prune_tables_loop cutoff kGcMaxBytesPerSec envs 0 ts)"

definition gc_pass :: "GlobalWatermarks \<Rightarrow> (nat \<Rightarrow> OsEnv list) \<Rightarrow> TimestampAllocator \<Rightarrow> Table list
    \<Rightarrow> TimestampAllocator \<times> Table list" where
  "gc_pass marks envs a ts =
     (let (cutoff, a') = compute_cutoff marks a
      in (a', if cutoff = 0 then ts else prune_tables cutoff envs ts))"

end
