(* ===== verification/Database.thy ===== *)
theory Database
  imports Table_Scan Gc Wal
begin

text \<open>
  \<open>src/src/db\<close>: transactions (\<open>transaction.hpp\<close>, \<open>transaction.cpp\<close>), the database
  (\<open>database.hpp\<close>, \<open>database.cpp\<close>) without opening and recovery, and the connection of
  \<open>src/src/query/connection.hpp\<close>. A database is one record: tables, timestamp allocator,
  transaction manager, log writer, and the files of its directory.

  A \<open>shared_ptr<Transaction>\<close> is the number of the transaction, the object itself lies in
  \<open>db_txns\<close>, so every holder of the pointer sees the same state. The contents of the files that
  are mapped (tables and indexes) are part of their table; \<open>db_files\<close> has the files that were
  written or closed, by name. \<open>db_hooked\<close> names the indexes, by table and column, whose tree has
  a full-page-write callback: those that were opened, not those that were created. Outcomes of system calls are arguments. A result \<open>None\<close> is an
  exception, or an insertion that waits for a free batch.
\<close>

section \<open>Data\<close>

datatype TransactionState = kActive | kCommitted | kAborted

record Transaction =
  tx_id :: TxId
  tx_read_ts :: Timestamp
  tx_state :: TransactionState
  tx_start_lsn :: Lsn
  tx_write_set :: "(TableId \<times> RowId list) list"

type_synonym Files = "(string \<times> byte list) list"

record Database =
  db_is_open :: bool
  db_tables :: "Table list"
  db_timestamps :: TimestampAllocator
  db_watermarks :: GlobalWatermarks
  db_next_tx_id :: TxId
  db_txns :: "TxId \<rightharpoonup> Transaction"
  db_active_txns :: "TxId list"
  db_wal :: WalWriter
  db_wal_dir :: WalDir
  db_files :: Files
  db_backup_in_progress :: bool
  db_logged_pages :: "(TableId \<times> PageId \<times> u32) list"
  db_backup_interval :: u32
  db_backup_retention :: u32
  db_hooked :: "(TableId \<times> nat) list"

definition set_table :: "TableId \<Rightarrow> Table \<Rightarrow> Database \<Rightarrow> Database" where
  "set_table tid t db = db\<lparr>db_tables := (db_tables db)[unat tid := t]\<rparr>"

definition set_log :: "WalWriter \<times> WalDir \<Rightarrow> Database \<Rightarrow> Database" where
  "set_log l db = db\<lparr>db_wal := fst l, db_wal_dir := snd l\<rparr>"

section \<open>Transactions\<close>

text \<open>\<open>write_set[table_id]\<close> creates the list of a table when it is first used.\<close>

fun add_writes :: "TableId \<Rightarrow> RowId list \<Rightarrow> (TableId \<times> RowId list) list \<Rightarrow> (TableId \<times> RowId list) list" where
  "add_writes tid rids [] = [(tid, rids)]"
| "add_writes tid rids ((i, rs) # ws) =
     (if i = tid then (i, rs @ rids) # ws else (i, rs) # add_writes tid rids ws)"

definition log_writes :: "TxId \<Rightarrow> TableId \<Rightarrow> RowId list \<Rightarrow> Database \<Rightarrow> Database" where
  "log_writes tx tid rids db =
     db\<lparr>db_txns := (db_txns db)(tx := map_option
         (\<lambda>x. x\<lparr>tx_write_set := add_writes tid rids (tx_write_set x)\<rparr>) (db_txns db tx))\<rparr>"

definition txn_begin :: "WalEnv \<Rightarrow> Database \<Rightarrow> TxId option \<times> Database" where
  "txn_begin env db =
     (let tx = db_next_tx_id db; db1 = db\<lparr>db_next_tx_id := tx + 1\<rparr>
      in case append_begin env tx (db_wal db) (db_wal_dir db) of
           (Inl e, l) \<Rightarrow> (None, set_log l db1)
         | (Inr lsn, l) \<Rightarrow>
             (Some tx, (set_log l db1)\<lparr>
                db_txns := (db_txns db)(tx \<mapsto>
                  \<lparr>tx_id = tx, tx_read_ts = ts_current (db_timestamps db), tx_state = kActive,
                   tx_start_lsn = lsn, tx_write_set = []\<rparr>),
                db_active_txns := (if tx \<in> set (db_active_txns db) then db_active_txns db
                                   else db_active_txns db @ [tx])\<rparr>))"

text \<open>The loop over the write set; \<open>Database::table\<close> throws for a table that does not exist.\<close>

fun commit_tables :: "TxId \<Rightarrow> Timestamp \<Rightarrow> (TableId \<times> RowId list) list \<Rightarrow> Table list \<Rightarrow> Table list option" where
  "commit_tables tx ts [] tables = Some tables"
| "commit_tables tx ts ((tid, rows) # ws) tables =
     (if length tables \<le> unat tid then None
      else commit_tables tx ts ws (tables[unat tid := table_commit_rows rows tx ts (tables ! unat tid)]))"

definition end_txn :: "TxId \<Rightarrow> Transaction \<Rightarrow> TransactionState \<Rightarrow> Database \<Rightarrow> Database" where
  "end_txn tx x st db =
     db\<lparr>db_txns := (db_txns db)(tx \<mapsto> x\<lparr>tx_state := st\<rparr>), db_active_txns := removeAll tx (db_active_txns db)\<rparr>"

definition txn_commit :: "WalEnv \<Rightarrow> WalEnv \<Rightarrow> TxId \<Rightarrow> Database \<Rightarrow> (Status_Code \<times> Database) option" where
  "txn_commit env flush_env tx db =
     (case db_txns db tx of None \<Rightarrow> Some (kInvalidArgument, db)
      | Some x \<Rightarrow>
          if tx_state x \<noteq> kActive then Some (kInvalidArgument, db)
          else
            let (commit_ts, a) = allocate_ts (db_timestamps db);
                db1 = db\<lparr>db_timestamps := a\<rparr>
            in (case append_commit env tx commit_ts (db_wal db1) (db_wal_dir db1) of
                  (Inl e, l) \<Rightarrow> Some (e, set_log l db1)
                | (Inr lsn, w, d) \<Rightarrow>
                    let db2 = set_log (snd (ww_flush flush_env w), d) db1
                    in map_option (\<lambda>ts. (kOk, end_txn tx x kCommitted (db2\<lparr>db_tables := ts\<rparr>)))
                         (commit_tables tx commit_ts (tx_write_set x) (db_tables db2))))"

definition txn_rollback :: "WalEnv \<Rightarrow> TxId \<Rightarrow> Database \<Rightarrow> (Status_Code \<times> Database) option" where
  "txn_rollback env tx db =
     (case db_txns db tx of None \<Rightarrow> Some (kInvalidArgument, db)
      | Some x \<Rightarrow>
          if tx_state x \<noteq> kActive then Some (kInvalidArgument, db)
          else
            (case append_rollback env tx (db_wal db) (db_wal_dir db) of
               (Inl e, l) \<Rightarrow> Some (e, set_log l db)
             | (Inr lsn, l) \<Rightarrow>
                 map_option (\<lambda>ts. (kOk, end_txn tx x kAborted ((set_log l db)\<lparr>db_tables := ts\<rparr>)))
                   (commit_tables tx (-1) (tx_write_set x) (db_tables db))))"

definition oldest_active_lsn :: "Database \<Rightarrow> Lsn" where
  "oldest_active_lsn db =
     foldl (\<lambda>oldest tx. case db_txns db tx of None \<Rightarrow> oldest
        | Some x \<Rightarrow> if 0 < tx_start_lsn x \<and> tx_start_lsn x < oldest then tx_start_lsn x else oldest)
       (-1) (db_active_txns db)"

text \<open>The connection: its transaction, if it is in one. A failed \<open>begin\<close> leaves no transaction
  and still reports success; a failed commit or rollback drops the transaction.\<close>

definition conn_begin :: "WalEnv \<Rightarrow> TxId option \<Rightarrow> Database \<Rightarrow> Status_Code \<times> TxId option \<times> Database" where
  "conn_begin env c db =
     (case c of Some tx \<Rightarrow> (kInvalidArgument, c, db)
      | None \<Rightarrow> (let (tx, db') = txn_begin env db in (kOk, tx, db')))"

definition conn_commit :: "WalEnv \<Rightarrow> WalEnv \<Rightarrow> TxId option \<Rightarrow> Database
    \<Rightarrow> (Status_Code \<times> TxId option \<times> Database) option" where
  "conn_commit env fenv c db =
     (case c of None \<Rightarrow> Some (kInvalidArgument, c, db)
      | Some tx \<Rightarrow> map_option (\<lambda>(s, db'). (s, None, db')) (txn_commit env fenv tx db))"

definition conn_rollback :: "WalEnv \<Rightarrow> TxId option \<Rightarrow> Database
    \<Rightarrow> (Status_Code \<times> TxId option \<times> Database) option" where
  "conn_rollback env c db =
     (case c of None \<Rightarrow> Some (kInvalidArgument, c, db)
      | Some tx \<Rightarrow> map_option (\<lambda>(s, db'). (s, None, db')) (txn_rollback env tx db))"

section \<open>Schemas on disk\<close>

definition column_def_bytes :: "string \<Rightarrow> ColumnType \<Rightarrow> byte list" where
  "column_def_bytes name ct =
     put_u32 (word_of_nat (length name)) @ take (unat (word_of_nat (length name) :: u32)) (string_bytes name) @
     [column_type_tag ct]"

definition schema_to_bytes :: "Schema \<Rightarrow> byte list" where
  "schema_to_bytes S =
     (let n = unat (word_of_nat (length (sc_columns S)) :: u32)
      in put_u32 (word_of_nat (length (sc_columns S))) @
         concat (map (\<lambda>i. column_def_bytes (sc_names S ! i) (sc_columns S ! i)) [0..<n]))"

text \<open>A byte that is no member of the enumeration is outside the model (\<open>None\<close>).\<close>

definition column_type_of_tag :: "byte \<Rightarrow> ColumnType option" where
  "column_type_of_tag b = find (\<lambda>ct. column_type_tag ct = b) [kInt32, kInt64, kFloat64, kBool, kVarChar, kTimestamp]"

fun schema_columns_from :: "nat \<Rightarrow> byte list \<Rightarrow> (string list \<times> ColumnType list) StatusOr option" where
  "schema_columns_from 0 bs = Some (Inr ([], []))"
| "schema_columns_from (Suc n) bs =
     (case get_u32 bs of None \<Rightarrow> Some (Inl kCorruptedData)
      | Some (len, r) \<Rightarrow>
          (case get_bytes (unat len) r of None \<Rightarrow> Some (Inl kCorruptedData)
           | Some (name, r1) \<Rightarrow>
               (case get_u8 r1 of None \<Rightarrow> Some (Inl kCorruptedData)
                | Some (tag, r2) \<Rightarrow>
                    (case column_type_of_tag tag of None \<Rightarrow> None
                     | Some ct \<Rightarrow>
                         map_option (map_sum id (\<lambda>(ns, cts). (bytes_string name # ns, ct # cts)))
                           (schema_columns_from n r2)))))"

definition schema_from_bytes :: "byte list \<Rightarrow> Schema StatusOr option" where
  "schema_from_bytes bs =
     (case get_u32 bs of None \<Rightarrow> Some (Inl kCorruptedData)
      | Some (n, r) \<Rightarrow>
          map_option (map_sum id (\<lambda>(ns, cts). \<lparr>sc_columns = cts, sc_names = ns\<rparr>))
            (schema_columns_from (unat n) r))"

section \<open>Files\<close>

fun file_put :: "string \<Rightarrow> byte list \<Rightarrow> Files \<Rightarrow> Files" where
  "file_put n bs [] = [(n, bs)]"
| "file_put n bs ((m, c) # fs) = (if m = n then (m, bs) # fs else (m, c) # file_put n bs fs)"

definition file_remove :: "string \<Rightarrow> Files \<Rightarrow> Files" where
  "file_remove n fs = filter (\<lambda>(m, c). m \<noteq> n) fs"

text \<open>Writing a file: whether it opens, and how many bytes reach it if the write fails.\<close>

record FileEnv =
  fe_open :: bool
  fe_fail :: "nat option"

definition fe_fine :: FileEnv where "fe_fine = \<lparr>fe_open = True, fe_fail = None\<rparr>"

definition write_file :: "FileEnv \<Rightarrow> string \<Rightarrow> byte list \<Rightarrow> Files \<Rightarrow> Status_Code \<times> Files" where
  "write_file env name bs fs =
     (if \<not> fe_open env then (kIoError, fs)
      else case fe_fail env of None \<Rightarrow> (kOk, file_put name bs fs)
           | Some k \<Rightarrow> (kIoError, file_put name (take k bs) fs))"

definition read_file :: "bool \<Rightarrow> string \<Rightarrow> Files \<Rightarrow> byte list StatusOr" where
  "read_file opened name fs =
     (if opened then case map_of fs name of None \<Rightarrow> Inl kIoError | Some bs \<Rightarrow> Inr bs else Inl kIoError)"

definition raw_name :: "string \<Rightarrow> string" where "raw_name n = n @ ''.raw''"
definition vindex_name :: "string \<Rightarrow> string" where "vindex_name n = n @ ''.vindex''"
definition schema_name :: "string \<Rightarrow> string" where "schema_name n = n @ ''.schema''"
definition idx_name :: "string \<Rightarrow> nat \<Rightarrow> string" where "idx_name n c = n @ ''_'' @ dec c @ ''.idx''"

definition put_vindex :: "FileEnv \<Rightarrow> Table \<Rightarrow> Files \<Rightarrow> Table \<times> Files" where
  "put_vindex env t fs =
     (let (st, bs, t') = save_vindex (fe_open env) (fe_fail env = None) t
      in (t', case bs of None \<Rightarrow> fs
              | Some b \<Rightarrow> file_put (vindex_name (tb_name t)) (case fe_fail env of None \<Rightarrow> b | Some k \<Rightarrow> take k b) fs))"

section \<open>Operations on tables\<close>

definition create_table :: "OsEnv \<Rightarrow> FileEnv \<Rightarrow> string \<Rightarrow> Schema \<Rightarrow> Database \<Rightarrow> TableId StatusOr \<times> Database" where
  "create_table env fenv name S db =
     (if \<not> db_is_open db then (Inl kInvalidArgument, db)
      else
        let contents = (case map_of (db_files db) (raw_name name) of None \<Rightarrow> [] | Some bs \<Rightarrow> bs)
        in case open_file env contents (table_init name S) of
             (st, t) \<Rightarrow>
               if st \<noteq> kOk then (Inl st, db)
               else
                 let (st', fs) = write_file fenv (schema_name name) (schema_to_bytes S) (db_files db)
                 in if st' \<noteq> kOk
                    then (Inl kIoError, db\<lparr>db_files := file_put (raw_name name) (mf_disk (tb_file t)) fs\<rparr>)
                    else (Inr (word_of_nat (length (db_tables db))),
                          db\<lparr>db_tables := db_tables db @ [t], db_files := fs\<rparr>))"

abbreviation tx_of :: "TxId option \<Rightarrow> TxId" where
  "tx_of c \<equiv> (case c of None \<Rightarrow> kInvalidTxId | Some tx \<Rightarrow> tx)"

definition db_insert :: "WalEnv \<Rightarrow> TableId \<Rightarrow> ColumnData list \<Rightarrow> TxId option \<Rightarrow> Database
    \<Rightarrow> (RowId StatusOr \<times> Database) option" where
  "db_insert env tid columns c db =
     (if length (db_tables db) \<le> unat tid then Some (Inl kInvalidArgument, db)
      else case append_insert env (tx_of c) tid columns (db_wal db) (db_wal_dir db) of
             (Inl e, l) \<Rightarrow> Some (Inl e, set_log l db)
           | (Inr lsn, l) \<Rightarrow>
               let t = (db_tables db ! unat tid)\<lparr>tb_lsn := lsn\<rparr>; db1 = set_log l db
               in (case c of
                     Some tx \<Rightarrow>
                       map_option (\<lambda>(r, t'). (r, (case r of Inl e \<Rightarrow> id | Inr rid \<Rightarrow> log_writes tx tid [rid])
                           (set_table tid t' db1)))
                         (insert_row (tx OR kTxIdFlag) columns t)
                   | None \<Rightarrow>
                       map_option (\<lambda>(r, t', a). (r, (set_table tid t' db1)\<lparr>db_timestamps := a\<rparr>))
                         (insert_row_alloc (db_timestamps db1) columns t)))"

definition db_insert_batch :: "WalEnv \<Rightarrow> TableId \<Rightarrow> ColumnData list list \<Rightarrow> TxId option \<Rightarrow> Database
    \<Rightarrow> (RowId list StatusOr \<times> Database) option" where
  "db_insert_batch env tid rows c db =
     (if length (db_tables db) \<le> unat tid then Some (Inl kInvalidArgument, db)
      else case append_insert_batch env (tx_of c) tid rows (db_wal db) (db_wal_dir db) of
             (Inl e, l) \<Rightarrow> Some (Inl e, set_log l db)
           | (Inr lsn, l) \<Rightarrow>
               let t = (db_tables db ! unat tid)\<lparr>tb_lsn := lsn\<rparr>; db1 = set_log l db
               in (case c of
                     Some tx \<Rightarrow>
                       map_option (\<lambda>(r, t'). (r, (case r of Inl e \<Rightarrow> id | Inr rids \<Rightarrow> log_writes tx tid rids)
                           (set_table tid t' db1)))
                         (insert_rows (tx OR kTxIdFlag) rows t)
                   | None \<Rightarrow>
                       map_option (\<lambda>(r, t', a). (r, (set_table tid t' db1)\<lparr>db_timestamps := a\<rparr>))
                         (insert_rows_alloc (db_timestamps db1) rows t)))"

definition tombstones :: "Timestamp \<Rightarrow> RowId list \<Rightarrow> IndexEntry list" where
  "tombstones ts rids = map (\<lambda>rid. \<lparr>ie_row_id = rid, ie_ts = ts, ie_offset = kNotFoundOff, ie_row_size = 0\<rparr>) rids"

definition db_delete_rows :: "WalEnv \<Rightarrow> TableId \<Rightarrow> RowId list \<Rightarrow> TxId option \<Rightarrow> Database \<Rightarrow> Status_Code \<times> Database" where
  "db_delete_rows env tid rids c db =
     (if length (db_tables db) \<le> unat tid then (kInvalidArgument, db)
      else case append_delete env (tx_of c) tid rids (db_wal db) (db_wal_dir db) of
             (Inl e, l) \<Rightarrow> (e, set_log l db)
           | (Inr lsn, l) \<Rightarrow>
               let t = (db_tables db ! unat tid)\<lparr>tb_lsn := lsn\<rparr>; db1 = set_log l db
               in (case c of
                     Some tx \<Rightarrow>
                       (kOk, log_writes tx tid rids
                         (set_table tid (insert_version_entries (tombstones (tx OR kTxIdFlag) rids) t) db1))
                   | None \<Rightarrow>
                       let (ts, a) = allocate_ts (db_timestamps db1)
                       in (kOk, (set_table tid (insert_version_entries (tombstones ts rids) t) db1)\<lparr>db_timestamps := a\<rparr>)))"

end
