(* ===== verification/Db_Maintain.thy ===== *)
theory Db_Maintain
  imports Database
begin

text \<open>
  The rest of \<open>src/src/db/database.cpp\<close> that works on an open database: closing, vacuum with the
  rebuilding of the indexes, checkpoints, backups and their removal, and the callback that logs
  full page images while a backup runs.
\<close>

section \<open>The directory\<close>

definition put_indexes :: "Table \<Rightarrow> Files \<Rightarrow> Files" where
  "put_indexes t fs =
     fold (\<lambda>ix. file_put (idx_name (tb_name t) (ix_column_idx ix)) (mf_disk (bt_file (ix_tree ix)))) (tb_indexes t) fs"

definition put_table :: "Table \<Rightarrow> Files \<Rightarrow> Files" where
  "put_table t fs = put_indexes t (file_put (raw_name (tb_name t)) (mf_disk (tb_file t)) fs)"

text \<open>The files as they are on disk, the mapped ones included.\<close>

definition disk_image :: "Database \<Rightarrow> Files" where
  "disk_image db = fold put_table (db_tables db) (db_files db)"

section \<open>Closing\<close>

record TableIo =
  io_flush :: "OsEnv list"
  io_sync :: OsEnv
  io_vindex :: FileEnv

definition io_fine :: TableIo where "io_fine = \<lparr>io_flush = [], io_sync = os_fine, io_vindex = fe_fine\<rparr>"

fun save_tables :: "(nat \<Rightarrow> FileEnv) \<Rightarrow> nat \<Rightarrow> Table list \<Rightarrow> Files \<Rightarrow> Files" where
  "save_tables envs i [] fs = fs"
| "save_tables envs i (t # ts) fs = save_tables envs (Suc i) ts (snd (put_vindex (envs i) t fs))"

text \<open>
  Every table is flushed twice, by \<open>close\<close> itself and by the flush handler; errors are ignored.
  Destroying a table closes its files; destroying a tree does not write its root offset, which
  \<open>insert\<close> has done already.
\<close>

definition db_close :: "(nat \<Rightarrow> OsEnv list) \<Rightarrow> (nat \<Rightarrow> OsEnv list) \<Rightarrow> (nat \<Rightarrow> FileEnv) \<Rightarrow> Database \<Rightarrow> Database" where
  "db_close envs1 envs2 fenvs db =
     (if \<not> db_is_open db then db
      else
        let n = length (db_tables db);
            ts1 = map2 (\<lambda>i t. snd (flush_pending (envs1 i) t)) [0..<n] (db_tables db);
            ts2 = map2 (\<lambda>i t. snd (flush_pending (envs2 i) t)) [0..<n] ts1;
            db1 = db\<lparr>db_tables := ts2, db_wal := ww_close (db_wal db)\<rparr>
        in db1\<lparr>db_files := save_tables fenvs 0 ts2 (disk_image db1), db_tables := [], db_is_open := False\<rparr>)"

section \<open>Vacuum\<close>

text \<open>The keys of an index, out of the column of a full scan; \<open>None\<close> is a read past its end.\<close>

definition index_keys :: "ColumnType \<Rightarrow> nat \<Rightarrow> byte list \<Rightarrow> byte list list option" where
  "index_keys ct n data =
     (if ct = kVarChar then
        if length data < n * 4 then None
        else
          let starts = map (\<lambda>i. if i = 0 then 0 else u32_at data ((i - 1) * 4)) [0..<n];
              lens = map (\<lambda>i. unat (u32_at data (i * 4) - starts ! i)) [0..<n]
          in if list_all (\<lambda>i. n * 4 + unat (starts ! i) + lens ! i \<le> length data) [0..<n]
             then Some (map (\<lambda>i. take (lens ! i) (drop (n * 4 + unat (starts ! i)) data)) [0..<n])
             else None
      else if length data < n * column_elem_size ct then None
      else Some (map (\<lambda>i. take (column_elem_size ct) (drop (i * column_elem_size ct) data)) [0..<n]))"

fun fill_index :: "(nat \<Rightarrow> OsEnv) \<Rightarrow> nat \<Rightarrow> byte list list \<Rightarrow> BTree \<Rightarrow> (Status_Code \<times> BTree) BtResult" where
  "fill_index envs i [] t = BtOk (kOk, t)"
| "fill_index envs i (k # ks) t =
     bt_bind (bt_insert (envs i) t k (word_of_nat i))
       (\<lambda>(s, t'). if s \<noteq> kOk then BtOk (s, t') else fill_index envs (Suc i) ks t')"

text \<open>
  Creating the index of one column and entering all rows. A tree that could not be filled is
  closed and its file stays; what a failed creation leaves on disk is not tracked.
\<close>

definition build_index :: "OsEnv \<Rightarrow> (nat \<Rightarrow> OsEnv) \<Rightarrow> string \<Rightarrow> string \<Rightarrow> nat \<Rightarrow> ColumnType \<Rightarrow> nat \<Rightarrow> byte list
    \<Rightarrow> Table \<Rightarrow> Files \<Rightarrow> (Status_Code \<times> Table \<times> Files) BtResult" where
  "build_index env envs name col ci ct n data t fs =
     (let file = idx_name (tb_name t) ci
      in case bt_create env (case map_of fs file of None \<Rightarrow> [] | Some c \<Rightarrow> c) ct of
           Inl e \<Rightarrow> BtOk (e, t, fs)
         | Inr tree \<Rightarrow>
             (case index_keys ct n data of None \<Rightarrow> BtCrash
              | Some keys \<Rightarrow>
                  bt_bind (fill_index envs 0 keys tree) (\<lambda>(s, tree').
                    if s \<noteq> kOk then BtOk (s, t, file_put file (mf_disk (bt_file (bt_close tree'))) fs)
                    else BtOk (kOk, add_index \<lparr>ix_name = name, ix_column_name = col, ix_column_idx = ci,
                           ix_column_type = ct, ix_tree = tree'\<rparr> t, fs))))"

text \<open>The loop over the saved indexes ends at the first that fails.\<close>

fun rebuild_indexes :: "(nat \<Rightarrow> OsEnv) \<Rightarrow> (nat \<Rightarrow> nat \<Rightarrow> OsEnv) \<Rightarrow> ColumnData list \<Rightarrow> IndexInfo list \<Rightarrow> Table \<Rightarrow> Files
    \<Rightarrow> (Status_Code \<times> Table \<times> Files) BtResult" where
  "rebuild_indexes envs fills cols [] t fs = BtOk (kOk, t, fs)"
| "rebuild_indexes envs fills cols (ix # ixs) t fs =
     (if length cols \<le> ix_column_idx ix then BtCrash
      else bt_bind (build_index (envs (ix_column_idx ix)) (fills (ix_column_idx ix)) (ix_name ix)
               (sc_names (tb_schema t) ! ix_column_idx ix) (ix_column_idx ix) (ix_column_type ix)
               (tb_row_count t) (cd_data (cols ! ix_column_idx ix)) t fs)
             (\<lambda>(s, t', fs'). if s \<noteq> kOk then BtOk (s, t', fs') else rebuild_indexes envs fills cols ixs t' fs'))"

record VacuumEnv =
  ve_flush :: "OsEnv list"
  ve_reset :: OsEnv
  ve_pages :: "OsEnv list"
  ve_create :: "nat \<Rightarrow> OsEnv"
  ve_fill :: "nat \<Rightarrow> nat \<Rightarrow> OsEnv"

definition ve_fine :: VacuumEnv where
  "ve_fine = \<lparr>ve_flush = [], ve_reset = os_fine, ve_pages = [], ve_create = \<lambda>_. os_fine, ve_fill = \<lambda>_ _. os_fine\<rparr>"

definition db_vacuum :: "VacuumEnv \<Rightarrow> TableId \<Rightarrow> Database \<Rightarrow> (Status_Code \<times> Database) BtResult" where
  "db_vacuum env tid db =
     (if length (db_tables db) \<le> unat tid then BtOk (kInvalidArgument, db)
      else
        let t = db_tables db ! unat tid;
            saved = tb_indexes t;
            fs = fold (\<lambda>ix. file_remove (idx_name (tb_name t) (ix_column_idx ix))) saved (db_files db);
            db1 = db\<lparr>db_files := fs, db_hooked := filter (\<lambda>(i, c). i \<noteq> tid) (db_hooked db)\<rparr>;
            (res, t1, a) = table_vacuum (ve_flush env) (ve_reset env) (ve_pages env) (db_timestamps db) (clear_indexes t);
            db2 = (set_table tid t1 db1)\<lparr>db_timestamps := a\<rparr>
        in case res of Inl e \<Rightarrow> BtOk (e, db2)
           | Inr _ \<Rightarrow>
               if saved = [] then BtOk (kOk, db2)
               else (case read_table_columns t1 of Inl e \<Rightarrow> BtOk (kOk, db2)
                     | Inr scan \<Rightarrow>
                         bt_bind (rebuild_indexes (ve_create env) (ve_fill env) (sr_columns scan) saved t1 fs)
                           (\<lambda>(s, t2, fs'). BtOk (s, (set_table tid t2 db2)\<lparr>db_files := fs'\<rparr>))))"

section \<open>Checkpoints\<close>

text \<open>Flushing and saving one table after the other; the status of \<open>sync\<close> and of saving the
  version index is ignored.\<close>

fun checkpoint_tables :: "(nat \<Rightarrow> TableIo) \<Rightarrow> nat \<Rightarrow> Table list \<Rightarrow> Files \<Rightarrow> Status_Code \<times> Table list \<times> Files" where
  "checkpoint_tables io i [] fs = (kOk, [], fs)"
| "checkpoint_tables io i (t # ts) fs =
     (case flush_pending (io_flush (io i)) t of
        (s, t1) \<Rightarrow>
          if s \<noteq> kOk then (s, t1 # ts, fs)
          else
            let (t2, fs1) = put_vindex (io_vindex (io i)) t1 fs;
                (s', ts', fs') = checkpoint_tables io (Suc i) ts fs1
            in (s', t2 # ts', fs'))"

definition safe_lsn :: "Lsn \<Rightarrow> Database \<Rightarrow> Lsn" where
  "safe_lsn checkpoint_lsn db =
     (let oldest = oldest_active_lsn db
      in if oldest \<noteq> -1 \<and> oldest < checkpoint_lsn then oldest else checkpoint_lsn)"

definition checkpoint :: "(nat \<Rightarrow> TableIo) \<Rightarrow> FileEnv \<Rightarrow> Database \<Rightarrow> (Status_Code \<times> Database) option" where
  "checkpoint io fenv db =
     (let checkpoint_lsn = current_lsn (db_wal db);
          (s, ts, fs) = checkpoint_tables io 0 (db_tables db) (db_files db);
          db1 = db\<lparr>db_tables := ts, db_files := fs\<rparr>
      in if s \<noteq> kOk then Some (s, db1)
         else
           let (s', fs') = write_file fenv ''checkpoint.meta'' (put_u64 checkpoint_lsn) fs;
               db2 = db1\<lparr>db_files := fs'\<rparr>
           in if s' \<noteq> kOk then Some (kIoError, db2)
              else
                let (threw, d) = remove_segments_before (safe_lsn checkpoint_lsn db2) (db_wal_dir db2)
                in if threw then None else Some (kOk, db2\<lparr>db_wal_dir := d\<rparr>))"

section \<open>Backups\<close>

text \<open>
  The copy is taken with nothing running beside it; the directory of the log is not a regular
  file and is not copied. The files of the target directory are an argument.
\<close>

record BackupEnv =
  be_dir :: bool
  be_copy_fail :: "nat option"
  be_meta :: FileEnv

definition copy_files :: "Files \<Rightarrow> Files \<Rightarrow> Files" where
  "copy_files src dest = fold (\<lambda>(n, c). file_put n c) src dest"

definition start_backup :: "BackupEnv \<Rightarrow> (nat \<Rightarrow> TableIo) \<Rightarrow> FileEnv \<Rightarrow> Files \<Rightarrow> Database
    \<Rightarrow> (Status_Code \<times> Files \<times> Database) option" where
  "start_backup benv io fenv dest db =
     (if \<not> be_dir benv then Some (kIoError, dest, db)
      else case checkpoint io fenv db of None \<Rightarrow> None
        | Some (s, db1) \<Rightarrow>
            if s \<noteq> kOk then Some (s, dest, db1)
            else if db_backup_in_progress db1 then Some (kAlreadyExists, dest, db1)
            else
              let db2 = db1\<lparr>db_logged_pages := []\<rparr>;
                  start_lsn = current_lsn (db_wal db2);
                  img = disk_image db2
              in (case be_copy_fail benv of
                    Some k \<Rightarrow> Some (kIoError, copy_files (take k img) dest, db2)
                  | None \<Rightarrow> Some (kOk, snd (write_file (be_meta benv) ''backup.meta'' (put_u64 start_lsn)
                                          (copy_files img dest)), db2)))"

text \<open>The entries of the parent directory, with a mark for directories; what cannot be removed
  stays.\<close>

definition old_backup :: "u64 \<Rightarrow> string \<times> bool \<Rightarrow> bool" where
  "old_backup cutoff e =
     (case e of (n, is_dir) \<Rightarrow> is_dir \<and> take 7 n = ''backup_'' \<and>
        (case stoull (drop 7 n) of None \<Rightarrow> False | Some ts \<Rightarrow> ts < cutoff))"

definition cleanup_old_backups :: "u64 \<Rightarrow> (string \<Rightarrow> bool) \<Rightarrow> Database \<Rightarrow> (string \<times> bool) list \<Rightarrow> (string \<times> bool) list" where
  "cleanup_old_backups now_ms removable db entries =
     (if db_backup_retention db = 0 then entries
      else
        let cutoff_ms = now_ms - ucast (db_backup_retention db) * 1000
        in filter (\<lambda>e. \<not> (old_backup cutoff_ms e \<and> removable (fst e))) entries)"

definition fpw_callback :: "WalEnv \<Rightarrow> TableId \<Rightarrow> u32 \<Rightarrow> PageId \<times> byte list \<Rightarrow> Database \<Rightarrow> Database" where
  "fpw_callback env tid file_id page db =
     (if \<not> db_backup_in_progress db then db
      else
        let key = (tid, fst page, file_id)
        in if key \<in> set (db_logged_pages db) then db
           else
             let (r, l) = append_full_page env tid (fst page) file_id (snd page) (db_wal db) (db_wal_dir db)
             in set_log l (db\<lparr>db_logged_pages := db_logged_pages db @ [key]\<rparr>))"

end
