(* ===== verification/Db_Recovery.thy ===== *)
theory Db_Recovery
  imports Db_Maintain
begin

text \<open>
  \<open>Database::open\<close> of \<open>src/src/db/database.cpp\<close>: the tables of the directory with their version
  indexes and B-trees, the timestamp allocator, and the two passes over the log. The order of the
  files in \<open>db_files\<close> is the order in which the directory is iterated. What the system decides is
  an argument. \<open>None\<close> is an exception, a read or write outside a buffer, or an insertion
  that has to wait.
\<close>

record OpenEnv =
  oe_read :: "string \<Rightarrow> bool"
  oe_raw :: "string \<Rightarrow> OsEnv"
  oe_cut :: "string \<Rightarrow> OsEnv"
  oe_index :: "string \<Rightarrow> OsEnv"
  oe_page :: OsEnv
  oe_wal :: WalEnv

section \<open>Tables and indexes\<close>

definition load_table :: "OpenEnv \<Rightarrow> Files \<Rightarrow> string \<Rightarrow> Schema \<Rightarrow> TimestampAllocator
    \<Rightarrow> (Table option \<times> TimestampAllocator) option" where
  "load_table env fs name S a =
     (let contents = (case map_of fs (raw_name name) of None \<Rightarrow> [] | Some bs \<Rightarrow> bs)
      in case open_file (oe_raw env name) contents (table_init name S) of
           (st, t) \<Rightarrow>
             if st \<noteq> kOk then Some (None, a)
             else
               let t1 = snd (recover (oe_cut env name) t);
                   saved = (if oe_read env (vindex_name name) then map_of fs (vindex_name name) else None)
               in map_option (\<lambda>(st', t2).
                      if st' \<noteq> kOk
                      then (let (t3, a') = rebuild_vindex_from_pages a t2 in (Some t3, a'))
                      else (Some t2, a)) (load_vindex saved t1))"

fun load_tables :: "OpenEnv \<Rightarrow> Files \<Rightarrow> Files \<Rightarrow> Table list \<Rightarrow> TimestampAllocator
    \<Rightarrow> (Table list \<times> TimestampAllocator) option" where
  "load_tables env fs [] ts a = Some (ts, a)"
| "load_tables env fs ((n, bs) # rest) ts a =
     (if path_extension n \<noteq> ''.schema'' \<or> \<not> oe_read env n then load_tables env fs rest ts a
      else case schema_from_bytes bs of None \<Rightarrow> None
        | Some (Inl e) \<Rightarrow> load_tables env fs rest ts a
        | Some (Inr S) \<Rightarrow>
            (case load_table env fs (path_stem n) S a of None \<Rightarrow> None
             | Some (None, a') \<Rightarrow> load_tables env fs rest ts a'
             | Some (Some t, a') \<Rightarrow> load_tables env fs rest (ts @ [t]) a'))"

text \<open>\<open>rfind('_')\<close>: the part before the last underscore and the part behind it.\<close>

definition split_underscore :: "string \<Rightarrow> (string \<times> string) option" where
  "split_underscore s =
     (let after = takeWhile (\<lambda>c. c \<noteq> CHR ''_'') (rev s)
      in if length after = length s then None
         else Some (take (length s - length after - 1) s, rev after))"

text \<open>The inner loop: the first table of that name with that column whose tree opens.\<close>

fun attach_index :: "OsEnv \<Rightarrow> byte list \<Rightarrow> string \<Rightarrow> nat \<Rightarrow> nat \<Rightarrow> Table list \<Rightarrow> nat option \<times> Table list" where
  "attach_index env bs name ci i [] = (None, [])"
| "attach_index env bs name ci i (t # ts) =
     (let next = (let (r, ts') = attach_index env bs name ci (Suc i) ts in (r, t # ts'))
      in if tb_name t \<noteq> name \<or> column_count (tb_schema t) \<le> ci then next
         else case bt_open env bs of Inl e \<Rightarrow> next
           | Inr tree \<Rightarrow>
               let col = sc_names (tb_schema t) ! ci
               in (Some i, add_index \<lparr>ix_name = col @ ''_idx'', ix_column_name = col, ix_column_idx = ci,
                     ix_column_type = sc_columns (tb_schema t) ! ci, ix_tree = tree\<rparr> t # ts))"

fun load_indexes :: "OpenEnv \<Rightarrow> Files \<Rightarrow> Table list \<Rightarrow> (TableId \<times> nat) list \<Rightarrow> Table list \<times> (TableId \<times> nat) list" where
  "load_indexes env [] ts hooked = (ts, hooked)"
| "load_indexes env ((n, bs) # rest) ts hooked =
     (if path_extension n \<noteq> ''.idx'' then load_indexes env rest ts hooked
      else case split_underscore (path_stem n) of None \<Rightarrow> load_indexes env rest ts hooked
        | Some (name, num) \<Rightarrow>
            (case stoull num of None \<Rightarrow> load_indexes env rest ts hooked
             | Some ci \<Rightarrow>
                 let (r, ts') = attach_index (oe_index env n) bs name (unat ci) 0 ts
                 in load_indexes env rest ts'
                      (case r of None \<Rightarrow> hooked | Some i \<Rightarrow> hooked @ [(word_of_nat i, unat ci)])))"

text \<open>The allocator moves past the largest timestamp of any version index.\<close>

definition restore_timestamps :: "Table list \<Rightarrow> TimestampAllocator \<Rightarrow> Table list \<times> TimestampAllocator" where
  "restore_timestamps ts a =
     (let max_ts = foldl (\<lambda>m t. if fst (version_index_max_ts t) > m then fst (version_index_max_ts t) else m) 0 ts
      in (map (\<lambda>t. snd (version_index_max_ts t)) ts, if 0 < max_ts then set_next (max_ts + 1) a else a))"

section \<open>The first pass: full page images and commits\<close>

definition write_page_image :: "OsEnv \<Rightarrow> PageId \<Rightarrow> byte list \<Rightarrow> Table \<Rightarrow> Table option" where
  "write_page_image env pid bs t =
     (let new_end = unat (pid + word_of_nat (length bs));
          f = (if mf_size (tb_file t) < new_end then snd (mmap_resize env new_end (tb_file t)) else tb_file t)
      in if \<not> mf_mapped f \<or> mf_size f < unat pid + length bs then None
         else Some (t\<lparr>tb_file := mf_poke (unat pid) bs f\<rparr>))"

fun write_index_page :: "OsEnv \<Rightarrow> nat \<Rightarrow> PageId \<Rightarrow> byte list \<Rightarrow> IndexInfo list \<Rightarrow> IndexInfo list BtResult" where
  "write_index_page env ci pid bs [] = BtOk []"
| "write_index_page env ci pid bs (ix # ixs) =
     (if ix_column_idx ix = ci
      then bt_bind (bt_write_page env pid bs (ix_tree ix)) (\<lambda>tree. BtOk (ix\<lparr>ix_tree := tree\<rparr> # ixs))
      else bt_bind (write_index_page env ci pid bs ixs) (\<lambda>r. BtOk (ix # r)))"

definition apply_full_page :: "OsEnv \<Rightarrow> byte list \<Rightarrow> Table list \<Rightarrow> Table list option" where
  "apply_full_page env payload ts =
     (let tid = unat (u32_at payload 0);
          pid = u64_at payload 4;
          file_id = u32_at payload 12;
          bs = drop 16 payload
      in if length payload \<le> 16 \<or> length ts \<le> tid then Some ts
         else if sint file_id < 0
         then map_option (\<lambda>t. ts[tid := t]) (write_page_image env pid bs (ts ! tid))
         else (case write_index_page env (unat file_id) pid bs (tb_indexes (ts ! tid)) of
                 BtOk ixs \<Rightarrow> Some (ts[tid := (ts ! tid)\<lparr>tb_indexes := ixs\<rparr>])
               | _ \<Rightarrow> None))"

type_synonym Commits = "TxId \<rightharpoonup> Timestamp"

fun pass1 :: "OsEnv \<Rightarrow> WalRecord list \<Rightarrow> Table list \<Rightarrow> Commits \<Rightarrow> (Table list \<times> Commits) option" where
  "pass1 env [] ts cs = Some (ts, cs)"
| "pass1 env (r # rs) ts cs =
     (let h = rec_header r; p = rec_payload r
      in if wh_type h = wal_type_tag WalCommit \<and> 8 \<le> length p
         then pass1 env rs ts (cs(wh_tx_id h \<mapsto> u64_at p 0))
         else if wh_type h = wal_type_tag WalFullPageImage
         then (case apply_full_page env p ts of None \<Rightarrow> None | Some ts' \<Rightarrow> pass1 env rs ts' cs)
         else pass1 env rs ts cs)"

section \<open>The second pass: insertions of committed transactions\<close>

definition parse_column :: "byte list \<Rightarrow> (ColumnData \<times> byte list) option" where
  "parse_column bs =
     Option.bind (get_u8 bs) (\<lambda>(ty, r).
     Option.bind (get_u32 r) (\<lambda>(n, r).
     Option.bind (get_bytes (unat n) r) (\<lambda>(d, r).
       Some (\<lparr>cd_type = ty, cd_data = d, cd_nulls = None\<rparr>, r))))"

fun parse_columns :: "nat \<Rightarrow> byte list \<Rightarrow> (ColumnData list \<times> byte list) option" where
  "parse_columns 0 bs = Some ([], bs)"
| "parse_columns (Suc n) bs =
     Option.bind (parse_column bs) (\<lambda>(c, r). Option.bind (parse_columns n r) (\<lambda>(cs, r'). Some (c # cs, r')))"

fun parse_row_list :: "nat \<Rightarrow> nat \<Rightarrow> byte list \<Rightarrow> (ColumnData list list \<times> byte list) option" where
  "parse_row_list 0 cc bs = Some ([], bs)"
| "parse_row_list (Suc n) cc bs =
     Option.bind (parse_columns cc bs) (\<lambda>(c, r). Option.bind (parse_row_list n cc r) (\<lambda>(cs, r'). Some (c # cs, r')))"

definition replay_insert :: "WalRecord \<Rightarrow> Timestamp \<Rightarrow> Table list \<Rightarrow> Table list option" where
  "replay_insert r commit_ts ts =
     (let h = rec_header r; p = rec_payload r; tid = unat (u32_at p 0); cc = unat (u32_at p 4)
      in if length ts \<le> tid \<or> wh_lsn h \<le> tb_lsn (ts ! tid) then Some ts
         else Option.bind (parse_columns cc (drop 8 p)) (\<lambda>(columns, _).
              map_option (\<lambda>(res, t).
                  ts[tid := (case res of Inl e \<Rightarrow> t | Inr rid \<Rightarrow> table_commit_rows [rid] (wh_tx_id h) commit_ts t)])
                (insert_row (wh_tx_id h OR kTxIdFlag) columns (ts ! tid))))"

definition replay_insert_batch :: "WalRecord \<Rightarrow> Timestamp \<Rightarrow> Table list \<Rightarrow> Table list option" where
  "replay_insert_batch r commit_ts ts =
     (let h = rec_header r; p = rec_payload r; tid = unat (u32_at p 0);
          rc = unat (u32_at p 4); cc = unat (u32_at p 8)
      in if length ts \<le> tid \<or> wh_lsn h \<le> tb_lsn (ts ! tid) then Some ts
         else Option.bind (parse_row_list rc cc (drop 12 p)) (\<lambda>(rows, _).
              map_option (\<lambda>(res, t).
                  ts[tid := (case res of Inl e \<Rightarrow> t | Inr rids \<Rightarrow> table_commit_rows rids (wh_tx_id h) commit_ts t)])
                (insert_rows (wh_tx_id h OR kTxIdFlag) rows (ts ! tid))))"

definition replay_record :: "Commits \<Rightarrow> WalRecord \<Rightarrow> Table list \<Rightarrow> Table list option" where
  "replay_record cs r ts =
     (let h = rec_header r; p = rec_payload r
      in case cs (wh_tx_id h) of None \<Rightarrow> Some ts
         | Some commit_ts \<Rightarrow>
             if wh_type h = wal_type_tag WalInsert \<and> 8 \<le> length p then replay_insert r commit_ts ts
             else if wh_type h = wal_type_tag WalInsertBatch \<and> 12 \<le> length p then replay_insert_batch r commit_ts ts
             else Some ts)"

fun pass2 :: "Commits \<Rightarrow> WalRecord list \<Rightarrow> Table list \<Rightarrow> Table list option" where
  "pass2 cs [] ts = Some ts"
| "pass2 cs (r # rs) ts = (case replay_record cs r ts of None \<Rightarrow> None | Some ts' \<Rightarrow> pass2 cs rs ts')"

text \<open>What a pass looks at: nothing up to the checkpoint, and nothing from the first record on
  that is later than the target time.\<close>

definition in_window :: "Lsn \<Rightarrow> u64 option \<Rightarrow> WalRecord list \<Rightarrow> WalRecord list" where
  "in_window checkpoint_lsn target rs =
     takeWhile (\<lambda>r. case target of None \<Rightarrow> True | Some tm \<Rightarrow> wh_time (rec_header r) \<le> tm)
       (filter (\<lambda>r. checkpoint_lsn < wh_lsn (rec_header r)) rs)"

section \<open>Opening\<close>

definition checkpoint_meta :: "OpenEnv \<Rightarrow> Files \<Rightarrow> Lsn" where
  "checkpoint_meta env fs =
     (case read_file (oe_read env ''checkpoint.meta'') ''checkpoint.meta'' fs of Inl e \<Rightarrow> 0
      | Inr bs \<Rightarrow> if 8 \<le> length bs then u64_at bs 0 else 0)"

definition db_open :: "OpenEnv \<Rightarrow> u64 option \<Rightarrow> Database \<Rightarrow> (Status_Code \<times> Database) option" where
  "db_open env target db =
     (if db_is_open db then Some (kInvalidArgument, db)
      else case load_tables env (db_files db) (db_files db) (db_tables db) (db_timestamps db) of None \<Rightarrow> None
        | Some (ts, a) \<Rightarrow>
            let (ts1, hooked) = load_indexes env (db_files db) ts [];
                (ts2, a2) = restore_timestamps ts1 a;
                db1 = db\<lparr>db_tables := ts2, db_timestamps := a2, db_hooked := hooked, db_next_tx_id := 1,
                         db_txns := Map.empty, db_active_txns := []\<rparr>;
                ckpt = checkpoint_meta env (db_files db)
            in (case ww_open (oe_wal env) (db_wal db1) (db_wal_dir db1) of None \<Rightarrow> None
                | Some (st, w, d) \<Rightarrow>
                    let db2 = set_log (w, d) db1
                    in if st \<noteq> kOk then Some (st, db2)
                       else
                         let (rs1, rs2) = wal_passes d
                         in (case pass1 (oe_page env) (in_window ckpt target rs1) ts2 Map.empty of None \<Rightarrow> None
                             | Some (ts3, cs) \<Rightarrow>
                                 map_option (\<lambda>ts4. (kOk, db2\<lparr>db_tables := ts4, db_is_open := True\<rparr>))
                                   (pass2 cs (in_window ckpt target rs2) ts3))))"

definition db_init :: Database where
  "db_init = \<lparr>db_is_open = False, db_tables = [], db_timestamps = ts_init, db_watermarks = watermarks_init,
     db_next_tx_id = 1, db_txns = Map.empty, db_active_txns = [], db_wal = wal_writer_init, db_wal_dir = [],
     db_files = [], db_backup_in_progress = False, db_logged_pages = [], db_backup_interval = 0,
     db_backup_retention = 0, db_hooked = []\<rparr>"

end
