(* ===== verification/Table_Versions.thy ===== *)
theory Table_Versions
  imports Table_History
begin

text \<open>
  The multi-version contents of a table as a multiset of versions (row, timestamp, tombstone),
  wherever they are: in the version index or still in a pending batch. Insertion and deletion add
  versions, a commit or rollback re-stamps those of the transaction, a flush moves them without
  changing any, and a search in the version index of a flushed table answers by the versions alone.
\<close>

section \<open>Versions\<close>

type_synonym Version = "RowId \<times> Timestamp \<times> bool"

definition entry_version :: "IndexEntry \<Rightarrow> Version" where
  "entry_version e = (ie_row_id e, ie_ts e, ie_offset e = kNotFoundOff)"

definition batch_versions :: "PendingBatch \<Rightarrow> Version list" where
  "batch_versions b = map (\<lambda>i. (pb_start_rid b + word_of_nat i, pb_row_ts b ! i, False)) [0..<pb_row_count b]"

definition index_versions :: "VersionIndex \<Rightarrow> Version multiset" where
  "index_versions vi = image_mset entry_version (mset (vi_entries vi))"

definition table_versions :: "Table \<Rightarrow> Version multiset" where
  "table_versions t = index_versions (tb_vindex t) + (\<Sum>b \<in># mset (pending t). mset (batch_versions b))"

text \<open>A row is visible to a snapshot when its newest committed version up to the snapshot is not
  a tombstone.\<close>

definition visible :: "Version multiset \<Rightarrow> Timestamp \<Rightarrow> RowId \<Rightarrow> bool" where
  "visible V m r \<longleftrightarrow>
     (\<exists>ts. (r, ts, False) \<in># V \<and> ts < kTxIdFlag \<and> ts \<le> m \<and>
        (\<forall>ts'. (r, ts', True) \<in># V \<and> ts' < kTxIdFlag \<and> ts' \<le> m \<longrightarrow> ts' < ts))"

definition publish :: "Timestamp \<Rightarrow> Timestamp \<Rightarrow> Version \<Rightarrow> Version" where
  "publish target commit_ts v = (case v of (r, ts, d) \<Rightarrow> (r, if ts = target then commit_ts else ts, d))"

text \<open>The stamps of the pending rows are there, and free batches are empty.\<close>

definition stamps_ok :: "Table \<Rightarrow> bool" where
  "stamps_ok t \<longleftrightarrow> (\<forall>b \<in> set (pending t). length (pb_row_ts b) = pb_row_count b) \<and>
     (\<forall>b \<in> set (tb_free t). pb_row_count b = 0 \<and> pb_row_ts b = [])"

lemma rep_stamps: "table_rep t rows \<Longrightarrow> stamps_ok t"
proof -
  assume "table_rep t rows"
  then obtain pcs ucs where "chunks_rep t pcs ucs" by (auto simp: table_rep_def)
  then have b: "length (pending t) = length ucs" "\<And>j. j < length ucs \<Longrightarrow> length (pb_row_ts (pending t ! j)) = pb_row_count (pending t ! j)"
    and f: "free_ok t" by (auto simp: chunks_rep_def batches_rep_def batch_rep_def)
  have "\<forall>x \<in> set (pending t). length (pb_row_ts x) = pb_row_count x" using b by (metis in_set_conv_nth)
  with f show ?thesis by (simp add: stamps_ok_def free_ok_def list_all_iff)
qed

lemma versions_lsn [simp]: "table_versions (t\<lparr>tb_lsn := l\<rparr>) = table_versions t"
  by (simp add: table_versions_def pending_def)

section \<open>Insertion\<close>

lemma batch_push_versions:
  "length (pb_row_ts b) = pb_row_count b \<Longrightarrow>
   batch_versions (batch_push ts columns b) = batch_versions b @ [(pb_start_rid b + word_of_nat (pb_row_count b), ts, False)]"
  by (simp add: batch_versions_def batch_push_def nth_append)

lemma batch_push_stamps:
  "length (pb_row_ts b) = pb_row_count b \<Longrightarrow> length (pb_row_ts (batch_push ts columns b)) = pb_row_count (batch_push ts columns b)"
  by (simp add: batch_push_def)

text \<open>Taking the open batch out of the table; the rest, with the batch, has the versions of the
  table.\<close>

lemma acquire_versions:
  assumes "acquire_batch t = Some (b, t1)" "stamps_ok t"
  shows "table_versions t = index_versions (tb_vindex t1) + (\<Sum>b \<in># mset (tb_queue t1). mset (batch_versions b)) + mset (batch_versions b)"
    "length (pb_row_ts b) = pb_row_count b" "tb_vindex t1 = tb_vindex t" "tb_queue t1 = tb_queue t" "tb_row_count t1 = tb_row_count t"
    "set (tb_free t1) \<subseteq> set (tb_free t)"
proof -
  obtain b0 where b0: "(tb_active t = Some b0 \<and> t1 = t) \<or>
      (tb_active t = None \<and> tb_free t \<noteq> [] \<and> b0 = last (tb_free t) \<and> t1 = t\<lparr>tb_free := butlast (tb_free t)\<rparr>)"
      "b = (if pb_row_count b0 = 0 then b0\<lparr>pb_start_rid := word_of_nat (tb_row_count t)\<rparr> else b0)"
    using assms(1) by (auto simp: acquire_batch_def get_free_batch_def split: option.splits if_splits)
  have "batch_versions b = batch_versions b0" using b0(2) by (simp add: batch_versions_def)
  moreover have "pb_row_count (last (tb_free t)) = 0 \<and> pb_row_ts (last (tb_free t)) = []" if "tb_free t \<noteq> []"
    using assms(2) that by (simp add: stamps_ok_def)
  ultimately show "table_versions t = index_versions (tb_vindex t1) + (\<Sum>b \<in># mset (tb_queue t1). mset (batch_versions b)) + mset (batch_versions b)"
    "length (pb_row_ts b) = pb_row_count b"
    using b0 assms(2) by (auto simp: table_versions_def pending_def stamps_ok_def batch_versions_def)
  show "tb_vindex t1 = tb_vindex t" "tb_queue t1 = tb_queue t" "tb_row_count t1 = tb_row_count t" "set (tb_free t1) \<subseteq> set (tb_free t)"
    using b0(1) by (auto dest: in_set_butlastD)
qed

lemma store_versions:
  "table_versions (store_batch b t) = index_versions (tb_vindex t) + (\<Sum>b \<in># mset (tb_queue t). mset (batch_versions b)) + mset (batch_versions b)"
  by (simp add: store_batch_def push_flush_queue_def table_versions_def pending_def)

lemma store_stamps:
  assumes "stamps_ok t" "acquire_batch t = Some (b, t1)" "length (pb_row_ts b') = pb_row_count b'"
  shows "stamps_ok (store_batch b' (t1\<lparr>tb_row_count := n\<rparr>))"
  using assms acquire_versions(4,6) [OF assms(2,1)]
  by (auto simp: stamps_ok_def store_batch_def push_flush_queue_def pending_def split: option.splits)

text \<open>An inserted row is a new version.\<close>

lemma insert_row_versions:
  assumes "insert_row_with src columns t a = Some (Inr rid, t', a')" "stamps_ok t"
  shows "table_versions t' = add_mset (rid, fst (src a), False) (table_versions t) \<and> stamps_ok t' \<and> a' = snd (src a)"
proof -
  obtain b t1 where acq: "acquire_batch t = Some (b, t1)" and r: "rid = pb_start_rid b + word_of_nat (pb_row_count b)" "a' = snd (src a)"
      "t' = store_batch (batch_push (fst (src a)) columns b) (t1\<lparr>tb_row_count := tb_row_count t1 + 1\<rparr>)"
    using assms(1) by (cases "src a") (auto simp: insert_row_with_def split: if_splits)
  note v = acquire_versions [OF acq assms(2)]
  show ?thesis
    using v(2) r store_stamps [OF assms(2) acq batch_push_stamps [OF v(2)]]
    by (simp add: store_versions batch_push_versions v(1))
qed

lemma insert_row_error:
  "insert_row_with src columns t a = Some (Inl e, t', a') \<Longrightarrow> t' = t \<and> a' = a \<and> e = kInvalidArgument"
  by (auto simp: insert_row_with_def split: if_splits prod.splits)

section \<open>Batches of rows\<close>

text \<open>The timestamps that a sequence of rows draws.\<close>

fun draw :: "TsSource \<Rightarrow> nat \<Rightarrow> TimestampAllocator \<Rightarrow> Timestamp list \<times> TimestampAllocator" where
  "draw src 0 a = ([], a)"
| "draw src (Suc n) a = (let (ts, a') = src a; (tss, a'') = draw src n a' in (ts # tss, a''))"

lemma length_draw [simp]: "length (fst (draw src n a)) = n"
proof (induction n arbitrary: a)
  case (Suc n)
  from this [of "snd (src a)"] show ?case by (auto simp: Let_def split: prod.splits)
qed simp

lemma draw_add: "draw src (m + n) a =
  (fst (draw src m a) @ fst (draw src n (snd (draw src m a))), snd (draw src n (snd (draw src m a))))"
  by (induction m arbitrary: a) (auto simp: Let_def split: prod.splits)

lemma draw_fixed [simp]: "draw (fixed_ts ts) n a = (replicate n ts, a)"
  by (induction n arbitrary: a) (simp_all add: fixed_ts_def)

abbreviation live_versions :: "RowId list \<Rightarrow> Timestamp list \<Rightarrow> Version list" where
  "live_versions rids tss \<equiv> map2 (\<lambda>rid ts. (rid, ts, False)) rids tss"

lemma batch_push_rows_versions:
  "length (pb_row_ts b) = pb_row_count b \<Longrightarrow> batch_push_rows src rows b a = (b', a') \<Longrightarrow>
   a' = snd (draw src (length rows) a) \<and> length (pb_row_ts b') = pb_row_count b' \<and>
   batch_versions b' = batch_versions b @
     live_versions (map (\<lambda>i. pb_start_rid b + word_of_nat (pb_row_count b) + word_of_nat i) [0..<length rows])
       (fst (draw src (length rows) a))"
proof (induction rows arbitrary: b a)
  case (Cons r rows)
  obtain ts a1 where src: "src a = (ts, a1)" by fastforce
  obtain tss a2 where dr: "draw src (length rows) a1 = (tss, a2)" by fastforce
  have start: "pb_start_rid (batch_push ts r b) = pb_start_rid b" "pb_row_count (batch_push ts r b) = Suc (pb_row_count b)"
    by (simp_all add: batch_push_def)
  have upt: "[0..<Suc (length rows)] = 0 # map Suc [0..<length rows]" by (simp only: upt_conv_Cons map_Suc_upt)
  have "batch_push_rows src rows (batch_push ts r b) a1 = (b', a')" using Cons.prems(2) src by simp
  from Cons.IH [OF batch_push_stamps [OF Cons.prems(1)] this] show ?case
    by (simp add: src dr batch_push_versions [OF Cons.prems(1)] start upt add_ac comp_def del: upt_Suc)
qed simp

lemma queue_versions:
  "table_versions (push_flush_queue b (t\<lparr>tb_active := None\<rparr>)) =
   index_versions (tb_vindex t) + (\<Sum>b \<in># mset (tb_queue t). mset (batch_versions b)) + mset (batch_versions b)"
  by (simp add: table_versions_def pending_def push_flush_queue_def)

lemma insert_rows_loop_versions:
  assumes "insert_rows_loop src rows res t a = Some (res', t', a')" "stamps_ok t"
  shows "\<exists>rids. res' = res @ rids \<and> length rids = length rows \<and> a' = snd (draw src (length rows) a) \<and> stamps_ok t' \<and>
    table_versions t' = table_versions t + mset (live_versions rids (fst (draw src (length rows) a)))"
  using assms
proof (induction src rows res t a rule: insert_rows_loop.induct)
  case (1 src rows res t a)
  show ?case
  proof (cases "rows = []")
    case True
    then show ?thesis using "1.prems" by (simp add: insert_rows_loop.simps)
  next
    case False
    then obtain b t1 where acq: "acquire_batch t = Some (b, t1)"
      using "1.prems"(1) by (subst (asm) insert_rows_loop.simps) (auto split: option.splits)
    note v = acquire_versions [OF acq "1.prems"(2)]
    define n where "n = min (length rows) (kBatchSize - pb_row_count b)"
    show ?thesis
    proof (cases "n = 0")
      case True
      let ?t = "push_flush_queue b (t1\<lparr>tb_active := None\<rparr>)"
      have vs: "table_versions ?t = table_versions t" by (simp add: queue_versions v(1))
      have "stamps_ok ?t" using "1.prems"(2) v(2,4,6) by (auto simp: stamps_ok_def push_flush_queue_def pending_def)
      moreover have "insert_rows_loop src rows res ?t a = Some (res', t', a')"
        using "1.prems"(1) False acq True by (subst (asm) insert_rows_loop.simps) (simp add: n_def [symmetric] Let_def)
      ultimately show ?thesis using "1.IH"(1) [OF False acq refl n_def True] vs by simp
    next
      case False
      obtain b' a1 where push: "batch_push_rows src (take n rows) b a = (b', a1)" by fastforce
      have n: "length (take n rows) = n" by (simp add: n_def)
      note p = batch_push_rows_versions [OF v(2) push, unfolded n]
      let ?new = "map (\<lambda>i. pb_start_rid b + word_of_nat (pb_row_count b) + word_of_nat i) [0..<n]"
      let ?t = "store_batch b' (t1\<lparr>tb_row_count := tb_row_count t1 + n\<rparr>)"
      have vs: "table_versions ?t = table_versions t + mset (live_versions ?new (fst (draw src n a)))"
        using p by (simp add: store_versions v(1))
      have "stamps_ok ?t" using store_stamps [OF "1.prems"(2) acq] p by blast
      moreover have "insert_rows_loop src (drop n rows) (res @ ?new) ?t a1 = Some (res', t', a')"
        using "1.prems"(1) \<open>rows \<noteq> []\<close> acq False push by (subst (asm) insert_rows_loop.simps) (simp add: n_def [symmetric] Let_def)
      ultimately obtain rids where r: "res' = (res @ ?new) @ rids" "length rids = length (drop n rows)"
          "a' = snd (draw src (length (drop n rows)) a1)" "stamps_ok t'"
          "table_versions t' = table_versions ?t + mset (live_versions rids (fst (draw src (length (drop n rows)) a1)))"
        using "1.IH"(2) [OF \<open>rows \<noteq> []\<close> acq refl n_def False refl push [symmetric] refl] by blast
      define k where "k = length (drop n rows)"
      have len: "length rows = n + k" by (simp add: n_def k_def)
      have "draw src (length rows) a = (fst (draw src n a) @ fst (draw src k a1), snd (draw src k a1))"
        unfolding len draw_add using p by simp
      moreover have "live_versions (?new @ rids) (fst (draw src n a) @ fst (draw src k a1)) =
          live_versions ?new (fst (draw src n a)) @ live_versions rids (fst (draw src k a1))" by simp
      ultimately show ?thesis
        using vs r unfolding k_def [symmetric] by (intro exI [of _ "?new @ rids"]) (simp add: len)
    qed
  qed
qed

section \<open>Flushing\<close>

lemma index_versions_bulk [simp]:
  "index_versions (insert_bulk es vi) = index_versions vi + mset (map entry_version es)"
  by (simp add: index_versions_def insert_bulk_def)

lemma batch_entries_versions:
  "page \<noteq> kNotFoundOff \<Longrightarrow> length (pb_row_ts b) = pb_row_count b \<Longrightarrow> map entry_version (batch_entries page b) = batch_versions b"
  by (auto simp: batch_entries_def batch_versions_def entry_version_def)

lemma no_page_at_end: "n + 1 < 2 ^ 64 \<Longrightarrow> (word_of_nat n :: u64) \<noteq> kNotFoundOff"
proof
  assume n: "n + 1 < 2 ^ 64" and "(word_of_nat n :: u64) = kNotFoundOff"
  then have "unat (word_of_nat n :: u64) = 2 ^ 64 - 1" by (simp add: kNotFoundOff_def unsigned_minus_1_eq_mask mask_eq_exp_minus_1)
  with n unat_word_of_nat64 [of n] show False by simp
qed

lemma write_batch_versions:
  assumes "mmap_inv (tb_file t)" "os_ok env" "write_batch_to_page env b t = (st, t')" "length (pb_row_ts b) = pb_row_count b"
    and "length (mf_disk (tb_file t')) < 2 ^ 64"
  shows "index_versions (tb_vindex t') = index_versions (tb_vindex t) + mset (batch_versions b) \<and>
    tb_queue t' = tb_queue t \<and> tb_active t' = tb_active t \<and> tb_free t' = tb_free t \<and> (vi_inv (tb_vindex t) \<longrightarrow> vi_inv (tb_vindex t'))"
proof (cases "pb_row_count b = 0")
  case True
  then show ?thesis using assms(3) by (simp add: write_batch_to_page_def batch_versions_def)
next
  case False
  let ?img = "page_bytes (tb_schema t) (tb_lsn t) b" and ?off = "mf_size (tb_file t)"
  obtain f where f: "mmap_resize env (?off + length ?img) (tb_file t) = (kOk, f)"
    using mmap_resize_fine [of "tb_file t" env "?off + length ?img"] assms(1,2) by (auto simp: mmap_inv_def os_ok_def)
  with mmap_resize_ok [OF assms(1)] have "length (mf_disk f) = ?off + length ?img" by fastforce
  moreover have "tb_file t' = mf_poke ?off ?img f" using assms(3) False f by (auto simp: write_batch_to_page_def Let_def)
  ultimately have "?off + length ?img < 2 ^ 64" using assms(5) by (simp add: mf_poke_def poke_def)
  moreover have "32 \<le> length ?img" by (simp add: page_bytes_def Let_def)
  ultimately have "(word_of_nat ?off :: u64) \<noteq> kNotFoundOff" by (intro no_page_at_end) simp
  then show ?thesis
    using assms(3,4) False f batch_entries_versions [of "word_of_nat ?off" b]
    by (auto simp: write_batch_to_page_def Let_def insert_bulk_inv)
qed

lemma flush_loop_versions:
  assumes "mmap_inv (tb_file t)" "list_all os_ok envs" "flush_loop envs t = (st, t')" "stamps_ok t"
    and "length (mf_disk (tb_file t')) < 2 ^ 64"
  shows "table_versions t' = table_versions t \<and> stamps_ok t' \<and> (vi_inv (tb_vindex t) \<longrightarrow> vi_inv (tb_vindex t'))"
  using assms
proof (induction envs t rule: flush_loop.induct)
  case (1 envs t)
  show ?case
  proof (cases "tb_queue t")
    case Nil
    then show ?thesis using "1.prems" by (simp add: flush_loop.simps pop_flush_queue_def)
  next
    case (Cons b q)
    let ?t1 = "t\<lparr>tb_queue := q\<rparr>"
    define env where "env = (case envs of [] \<Rightarrow> os_fine | e # _ \<Rightarrow> e)"
    have env: "os_ok env" "list_all os_ok (tl envs)" using "1.prems"(2) by (cases envs; simp add: env_def)+
    obtain t2 x where w: "write_batch_to_page env b ?t1 = (kOk, t2)" "mf_disk (tb_file t2) = mf_disk (tb_file t) @ x" "mmap_inv (tb_file t2)"
      using write_batch_appends [of ?t1 env b] "1.prems"(1) env(1) by auto
    let ?t3 = "return_free_batch b t2"
    have step: "flush_loop envs t = flush_loop (tl envs) ?t3"
      by (subst flush_loop.simps) (simp add: pop_flush_queue_def Cons w(1) env_def [symmetric])
    have f3: "tb_file ?t3 = tb_file t2" by (simp add: return_free_batch_def)
    have "snd (flush_loop (tl envs) ?t3) = t'" using step "1.prems"(3) by (metis snd_conv)
    with flush_loop_appends [of ?t3, OF _ env(2)] obtain y where "mf_disk (tb_file t') = mf_disk (tb_file t2) @ y"
      using w(3) f3 by auto
    then have small: "length (mf_disk (tb_file t2)) < 2 ^ 64" using "1.prems"(5) by simp
    have "b \<in> set (pending t)" using Cons by (simp add: pending_def)
    then have len: "length (pb_row_ts b) = pb_row_count b" using "1.prems"(4) by (simp add: stamps_ok_def)
    have inv1: "mmap_inv (tb_file ?t1)" using "1.prems"(1) by simp
    note v = write_batch_versions [OF inv1 env(1) w(1) len small]
    have p3: "pending ?t3 = pending ?t1" using v by (simp add: pending_def return_free_batch_def)
    have "table_versions ?t3 = table_versions t"
      using v Cons unfolding table_versions_def p3 by (simp add: pending_def return_free_batch_def)
    moreover have "stamps_ok ?t3"
      using "1.prems"(4) v Cons unfolding stamps_ok_def p3 by (auto simp: pending_def return_free_batch_def)
    moreover have "tb_vindex ?t3 = tb_vindex t2" by (simp add: return_free_batch_def)
    ultimately show ?thesis
      using "1.IH" [OF _ refl env_def w(1) [symmetric]] env(2) w(3) Cons step "1.prems"(3,5) v
      by (simp add: pop_flush_queue_def return_free_batch_def)
  qed
qed

lemma flush_pending_versions:
  assumes "mmap_inv (tb_file t)" "list_all os_ok envs" "flush_pending envs t = (st, t')" "stamps_ok t"
    and "length (mf_disk (tb_file t')) < 2 ^ 64"
  shows "table_versions t' = table_versions t \<and> stamps_ok t' \<and> (vi_inv (tb_vindex t) \<longrightarrow> vi_inv (tb_vindex t'))"
proof -
  have q: "table_versions (queue_active t) = table_versions t" "stamps_ok (queue_active t) = stamps_ok t"
    "tb_file (queue_active t) = tb_file t" "tb_vindex (queue_active t) = tb_vindex t"
    by (auto simp: queue_active_def push_flush_queue_def table_versions_def pending_def stamps_ok_def split: option.splits)
  from flush_loop_versions [of "queue_active t" envs st t'] assms show ?thesis by (simp add: q flush_pending_def)
qed

section \<open>Commit and rollback\<close>

lemma upd_first_mset:
  "if \<exists>x \<in> set xs. p x then \<exists>x. x \<in> set xs \<and> p x \<and> mset (upd_first p f xs) = add_mset (f x) (mset xs - {#x#})
   else upd_first p f xs = xs"
proof (induction xs)
  case (Cons y ys)
  show ?case
  proof (cases "p y")
    case True
    then show ?thesis by (auto intro: exI [of _ y])
  next
    case False
    then show ?thesis
    proof (cases "\<exists>x \<in> set ys. p x")
      case True
      with Cons.IH obtain x where "x \<in> set ys" "p x" "mset (upd_first p f ys) = add_mset (f x) (mset ys - {#x#})" by auto
      with False True show ?thesis by (auto intro!: exI [of _ x] simp: add_mset_commute)
    next
      case none: False
      with False Cons.IH show ?thesis by simp
    qed
  qed
qed simp

lemma none_counted: "size (filter_mset P M) = 0 \<longleftrightarrow> (\<forall>x \<in># M. \<not> P x)"
  by (induction M) auto

abbreviation marked :: "Timestamp \<Rightarrow> RowId \<Rightarrow> Version multiset \<Rightarrow> nat" where
  "marked target rid V \<equiv> size (filter_mset (\<lambda>v. fst v = rid \<and> fst (snd v) = target) V)"

definition restamp_all :: "Timestamp \<Rightarrow> Timestamp \<Rightarrow> IndexEntry \<Rightarrow> IndexEntry" where
  "restamp_all target c e = (if ie_ts e = target then e\<lparr>ie_ts := c\<rparr> else e)"

text \<open>When the rows handed to the commit cover the marked entries of every row, all of them are
  re-stamped, however often a row was written.\<close>

lemma fold_commit_mset:
  assumes "rows_sorted es" "c \<noteq> target"
    and "\<forall>rid. size (filter_mset (\<lambda>e. ie_row_id e = rid \<and> ie_ts e = target) (mset es)) \<le> count (mset rids) rid"
  shows "mset (fold (commit_row target c) rids es) = image_mset (restamp_all target c) (mset es)"
  using assms
proof (induction rids arbitrary: es)
  case Nil
  then have "size (filter_mset (\<lambda>e. ie_row_id e = r \<and> ie_ts e = target) (mset es)) = 0" for r by simp
  then have "\<forall>e \<in># mset es. ie_ts e \<noteq> target" unfolding none_counted by blast
  then have "image_mset (restamp_all target c) (mset es) = image_mset id (mset es)"
    by (intro image_mset_cong) (simp add: restamp_all_def)
  then show ?case by simp
next
  case (Cons rid rids)
  let ?p = "\<lambda>e. ie_row_id e = rid \<and> ie_ts e = target" and ?f = "\<lambda>e. e\<lparr>ie_ts := c\<rparr>"
  let ?cnt = "\<lambda>r es. size (filter_mset (\<lambda>e. ie_row_id e = r \<and> ie_ts e = target) (mset es))"
  let ?es = "commit_row target c rid es"
  have upd: "?es = upd_first ?p ?f es" by (rule commit_row_upd [OF Cons.prems(1)])
  have "image_mset (restamp_all target c) (mset ?es) = image_mset (restamp_all target c) (mset es) \<and>
      (\<forall>r. ?cnt r ?es \<le> count (mset rids) r)"
  proof (cases "\<exists>e \<in> set es. ?p e")
    case True
    with upd_first_mset [of es ?p ?f] obtain e where e: "e \<in> set es" "?p e" "mset ?es = add_mset (?f e) (mset es - {#e#})"
      by (auto simp: upd)
    then have es: "mset es = add_mset e (mset es - {#e#})" by simp
    have "restamp_all target c (?f e) = restamp_all target c e" using e(2) Cons.prems(2) by (simp add: restamp_all_def)
    then have "image_mset (restamp_all target c) (mset ?es) = image_mset (restamp_all target c) (mset es)"
      by (subst es) (simp add: e(3))
    moreover have "?cnt r es = ?cnt r ?es + (if r = rid then 1 else 0)" for r
      using e(2) Cons.prems(2) by (subst es) (simp add: e(3))
    then have "?cnt r ?es \<le> count (mset rids) r" for r
      using Cons.prems(3) [rule_format, of r] by (auto split: if_splits)
    ultimately show ?thesis by blast
  next
    case False
    then have same: "?es = es" using upd_first_mset [of es ?p ?f] by (simp add: upd)
    have none: "?cnt rid es = 0" unfolding none_counted using False by simp
    have "?cnt r es \<le> count (mset rids) r" for r
    proof (cases "r = rid")
      case True
      then show ?thesis using none by (simp only: le0)
    next
      case False
      then show ?thesis using Cons.prems(3) [rule_format, of r] by simp
    qed
    then show ?thesis by (simp add: same)
  qed
  with Cons.IH [OF commit_row_sorted [OF Cons.prems(1)] Cons.prems(2)] show ?case by simp
qed

lemma marked_index:
  "marked target rid (index_versions vi) = size (filter_mset (\<lambda>e. ie_row_id e = rid \<and> ie_ts e = target) (mset (vi_entries vi)))"
  by (simp add: index_versions_def filter_mset_image_mset entry_version_def)

lemma commit_rows_versions:
  assumes "vi_inv vi" "c \<noteq> tx OR kTxIdFlag" "\<forall>rid. marked (tx OR kTxIdFlag) rid (index_versions vi) \<le> count (mset rids) rid"
  shows "index_versions (commit_rows rids tx c vi) = image_mset (publish (tx OR kTxIdFlag) c) (index_versions vi)"
proof -
  let ?t = "tx OR kTxIdFlag"
  have "mset (vi_entries (commit_rows rids tx c vi)) = image_mset (restamp_all ?t c) (mset (vi_entries vi))"
    using fold_commit_mset [of "vi_entries (ensure_sorted vi)" c ?t rids] assms ensure_sorted_inv [OF assms(1)]
    by (simp add: commit_rows_def Let_def marked_index)
  moreover have "entry_version (restamp_all ?t c e) = publish ?t c (entry_version e)" for e
    by (simp add: entry_version_def restamp_all_def publish_def)
  ultimately show ?thesis by (simp add: index_versions_def image_mset.compositionality comp_def)
qed

text \<open>The rows of a batch, whose numbers do not wrap around.\<close>

definition batch_fits :: "PendingBatch \<Rightarrow> bool" where
  "batch_fits b \<longleftrightarrow> unat (pb_start_rid b) + pb_row_count b < 2 ^ 64"

lemma in_batch_offset:
  assumes "batch_fits b"
  shows "in_batch rid b \<longleftrightarrow> unat (rid - pb_start_rid b) < pb_row_count b"
proof -
  have e: "unat (pb_start_rid b + word_of_nat (pb_row_count b)) = unat (pb_start_rid b) + pb_row_count b"
    using assms unat_word_of_nat64 [of "unat (pb_start_rid b) + pb_row_count b"] by (simp add: batch_fits_def)
  show ?thesis
  proof (cases "pb_start_rid b \<le> rid")
    case True
    then have "unat (rid - pb_start_rid b) = unat rid - unat (pb_start_rid b)" by (simp add: unat_sub)
    with True show ?thesis by (simp add: in_batch_def word_less_nat_alt word_le_nat_alt e) linarith
  next
    case False
    then have "unat (rid - pb_start_rid b) = 2 ^ 64 + unat rid - unat (pb_start_rid b)"
      using unat_sub_if_size [of rid "pb_start_rid b"] by (simp add: word_le_nat_alt word_size)
    with False assms show ?thesis by (simp add: in_batch_def batch_fits_def)
  qed
qed

lemma commit_batch_row_versions:
  assumes "batch_fits b" "length (pb_row_ts b) = pb_row_count b"
  shows "batch_versions (commit_batch_row target c rid b) =
      map (\<lambda>v. if fst v = rid then publish target c v else v) (batch_versions b)"
    "batch_fits (commit_batch_row target c rid b)"
    "length (pb_row_ts (commit_batch_row target c rid b)) = pb_row_count (commit_batch_row target c rid b)"
proof -
  show "batch_fits (commit_batch_row target c rid b)"
    "length (pb_row_ts (commit_batch_row target c rid b)) = pb_row_count (commit_batch_row target c rid b)"
    using assms by (simp_all add: commit_batch_row_def batch_fits_def Let_def)
  let ?off = "unat (rid - pb_start_rid b)"
  have row: "pb_start_rid b + word_of_nat i = rid \<longleftrightarrow> i = ?off" if "i < pb_row_count b" for i
  proof
    have "unat (word_of_nat i :: u64) = i" using that assms(1) by (simp add: batch_fits_def unat_word_of_nat64)
    moreover assume "pb_start_rid b + word_of_nat i = rid"
    ultimately show "i = ?off" by auto
  qed simp
  show "batch_versions (commit_batch_row target c rid b) =
      map (\<lambda>v. if fst v = rid then publish target c v else v) (batch_versions b)"
  proof (cases "in_batch rid b \<and> pb_row_ts b ! ?off = target")
    case True
    then have "?off < pb_row_count b" using in_batch_offset [OF assms(1)] by simp
    with True assms(2) row show ?thesis
      by (auto simp: commit_batch_row_def batch_versions_def publish_def Let_def nth_list_update)
  next
    case False
    then have "commit_batch_row target c rid b = b" by (auto simp: commit_batch_row_def Let_def)
    moreover have "pb_row_ts b ! i \<noteq> target" if "i < pb_row_count b" "pb_start_rid b + word_of_nat i = rid" for i
      using row that False in_batch_offset [OF assms(1), of rid] by auto
    ultimately show ?thesis by (auto simp: batch_versions_def publish_def)
  qed
qed

lemma publish_twice: "c \<noteq> target \<Longrightarrow> publish target c (publish target c v) = publish target c v"
  by (simp add: publish_def split: prod.splits)

lemma fst_publish [simp]: "fst (publish target c v) = fst v"
  by (simp add: publish_def split: prod.splits)

lemma commit_batch_versions:
  assumes "batch_fits b" "length (pb_row_ts b) = pb_row_count b" "c \<noteq> target"
  shows "batch_versions (commit_batch rids target c b) = map (\<lambda>v. if fst v \<in> set rids then publish target c v else v) (batch_versions b) \<and>
    length (pb_row_ts (commit_batch rids target c b)) = pb_row_count (commit_batch rids target c b)"
  using assms(1,2) unfolding commit_batch_def
proof (induction rids arbitrary: b)
  case (Cons rid rids)
  note r = commit_batch_row_versions [OF Cons.prems]
  from Cons.IH [OF r(2,3)] show ?case
    by (auto simp: r(1) [of target c rid] publish_twice [OF assms(3)])
qed simp

text \<open>The pending rows of a table are numbered below \<open>2^64\<close>.\<close>

lemma rep_fits:
  assumes "table_rep t rows" "length rows < 2 ^ 64" "b \<in> set (pending t)"
  shows "batch_fits b"
proof -
  obtain pcs ucs where rep: "chunks_rep t pcs ucs" "rows = concat (pcs @ ucs)" using assms(1) by (auto simp: table_rep_def)
  then obtain j where j: "j < length ucs" "b = pending t ! j" "batch_rep (tb_schema t) b (length (concat pcs) + chunk_start ucs j) (ucs ! j)"
    using assms(3) by (auto simp: chunks_rep_def batches_rep_def in_set_conv_nth)
  have "length (concat pcs) + chunk_start ucs j + length (ucs ! j) < 2 ^ 64"
    using chunk_start_end [OF j(1)] assms(2) rep(2) by simp
  moreover from this have "unat (word_of_nat (length (concat pcs) + chunk_start ucs j) :: u64) = length (concat pcs) + chunk_start ucs j"
    by (intro unat_word_of_nat64) simp
  ultimately show ?thesis using j(3) unfolding batch_fits_def batch_rep_def by metis
qed

lemma marked_le: "V \<subseteq># W \<Longrightarrow> marked target rid V \<le> marked target rid W"
  by (intro size_mset_mono multiset_filter_mono)

lemma marked_rows:
  assumes "\<forall>rid. marked target rid V \<le> count (mset rids) rid" "v \<in># V" "fst (snd v) = target"
  shows "fst v \<in> set rids"
proof (rule ccontr)
  assume "fst v \<notin> set rids"
  then have "count (mset rids) (fst v) = 0" by simp
  moreover have "marked target (fst v) V \<le> count (mset rids) (fst v)" using assms(1) by (rule spec)
  ultimately have "marked target (fst v) V = 0" by (simp only: le_zero_eq)
  then show False using assms(2,3) unfolding none_counted by blast
qed

text \<open>The refinement of a commit: all versions of the transaction get the commit timestamp.\<close>

lemma table_commit_versions:
  assumes "stamps_ok t" "\<forall>b \<in> set (pending t). batch_fits b" "vi_inv (tb_vindex t)" "c \<noteq> tx OR kTxIdFlag"
    and "\<forall>rid. marked (tx OR kTxIdFlag) rid (table_versions t) \<le> count (mset rids) rid"
  shows "table_versions (table_commit_rows rids tx c t) = image_mset (publish (tx OR kTxIdFlag) c) (table_versions t)"
    "stamps_ok (table_commit_rows rids tx c t)" "vi_inv (tb_vindex (table_commit_rows rids tx c t))"
proof -
  let ?t = "tx OR kTxIdFlag" and ?P = "\<Sum>b \<in># mset (pending t). mset (batch_versions b)"
  let ?g = "\<lambda>v. if fst v \<in> set rids then publish ?t c v else v"
  have b: "batch_versions (commit_batch rids ?t c b) = map ?g (batch_versions b)"
    "length (pb_row_ts (commit_batch rids ?t c b)) = pb_row_count (commit_batch rids ?t c b)" if "b \<in> set (pending t)" for b
    using commit_batch_versions [of b c ?t rids] assms(1,2,4) that by (auto simp: stamps_ok_def)
  have "(\<Sum>b \<in># mset (map (commit_batch rids ?t c) bs). mset (batch_versions b)) =
      image_mset ?g (\<Sum>b \<in># mset bs. mset (batch_versions b))" if "set bs \<subseteq> set (pending t)" for bs
    using that by (induction bs) (simp_all add: b)
  then have pend: "(\<Sum>b \<in># mset (pending (table_commit_rows rids tx c t)). mset (batch_versions b)) = image_mset ?g ?P"
    by (simp add: pending_commit)
  have "?P \<subseteq># table_versions t" by (simp add: table_versions_def)
  then have "?g v = publish ?t c v" if "v \<in># ?P" for v
    using that assms(5) marked_rows [of ?t "table_versions t" rids v] mset_subset_eqD [of ?P "table_versions t" v]
    by (auto simp: publish_def split: prod.splits)
  then have P: "image_mset ?g ?P = image_mset (publish ?t c) ?P" by (rule image_mset_cong)
  have "index_versions (tb_vindex t) \<subseteq># table_versions t" by (simp add: table_versions_def)
  have le: "\<forall>rid. marked ?t rid (index_versions (tb_vindex t)) \<le> count (mset rids) rid"
  proof
    fix rid
    from \<open>index_versions (tb_vindex t) \<subseteq># table_versions t\<close>
    have "marked ?t rid (index_versions (tb_vindex t)) \<le> marked ?t rid (table_versions t)" by (rule marked_le)
    also have "\<dots> \<le> count (mset rids) rid" using assms(5) by blast
    finally show "marked ?t rid (index_versions (tb_vindex t)) \<le> count (mset rids) rid" .
  qed
  have I: "index_versions (tb_vindex (table_commit_rows rids tx c t)) = image_mset (publish ?t c) (index_versions (tb_vindex t))"
  proof (cases "rids = []")
    case True
    then have none: "fst (snd v) \<noteq> ?t" if "v \<in># index_versions (tb_vindex t)" for v
      using marked_rows [OF le that] by auto
    then have "image_mset (publish ?t c) (index_versions (tb_vindex t)) = image_mset id (index_versions (tb_vindex t))"
      by (intro image_mset_cong) (force simp: publish_def split: prod.splits)
    then show ?thesis using True by (simp add: table_commit_rows_def Let_def)
  next
    case False
    then show ?thesis using commit_rows_versions [OF assms(3,4) le] by (simp add: table_commit_rows_def Let_def)
  qed
  show "table_versions (table_commit_rows rids tx c t) = image_mset (publish ?t c) (table_versions t)"
    unfolding table_versions_def pend P I by simp
  show "stamps_ok (table_commit_rows rids tx c t)"
    using assms(1) b(2) by (auto simp: stamps_ok_def pending_commit) (auto simp: table_commit_rows_def Let_def)
  show "vi_inv (tb_vindex (table_commit_rows rids tx c t))"
    using assms(3) commit_rows_inv by (simp add: table_commit_rows_def Let_def)
qed

end
