(* ===== verification/Db_Isolation.thy ===== *)
theory Db_Isolation
  imports Db_Recovery Table_Versions
begin

text \<open>
  Transactions over the life of a database: the step relation \<open>db_history\<close> has one rule per
  operation. By rule induction every version that is not committed belongs to an active
  transaction that has the row in its write set; from this follows what commits, rollbacks and
  unfinished transactions do to the snapshots of readers.
\<close>

section \<open>Write sets\<close>

definition rows_of :: "TableId \<Rightarrow> (TableId \<times> RowId list) list \<Rightarrow> RowId list" where
  "rows_of tid ws = (case map_of ws tid of None \<Rightarrow> [] | Some rids \<Rightarrow> rids)"

lemma rows_of_add: "rows_of i (add_writes tid rids ws) = (if i = tid then rows_of i ws @ rids else rows_of i ws)"
  by (induction tid rids ws rule: add_writes.induct) (auto simp: rows_of_def)

lemma add_writes_keys: "fst ` set (add_writes tid rids ws) = insert tid (fst ` set ws)"
  by (induction tid rids ws rule: add_writes.induct) auto

lemma add_writes_distinct: "distinct (map fst ws) \<Longrightarrow> distinct (map fst (add_writes tid rids ws))"
proof (induction tid rids ws rule: add_writes.induct)
  case (2 tid rids i rs ws)
  have "set (map fst (add_writes tid rids ws)) = insert tid (fst ` set ws)" by (simp add: add_writes_keys)
  with 2 show ?case by (auto simp: image_iff)
qed simp

lemma unat_inj: "unat a = unat b \<Longrightarrow> a = (b :: u32)"
  by (rule unsigned_word_eqI)

text \<open>Every table of the write set is restamped once.\<close>

lemma commit_tables_nth:
  assumes "distinct (map fst ws)" "\<forall>tid \<in> fst ` set ws. unat tid < length tables"
  shows "\<exists>tables'. commit_tables tx ts ws tables = Some tables' \<and> length tables' = length tables \<and>
    (\<forall>tid. unat tid < length tables \<longrightarrow> tables' ! unat tid =
      (case map_of ws tid of None \<Rightarrow> tables ! unat tid | Some rows \<Rightarrow> table_commit_rows rows tx ts (tables ! unat tid)))"
  using assms
proof (induction tx ts ws tables rule: commit_tables.induct)
  case (2 tx ts tid rows ws tables)
  let ?T = "tables[unat tid := table_commit_rows rows tx ts (tables ! unat tid)]"
  have lt: "unat tid < length tables" using "2.prems" by simp
  then have "\<not> length tables \<le> unat tid" by simp
  from "2.IH" [OF this] "2.prems" obtain tables' where r: "commit_tables tx ts ws ?T = Some tables'" "length tables' = length tables"
      "\<forall>i. unat i < length tables \<longrightarrow> tables' ! unat i =
        (case map_of ws i of None \<Rightarrow> ?T ! unat i | Some rows \<Rightarrow> table_commit_rows rows tx ts (?T ! unat i))"
    by auto
  have "map_of ws tid = None" using "2.prems"(1) by (simp add: map_of_eq_None_iff)
  then show ?case
    using r lt by (auto simp: nth_list_update dest: unat_inj split: option.splits)
qed simp

section \<open>The invariant\<close>

definition table_inv :: "Table \<Rightarrow> bool" where
  "table_inv t \<longleftrightarrow> (\<exists>rows. table_rep t rows \<and> length rows < 2 ^ 64) \<and> vi_inv (tb_vindex t)"

definition writes :: "Database \<Rightarrow> TxId \<Rightarrow> TableId \<Rightarrow> RowId list" where
  "writes db tx tid =
     (case db_txns db tx of None \<Rightarrow> [] | Some x \<Rightarrow> if tx_state x = kActive then rows_of tid (tx_write_set x) else [])"

text \<open>The largest timestamp is the mark of a rollback; the transaction with that number is never
  reached.\<close>

definition kMaxTx :: TxId where "kMaxTx = kTxIdFlag - 1"

definition write_set_ok :: "nat \<Rightarrow> (TableId \<times> RowId list) list \<Rightarrow> bool" where
  "write_set_ok n ws \<longleftrightarrow> distinct (map fst ws) \<and> (\<forall>tid \<in> fst ` set ws. unat tid < n)"

definition txns_inv :: "Database \<Rightarrow> bool" where
  "txns_inv db \<longleftrightarrow> db_next_tx_id db < kMaxTx \<and> 0 < db_next_tx_id db \<and>
     (\<forall>tx x. db_txns db tx = Some x \<longrightarrow>
        0 < tx \<and> tx < db_next_tx_id db \<and> write_set_ok (length (db_tables db)) (tx_write_set x))"

lemma write_set_ok_add: "write_set_ok n ws \<Longrightarrow> unat tid < n \<Longrightarrow> write_set_ok n (add_writes tid rids ws)"
  unfolding write_set_ok_def add_writes_keys by (simp add: add_writes_distinct)

text \<open>The marked versions of a transaction are covered by its write set.\<close>

definition marks_inv :: "Database \<Rightarrow> bool" where
  "marks_inv db \<longleftrightarrow> (\<forall>tid. unat tid < length (db_tables db) \<longrightarrow> (\<forall>tx rid. tx < kMaxTx \<longrightarrow>
     marked (tx OR kTxIdFlag) rid (table_versions (db_tables db ! unat tid)) \<le> count (mset (writes db tx tid)) rid))"

definition clock_inv :: "Database \<Rightarrow> bool" where
  "clock_inv db \<longleftrightarrow> next_ts (db_timestamps db) < kMaxTx \<and>
     (\<forall>t \<in> set (db_tables db). \<forall>v \<in># table_versions t. fst (snd v) < kTxIdFlag \<longrightarrow> fst (snd v) \<le> next_ts (db_timestamps db))"

definition db_inv :: "Database \<Rightarrow> bool" where
  "db_inv db \<longleftrightarrow> (\<forall>t \<in> set (db_tables db). table_inv t) \<and> length (db_tables db) < 2 ^ 32 \<and>
     txns_inv db \<and> marks_inv db \<and> clock_inv db"

lemma marks_invD:
  "db_inv db \<Longrightarrow> unat tid < length (db_tables db) \<Longrightarrow> tx < kMaxTx \<Longrightarrow>
   marked (tx OR kTxIdFlag) rid (table_versions (db_tables db ! unat tid)) \<le> count (mset (writes db tx tid)) rid"
  unfolding db_inv_def marks_inv_def by blast

lemma clock_invD:
  "db_inv db \<Longrightarrow> i < length (db_tables db) \<Longrightarrow> v \<in># table_versions (db_tables db ! i) \<Longrightarrow> fst (snd v) < kTxIdFlag \<Longrightarrow>
   fst (snd v) \<le> next_ts (db_timestamps db)"
  unfolding db_inv_def clock_inv_def by (meson nth_mem)

lemma table_inv_facts:
  assumes "table_inv t"
  shows "stamps_ok t" "\<forall>b \<in> set (pending t). batch_fits b" "vi_inv (tb_vindex t)" "mmap_inv (tb_file t)"
  using assms rep_stamps rep_fits by (fastforce simp: table_inv_def table_rep_def chunks_rep_def)+

lemma tid_index: "i < length ts \<Longrightarrow> length ts < 2 ^ 32 \<Longrightarrow> unat (word_of_nat i :: u32) = i"
  by (simp add: unat_word_of_nat32)

lemma mark_ne: "tx < kMaxTx \<Longrightarrow> tx OR kTxIdFlag \<noteq> -1" "c < kTxIdFlag \<Longrightarrow> c \<noteq> tx OR kTxIdFlag"
proof -
  show "c < kTxIdFlag \<Longrightarrow> c \<noteq> tx OR kTxIdFlag" using flag_or [of tx] by auto
  assume tx: "tx < kMaxTx"
  then have f: "tx < kTxIdFlag" by (simp add: kMaxTx_def kTxIdFlag_value word_less_nat_alt)
  show "tx OR kTxIdFlag \<noteq> -1"
  proof
    assume "tx OR kTxIdFlag = -1"
    then have "tx = -1 AND NOT kTxIdFlag" using f by (metis flag_strip)
    with tx show False by (simp add: kMaxTx_def kTxIdFlag_value)
  qed
qed

text \<open>A marked timestamp other than the mark of a rollback names its transaction.\<close>

lemma mark_names_tx:
  assumes "\<not> ts < kTxIdFlag" "ts \<noteq> -1"
  shows "\<exists>tx < kMaxTx. ts = tx OR kTxIdFlag"
proof -
  let ?tx = "ts AND NOT kTxIdFlag"
  have b: "bit ts 63" using assms(1) by (simp add: bit63_iff word_less_nat_alt kTxIdFlag_value)
  have ts: "ts = ?tx OR kTxIdFlag"
    using b by (intro bit_word_eqI) (auto simp only: kTxIdFlag_def push_bit_of_1 bit_or_iff bit_and_iff bit_not_iff bit_exp_iff possible_bit_word)
  have "bit kTxIdFlag 63" unfolding kTxIdFlag_def push_bit_of_1 bit_exp_iff by simp
  then have "\<not> bit ?tx 63" by (simp add: bit_and_iff bit_not_iff)
  then have "unat ?tx < 2 ^ 63" by (simp add: bit63_iff not_le)
  moreover have "unat ?tx \<noteq> 2 ^ 63 - 1"
  proof
    assume "unat ?tx = 2 ^ 63 - 1"
    then have "?tx = word_of_nat (2 ^ 63 - 1)" by (intro unsigned_word_eqI [where 'a = nat]) simp
    then have "ts = -1" using ts by (simp add: kTxIdFlag_value)
    with assms(2) show False ..
  qed
  ultimately have "?tx < kMaxTx" by (simp add: kMaxTx_def kTxIdFlag_value word_less_nat_alt)
  with ts show ?thesis by blast
qed

section \<open>The steps keep the invariant\<close>

text \<open>What the invariant reads of a database.\<close>

lemma db_inv_cong:
  assumes "db_tables db' = db_tables db" "db_timestamps db' = db_timestamps db" "db_next_tx_id db' = db_next_tx_id db"
    "db_txns db' = db_txns db"
  shows "db_inv db' = db_inv db"
  using assms by (simp add: db_inv_def txns_inv_def marks_inv_def clock_inv_def writes_def)

lemma set_log_fields [simp]:
  "db_tables (set_log l db) = db_tables db" "db_timestamps (set_log l db) = db_timestamps db"
  "db_next_tx_id (set_log l db) = db_next_tx_id db" "db_txns (set_log l db) = db_txns db" "db_is_open (set_log l db) = db_is_open db"
  "db_active_txns (set_log l db) = db_active_txns db" "db_files (set_log l db) = db_files db"
  by (simp_all add: set_log_def)

lemma set_table_fields [simp]:
  "db_tables (set_table tid t db) = (db_tables db)[unat tid := t]" "db_timestamps (set_table tid t db) = db_timestamps db"
  "db_next_tx_id (set_table tid t db) = db_next_tx_id db" "db_txns (set_table tid t db) = db_txns db"
  by (simp_all add: set_table_def)

lemma db_inv_log [simp]: "db_inv (set_log l db) = db_inv db"
  by (rule db_inv_cong) simp_all

text \<open>Replacing one table, adding to the write sets, and moving the clock on.\<close>

lemma db_inv_update:
  assumes inv: "db_inv db" and tid: "unat tid < length (db_tables db)" and t: "table_inv t"
    and tables: "db_tables db' = (db_tables db)[unat tid := t]"
    and txns: "db_next_tx_id db' = db_next_tx_id db" "txns_inv db'"
    and others: "\<And>tx i. i \<noteq> tid \<Longrightarrow> writes db' tx i = writes db tx i"
    and own: "\<And>tx rid. tx < kMaxTx \<Longrightarrow> marked (tx OR kTxIdFlag) rid (table_versions t) \<le> count (mset (writes db' tx tid)) rid"
    and clock: "next_ts (db_timestamps db) \<le> next_ts (db_timestamps db')" "next_ts (db_timestamps db') < kMaxTx"
      "\<And>v. v \<in># table_versions t \<Longrightarrow> fst (snd v) < kTxIdFlag \<Longrightarrow> fst (snd v) \<le> next_ts (db_timestamps db')"
  shows "db_inv db'"
proof -
  have "\<forall>s \<in> set (db_tables db'). table_inv s"
    using inv t unfolding tables by (auto simp: db_inv_def dest!: set_update_subset_insert [THEN subsetD])
  moreover have "marks_inv db'"
    unfolding marks_inv_def tables
  proof (intro allI impI)
    fix i :: TableId and tx rid
    assume i: "unat i < length ((db_tables db)[unat tid := t])" and tx: "tx < kMaxTx"
    show "marked (tx OR kTxIdFlag) rid (table_versions ((db_tables db)[unat tid := t] ! unat i)) \<le> count (mset (writes db' tx i)) rid"
    proof (cases "i = tid")
      case True
      then show ?thesis using own [OF tx] tid by (simp only: nth_list_update_eq)
    next
      case False
      then have "unat i \<noteq> unat tid" using unat_inj by blast
      then show ?thesis using inv i tx others [OF False] by (simp add: db_inv_def marks_inv_def)
    qed
  qed
  moreover have "clock_inv db'"
    unfolding clock_inv_def tables
  proof (intro conjI ballI impI)
    fix s v assume s: "s \<in> set ((db_tables db)[unat tid := t])" and v: "v \<in># table_versions s" "fst (snd v) < kTxIdFlag"
    show "fst (snd v) \<le> next_ts (db_timestamps db')"
    proof (cases "s = t")
      case True
      then show ?thesis using clock(3) v by blast
    next
      case False
      then have "s \<in> set (db_tables db)" using s set_update_subset_insert by fast
      then have "fst (snd v) \<le> next_ts (db_timestamps db)" using inv v by (simp add: db_inv_def clock_inv_def)
      then show ?thesis using clock(1) by (rule order_trans)
    qed
  qed (rule clock(2))
  ultimately show ?thesis using inv txns by (simp add: db_inv_def tables)
qed

lemma writes_log:
  "db_txns db tx = Some x \<Longrightarrow> tx_state x = kActive \<Longrightarrow>
   writes (log_writes tx tid rids db) tx' i = (if tx' = tx \<and> i = tid then writes db tx' i @ rids else writes db tx' i)"
  by (simp add: writes_def log_writes_def rows_of_add)

lemma txns_inv_log:
  assumes "txns_inv db" "unat tid < length (db_tables db)"
  shows "txns_inv (log_writes tx tid rids db)"
  using assms by (auto simp: txns_inv_def log_writes_def write_set_ok_add)

lemma log_writes_fields [simp]:
  "db_tables (log_writes tx tid rids db) = db_tables db" "db_timestamps (log_writes tx tid rids db) = db_timestamps db"
  "db_next_tx_id (log_writes tx tid rids db) = db_next_tx_id db"
  by (simp_all add: log_writes_def)

text \<open>The common part of the writing operations: versions with one timestamp are added to a
  table, and a transaction notes the rows.\<close>

lemma marked_same:
  assumes "\<And>v. v \<in># W \<Longrightarrow> fst (snd v) = s"
  shows "marked target rid (V + W) = marked target rid V + (if s = target then size (filter_mset (\<lambda>v. fst v = rid) W) else 0)"
proof (cases "s = target")
  case True
  then have "filter_mset (\<lambda>v. fst v = rid \<and> fst (snd v) = target) W = filter_mset (\<lambda>v. fst v = rid) W"
    using assms by (intro filter_mset_cong) auto
  then show ?thesis using True by simp
next
  case False
  then have "marked target rid W = 0" unfolding none_counted using assms by blast
  then show ?thesis using False by simp
qed

lemma count_rows: "size (filter_mset (\<lambda>v. fst v = rid) (mset (map (\<lambda>r. (r, x)) rids))) = count (mset rids) rid"
  by (induction rids) auto

lemma active_lt: "db_inv db \<Longrightarrow> db_txns db tx = Some x \<Longrightarrow> tx < kMaxTx"
  by (force simp: db_inv_def txns_inv_def)

lemma mark_inj:
  assumes "tx < kMaxTx" "tx' < kMaxTx" "tx OR kTxIdFlag = tx' OR kTxIdFlag"
  shows "tx = tx'"
proof -
  have "tx < kTxIdFlag" "tx' < kTxIdFlag" using assms(1,2) by (simp_all add: kMaxTx_def kTxIdFlag_value word_less_nat_alt)
  with assms(3) show ?thesis using flag_or_inject by blast
qed

lemma db_inv_txn_write:
  assumes "db_inv db" "unat tid < length (db_tables db)" "table_inv t" "db_txns db tx = Some x" "tx_state x = kActive"
    and "table_versions t = table_versions (db_tables db ! unat tid) + mset (map (\<lambda>r. (r, tx OR kTxIdFlag, d)) rids)"
  shows "db_inv (log_writes tx tid rids (set_table tid t db))"
proof (rule db_inv_update [OF assms(1-3)])
  let ?db = "log_writes tx tid rids (set_table tid t db)"
  have tx: "tx < kMaxTx" using active_lt [OF assms(1,4)] .
  have w: "writes ?db tx' i = (if tx' = tx \<and> i = tid then writes db tx' i @ rids else writes db tx' i)" for tx' i
    using writes_log [of "set_table tid t db" tx x tid rids tx' i] assms(4,5) by (simp add: writes_def)
  show "writes ?db tx' i = writes db tx' i" if "i \<noteq> tid" for tx' i using w that by simp
  show "marked (tx' OR kTxIdFlag) rid (table_versions t) \<le> count (mset (writes ?db tx' tid)) rid" if "tx' < kMaxTx" for tx' rid
  proof -
    have "marked (tx' OR kTxIdFlag) rid (table_versions (db_tables db ! unat tid)) \<le> count (mset (writes db tx' tid)) rid"
      using assms(1,2) that by (simp add: db_inv_def marks_inv_def)
    moreover have "(tx OR kTxIdFlag = tx' OR kTxIdFlag) = (tx = tx')" using mark_inj [OF tx that] by auto
    moreover have "marked (tx' OR kTxIdFlag) rid (table_versions t) = marked (tx' OR kTxIdFlag) rid (table_versions (db_tables db ! unat tid)) +
        (if tx OR kTxIdFlag = tx' OR kTxIdFlag then count (mset rids) rid else 0)"
      unfolding assms(6) by (subst marked_same [of _ "tx OR kTxIdFlag"]) (auto simp: count_rows simp del: mset_map)
    ultimately show ?thesis using w by simp
  qed
  show "txns_inv ?db" using assms(1,2) by (intro txns_inv_log) (simp_all add: db_inv_def txns_inv_def)
  show "fst (snd v) \<le> next_ts (db_timestamps ?db)" if "v \<in># table_versions t" "fst (snd v) < kTxIdFlag" for v
    using that assms(1,2) flag_or [of tx] by (auto simp: assms(6) db_inv_def clock_inv_def)
  show "next_ts (db_timestamps ?db) < kMaxTx" using assms(1) by (simp add: db_inv_def clock_inv_def)
qed simp_all

text \<open>Committed versions are added outside any transaction, with timestamps of the allocator.\<close>

lemma db_inv_auto_write:
  assumes "db_inv db" "unat tid < length (db_tables db)" "table_inv t"
    and "table_versions t = table_versions (db_tables db ! unat tid) + W"
    and "\<And>v. v \<in># W \<Longrightarrow> fst (snd v) \<le> next_ts a" "next_ts (db_timestamps db) \<le> next_ts a" "next_ts a < kMaxTx"
  shows "db_inv ((set_table tid t db)\<lparr>db_timestamps := a\<rparr>)"
proof (rule db_inv_update [OF assms(1-3)])
  let ?db = "(set_table tid t db)\<lparr>db_timestamps := a\<rparr>"
  have W: "fst (snd v) < kTxIdFlag" if "v \<in># W" for v
    using assms(5) [OF that] assms(7) by (auto simp: kMaxTx_def kTxIdFlag_value word_less_nat_alt word_le_nat_alt)
  show w: "writes ?db tx i = writes db tx i" for tx i by (simp add: writes_def)
  show "marked (tx OR kTxIdFlag) rid (table_versions t) \<le> count (mset (writes ?db tx tid)) rid" if "tx < kMaxTx" for tx rid
  proof -
    have m: "marked (tx OR kTxIdFlag) rid W = 0" unfolding none_counted using W flag_or [of tx] by force
    have "marked (tx OR kTxIdFlag) rid (table_versions (db_tables db ! unat tid)) \<le> count (mset (writes db tx tid)) rid"
      using assms(1,2) that by (simp add: db_inv_def marks_inv_def)
    then show ?thesis by (simp only: assms(4) w filter_union_mset size_union m add_0_right)
  qed
  show "txns_inv ?db" using assms(1) by (simp add: db_inv_def txns_inv_def)
  show "fst (snd v) \<le> next_ts (db_timestamps ?db)" if "v \<in># table_versions t" "fst (snd v) < kTxIdFlag" for v
  proof (cases "v \<in># W")
    case True
    then show ?thesis using assms(5) by simp
  next
    case False
    then have "v \<in># table_versions (db_tables db ! unat tid)" using that(1) by (simp add: assms(4))
    from clock_invD [OF assms(1,2) this that(2)] assms(6) show ?thesis by simp
  qed
qed (use assms in simp_all)

text \<open>A table that keeps its versions or loses some.\<close>

lemma db_inv_fewer:
  assumes "db_inv db" "unat tid < length (db_tables db)" "table_inv t"
    and "table_versions t \<subseteq># table_versions (db_tables db ! unat tid)"
  shows "db_inv (set_table tid t db)"
proof (rule db_inv_update [OF assms(1-3)])
  show "writes (set_table tid t db) tx i = writes db tx i" for tx i by (simp add: writes_def)
  show "marked (tx OR kTxIdFlag) rid (table_versions t) \<le> count (mset (writes (set_table tid t db) tx tid)) rid" if "tx < kMaxTx" for tx rid
  proof -
    have "marked (tx OR kTxIdFlag) rid (table_versions t) \<le> marked (tx OR kTxIdFlag) rid (table_versions (db_tables db ! unat tid))"
      using assms(4) by (rule marked_le)
    also have "\<dots> \<le> count (mset (writes db tx tid)) rid" using assms(1,2) that by (simp add: db_inv_def marks_inv_def)
    finally show ?thesis by (simp add: writes_def)
  qed
  show "txns_inv (set_table tid t db)" using assms(1) by (simp add: db_inv_def txns_inv_def)
  show "fst (snd v) \<le> next_ts (db_timestamps (set_table tid t db))" if "v \<in># table_versions t" "fst (snd v) < kTxIdFlag" for v
    using clock_invD [OF assms(1,2) mset_subset_eqD [OF assms(4) that(1)] that(2)] by simp
qed (use assms in \<open>simp_all add: db_inv_def clock_inv_def\<close>)

lemma db_inv_begin:
  assumes "db_inv db" "txn_begin env db = (r, db')" "db_next_tx_id db + 1 < kMaxTx"
  shows "db_inv db'"
proof -
  have fresh: "db_txns db (db_next_tx_id db) = None"
    using assms(1) by (cases "db_txns db (db_next_tx_id db)") (auto simp: db_inv_def txns_inv_def)
  have succ: "0 < db_next_tx_id db + 1 \<and> db_next_tx_id db < db_next_tx_id db + 1 \<and> (tx < db_next_tx_id db \<longrightarrow> tx < db_next_tx_id db + 1)" for tx
  proof -
    have "unat (db_next_tx_id db) < 2 ^ 63" using assms(1) by (simp add: db_inv_def txns_inv_def kMaxTx_def kTxIdFlag_value word_less_nat_alt)
    then have "unat (db_next_tx_id db + 1) = unat (db_next_tx_id db) + 1"
      using unat_word_of_nat64 [of "unat (db_next_tx_id db) + 1"] by (simp add: add.commute)
    then show ?thesis by (simp add: word_less_nat_alt)
  qed
  have tabs: "db_tables db' = db_tables db" "db_timestamps db' = db_timestamps db" "db_next_tx_id db' = db_next_tx_id db + 1"
    and txns: "db_txns db' = db_txns db \<or>
      (\<exists>x. db_txns db' = (db_txns db)(db_next_tx_id db \<mapsto> x) \<and> tx_write_set x = [])"
    using assms(2) by (auto simp: txn_begin_def Let_def split: prod.splits sum.splits)
  have "writes db' tx i = writes db tx i" for tx i
    using txns fresh by (auto simp: writes_def rows_of_def)
  moreover have "txns_inv db'"
  proof -
    have inv: "txns_inv db" using assms(1) by (simp add: db_inv_def)
    have "0 < tx \<and> tx < db_next_tx_id db + 1 \<and> write_set_ok (length (db_tables db)) (tx_write_set x)"
      if "db_txns db' tx = Some x" for tx x
    proof (cases "db_txns db tx = Some x")
      case True
      then show ?thesis using inv succ unfolding txns_inv_def by blast
    next
      case False
      then have "tx = db_next_tx_id db" "tx_write_set x = []" using txns that by (auto split: if_splits)
      then show ?thesis using inv succ by (simp add: txns_inv_def write_set_ok_def)
    qed
    then show ?thesis using assms(3) succ unfolding txns_inv_def tabs by blast
  qed
  ultimately show ?thesis using assms(1) by (simp add: db_inv_def tabs marks_inv_def clock_inv_def)
qed

section \<open>Ending a transaction\<close>

lemma publish_none: "(\<And>v. v \<in># V \<Longrightarrow> fst (snd v) \<noteq> target) \<Longrightarrow> image_mset (publish target c) V = V"
  by (rule image_mset_cong [of V "publish target c" id, simplified]) (force simp: publish_def split: prod.splits)

lemma marked_publish:
  assumes "c \<noteq> s" "target \<noteq> s"
  shows "marked s rid (image_mset (publish target c) V) = marked s rid V"
proof -
  have "(fst (publish target c v) = rid \<and> fst (snd (publish target c v)) = s) = (fst v = rid \<and> fst (snd v) = s)" for v
    using assms by (auto simp: publish_def split: prod.splits)
  then show ?thesis by (simp add: filter_mset_image_mset)
qed

text \<open>The tables after the loop of a commit or a rollback.\<close>

lemma commit_tables_versions:
  assumes "db_inv db" "db_txns db tx = Some x" "tx_state x = kActive" "c \<noteq> tx OR kTxIdFlag"
  shows "\<exists>tables'. commit_tables tx c (tx_write_set x) (db_tables db) = Some tables' \<and> length tables' = length (db_tables db) \<and>
    (\<forall>tid :: TableId. unat tid < length (db_tables db) \<longrightarrow> table_inv (tables' ! unat tid) \<and>
       table_versions (tables' ! unat tid) = image_mset (publish (tx OR kTxIdFlag) c) (table_versions (db_tables db ! unat tid)))"
proof -
  let ?ts = "db_tables db" and ?t = "tx OR kTxIdFlag"
  have ws: "write_set_ok (length ?ts) (tx_write_set x)" using assms(1,2) by (simp add: db_inv_def txns_inv_def)
  with commit_tables_nth [of "tx_write_set x" ?ts tx c] obtain ts' where
    r: "commit_tables tx c (tx_write_set x) ?ts = Some ts'" "length ts' = length ?ts"
      "\<And>tid. unat tid < length ?ts \<Longrightarrow> ts' ! unat tid =
        (case map_of (tx_write_set x) tid of None \<Rightarrow> ?ts ! unat tid | Some rows \<Rightarrow> table_commit_rows rows tx c (?ts ! unat tid))"
    by (auto simp: write_set_ok_def)
  have "table_inv (ts' ! unat tid) \<and> table_versions (ts' ! unat tid) = image_mset (publish ?t c) (table_versions (?ts ! unat tid))"
    if tid: "unat tid < length ?ts" for tid :: TableId
  proof -
    let ?T = "?ts ! unat tid"
    have inv: "table_inv ?T" using assms(1) tid by (simp add: db_inv_def)
    have cover: "\<forall>rid. marked ?t rid (table_versions ?T) \<le> count (mset (rows_of tid (tx_write_set x))) rid"
      using marks_invD [OF assms(1) tid active_lt [OF assms(1,2)]] assms(2,3) by (simp add: writes_def)
    show ?thesis
    proof (cases "map_of (tx_write_set x) tid")
      case None
      have "image_mset (publish ?t c) (table_versions ?T) = table_versions ?T"
        using marked_rows [OF cover] None by (intro publish_none) (force simp: rows_of_def)
      then show ?thesis using r(3) [OF tid] None inv by simp
    next
      case (Some rids)
      then have "rows_of tid (tx_write_set x) = rids" by (simp add: rows_of_def)
      note v = table_commit_versions [OF table_inv_facts(1-3) [OF inv] assms(4) cover [unfolded this]]
      obtain rows where "table_rep ?T rows" "length rows < 2 ^ 64" using inv by (auto simp: table_inv_def)
      then have "table_inv (table_commit_rows rids tx c ?T)" using v(3) commit_rep unfolding table_inv_def by blast
      then show ?thesis using r(3) [OF tid] Some v(1) by simp
    qed
  qed
  with r(1,2) show ?thesis by blast
qed

lemma db_inv_end:
  assumes "db_inv db" "db_txns db tx = Some x" "tx_state x = kActive" "st \<noteq> kActive"
    and c: "c \<noteq> tx OR kTxIdFlag" "\<And>s. s < kMaxTx \<Longrightarrow> c \<noteq> s OR kTxIdFlag" "c < kTxIdFlag \<Longrightarrow> c \<le> next_ts a"
    and a: "next_ts (db_timestamps db) \<le> next_ts a" "next_ts a < kMaxTx"
    and "commit_tables tx c (tx_write_set x) (db_tables db) = Some tables'"
    and db': "db_tables db' = tables'" "db_txns db' = (db_txns db)(tx \<mapsto> x\<lparr>tx_state := st\<rparr>)"
      "db_next_tx_id db' = db_next_tx_id db" "db_timestamps db' = a"
  shows "db_inv db'"
proof -
  let ?t = "tx OR kTxIdFlag"
  from commit_tables_versions [OF assms(1-3) c(1)] assms(10)
  have len: "length tables' = length (db_tables db)"
    and v: "\<And>tid :: TableId. unat tid < length (db_tables db) \<Longrightarrow> table_inv (tables' ! unat tid) \<and>
      table_versions (tables' ! unat tid) = image_mset (publish ?t c) (table_versions (db_tables db ! unat tid))" by auto
  have n: "length (db_tables db) < 2 ^ 32" using assms(1) by (simp add: db_inv_def)
  have nth: "table_inv (tables' ! i) \<and> table_versions (tables' ! i) = image_mset (publish ?t c) (table_versions (db_tables db ! i))"
    if "i < length (db_tables db)" for i
    using v [of "word_of_nat i"] tid_index [OF that n] that by simp
  have "\<forall>t \<in> set tables'. table_inv t" using nth len by (metis in_set_conv_nth)
  moreover have "txns_inv db'" using assms(1,2) by (auto simp: db_inv_def txns_inv_def db' len)
  moreover have "marks_inv db'"
    unfolding marks_inv_def db'(1)
  proof (intro allI impI)
    fix tid :: TableId and s rid assume tid: "unat tid < length tables'" and s: "s < kMaxTx"
    let ?m = "marked (s OR kTxIdFlag) rid"
    show "?m (table_versions (tables' ! unat tid)) \<le> count (mset (writes db' s tid)) rid"
    proof (cases "s = tx")
      case True
      have "fst (snd v) \<noteq> ?t" if "v \<in># image_mset (publish ?t c) V" for v V
        using that c(1) by (auto simp: publish_def split: prod.splits if_splits)
      then have "?m (table_versions (tables' ! unat tid)) = 0"
        unfolding none_counted using True v tid len by auto
      then show ?thesis by (simp only: le0)
    next
      case False
      then have ne: "?t \<noteq> s OR kTxIdFlag" using mark_inj [OF active_lt [OF assms(1,2)] s] by auto
      have "?m (table_versions (tables' ! unat tid)) = ?m (table_versions (db_tables db ! unat tid))"
        using v tid len marked_publish [OF c(2) [OF s] ne, of rid "table_versions (db_tables db ! unat tid)"] by simp
      also have "\<dots> \<le> count (mset (writes db s tid)) rid" using marks_invD [OF assms(1) _ s] tid len by simp
      finally show ?thesis using False by (simp add: writes_def db'(2))
    qed
  qed
  moreover have "clock_inv db'"
    unfolding clock_inv_def db'
  proof (intro conjI ballI impI)
    fix t v assume "t \<in> set tables'" and w: "v \<in># table_versions t" "fst (snd v) < kTxIdFlag"
    then obtain i where i: "i < length (db_tables db)" "t = tables' ! i" using len by (metis in_set_conv_nth)
    with w nth obtain v0 where v0: "v0 \<in># table_versions (db_tables db ! i)" "v = publish ?t c v0" by auto
    have "fst (snd v) = c \<or> v = v0" using v0(2) by (auto simp: publish_def split: prod.splits)
    moreover have "fst (snd v0) < kTxIdFlag \<Longrightarrow> fst (snd v0) \<le> next_ts (db_timestamps db)"
      using clock_invD [OF assms(1) i(1) v0(1)] .
    ultimately show "fst (snd v) \<le> next_ts a" using w(2) c(3) a(1) by (auto intro: order_trans)
  qed (rule a(2))
  ultimately show ?thesis using n by (simp add: db_inv_def db'(1) len)
qed

end
