(* ===== verification/Background.thy ===== *)
theory Background
  imports Db_Recovery "HOL-Library.AList"
begin

text \<open>
  The threads that a database runs in the background, one function per turn of their loops:
  \<open>Database::checkpointer_thread_func\<close> and \<open>auto_backup_thread_func\<close> (\<open>db/database.cpp\<close>) and
  \<open>GarbageCollector::gc_loop\<close> (\<open>mvcc/gc.cpp\<close>). Every loop sleeps, looks at its flag again and
  then works; a turn takes the flags as they are after the sleep. A flag that is set stays so until
  the threads have ended, hence the test at the head of the loop adds nothing. \<open>None\<close> is an exception that leaves
  the function of the thread, which ends the process.
\<close>

record Threads =
  th_stop_checkpointer :: bool
  th_stop_auto_backup :: bool
  th_gc_running :: bool

definition gc_start :: "Threads \<Rightarrow> bool \<times> Threads" where
  "gc_start th = (\<not> th_gc_running th, th\<lparr>th_gc_running := True\<rparr>)"

definition gc_stop :: "Threads \<Rightarrow> bool \<times> Threads" where
  "gc_stop th = (th_gc_running th, th\<lparr>th_gc_running := False\<rparr>)"

definition start_threads :: "Threads \<Rightarrow> Threads" where
  "start_threads th = th\<lparr>th_stop_checkpointer := False, th_stop_auto_backup := False\<rparr>"

definition stop_threads :: "Threads \<Rightarrow> Threads" where
  "stop_threads th = snd (gc_stop (th\<lparr>th_stop_checkpointer := True, th_stop_auto_backup := True\<rparr>))"

section \<open>Checkpoints\<close>

text \<open>Whether the loop goes on, and the database; the status of the checkpoint is ignored.\<close>

definition checkpointer_turn :: "Threads \<Rightarrow> (nat \<Rightarrow> TableIo) \<Rightarrow> FileEnv \<Rightarrow> Database \<Rightarrow> (bool \<times> Database) option" where
  "checkpointer_turn th io fenv db =
     (if th_stop_checkpointer th then Some (False, db)
      else map_option (\<lambda>(s, db'). (True, db')) (checkpoint io fenv db))"

section \<open>Backups\<close>

text \<open>
  The parent directory of the database: names, with the files of those that are directories.
  \<open>cleanup_old_backups\<close> works on the names. The name of a backup is free or that of a directory.
\<close>

type_synonym ParentDir = "(string \<times> Files option) list"

definition dir_files :: "string \<Rightarrow> ParentDir \<Rightarrow> Files" where
  "dir_files name dir = (case map_of dir name of Some (Some fs) \<Rightarrow> fs | _ \<Rightarrow> [])"

definition dir_names :: "ParentDir \<Rightarrow> (string \<times> bool) list" where
  "dir_names dir = map (\<lambda>(n, f). (n, f \<noteq> None)) dir"

definition backup_name :: "u64 \<Rightarrow> string" where "backup_name now_ms = ''backup_'' @ dec (unat now_ms)"

definition backup_wait :: "Database \<Rightarrow> u32" where
  "backup_wait db = (if 0 < db_backup_interval db then db_backup_interval db else 60)"

definition cleanup_dir :: "u64 \<Rightarrow> (string \<Rightarrow> bool) \<Rightarrow> Database \<Rightarrow> ParentDir \<Rightarrow> ParentDir" where
  "cleanup_dir now_ms removable db dir =
     (let kept = cleanup_old_backups now_ms removable db (dir_names dir)
      in filter (\<lambda>(n, f). (n, f \<noteq> None) \<in> set kept) dir)"

text \<open>The clock is read twice, for the name of the backup and for the clean-up.\<close>

definition auto_backup_turn :: "Threads \<Rightarrow> BackupEnv \<Rightarrow> (nat \<Rightarrow> TableIo) \<Rightarrow> FileEnv \<Rightarrow> u64 \<Rightarrow> u64 \<Rightarrow> (string \<Rightarrow> bool)
    \<Rightarrow> Database \<times> ParentDir \<Rightarrow> (bool \<times> Database \<times> ParentDir) option" where
  "auto_backup_turn th benv io fenv now_ms later_ms removable d =
     (case d of (db, dir) \<Rightarrow>
       if th_stop_auto_backup th then Some (False, db, dir)
       else if 0 < db_backup_interval db then
         let name = backup_name now_ms
         in (case start_backup benv io fenv (dir_files name dir) db of None \<Rightarrow> None
             | Some (s, files, db') \<Rightarrow>
                 let dir' = (if be_dir benv then AList.update name (Some files) dir else dir)
                 in Some (True, db', if s = kOk then cleanup_dir later_ms removable db' dir' else dir'))
       else Some (True, db, dir))"

section \<open>Garbage collection\<close>

text \<open>The times of the steady clock are in nanoseconds.\<close>

definition kGcIntervalMs :: int where "kGcIntervalMs = 1000"

definition gc_turn :: "Threads \<Rightarrow> int \<Rightarrow> (nat \<Rightarrow> OsEnv list) \<Rightarrow> int \<times> Database \<Rightarrow> bool \<times> int \<times> Database" where
  "gc_turn th now envs s =
     (case s of (last_run, db) \<Rightarrow>
       if \<not> th_gc_running th then (False, last_run, db)
       else if (now - last_run) div 1000000 < kGcIntervalMs then (True, last_run, db)
       else let (a, ts) = gc_pass (db_watermarks db) envs (db_timestamps db) (db_tables db)
            in (True, now, db\<lparr>db_timestamps := a, db_tables := ts\<rparr>))"

section \<open>What an automatic backup leaves\<close>

text \<open>
  The clean-up removes exactly the directories of backups that are older than the retention,
  as far as they can be removed, provided that the retention does not reach back beyond the epoch.
\<close>

lemma cleanup_removes_exactly_old:
  assumes "db_backup_retention db \<noteq> 0" "unat (db_backup_retention db) * 1000 \<le> unat now"
  shows "e \<in> set (cleanup_old_backups now removable db entries) \<longleftrightarrow> e \<in> set entries \<and>
    \<not> (snd e \<and> take 7 (fst e) = ''backup_'' \<and> removable (fst e) \<and>
       (\<exists>ts. stoull (drop 7 (fst e)) = Some ts \<and> unat ts + unat (db_backup_retention db) * 1000 < unat now))"
proof -
  let ?r = "ucast (db_backup_retention db) * 1000 :: u64"
  have "unat (db_backup_retention db) < 2 ^ 32" using unsigned_less [of "db_backup_retention db"] by simp
  then have "unat (db_backup_retention db) * 1000 < 2 ^ 64" by simp
  moreover have "?r = word_of_nat (unat (db_backup_retention db) * 1000)" by (simp add: unsigned_ucast_eq take_bit_word_eq_self)
  ultimately have r: "unat ?r = unat (db_backup_retention db) * 1000" by (simp only: unat_word_of_nat64)
  then have "unat (now - ?r) = unat now - unat (db_backup_retention db) * 1000"
    using assms(2) unat_sub_if' [of now ?r] by simp
  then have old: "ts < now - ?r \<longleftrightarrow> unat ts + unat (db_backup_retention db) * 1000 < unat now" for ts
    by (simp add: word_less_nat_alt less_diff_conv)
  show ?thesis
    using assms(1) by (cases e) (auto simp: cleanup_old_backups_def Let_def old_backup_def old split: option.splits)
qed

lemma cleanup_removes_exactly_old_witness:
  "(''backup_100'', True) \<notin> set (cleanup_old_backups 10000 (\<lambda>_. True) (db_init\<lparr>db_backup_retention := 5\<rparr>) [(''backup_100'', True)]) \<and>
   (''backup_6000'', True) \<in> set (cleanup_old_backups 10000 (\<lambda>_. True) (db_init\<lparr>db_backup_retention := 5\<rparr>) [(''backup_6000'', True)])"
proof -
  have s: "stoull ''100'' = Some 100" "stoull ''6000'' = Some 6000" by code_simp+
  let ?db = "db_init\<lparr>db_backup_retention := 5\<rparr>"
  have h: "db_backup_retention ?db \<noteq> 0" "unat (db_backup_retention ?db) * 1000 \<le> unat (10000 :: u64)" by simp_all
  show ?thesis
    using cleanup_removes_exactly_old [OF h, of "(''backup_100'', True)" "\<lambda>_. True" "[(''backup_100'', True)]"]
      cleanup_removes_exactly_old [OF h, of "(''backup_6000'', True)" "\<lambda>_. True" "[(''backup_6000'', True)]"] s by simp
qed

text \<open>A retention that reaches back beyond the epoch wraps, and even a backup that was just taken is
  removed.\<close>

lemma cleanup_cutoff_wraps:
  "cleanup_old_backups 1700000000000 (\<lambda>_. True) (db_init\<lparr>db_backup_retention := 2000000000\<rparr>)
     [(''backup_1700000000000'', True)] = []"
  by code_simp


lemma map_of_put [simp]: "map_of (file_put n bs fs) = (map_of fs)(n \<mapsto> bs)"
  by (induction n bs fs rule: file_put.induct) auto

lemma map_of_copies: "distinct (map fst src) \<Longrightarrow> map_of (copy_files src dest) = map_of dest ++ map_of src"
proof (induction src arbitrary: dest)
  case (Cons e src)
  obtain n bs where e: "e = (n, bs)" by (cases e)
  then have "map_of (copy_files (e # src) dest) = (map_of dest)(n \<mapsto> bs) ++ map_of src"
    using Cons by (simp add: copy_files_def)
  also have "\<dots> = (map_of dest ++ map_of src)(n \<mapsto> bs)"
    using Cons.prems by (intro map_add_upd_left) (simp add: e dom_map_of_conv_image_fst)
  finally show ?case by (simp only: e map_of.simps fst_conv snd_conv map_add_upd)
qed (simp add: copy_files_def)

lemma map_of_filter_first: "map_of xs k = Some v \<Longrightarrow> P (k, v) \<Longrightarrow> map_of (filter P xs) k = Some v"
  by (induction xs) (auto split: if_splits)

lemma fresh_backup_kept:
  assumes "db_backup_retention db = 0 \<or> unat later \<le> unat now + unat (db_backup_retention db) * 1000 \<and>
      unat (db_backup_retention db) * 1000 \<le> unat later"
    and "map_of dir (backup_name now) = Some (Some files)"
  shows "map_of (cleanup_dir later removable db dir) (backup_name now) = Some (Some files)"
proof (cases "db_backup_retention db = 0")
  case True
  have "(\<lambda>(n, f :: Files option). (n, f \<noteq> None) \<in> set (dir_names dir)) e" if "e \<in> set dir" for e
    using that by (auto simp: dir_names_def)
  then show ?thesis using assms(2) True by (simp add: cleanup_dir_def cleanup_old_backups_def)
next
  case False
  with assms(1) have r: "unat later \<le> unat now + unat (db_backup_retention db) * 1000" "unat (db_backup_retention db) * 1000 \<le> unat later"
    by simp_all
  have "drop 7 (backup_name now) = dec (unat now)" by (simp add: backup_name_def)
  then have "(backup_name now, True) \<in> set (cleanup_old_backups later removable db (dir_names dir))"
    using cleanup_removes_exactly_old [OF False r(2), of "(backup_name now, True)" removable "dir_names dir"] stoull_dec [of now] r(1)
      map_of_SomeD [OF assms(2)] by (force simp: dir_names_def)
  then show ?thesis unfolding cleanup_dir_def Let_def by (intro map_of_filter_first [OF assms(2)]) simp
qed


definition sample_timers :: Threads where
  "sample_timers = start_threads \<lparr>th_stop_checkpointer = True, th_stop_auto_backup = True, th_gc_running = False\<rparr>"

definition sample_timed :: Database where
  "sample_timed = db_init\<lparr>db_files := [(''t.raw'', [1])], db_backup_interval := 60, db_backup_retention := 1\<rparr>"

definition benv_fine :: BackupEnv where "benv_fine = \<lparr>be_dir = True, be_copy_fail = None, be_meta = fe_fine\<rparr>"

lemma remove_no_segments: "remove_segments_before n [] = (False, [])"
  by (simp add: remove_segments_before_def log_segments_def std_sort_def)

lemma sample_checkpoint:
  "checkpoint (\<lambda>_. io_fine) fe_fine sample_timed = Some (kOk, sample_timed\<lparr>db_files := [(''t.raw'', [1]), (''checkpoint.meta'', put_u64 (current_lsn wal_writer_init))]\<rparr>)"
  by (simp add: checkpoint_def sample_timed_def db_init_def Let_def write_file_def fe_fine_def remove_no_segments)

lemma sample_tables: "db_tables sample_timed = []" "db_backup_retention sample_timed = 1" "\<not> db_backup_in_progress sample_timed"
  by (simp_all add: sample_timed_def db_init_def)

lemma sample_backup:
  "\<exists>files db'. start_backup benv_fine (\<lambda>_. io_fine) fe_fine [] sample_timed = Some (kOk, files, db') \<and> db_backup_retention db' = 1 \<and>
    disk_image db' = [(''t.raw'', [1]), (''checkpoint.meta'', put_u64 (current_lsn wal_writer_init))]"
  unfolding start_backup_def sample_checkpoint by (simp add: benv_fine_def Let_def disk_image_def sample_tables)


end
