(* ===== verification/Db_History.thy ===== *)
theory Db_History
  imports Db_Isolation Background
begin

text \<open>
  The life of a database as a step relation, the snapshots that its readers take, and what
  insertion, deletion and pruning do to the versions of one table.
\<close>

section \<open>Preparations\<close>

lemma mset_kept: "mset (kept cutoff g) \<subseteq># mset g"
proof -
  have "mset (take n g) \<subseteq># mset g" for n by (metis append_take_drop_id mset_append mset_subset_eq_add_left)
  then show ?thesis by (simp add: kept_def Let_def)
qed

lemma mset_prune_groups: "mset (prune_groups cutoff es) \<subseteq># mset es"
proof (induction cutoff es rule: prune_groups.induct)
  case (2 cutoff e es)
  let ?p = "\<lambda>x. ie_row_id x = ie_row_id e"
  have "mset (e # es) = mset (takeWhile ?p (e # es)) + mset (dropWhile ?p (e # es))"
    by (metis mset_append takeWhile_dropWhile_id)
  then show ?case using subset_mset.add_mono [OF mset_kept "2.IH"] by (simp only: prune_groups.simps mset_append)
qed simp

lemma prune_versions:
  assumes "table_inv t" "prune_version_index cutoff t = (n, t')"
  shows "table_inv t'" "table_versions t' \<subseteq># table_versions t"
proof -
  let ?vi = "snd (prune cutoff (tb_vindex t))"
  have t': "t' = t\<lparr>tb_vindex := ?vi\<rparr>" using assms(2) by (simp add: prune_version_index_def split: prod.splits)
  have "vi_inv ?vi" using assms(1) prune_inv by (simp add: table_inv_def)
  with assms(1) show "table_inv t'" unfolding t' table_inv_def using vindex_rep by auto
  have "mset (vi_entries ?vi) \<subseteq># mset (vi_entries (tb_vindex t))"
    using mset_prune_groups [of cutoff "vi_entries (ensure_sorted (tb_vindex t))"] assms(1)
    by (simp add: prune_entries table_inv_def)
  then have "index_versions ?vi \<subseteq># index_versions (tb_vindex t)" unfolding index_versions_def by (rule image_mset_subseteq_mono)
  then show "table_versions t' \<subseteq># table_versions t"
    by (simp add: t' table_versions_def pending_def)
qed

lemma live_versions_same: "length rids = n \<Longrightarrow> live_versions rids (replicate n s) = map (\<lambda>r. (r, s, False)) rids"
  by (induction rids arbitrary: n) auto

lemma draw_alloc:
  "unat (next_ts a) + n < 2 ^ 64 \<Longrightarrow> unat (next_ts (snd (draw allocate_ts n a))) = unat (next_ts a) + n \<and>
   (\<forall>ts \<in> set (fst (draw allocate_ts n a)). next_ts a < ts \<and> ts \<le> next_ts (snd (draw allocate_ts n a)))"
proof (induction n arbitrary: a)
  case (Suc n)
  let ?a = "a\<lparr>next_ts := next_ts a + 1\<rparr>"
  have u: "unat (next_ts ?a) = unat (next_ts a) + 1"
    using Suc.prems unat_word_of_nat64 [of "unat (next_ts a) + 1"] by (simp add: add.commute)
  with Suc.prems Suc.IH [of ?a] have IH: "unat (next_ts (snd (draw allocate_ts n ?a))) = unat (next_ts a) + 1 + n"
    "\<forall>ts \<in> set (fst (draw allocate_ts n ?a)). next_ts a + 1 < ts \<and> ts \<le> next_ts (snd (draw allocate_ts n ?a))" by simp_all
  then have "next_ts a + 1 \<le> next_ts (snd (draw allocate_ts n ?a))" using u by (simp add: word_le_nat_alt)
  moreover have "next_ts a < next_ts a + 1" using u by (simp add: word_less_nat_alt)
  moreover from this have "next_ts a < ts" if "next_ts a + 1 < ts" for ts using that by (rule less_trans)
  moreover have "allocate_ts a = (next_ts a + 1, ?a)" by (simp add: allocate_ts_def)
  ultimately show ?case using IH by (simp add: split_beta)
qed simp

definition clock_room :: "nat \<Rightarrow> Database \<Rightarrow> bool" where
  "clock_room n db \<longleftrightarrow> unat (next_ts (db_timestamps db)) + n < 2 ^ 63 - 1"

lemma clock_room_word:
  assumes "clock_room n db" "unat (next_ts a) = unat (next_ts (db_timestamps db)) + n"
  shows "next_ts (db_timestamps db) \<le> next_ts a" "next_ts a < kMaxTx"
  using assms by (simp_all add: clock_room_def word_le_nat_alt word_less_nat_alt kMaxTx_def kTxIdFlag_value)

abbreviation active_txn :: "Database \<Rightarrow> TxId \<Rightarrow> bool" where
  "active_txn db tx \<equiv> \<exists>x. db_txns db tx = Some x \<and> tx_state x = kActive"

section \<open>Insertion and deletion\<close>

lemma table_inv_lsn:
  assumes "table_inv t"
  shows "\<exists>rows. table_rep (t\<lparr>tb_lsn := lsn\<rparr>) rows \<and> length rows = tb_row_count t"
proof -
  obtain rows where rows: "table_rep t rows" using assms by (auto simp: table_inv_def)
  then have "length rows = tb_row_count t" by (auto simp: table_rep_def chunks_rep_def)
  with lsn_rep [OF rows] show ?thesis by blast
qed

text \<open>All that an insertion does to a table.\<close>

lemma insert_row_all:
  assumes "table_rep t rows" "carries (tb_schema t) columns row" "insert_row_with src columns t a = Some (r, t', a')"
  shows "r = Inr (word_of_nat (length rows))" "table_rep t' (rows @ [row])" "a' = snd (src a)"
    "table_versions t' = add_mset (word_of_nat (length rows), fst (src a), False) (table_versions t)"
    "tb_vindex t' = tb_vindex t" "tb_schema t' = tb_schema t" "tb_lsn t' = tb_lsn t"
proof -
  have "tb_active t \<noteq> None \<or> tb_free t \<noteq> []"
    using assms(3) carries_length [OF assms(2)]
    by (auto simp: insert_row_with_def acquire_batch_def get_free_batch_def split: option.splits)
  with insert_row_rep [OF assms(1,2)] obtain t1 a1 where
    "insert_row_with src columns t a = Some (Inr (word_of_nat (length rows)), t1, a1)" "table_rep t1 (rows @ [row])" by blast
  with assms(3) show r: "r = Inr (word_of_nat (length rows))" and "table_rep t' (rows @ [row])" by simp_all
  from insert_row_versions [OF assms(3) [unfolded r] rep_stamps [OF assms(1)]] show "a' = snd (src a)"
    "table_versions t' = add_mset (word_of_nat (length rows), fst (src a), False) (table_versions t)" by auto
  obtain b t1 where acq: "acquire_batch t = Some (b, t1)" and t':
      "t' = store_batch (batch_push (fst (src a)) columns b) (t1\<lparr>tb_row_count := tb_row_count t1 + 1\<rparr>)"
    using assms(3) r by (cases "src a") (auto simp: insert_row_with_def split: if_splits)
  have "tb_vindex t1 = tb_vindex t \<and> tb_schema t1 = tb_schema t \<and> tb_lsn t1 = tb_lsn t"
    using acq by (auto simp: acquire_batch_def get_free_batch_def split: option.splits if_splits)
  then show "tb_vindex t' = tb_vindex t" "tb_schema t' = tb_schema t" "tb_lsn t' = tb_lsn t"
    by (simp_all add: t' store_batch_def push_flush_queue_def)
qed

lemma insert_rows_loop_same:
  "insert_rows_loop src cols res t a = Some (res', t', a') \<Longrightarrow>
   tb_vindex t' = tb_vindex t \<and> tb_schema t' = tb_schema t \<and> tb_lsn t' = tb_lsn t"
proof (induction src cols res t a rule: insert_rows_loop.induct)
  case (1 src cols res t a)
  show ?case
  proof (cases "cols = []")
    case True
    then show ?thesis using "1.prems" by (simp add: insert_rows_loop.simps)
  next
    case False
    then obtain b t1 where acq: "acquire_batch t = Some (b, t1)"
      using "1.prems" by (subst (asm) insert_rows_loop.simps) (auto split: option.splits)
    then have v: "tb_vindex t1 = tb_vindex t" "tb_schema t1 = tb_schema t" "tb_lsn t1 = tb_lsn t"
      by (auto simp: acquire_batch_def get_free_batch_def split: option.splits if_splits)
    define n where "n = min (length cols) (kBatchSize - pb_row_count b)"
    obtain b' a1 where push: "batch_push_rows src (take n cols) b a = (b', a1)" by fastforce
    show ?thesis
    proof (cases "n = 0")
      case True
      then show ?thesis
        using "1.prems" False acq "1.IH"(1) [OF False acq refl n_def True] v
        by (subst (asm) insert_rows_loop.simps) (simp add: n_def [symmetric] Let_def push_flush_queue_def)
    next
      case n0: False
      then show ?thesis
        using "1.prems" False acq push "1.IH"(2) [OF False acq refl n_def n0 refl push [symmetric] refl] v
        by (subst (asm) insert_rows_loop.simps) (simp add: n_def [symmetric] Let_def store_batch_def push_flush_queue_def split: if_splits)
    qed
  qed
qed

abbreviation row_ids :: "nat \<Rightarrow> nat \<Rightarrow> RowId list" where
  "row_ids start n \<equiv> map word_of_nat [start..<start + n]"

lemma insert_rows_all:
  assumes "table_rep t rows" "list_all2 (carries (tb_schema t)) cols new" "insert_rows_with src cols t a = Some (r, t', a')"
  shows "r = Inr (row_ids (length rows) (length cols))" "table_rep t' (rows @ new)" "a' = snd (draw src (length cols) a)"
    "table_versions t' = table_versions t + mset (live_versions (row_ids (length rows) (length cols)) (fst (draw src (length cols) a)))"
    "tb_vindex t' = tb_vindex t \<and> tb_schema t' = tb_schema t \<and> tb_lsn t' = tb_lsn t"
proof -
  have "\<exists>rids. insert_rows_loop src cols [] t a = Some (rids, t', a') \<and> r = Inr rids"
  proof (cases "cols = []")
    case True
    then show ?thesis using assms(3) by (simp add: insert_rows_with_def insert_rows_loop.simps)
  next
    case False
    then have "length (hd cols) = column_count (tb_schema t)"
      using assms(2) carries_length by (cases cols; cases new) auto
    with False assms(3) show ?thesis by (auto simp: insert_rows_with_def)
  qed
  then obtain rids where loop: "insert_rows_loop src cols [] t a = Some (rids, t', a')" "r = Inr rids" by blast
  have len: "length new = length cols" using assms(2) by (metis list_all2_lengthD)
  have "table_rep t' (rows @ new) \<and> rids = [] @ row_ids (length rows) (length new)"
    using insert_rows_loop_rep [OF assms(1,2) loop(1)] .
  then show "r = Inr (row_ids (length rows) (length cols))" "table_rep t' (rows @ new)" using loop(2) len by simp_all
  moreover from insert_rows_loop_versions [OF loop(1) rep_stamps [OF assms(1)]] show "a' = snd (draw src (length cols) a)" by blast
  ultimately show "table_versions t' = table_versions t + mset (live_versions (row_ids (length rows) (length cols)) (fst (draw src (length cols) a)))"
    using insert_rows_loop_versions [OF loop(1) rep_stamps [OF assms(1)]] loop(2) by auto
  show "tb_vindex t' = tb_vindex t \<and> tb_schema t' = tb_schema t \<and> tb_lsn t' = tb_lsn t" using insert_rows_loop_same [OF loop(1)] .
qed

text \<open>A row or a batch in a table of the database, with the log position noted.\<close>

lemma table_inv_row:
  assumes "table_inv t" "carries (tb_schema t) columns row" "tb_row_count t + 1 < 2 ^ 64"
    and "insert_row_with src columns (t\<lparr>tb_lsn := lsn\<rparr>) a = Some (r, t', a')"
  shows "\<exists>rid. r = Inr rid \<and> table_inv t' \<and> table_versions t' = add_mset (rid, fst (src a), False) (table_versions t) \<and> a' = snd (src a)"
proof -
  let ?t = "t\<lparr>tb_lsn := lsn\<rparr>"
  obtain rows where rows: "table_rep ?t rows" "length rows + 1 < 2 ^ 64" "vi_inv (tb_vindex t)"
    using table_inv_lsn [OF assms(1), of lsn] assms(1,3) by (auto simp: table_inv_def)
  note r = insert_row_all [OF rows(1) _ assms(4), of row]
  have "table_inv t'" using rows r assms(2) unfolding table_inv_def by (intro conjI exI [of _ "rows @ [row]"]) simp_all
  with r assms(2) show ?thesis by simp
qed

lemma table_inv_rows:
  assumes "table_inv t" "list_all2 (carries (tb_schema t)) cols new" "tb_row_count t + length cols < 2 ^ 64"
    and "insert_rows_with src cols (t\<lparr>tb_lsn := lsn\<rparr>) a = Some (r, t', a')"
  shows "\<exists>rids. r = Inr rids \<and> length rids = length cols \<and> table_inv t' \<and> a' = snd (draw src (length cols) a) \<and>
    table_versions t' = table_versions t + mset (live_versions rids (fst (draw src (length cols) a)))"
proof -
  let ?t = "t\<lparr>tb_lsn := lsn\<rparr>"
  obtain rows where rows: "table_rep ?t rows" "length rows + length cols < 2 ^ 64" "vi_inv (tb_vindex t)"
    using table_inv_lsn [OF assms(1), of lsn] assms(1,3) by (auto simp: table_inv_def)
  note r = insert_rows_all [OF rows(1) _ assms(4), of new]
  have "length new = length cols" using assms(2) by (metis list_all2_lengthD)
  then have "table_inv t'" using rows r assms(2) unfolding table_inv_def by (intro conjI exI [of _ "rows @ new"]) simp_all
  with r assms(2) show ?thesis by simp
qed

lemma tombstone_versions:
  assumes "table_inv t"
  shows "table_inv (insert_version_entries (tombstones ts rids) (t\<lparr>tb_lsn := lsn\<rparr>))"
    "table_versions (insert_version_entries (tombstones ts rids) (t\<lparr>tb_lsn := lsn\<rparr>)) =
      table_versions t + mset (map (\<lambda>r. (r, ts, True)) rids)"
proof -
  show "table_inv (insert_version_entries (tombstones ts rids) (t\<lparr>tb_lsn := lsn\<rparr>))"
    using assms vindex_rep [OF lsn_rep] by (fastforce simp: table_inv_def insert_version_entries_def insert_bulk_inv)
  show "table_versions (insert_version_entries (tombstones ts rids) (t\<lparr>tb_lsn := lsn\<rparr>)) =
      table_versions t + mset (map (\<lambda>r. (r, ts, True)) rids)"
    by (simp add: insert_version_entries_def table_versions_def pending_def tombstones_def entry_version_def comp_def)
qed

section \<open>Snapshots\<close>

text \<open>What a snapshot sees of a table are its committed versions up to the snapshot.\<close>

definition committed_upto :: "Timestamp \<Rightarrow> Version multiset \<Rightarrow> Version multiset" where
  "committed_upto m V = filter_mset (\<lambda>v. fst (snd v) < kTxIdFlag \<and> fst (snd v) \<le> m) V"

lemma visible_committed_upto:
  assumes "committed_upto m V = committed_upto m V'"
  shows "visible V m rid = visible V' m rid"
proof -
  have "((r, ts, d) \<in># V \<and> ts < kTxIdFlag \<and> ts \<le> m) = ((r, ts, d) \<in># committed_upto m V)" for V r ts d
    by (auto simp: committed_upto_def)
  then show ?thesis using assms unfolding visible_def by metis
qed

lemma committed_upto_add [simp]: "committed_upto m (V + W) = committed_upto m V + committed_upto m W"
  by (simp add: committed_upto_def)

lemma committed_upto_none: "(\<And>v. v \<in># W \<Longrightarrow> \<not> fst (snd v) < kTxIdFlag \<or> m < fst (snd v)) \<Longrightarrow> committed_upto m W = {#}"
  unfolding committed_upto_def filter_mset_eq_mempty_iff by (meson not_le)

text \<open>Giving a transaction its timestamp does not disturb earlier snapshots.\<close>

lemma committed_upto_publish:
  assumes "\<not> c < kTxIdFlag \<or> m < c"
  shows "committed_upto m (image_mset (publish (tx OR kTxIdFlag) c) V) = committed_upto m V"
proof (induction V)
  case (add v V)
  have "\<not> tx OR kTxIdFlag < kTxIdFlag" by (rule flag_or)
  then have "committed_upto m {#publish (tx OR kTxIdFlag) c v#} = committed_upto m {#v#}"
    using assms by (auto simp: committed_upto_def publish_def not_le split: prod.splits)
  with add show ?case using committed_upto_add [of m "{#_#}"] by (metis add_mset_add_single image_mset_add_mset union_commute)
qed (simp add: committed_upto_def)

text \<open>The snapshots up to \<open>M\<close> of all tables are kept, and the clock does not run backwards.\<close>

definition snapshots_kept :: "Timestamp \<Rightarrow> Database \<Rightarrow> Database \<Rightarrow> bool" where
  "snapshots_kept M db db' \<longleftrightarrow> length (db_tables db) \<le> length (db_tables db') \<and>
     next_ts (db_timestamps db) \<le> next_ts (db_timestamps db') \<and>
     (\<forall>i < length (db_tables db). \<forall>m \<le> M.
        committed_upto m (table_versions (db_tables db' ! i)) = committed_upto m (table_versions (db_tables db ! i)))"

lemma snapshots_keptD:
  "snapshots_kept M db db' \<Longrightarrow> i < length (db_tables db) \<Longrightarrow> m \<le> M \<Longrightarrow>
   visible (table_versions (db_tables db' ! i)) m rid = visible (table_versions (db_tables db ! i)) m rid"
  unfolding snapshots_kept_def by (intro visible_committed_upto) blast

lemma snapshots_kept_mono: "snapshots_kept M db db' \<Longrightarrow> M' \<le> M \<Longrightarrow> snapshots_kept M' db db'"
  unfolding snapshots_kept_def by (meson order_trans)

lemma snapshots_kept_trans:
  "snapshots_kept M db db' \<Longrightarrow> snapshots_kept M db' db'' \<Longrightarrow> snapshots_kept M db db''"
  unfolding snapshots_kept_def by (auto intro: order_trans)

lemma snapshots_kept_same:
  "db_tables db' = db_tables db \<Longrightarrow> next_ts (db_timestamps db) \<le> next_ts (db_timestamps db') \<Longrightarrow> snapshots_kept M db db'"
  by (simp add: snapshots_kept_def)

text \<open>One table gets new versions that the snapshots up to \<open>M\<close> do not see.\<close>

lemma snapshots_kept_write:
  assumes "db_tables db' = (db_tables db)[unat tid := t]" "next_ts (db_timestamps db) \<le> next_ts (db_timestamps db')"
    and "table_versions t = table_versions (db_tables db ! unat tid) + W"
    and "\<And>v. v \<in># W \<Longrightarrow> \<not> fst (snd v) < kTxIdFlag \<or> M < fst (snd v)"
  shows "snapshots_kept M db db'"
proof -
  have "committed_upto m W = {#}" if "m \<le> M" for m
    using assms(4) le_less_trans [OF that] by (blast intro: committed_upto_none)
  then show ?thesis using assms(2,3)
    by (cases "unat tid < length (db_tables db)") (auto simp: snapshots_kept_def assms(1) nth_list_update list_update_beyond not_less)
qed

section \<open>Histories\<close>

text \<open>
  A database that was opened on an empty directory, and any sequence of operations on it. The side
  conditions: rows fit the schema of their table, row numbers, transaction numbers and
  timestamps stay in their range, and pages can be written. Pruning is kept apart from the
  other steps, because it is the only one that removes versions.
\<close>

text \<open>What a checkpoint needs of the operating system and of the tables.\<close>

definition checkpoint_room :: "(nat \<Rightarrow> TableIo) \<Rightarrow> Database \<Rightarrow> Database \<Rightarrow> bool" where
  "checkpoint_room io db db' \<longleftrightarrow> (\<forall>i. list_all os_ok (io_flush (io i))) \<and>
     (\<forall>t \<in> set (db_tables db). list_all (batch_small (tb_schema t)) (pending t)) \<and>
     (\<forall>t \<in> set (db_tables db'). length (mf_disk (tb_file t)) < 2 ^ 64)"

definition collection_room :: "(nat \<Rightarrow> OsEnv list) \<Rightarrow> Database \<Rightarrow> Database \<Rightarrow> bool" where
  "collection_room envs db db' \<longleftrightarrow> clock_room 1 db \<and> (\<forall>i. list_all os_ok (envs i)) \<and>
     (\<forall>t \<in> set (db_tables db). list_all (batch_small (tb_schema t)) (pending t)) \<and>
     (\<forall>t \<in> set (db_tables db'). length (mf_disk (tb_file t)) < 2 ^ 64)"

inductive db_step :: "Database \<Rightarrow> Database \<Rightarrow> bool" where
  created: "create_table env fenv name S db = (r, db') \<Longrightarrow>
    map_of (db_files db) (raw_name name) = None \<Longrightarrow> length (db_tables db) + 1 < 2 ^ 32 \<Longrightarrow> db_step db db'"
| begun: "txn_begin env db = (c, db') \<Longrightarrow> db_next_tx_id db + 1 < kMaxTx \<Longrightarrow> db_step db db'"
| committed: "clock_room 1 db \<Longrightarrow> txn_commit env fenv tx db = Some (st, db') \<Longrightarrow> db_step db db'"
| rolled_back: "txn_rollback env tx db = Some (st, db') \<Longrightarrow> db_step db db'"
| row: "(\<forall>tx. c = Some tx \<longrightarrow> active_txn db tx) \<Longrightarrow> clock_room 1 db \<Longrightarrow>
    carries (tb_schema (db_tables db ! unat tid)) columns r \<Longrightarrow> tb_row_count (db_tables db ! unat tid) + 1 < 2 ^ 64 \<Longrightarrow>
    db_insert env tid columns c db = Some (res, db') \<Longrightarrow> db_step db db'"
| batch: "(\<forall>tx. c = Some tx \<longrightarrow> active_txn db tx) \<Longrightarrow> clock_room (length rows) db \<Longrightarrow>
    list_all2 (carries (tb_schema (db_tables db ! unat tid))) rows new \<Longrightarrow>
    tb_row_count (db_tables db ! unat tid) + length rows < 2 ^ 64 \<Longrightarrow>
    db_insert_batch env tid rows c db = Some (res, db') \<Longrightarrow> db_step db db'"
| deleted: "(\<forall>tx. c = Some tx \<longrightarrow> active_txn db tx) \<Longrightarrow> clock_room 1 db \<Longrightarrow>
    db_delete_rows env tid rids c db = (st, db') \<Longrightarrow> db_step db db'"
| flushed: "unat tid < length (db_tables db) \<Longrightarrow> list_all os_ok envs \<Longrightarrow>
    list_all (batch_small (tb_schema (db_tables db ! unat tid))) (pending (db_tables db ! unat tid)) \<Longrightarrow>
    flush_pending envs (db_tables db ! unat tid) = (st, t') \<Longrightarrow> length (mf_disk (tb_file t')) < 2 ^ 64 \<Longrightarrow>
    db_step db (set_table tid t' db)"
| checkpointed: "checkpoint_room io db db' \<Longrightarrow> checkpointer_turn th io fenv db = Some (goes, db') \<Longrightarrow> db_step db db'"
| backed_up: "checkpoint_room io db db' \<Longrightarrow>
    auto_backup_turn th benv io fenv now_ms later_ms removable (db, dir) = Some (goes, db', dir') \<Longrightarrow> db_step db db'"

inductive db_history :: "Database \<Rightarrow> bool" where
  opened: "db_open env target db_init = Some (kOk, db) \<Longrightarrow> db_history db"
| stepped: "db_history db \<Longrightarrow> db_step db db' \<Longrightarrow> db_history db'"
| collected: "db_history db \<Longrightarrow> collection_room envs db db' \<Longrightarrow> gc_turn th now envs (lt, db) = (goes, lt', db') \<Longrightarrow>
    db_history db'"

text \<open>Every step keeps the invariant and the snapshots up to \<open>M\<close>.\<close>

definition keeps :: "Timestamp \<Rightarrow> Database \<Rightarrow> Database \<Rightarrow> bool" where
  "keeps M db db' \<longleftrightarrow> db_inv db' \<and> snapshots_kept M db db'"

abbreviation same_state :: "Database \<Rightarrow> Database \<Rightarrow> bool" where
  "same_state db db' \<equiv> db_tables db' = db_tables db \<and> db_timestamps db' = db_timestamps db \<and>
     db_next_tx_id db' = db_next_tx_id db \<and> db_txns db' = db_txns db"

lemma keeps_same: "db_inv db \<Longrightarrow> same_state db db' \<Longrightarrow> keeps M db db'"
  unfolding keeps_def using db_inv_cong [of db' db] by (simp add: snapshots_kept_same)

end
