(* ===== verification/State_Machine.thy ===== *)
theory State_Machine
  imports Main
begin

text \<open>
  Step relations with an invariant, and with a relation between an earlier and a later state that
  every step keeps: what holds after one step holds after any number of them. The database
  (\<open>Db_Steps\<close>) and the flush handler (\<open>Flush_Handler\<close>) are such machines.
\<close>

locale machine =
  fixes step :: "'s \<Rightarrow> 's \<Rightarrow> bool" and inv :: "'s \<Rightarrow> bool"
  assumes step_inv: "inv s \<Longrightarrow> step s s' \<Longrightarrow> inv s'"
begin

lemma run_inv: "step\<^sup>*\<^sup>* s s' \<Longrightarrow> inv s \<Longrightarrow> inv s'"
  by (induction rule: rtranclp_induct) (auto intro: step_inv)

end

text \<open>\<open>kept s s'\<close>: what \<open>s'\<close> still promises of \<open>s\<close>.\<close>

locale keeping_machine = machine +
  fixes kept :: "'s \<Rightarrow> 's \<Rightarrow> bool"
  assumes kept_refl: "inv s \<Longrightarrow> kept s s"
    and kept_trans: "kept s s' \<Longrightarrow> kept s' s'' \<Longrightarrow> kept s s''"
    and step_kept: "inv s \<Longrightarrow> step s s' \<Longrightarrow> kept s s'"
begin

lemma run_kept: "step\<^sup>*\<^sup>* s s' \<Longrightarrow> inv s \<Longrightarrow> kept s s'"
proof (induction rule: rtranclp_induct)
  case base
  then show ?case by (rule kept_refl)
next
  case (step s1 s2)
  then show ?case using step_kept [OF run_inv [OF step(1)]] kept_trans by blast
qed

end

end
