(* ===== verification/Flush_Handler.thy ===== *)
theory Flush_Handler
  imports Db_History Scan_Rows State_Machine
begin

text \<open>
  The flush handler of \<open>src/src/buffer/flush_handler.hpp\<close> and \<open>flush_handler.cpp\<close>: a thread that
  writes the pending rows of all tables when it is asked to, and \<open>flush_all\<close>, which asks it and
  waits. The thread is a state machine with one step for each stretch of code between two points
  where other threads can run; other threads write tables, create tables, ask for flushes and
  shut the handler down between these steps. The result is what a caller of \<open>flush_all\<close> may rely
  on, and what not.
\<close>

section \<open>The machine\<close>

text \<open>Where the thread is: in the wait of \<open>flush_loop\<close>, in \<open>do_flush\<close> before a table, before it
  raises the generation, or at its end.\<close>

datatype LoopPc = LoopWait | Flushing nat | Publish | LoopDone

record FlushHandler =
  fl_tables :: "Table list"
  fl_running :: bool
  fl_shutdown :: bool
  fl_requested :: bool
  fl_gen :: u64
  fl_pc :: LoopPc

definition flush_handler :: "Table list \<Rightarrow> FlushHandler" where
  "flush_handler ts = \<lparr>fl_tables = ts, fl_running = True, fl_shutdown = False, fl_requested = False, fl_gen = 0, fl_pc = LoopWait\<rparr>"

definition signal :: "FlushHandler \<Rightarrow> FlushHandler" where
  "signal fh = fh\<lparr>fl_requested := True\<rparr>"

definition shut_down :: "FlushHandler \<Rightarrow> FlushHandler" where
  "shut_down fh = fh\<lparr>fl_shutdown := True\<rparr>"

text \<open>\<open>flush_all\<close>: the generation it remembers, and the condition it waits for.\<close>

definition flush_all_enter :: "FlushHandler \<Rightarrow> u64 \<times> FlushHandler" where
  "flush_all_enter fh = (fl_gen fh, fh\<lparr>fl_requested := True\<rparr>)"

definition flush_all_ready :: "u64 \<Rightarrow> FlushHandler \<Rightarrow> bool" where
  "flush_all_ready my_gen fh \<longleftrightarrow> my_gen < fl_gen fh \<or> fl_shutdown fh"

text \<open>
  A step of the thread. The status of \<open>flush_pending\<close> is ignored; \<open>sync\<close>, whose status is ignored
  as well, does not change a table. A timeout of the wait without a request changes nothing.
\<close>

definition flush_one :: "OsEnv list \<Rightarrow> nat \<Rightarrow> FlushHandler \<Rightarrow> FlushHandler" where
  "flush_one envs i fh =
     fh\<lparr>fl_tables := (fl_tables fh)[i := snd (flush_pending envs (fl_tables fh ! i))], fl_pc := Flushing (Suc i)\<rparr>"

definition loop_step :: "(nat \<Rightarrow> OsEnv list) \<Rightarrow> FlushHandler \<Rightarrow> FlushHandler" where
  "loop_step envs fh =
     (case fl_pc fh of
        LoopWait \<Rightarrow>
          if fl_shutdown fh then fh\<lparr>fl_running := False, fl_pc := LoopDone\<rparr>
          else if fl_requested fh then fh\<lparr>fl_requested := False, fl_pc := Flushing 0\<rparr>
          else fh
      | Flushing i \<Rightarrow> if i < length (fl_tables fh) then flush_one (envs i) i fh else fh\<lparr>fl_pc := Publish\<rparr>
      | Publish \<Rightarrow> fh\<lparr>fl_gen := fl_gen fh + 1, fl_pc := LoopWait\<rparr>
      | LoopDone \<Rightarrow> fh)"

section \<open>The other threads\<close>

text \<open>What a client or the garbage collector does to a table between two steps of the thread. Only
  \<open>vacuum\<close> is left out: it numbers the rows anew.\<close>

inductive table_write :: "Table \<Rightarrow> Table \<Rightarrow> bool" where
  row: "carries (tb_schema t) columns r \<Longrightarrow> insert_row_with src columns t a = Some (res, t', a') \<Longrightarrow> table_write t t'"
| batch: "list_all2 (carries (tb_schema t)) cols new \<Longrightarrow> insert_rows_with src cols t a = Some (res, t', a') \<Longrightarrow> table_write t t'"
| commit: "table_write t (table_commit_rows rids tx ts t)"
| versions: "table_write t (insert_version_entries es t)"
| prune: "prune_version_index cutoff t = (n, t') \<Longrightarrow> table_write t t'"
| logged: "table_write t (t\<lparr>tb_lsn := l\<rparr>)"
| flush: "list_all os_ok envs \<Longrightarrow> list_all (batch_small (tb_schema t)) (pending t) \<Longrightarrow> table_write t (snd (flush_pending envs t))"

text \<open>The lock on the list of tables keeps new tables out while the thread is in \<open>do_flush\<close>. All
  writes to the files succeed here: \<open>loop_step\<close> itself ignores a failure, and \<open>flush_all\<close> then returns
  although rows are lost (\<open>failed_flush_destroys_pages\<close> of \<open>Table_History\<close>).\<close>

inductive fh_step :: "FlushHandler \<Rightarrow> FlushHandler \<Rightarrow> bool" where
  loop: "\<forall>i. list_all os_ok (envs i) \<Longrightarrow>
    \<forall>i. fl_pc fh = Flushing i \<and> i < length (fl_tables fh) \<longrightarrow>
      list_all (batch_small (tb_schema (fl_tables fh ! i))) (pending (fl_tables fh ! i)) \<Longrightarrow>
    fh_step fh (loop_step envs fh)"
| written: "i < length (fl_tables fh) \<Longrightarrow> table_write (fl_tables fh ! i) t' \<Longrightarrow>
    fh_step fh (fh\<lparr>fl_tables := (fl_tables fh)[i := t']\<rparr>)"
| created: "\<forall>i. fl_pc fh \<noteq> Flushing i \<Longrightarrow> open_file env [] (table_init name S) = (kOk, t) \<Longrightarrow>
    fh_step fh (fh\<lparr>fl_tables := fl_tables fh @ [t]\<rparr>)"
| asked: "fh_step fh (signal fh)"
| stopped: "fh_step fh (shut_down fh)"

section \<open>Rows in the file\<close>

text \<open>The number of rows that have been written to pages.\<close>

definition written :: "Table \<Rightarrow> nat" where
  "written t = sum_list (map rg_count (tb_pages t))"

lemma written_chunks: "chunks_rep t pcs ucs \<Longrightarrow> written t = length (concat pcs)"
proof -
  assume "chunks_rep t pcs ucs"
  then obtain imgs where "tb_pages t = map (page_range pcs imgs) [0..<length pcs]"
    by (auto simp: chunks_rep_def pages_rep_def)
  then have "map rg_count (tb_pages t) = map (\<lambda>i. length (pcs ! i)) [0..<length pcs]"
    by (simp add: page_range_def comp_def)
  also have "\<dots> = map length pcs" by (rule nth_equalityI) simp_all
  finally show ?thesis by (simp add: written_def length_concat)
qed

lemma written_all:
  assumes "table_rep t rows" "pending t = []"
  shows "written t = length rows"
proof -
  obtain pcs ucs where rep: "chunks_rep t pcs ucs" and rows: "rows = concat (pcs @ ucs)"
    using assms(1) by (auto simp: table_rep_def)
  then have "ucs = []" using assms(2) by (simp add: chunks_rep_def batches_rep_def)
  with written_chunks [OF rep] rows show ?thesis by simp
qed

text \<open>A crash: what is in the file is recovered, whatever was pending.\<close>

lemma crash_rep:
  assumes "table_rep t rows" "table_small t" "os_ok env" "os_open env" "os_fstat env"
  shows "table_rep (reopen env name (tb_schema t) (mf_disk (tb_file t))) (take (written t) rows)"
proof -
  obtain pcs ucs where rep: "chunks_rep t pcs ucs" and rows: "rows = concat (pcs @ ucs)"
    using assms(1) by (auto simp: table_rep_def)
  define t0 where "t0 = t\<lparr>tb_queue := [], tb_active := None, tb_row_count := length (concat pcs)\<rparr>"
  have t0: "tb_schema t0 = tb_schema t" "tb_file t0 = tb_file t" "pending t0 = []" by (simp_all add: t0_def pending_def)
  have "chunks_rep t0 pcs []"
    using rep by (simp add: chunks_rep_def t0_def pending_def batches_rep_def chunks_ok_def free_ok_def active_ok_def)
  then have r: "table_rep t0 (concat pcs)" unfolding table_rep_def by (intro exI [of _ pcs] exI [of _ "[]"]) simp
  have "table_small t0"
    using assms(2) rep by (auto simp: table_small_def t0_def chunks_rep_def)
  from reopen_rep [OF r this t0(3) assms(3-5), of "[]" name] t0
  have "table_rep (reopen env name (tb_schema t) (mf_disk (tb_file t))) (concat pcs)" by simp
  moreover have "take (written t) rows = concat pcs" using written_chunks [OF rep] rows by simp
  ultimately show ?thesis by simp
qed

lemma insert_row_pages: "insert_row_with src columns t a = Some (r, t', a') \<Longrightarrow> tb_pages t' = tb_pages t"
  by (cases "src a") (auto simp: insert_row_with_def acquire_batch_def get_free_batch_def split: if_splits option.splits)

lemma insert_rows_loop_pages: "insert_rows_loop src cols res t a = Some (res', t', a') \<Longrightarrow> tb_pages t' = tb_pages t"
proof (induction src cols res t a rule: insert_rows_loop.induct)
  case (1 src cols res t a)
  show ?case
  proof (cases "cols = []")
    case True
    then show ?thesis using "1.prems" by (simp add: insert_rows_loop.simps)
  next
    case False
    then obtain b t1 where acq: "acquire_batch t = Some (b, t1)"
      using "1.prems" by (subst (asm) insert_rows_loop.simps) (auto split: option.splits)
    then have v: "tb_pages t1 = tb_pages t"
      by (auto simp: acquire_batch_def get_free_batch_def split: option.splits if_splits)
    define n where "n = min (length cols) (kBatchSize - pb_row_count b)"
    obtain b' a1 where push: "batch_push_rows src (take n cols) b a = (b', a1)" by fastforce
    show ?thesis
    proof (cases "n = 0")
      case True
      then show ?thesis
        using "1.prems" False acq "1.IH"(1) [OF False acq refl n_def True] v
        by (subst (asm) insert_rows_loop.simps) (simp add: n_def [symmetric] Let_def push_flush_queue_def)
    next
      case n0: False
      then show ?thesis
        using "1.prems" False acq push "1.IH"(2) [OF False acq refl n_def n0 refl push [symmetric] refl] v
        by (subst (asm) insert_rows_loop.simps) (simp add: n_def [symmetric] Let_def)
    qed
  qed
qed

text \<open>The rows of a table begin with the given ones, and so many of them are in the file.\<close>

definition has_rows :: "Cells list \<Rightarrow> nat \<Rightarrow> Table \<Rightarrow> bool" where
  "has_rows rows n t \<longleftrightarrow> (\<exists>new. table_rep t (rows @ new)) \<and> n \<le> written t"

lemma has_rowsI: "table_rep t (rows @ new) \<Longrightarrow> n \<le> written t \<Longrightarrow> has_rows rows n t"
  by (auto simp: has_rows_def)

lemma has_rows_same:
  assumes "has_rows rows n t" "\<And>rs. table_rep t rs \<Longrightarrow> table_rep t' rs" "tb_pages t' = tb_pages t"
  shows "has_rows rows n t'"
  using assms unfolding has_rows_def written_def by metis

lemma flush_has_rows:
  assumes "has_rows rows n t" "list_all os_ok envs" "list_all (batch_small (tb_schema t)) (pending t)"
  shows "has_rows rows (length rows) (snd (flush_pending envs t))"
proof -
  obtain new where "table_rep t (rows @ new)" using assms(1) by (auto simp: has_rows_def)
  from flush_pending_rep [OF this assms(2,3)] obtain t' where t': "flush_pending envs t = (kOk, t')" "table_rep t' (rows @ new)" "pending t' = []"
    by blast
  with written_all [OF t'(2,3)] show ?thesis by (auto intro!: has_rowsI)
qed

lemma write_has_rows:
  assumes "table_write t t'" "has_rows rows n t" "n \<le> length rows"
  shows "has_rows rows n t'"
  using assms
proof cases
  case (row columns r src a res a')
  obtain new where rep: "table_rep t (rows @ new)" using assms(2) by (auto simp: has_rows_def)
  show ?thesis
    using insert_row_all(2) [OF rep row] insert_row_pages [OF row(2)] assms(2)
    by (intro has_rowsI [of _ _ "new @ [r]"]) (simp_all add: has_rows_def written_def)
next
  case (batch cols rs src a res a')
  obtain new where rep: "table_rep t (rows @ new)" using assms(2) by (auto simp: has_rows_def)
  have "tb_pages t' = tb_pages t"
    using batch(2) insert_rows_loop_pages by (auto simp: insert_rows_with_def split: if_splits)
  then show ?thesis
    using insert_rows_all(2) [OF rep batch] assms(2)
    by (intro has_rowsI [of _ _ "new @ rs"]) (simp_all add: has_rows_def written_def)
next
  case commit
  then show ?thesis
    using has_rows_same [OF assms(2)] commit_rep by (simp add: table_commit_rows_def Let_def)
next
  case versions
  then show ?thesis using has_rows_same [OF assms(2)] vindex_rep by (simp add: insert_version_entries_def)
next
  case (prune cutoff k)
  then show ?thesis using has_rows_same [OF assms(2)] vindex_rep by (auto simp: prune_version_index_def split: prod.splits)
next
  case logged
  then show ?thesis using has_rows_same [OF assms(2)] lsn_rep by simp
next
  case (flush envs)
  from flush_has_rows [OF assms(2) flush(2,3)] flush(1) assms(3) show ?thesis by (auto simp: has_rows_def)
qed

section \<open>What a caller may rely on\<close>

text \<open>The state of a caller that called \<open>flush_all\<close> while the thread was waiting: until the
  generation changes its request is open or being served, and tables that have been served have
  all rows in the file; afterwards all have.\<close>

definition serving :: "u64 \<Rightarrow> (nat \<Rightarrow> Cells list) \<Rightarrow> nat \<Rightarrow> FlushHandler \<Rightarrow> bool" where
  "serving g R n fh \<longleftrightarrow> n \<le> length (fl_tables fh) \<and>
     (\<exists>k. (\<forall>i < n. has_rows (R i) (if i < k then length (R i) else 0) (fl_tables fh ! i)) \<and>
       (n \<le> k \<or> fl_gen fh = g \<and> (fl_pc fh = LoopWait \<and> fl_requested fh \<or> fl_pc fh = Flushing k)))"

lemma serving_length: "serving g R n fh \<Longrightarrow> n \<le> length (fl_tables fh)"
  by (simp add: serving_def)

lemma serving_tables:
  assumes "serving g R n fh" "fl_gen fh' = fl_gen fh" "fl_pc fh' = fl_pc fh" "fl_requested fh \<longrightarrow> fl_requested fh'"
    and "n \<le> length (fl_tables fh')"
    and "\<And>i m. i < n \<Longrightarrow> m \<le> length (R i) \<Longrightarrow> has_rows (R i) m (fl_tables fh ! i) \<Longrightarrow> has_rows (R i) m (fl_tables fh' ! i)"
  shows "serving g R n fh'"
proof -
  obtain k where "\<forall>i < n. has_rows (R i) (if i < k then length (R i) else 0) (fl_tables fh ! i)"
      "n \<le> k \<or> fl_gen fh = g \<and> (fl_pc fh = LoopWait \<and> fl_requested fh \<or> fl_pc fh = Flushing k)"
    using assms(1) by (auto simp: serving_def)
  then show ?thesis unfolding serving_def using assms(2-6) by (intro conjI exI [of _ k]) auto
qed

lemma serving_loop:
  assumes "serving g R n fh" "fl_shutdown fh \<longrightarrow> False" "\<forall>i. list_all os_ok (envs i)"
    and "\<forall>i. fl_pc fh = Flushing i \<and> i < length (fl_tables fh) \<longrightarrow>
      list_all (batch_small (tb_schema (fl_tables fh ! i))) (pending (fl_tables fh ! i))"
  shows "serving g R n (loop_step envs fh)"
proof -
  obtain k where len: "n \<le> length (fl_tables fh)"
    and rows: "\<And>i. i < n \<Longrightarrow> has_rows (R i) (if i < k then length (R i) else 0) (fl_tables fh ! i)"
    and pc: "n \<le> k \<or> fl_gen fh = g \<and> (fl_pc fh = LoopWait \<and> fl_requested fh \<or> fl_pc fh = Flushing k)"
    using assms(1) by (auto simp: serving_def)
  have weak: "has_rows (R i) 0 (fl_tables fh ! i)" if "i < n" for i using rows [OF that] by (auto simp: has_rows_def)
  show ?thesis
  proof (cases "fl_pc fh")
    case (Flushing j)
    have flushed: "has_rows (R i) (if i < k \<or> i = j then length (R i) else 0) (fl_tables (flush_one (envs j) j fh) ! i)" if "i < n" for i
      using rows [OF that] flush_has_rows [OF weak [OF that], of "envs i"] assms(3,4) that len Flushing
      by (cases "i = j") (auto simp: flush_one_def)
    show ?thesis
    proof (cases "j < length (fl_tables fh)")
      case True
      then have step: "loop_step envs fh = flush_one (envs j) j fh" using Flushing by (simp add: loop_step_def)
      have "\<forall>i < n. has_rows (R i) (if i < (if n \<le> k then k else Suc k) then length (R i) else 0) (fl_tables (loop_step envs fh) ! i)"
        using flushed pc Flushing by (fastforce simp: step less_Suc_eq)
      then show ?thesis
        unfolding serving_def using len pc Flushing
        by (intro conjI exI [of _ "if n \<le> k then k else Suc k"]) (auto simp: step flush_one_def)
    next
      case False
      then show ?thesis unfolding serving_def using len rows pc Flushing
        by (intro conjI exI [of _ k]) (auto simp: loop_step_def)
    qed
  next
    case LoopWait
    show ?thesis
    proof (cases "n \<le> k")
      case True
      then show ?thesis unfolding serving_def using len rows LoopWait
        by (intro conjI exI [of _ k]) (auto simp: loop_step_def)
    next
      case False
      then show ?thesis unfolding serving_def using len weak pc LoopWait assms(2)
        by (intro conjI exI [of _ 0]) (auto simp: loop_step_def)
    qed
  qed (use len rows pc in \<open>auto simp: serving_def loop_step_def\<close>)
qed

lemma serving_step:
  assumes "fh_step fh fh'" "fl_shutdown fh \<or> serving g R n fh"
  shows "fl_shutdown fh' \<or> serving g R n fh'"
  using assms
proof cases
  case (loop envs)
  have "fl_shutdown (loop_step envs fh) = fl_shutdown fh"
    by (simp add: loop_step_def flush_one_def split: LoopPc.split)
  with assms(2) loop serving_loop [of g R n fh envs] show ?thesis by auto
next
  case (written i t')
  have "serving g R n fh'" if sv: "serving g R n fh"
  proof (rule serving_tables [OF sv])
    show "has_rows (R j) m (fl_tables fh' ! j)" if "m \<le> length (R j)" "has_rows (R j) m (fl_tables fh ! j)" for j m
      using write_has_rows [OF written(3), of "R j" m] that written(1,2) by (cases "j = i") auto
  qed (use serving_length [OF sv] written(1) in simp_all)
  then show ?thesis using assms(2) written(1) by auto
next
  case (created env name S t)
  have "serving g R n fh'" if sv: "serving g R n fh"
    by (rule serving_tables [OF sv]) (use serving_length [OF sv] created(1) in \<open>auto simp: nth_append\<close>)
  then show ?thesis using assms(2) created(1) by auto
next
  case asked
  have "serving g R n fh'" if sv: "serving g R n fh"
    by (rule serving_tables [OF sv]) (use serving_length [OF sv] asked in \<open>auto simp: signal_def\<close>)
  then show ?thesis using assms(2) asked by (auto simp: signal_def)
next
  case stopped
  then show ?thesis by (simp add: shut_down_def)
qed

interpretation flush: machine fh_step "\<lambda>fh. fl_shutdown fh \<or> serving g R n fh" for g R n
  by unfold_locales (rule serving_step)

text \<open>
  C12: \<open>flush_all\<close> makes rows durable, as long as the writes to the files succeed and no table is
  vacuumed: when it is called while the thread is waiting, whatever rows, versions, tables, flushes
  and requests the thread and other threads add afterwards, then as soon as it returns (and the
  handler was not shut down) a crash of the process recovers every row that any table had at the
  time of the call.
\<close>

theorem flush_all_makes_rows_durable:
  assumes "\<forall>i < length (fl_tables fh). table_rep (fl_tables fh ! i) (R i)" "fl_pc fh = LoopWait"
    and "flush_all_enter fh = (g, fh1)" "fh_step\<^sup>*\<^sup>* fh1 fh2" "flush_all_ready g fh2" "\<not> fl_shutdown fh2"
    and "i < length (fl_tables fh)" "table_small (fl_tables fh2 ! i)" "os_ok env" "os_open env" "os_fstat env"
  shows "\<exists>new. table_rep (reopen env name (tb_schema (fl_tables fh2 ! i)) (mf_disk (tb_file (fl_tables fh2 ! i)))) (R i @ new)"
proof -
  have "serving g R (length (fl_tables fh)) fh1"
    using assms(1-3) unfolding serving_def flush_all_enter_def
    by (intro conjI exI [of _ 0]) (auto simp: has_rows_def intro: exI [of _ "[]"])
  with flush.run_inv [OF assms(4)] assms(6) have "serving g R (length (fl_tables fh)) fh2" by blast
  with assms(5-7) have "has_rows (R i) (length (R i)) (fl_tables fh2 ! i)"
    by (auto simp: serving_def flush_all_ready_def)
  then obtain new where rep: "table_rep (fl_tables fh2 ! i) (R i @ new)" "length (R i) \<le> written (fl_tables fh2 ! i)"
    by (auto simp: has_rows_def)
  from crash_rep [OF rep(1) assms(8-11)] rep(2) show ?thesis by auto
qed

definition sample_handler :: FlushHandler where "sample_handler = flush_handler [sample_table]"

definition served_handler :: FlushHandler where
  "served_handler = sample_handler\<lparr>fl_tables := [snd (flush_pending [] sample_table)], fl_gen := 1\<rparr>"

lemma served_run: "fh_step\<^sup>*\<^sup>* (snd (flush_all_enter sample_handler)) served_handler"
proof -
  let ?h = "\<lambda>k. (loop_step (\<lambda>_. []) ^^ k) (snd (flush_all_enter sample_handler))"
  note defs = loop_step_def flush_one_def flush_all_enter_def sample_handler_def flush_handler_def
  have h: "?h 1 = sample_handler\<lparr>fl_pc := Flushing 0\<rparr>"
    "?h 2 = sample_handler\<lparr>fl_tables := [snd (flush_pending [] sample_table)], fl_pc := Flushing 1\<rparr>"
    "?h 3 = sample_handler\<lparr>fl_tables := [snd (flush_pending [] sample_table)], fl_pc := Publish\<rparr>" "?h 4 = served_handler"
    by (simp_all add: defs numeral_2_eq_2 numeral_3_eq_3 numeral_eq_Suc served_handler_def)
  have small: "list_all (batch_small (tb_schema sample_table)) (pending sample_table)"
    using sample_pending sample_small(2) by auto
  have "fh_step (?h k) (?h (Suc k))" if "k < 4" for k
  proof -
    have "k = 0 \<or> k = 1 \<or> k = 2 \<or> k = 3" using that by linarith
    with h small have "\<forall>i. fl_pc (?h k) = Flushing i \<and> i < length (fl_tables (?h k)) \<longrightarrow>
        list_all (batch_small (tb_schema (fl_tables (?h k) ! i))) (pending (fl_tables (?h k) ! i))"
      by (auto simp: sample_handler_def flush_handler_def flush_all_enter_def)
    then show ?thesis using fh_step.loop [of "\<lambda>_. []" "?h k"] by simp
  qed
  then have "k \<le> 4 \<Longrightarrow> fh_step\<^sup>*\<^sup>* (?h 0) (?h k)" for k
    by (induction k) (auto intro: rtranclp.rtrancl_into_rtrancl)
  from this [of 4] h(4) show ?thesis by simp
qed

theorem flush_all_makes_rows_durable_witness:
  "\<exists>new. table_rep (reopen os_fine ''t'' sample_schema (mf_disk (tb_file (snd (flush_pending [] sample_table))))) ([sample_row] @ new)"
proof -
  have rep: "table_rep sample_table [sample_row]" by (rule history_rep [OF sample_history])
  obtain t' where t': "flush_pending [] sample_table = (kOk, t')" "table_rep t' [sample_row]" "pending t' = []" "tb_schema t' = sample_schema"
    using flush_pending_rep [OF rep, of "[]"] sample_pending sample_small(2) by auto
  from few_rows_small [OF t'(2) _ t'(3)] have "table_small t'" by simp
  then show ?thesis
    using flush_all_makes_rows_durable [of sample_handler "\<lambda>_. [sample_row]" 0 "snd (flush_all_enter sample_handler)" served_handler 0 os_fine "''t''"]
      rep served_run t'
    by (simp add: sample_handler_def flush_handler_def flush_all_enter_def flush_all_ready_def served_handler_def os_fine_def os_ok_def)
qed

lemma word_less_next: "g \<noteq> -1 \<Longrightarrow> g < (g :: u64) + 1"
proof -
  assume "g \<noteq> -1"
  then have "1 + g \<noteq> 0" by (metis add_eq_0_iff)
  then have "unat (1 + g) = Suc (unat g)" by (rule unatSuc)
  then show ?thesis by (simp add: word_less_nat_alt add.commute)
qed

text \<open>
  C32: \<open>flush_all\<close> returns: whatever the thread is doing when it is called, at most three steps more
  than there are tables later the condition it waits for holds, also if writing fails.
\<close>

theorem flush_all_returns:
  assumes "flush_all_enter fh = (g, fh1)" "g \<noteq> -1" "fl_pc fh \<noteq> LoopDone"
  shows "\<exists>k \<le> length (fl_tables fh) + 3. flush_all_ready g ((loop_step envs ^^ k) fh1)"
proof -
  define m where "m h = (case fl_pc h of LoopWait \<Rightarrow> length (fl_tables h) + 3 | Flushing i \<Rightarrow> length (fl_tables h) - i + 2
    | Publish \<Rightarrow> 1 | LoopDone \<Rightarrow> 0)" for h :: FlushHandler
  have ok: "fl_gen h = g \<Longrightarrow> fl_pc h \<noteq> LoopDone \<Longrightarrow> fl_requested h \<or> fl_pc h \<noteq> LoopWait \<Longrightarrow>
      \<exists>k \<le> m h. flush_all_ready g ((loop_step envs ^^ k) h)" for h :: FlushHandler
  proof (induction "m h" arbitrary: h rule: less_induct)
    case less
    show ?case
    proof (cases "flush_all_ready g h \<or> flush_all_ready g (loop_step envs h)")
      case True
      then have "flush_all_ready g ((loop_step envs ^^ 0) h) \<or> flush_all_ready g ((loop_step envs ^^ 1) h)" by simp
      then have "\<exists>k \<le> 1. flush_all_ready g ((loop_step envs ^^ k) h)" by (meson le_refl zero_le_one)
      moreover have "1 \<le> m h" using less.prems(2) by (auto simp: m_def split: LoopPc.split)
      ultimately show ?thesis by (meson le_trans)
    next
      case False
      let ?h = "loop_step envs h"
      have "fl_gen ?h = g" "fl_pc ?h \<noteq> LoopDone" "fl_pc ?h \<noteq> LoopWait" "m ?h < m h"
        using False less.prems assms(2)
        by (auto simp: loop_step_def flush_one_def m_def flush_all_ready_def word_less_next
            split: LoopPc.splits if_splits)
      from less.hyps [OF this(4,1,2)] this(3) obtain k where "k \<le> m ?h" "flush_all_ready g ((loop_step envs ^^ k) ?h)" by blast
      with \<open>m ?h < m h\<close> show ?thesis by (intro exI [of _ "Suc k"]) (simp add: funpow_swap1)
    qed
  qed
  have "m fh1 \<le> length (fl_tables fh) + 3" using assms(1) by (auto simp: m_def flush_all_enter_def split: LoopPc.split)
  moreover have "\<exists>k \<le> m fh1. flush_all_ready g ((loop_step envs ^^ k) fh1)"
    using ok [of fh1] assms by (auto simp: flush_all_enter_def)
  ultimately show ?thesis by (meson le_trans)
qed

theorem flush_all_returns_witness:
  "\<exists>k \<le> 4. flush_all_ready 0 ((loop_step (\<lambda>_. []) ^^ k) (snd (flush_all_enter sample_handler)))"
  using flush_all_returns [of sample_handler 0 "snd (flush_all_enter sample_handler)" "\<lambda>_. []"]
  by (simp add: sample_handler_def flush_handler_def flush_all_enter_def)

text \<open>A call during a pass may be answered by that pass: the caller returns although nothing has
  been written since its call.\<close>

lemma flush_all_during_pass:
  assumes "fl_pc fh = Publish" "flush_all_enter fh = (g, fh1)" "g \<noteq> -1"
  shows "flush_all_ready g (loop_step envs fh1) \<and> fl_tables (loop_step envs fh1) = fl_tables fh"
  using assms by (auto simp: flush_all_enter_def flush_all_ready_def loop_step_def word_less_next)

end
