(* ===== verification/Exec_Text.thy ===== *)
theory Exec_Text
  imports Float64 Cstring
begin

text \<open>
  The parts of the standard library with which the executor turns cells into text and text into
  numbers: \<open>std::to_string\<close> of integers and of \<open>double\<close> (\<open>%f\<close>, correctly rounded), \<open>std::stod\<close>,
  the sum and the quotient of two doubles, and \<open>gmtime_r\<close> with \<open>strftime\<close>. A NaN that an
  operation makes is the default NaN of the x86-64 instructions.
\<close>

section \<open>Integers\<close>

text \<open>\<open>std::to_string\<close> of a signed number.\<close>

definition dec_int :: "int \<Rightarrow> string" where
  "dec_int n = (if n < 0 then CHR ''-'' # dec (nat (- n)) else dec (nat n))"

section \<open>Arithmetic of doubles\<close>

definition f64_signed :: "int \<Rightarrow> int \<Rightarrow> u64" where
  "f64_signed n d = (if n < 0 then f64_neg (f64_of_ratio (- n) d) else f64_of_ratio n d)"

definition f64_default_nan :: u64 where "f64_default_nan = 0xFFF8000000000000"

definition f64_quiet :: "u64 \<Rightarrow> u64" where "f64_quiet w = w OR 0x0008000000000000"

definition f64_add :: "u64 \<Rightarrow> u64 \<Rightarrow> u64" where
  "f64_add a b =
     (if f64_nan a then f64_quiet a
      else if f64_nan b then f64_quiet b
      else if f64_is_inf a then (if f64_is_inf b \<and> a \<noteq> b then f64_default_nan else a)
      else if f64_is_inf b then b
      else let s = f64_scaled a + f64_scaled b
           in if s = 0 then a AND b AND 0x8000000000000000 else f64_signed s (2 ^ 1074))"

definition f64_div :: "u64 \<Rightarrow> u64 \<Rightarrow> u64" where
  "f64_div a b =
     (let sgn = (a XOR b) AND 0x8000000000000000; inf = word_of_int f64_inf_bits
      in if f64_nan a then f64_quiet a
         else if f64_nan b then f64_quiet b
         else if f64_is_inf a then (if f64_is_inf b then f64_default_nan else sgn OR inf)
         else if f64_is_inf b then sgn
         else if f64_scaled b = 0 then (if f64_scaled a = 0 then f64_default_nan else sgn OR inf)
         else sgn OR f64_of_ratio \<bar>f64_scaled a\<bar> \<bar>f64_scaled b\<bar>)"

text \<open>\<open>std::numeric_limits<double>::max()\<close> and \<open>lowest()\<close>.\<close>

definition f64_max :: u64 where "f64_max = 0x7FEFFFFFFFFFFFFF"
definition f64_lowest :: u64 where "f64_lowest = 0xFFEFFFFFFFFFFFFF"

section \<open>Doubles as text\<close>

text \<open>\<open>%f\<close>: six digits behind the point, the exact value rounded to the nearest, ties to even.\<close>

definition f64_to_string :: "u64 \<Rightarrow> string" where
  "f64_to_string w =
     (let sgn = (if bit w 63 then ''-'' else [])
      in if f64_nan w then sgn @ ''nan''
         else if f64_is_inf w then sgn @ ''inf''
         else let q = nat (round_half_even (\<bar>f64_scaled w\<bar> * 1000000) (2 ^ 1074))
              in sgn @ dec (q div 1000000) @ ''.'' @ dec_pad 6 (q mod 1000000))"

section \<open>\<open>std::stod\<close>\<close>

text \<open>
  The correctly rounded value of \<open>n / d\<close>. Where \<open>strtod\<close> sets \<open>ERANGE\<close>, on overflow and when a
  tiny number is not exact, \<open>stod\<close> throws (\<open>None\<close>); a number is tiny when it is below the
  smallest normal one even after rounding to 53 bits.
\<close>

definition ratio_to_f64 :: "int \<Rightarrow> int \<Rightarrow> u64 option" where
  "ratio_to_f64 n d =
     (let w = f64_of_ratio n d
      in if f64_is_inf w then None
         else if n \<noteq> 0 \<and> n * 2 ^ 1076 < d * (2 ^ 54 - 1) \<and> f64_scaled w * d \<noteq> n * 2 ^ 1074 then None
         else Some w)"

definition ratio_scaled :: "int \<Rightarrow> int \<Rightarrow> int \<Rightarrow> int \<Rightarrow> u64 option" where
  "ratio_scaled n d base e =
     (if 0 \<le> e then ratio_to_f64 (n * base ^ nat e) d else ratio_to_f64 n (d * base ^ nat (- e)))"

definition hex_digit :: "char \<Rightarrow> nat option" where
  "hex_digit c =
     (if is_digit c then Some (char_digit c)
      else let l = of_char (to_lower c) in if 97 \<le> l \<and> l \<le> (102 :: nat) then Some (l - 87) else None)"

definition is_hex :: "char \<Rightarrow> bool" where "is_hex c \<longleftrightarrow> hex_digit c \<noteq> None"

definition hex_int :: "string \<Rightarrow> int" where
  "hex_int s = foldl (\<lambda>v c. 16 * v + int (case hex_digit c of None \<Rightarrow> 0 | Some d \<Rightarrow> d)) 0 s"

definition next_is :: "char \<Rightarrow> string \<Rightarrow> bool" where
  "next_is c s \<longleftrightarrow> (case s of [] \<Rightarrow> False | x # _ \<Rightarrow> to_lower x = c)"

text \<open>The digits before and behind the point, and what follows.\<close>

definition mantissa :: "(char \<Rightarrow> bool) \<Rightarrow> string \<Rightarrow> string \<times> string \<times> string" where
  "mantissa digit s =
     (let r = dropWhile digit s
      in if next_is CHR ''.'' r
         then (takeWhile digit s, takeWhile digit (tl r), dropWhile digit (tl r))
         else (takeWhile digit s, [], r))"

text \<open>An exponent that begins with the given letter; without digits it is no exponent.\<close>

definition exponent :: "char \<Rightarrow> string \<Rightarrow> int" where
  "exponent letter s =
     (if next_is letter s
      then let r = tl s; neg = next_is CHR ''-'' r;
               ds = takeWhile is_digit (if neg \<or> next_is CHR ''+'' r then tl r else r)
           in if neg then - digits_int ds else digits_int ds
      else 0)"

definition starts_ci :: "string \<Rightarrow> string \<Rightarrow> bool" where
  "starts_ci p s \<longleftrightarrow> map to_lower (take (length p) s) = p"

definition stod_unsigned :: "string \<Rightarrow> u64 option" where
  "stod_unsigned s =
     (if starts_ci ''inf'' s then Some (word_of_int f64_inf_bits)
      else if starts_ci ''nan'' s then Some 0x7FF8000000000000
      else if starts_ci ''0x'' s \<and> fst (mantissa is_hex (drop 2 s)) @ fst (snd (mantissa is_hex (drop 2 s))) \<noteq> []
      then let (a, b, r) = mantissa is_hex (drop 2 s)
           in ratio_scaled (hex_int (a @ b)) (16 ^ length b) 2 (exponent CHR ''p'' r)
      else let (a, b, r) = mantissa is_digit s
           in if a @ b = [] then None
              else ratio_scaled (digits_int (a @ b)) (10 ^ length b) 10 (exponent CHR ''e'' r))"

text \<open>Leading white space and a sign; \<open>None\<close> where \<open>stod\<close> throws.\<close>

definition stod :: "string \<Rightarrow> u64 option" where
  "stod s =
     (let r = dropWhile is_space s
      in if next_is CHR ''-'' r then map_option f64_neg (stod_unsigned (tl r))
         else if next_is CHR ''+'' r then stod_unsigned (tl r)
         else stod_unsigned r)"

section \<open>Points in time\<close>

text \<open>\<open>gmtime_r\<close>: year, month and day of a day count since 1970 in the Gregorian calendar.\<close>

definition civil_of_days :: "int \<Rightarrow> int \<times> int \<times> int" where
  "civil_of_days z =
     (let d = z + 719468;
          era = d div 146097;
          doe = d mod 146097;
          yoe = (doe - doe div 1460 + doe div 36524 - doe div 146096) div 365;
          doy = doe - (365 * yoe + yoe div 4 - yoe div 100);
          mp = (5 * doy + 2) div 153;
          day = doy - (153 * mp + 2) div 5 + 1;
          month = (if mp < 10 then mp + 3 else mp - 9)
      in (yoe + era * 400 + (if month \<le> 2 then 1 else 0), month, day))"

text \<open>\<open>strftime\<close> with \<open>%Y-%m-%d %H:%M:%S\<close>; the milliseconds are cut off towards zero first.\<close>

definition timestamp_to_string :: "int \<Rightarrow> string" where
  "timestamp_to_string ms =
     (let t = (if ms < 0 then - ((- ms) div 1000) else ms div 1000);
          (y, m, d) = civil_of_days (t div 86400);
          s = t mod 86400;
          two = (\<lambda>n. dec_pad 2 (nat n))
      in dec_int y @ ''-'' @ two m @ ''-'' @ two d @ '' '' @ two (s div 3600) @ '':'' @ two (s div 60 mod 60) @ '':'' @ two (s mod 60))"

end
