(* ===== verification/Exec_Values.thy ===== *)
theory Exec_Values
  imports Exec_Text Row_Filter Table_Store
begin

text \<open>
  Cells and values: \<open>Executor::value_to_string\<close> and the keys of \<open>Executor::index_lookup\<close>
  (\<open>executor_scan.cpp\<close>), the comparison behind \<open>ORDER BY\<close> (\<open>executor_select.cpp\<close>), the encoding of
  the values of an \<open>INSERT\<close> and \<open>bytes_to_value\<close> (\<open>executor_mutate.cpp\<close>). \<open>None\<close> is a read
  outside the buffer of a column, an exception, or \<open>abort\<close>.
\<close>

section \<open>Cells\<close>

text \<open>The element of an array of fixed-size elements.\<close>

definition elem :: "nat \<Rightarrow> ColumnData \<Rightarrow> nat \<Rightarrow> byte list option" where
  "elem k col i = (if length (cd_data col) < (i + 1) * k then None else Some (take k (drop (i * k) (cd_data col))))"

definition elem32 :: "ColumnData \<Rightarrow> nat \<Rightarrow> u32 option" where
  "elem32 col i = map_option (\<lambda>bs. word_of_nat (le_nat bs)) (elem 4 col i)"

definition elem64 :: "ColumnData \<Rightarrow> nat \<Rightarrow> u64 option" where
  "elem64 col i = map_option (\<lambda>bs. word_of_nat (le_nat bs)) (elem 8 col i)"

definition elem_bool :: "ColumnData \<Rightarrow> nat \<Rightarrow> bool option" where
  "elem_bool col i = map_option (\<lambda>bs. le_nat bs \<noteq> 0) (elem 1 col i)"

text \<open>Where a string begins and ends behind the offsets.\<close>

definition str_bounds :: "ColumnData \<Rightarrow> nat \<Rightarrow> (u32 \<times> u32) option" where
  "str_bounds col i =
     (case elem32 col i of None \<Rightarrow> None
      | Some stop \<Rightarrow> map_option (\<lambda>start. (start, stop)) (if i = 0 then Some 0 else elem32 col (i - 1)))"

definition null_bit :: "ColumnData \<Rightarrow> nat \<Rightarrow> bool option" where
  "null_bit col i =
     (case cd_nulls col of None \<Rightarrow> Some False
      | Some nulls \<Rightarrow> if length nulls \<le> i div 8 then None else Some (bit (nulls ! (i div 8)) (i mod 8)))"

section \<open>Cells as text\<close>

definition varchar_to_string :: "ColumnData \<Rightarrow> nat \<Rightarrow> nat \<Rightarrow> string option" where
  "varchar_to_string col i n =
     (let off_bytes = n * 4
      in if length (cd_data col) < off_bytes then Some []
         else case str_bounds col i of None \<Rightarrow> None
           | Some (start, stop) \<Rightarrow>
               if stop < start then None
               else if length (cd_data col) - off_bytes < unat stop then Some []
               else Some (bytes_string (take (unat (stop - start)) (drop (off_bytes + unat start) (cd_data col)))))"

definition value_to_string :: "ColumnData \<Rightarrow> ColumnType \<Rightarrow> nat \<Rightarrow> nat \<Rightarrow> string option" where
  "value_to_string col ct i n =
     (case null_bit col i of None \<Rightarrow> None
      | Some True \<Rightarrow> Some ''NULL''
      | Some False \<Rightarrow>
          (case ct of
             kInt32 \<Rightarrow> map_option (\<lambda>w. dec_int (sint w)) (elem32 col i)
           | kInt64 \<Rightarrow> map_option (\<lambda>w. dec_int (sint w)) (elem64 col i)
           | kTimestamp \<Rightarrow> map_option (\<lambda>w. timestamp_to_string (sint w)) (elem64 col i)
           | kFloat64 \<Rightarrow> map_option f64_to_string (elem64 col i)
           | kBool \<Rightarrow> map_option (\<lambda>b. if b then ''true'' else ''false'') (elem_bool col i)
           | kVarChar \<Rightarrow> varchar_to_string col i n))"

section \<open>Order\<close>

definition sign_of :: "bool \<Rightarrow> bool \<Rightarrow> int" where
  "sign_of lt gt = (if lt then -1 else if gt then 1 else 0)"

fun mem_cmp :: "byte list \<Rightarrow> byte list \<Rightarrow> int" where
  "mem_cmp (a # as) (b # bs) = (if a < b then -1 else if b < a then 1 else mem_cmp as bs)"
| "mem_cmp _ _ = 0"

text \<open>Two strings by their common prefix, then by their lengths.\<close>

definition compare_strings :: "byte list \<Rightarrow> byte list \<Rightarrow> int" where
  "compare_strings a b =
     (let cmp = mem_cmp a b in if cmp \<noteq> 0 then cmp else sign_of (length a < length b) (length b < length a))"

definition blob_slice :: "ColumnData \<Rightarrow> nat \<Rightarrow> u32 \<times> u32 \<Rightarrow> byte list option" where
  "blob_slice col off_bytes b =
     (let start = fst b; len = unat (snd b - fst b)
      in if length (cd_data col) < off_bytes + unat start + len then None
         else Some (take len (drop (off_bytes + unat start) (cd_data col))))"

definition compare_column_values :: "ColumnData \<Rightarrow> ColumnType \<Rightarrow> nat \<Rightarrow> nat \<Rightarrow> nat \<Rightarrow> int option" where
  "compare_column_values col ct a b total_rows =
     (let num = (\<lambda>get lt. Option.bind (get a) (\<lambda>x. map_option (\<lambda>y. sign_of (lt x y) (lt y x)) (get b)))
      in case ct of
           kInt32 \<Rightarrow> Option.bind (elem32 col a) (\<lambda>x. map_option (\<lambda>y. sign_of (sint x < sint y) (sint y < sint x)) (elem32 col b))
         | kInt64 \<Rightarrow> num (elem64 col) (\<lambda>x y. sint x < sint y)
         | kTimestamp \<Rightarrow> num (elem64 col) (\<lambda>x y. sint x < sint y)
         | kFloat64 \<Rightarrow> num (elem64 col) f64_lt
         | kBool \<Rightarrow> Option.bind (elem_bool col a) (\<lambda>x. map_option (\<lambda>y. of_bool x - of_bool y) (elem_bool col b))
         | kVarChar \<Rightarrow>
             let off_bytes = total_rows * 4
             in if length (cd_data col) < off_bytes then Some 0
                else Option.bind (Option.bind (str_bounds col a) (blob_slice col off_bytes)) (\<lambda>x.
                     map_option (compare_strings x) (Option.bind (str_bounds col b) (blob_slice col off_bytes))))"

section \<open>Values\<close>

text \<open>\<open>bytes_to_value\<close>: the cell of a row as a literal.\<close>

definition bytes_to_value :: "ColumnData \<Rightarrow> ColumnType \<Rightarrow> nat \<Rightarrow> nat \<Rightarrow> Value option" where
  "bytes_to_value col ct i total_rows =
     (case ct of
        kInt32 \<Rightarrow> map_option (\<lambda>w. VInt (scast w)) (elem32 col i)
      | kTimestamp \<Rightarrow> map_option VInt (elem64 col i)
      | kInt64 \<Rightarrow> map_option VInt (elem64 col i)
      | kFloat64 \<Rightarrow> map_option VDouble (elem64 col i)
      | kBool \<Rightarrow> map_option (\<lambda>b. VInt (if b then 1 else 0)) (elem_bool col i)
      | kVarChar \<Rightarrow>
          let off_bytes = total_rows * 4
          in if length (cd_data col) < off_bytes then Some (VStr [])
             else map_option (\<lambda>bs. VStr (bytes_string bs)) (Option.bind (str_bounds col i) (blob_slice col off_bytes)))"

text \<open>What an \<open>INSERT\<close> stores for a literal; one of another kind than the column counts as zero or
  as the empty string.\<close>

definition f64_of_int :: "u64 \<Rightarrow> u64" where "f64_of_int n = f64_signed (sint n) 1"

definition varchar_cell :: "string \<Rightarrow> byte list" where
  "varchar_cell s = put_u32 (word_of_nat (length s)) @ string_bytes s"

fun encode_value :: "ColumnType \<Rightarrow> Value \<Rightarrow> byte list" where
  "encode_value kInt32 v = put_u32 (case v of VInt n \<Rightarrow> ucast n | _ \<Rightarrow> 0)"
| "encode_value kTimestamp v = put_u64 (case v of VInt n \<Rightarrow> n | _ \<Rightarrow> 0)"
| "encode_value kInt64 v = put_u64 (case v of VInt n \<Rightarrow> n | _ \<Rightarrow> 0)"
| "encode_value kFloat64 v = put_u64 (case v of VDouble d \<Rightarrow> d | VInt n \<Rightarrow> f64_of_int n | _ \<Rightarrow> 0)"
| "encode_value kVarChar v = varchar_cell (case v of VStr s \<Rightarrow> s | VInt n \<Rightarrow> dec_int (sint n) | _ \<Rightarrow> [])"
| "encode_value kBool v = [case v of VInt n \<Rightarrow> if n \<noteq> 0 then 1 else 0 | _ \<Rightarrow> 0]"

text \<open>The loop over the rows ends at the first one with the wrong number of values.\<close>

definition encode_row :: "Schema \<Rightarrow> Value list \<Rightarrow> ColumnData list" where
  "encode_row S row =
     map2 (\<lambda>ct v. \<lparr>cd_type = column_type_tag ct, cd_data = encode_value ct v, cd_nulls = None\<rparr>) (sc_columns S) row"

definition encode_rows :: "Schema \<Rightarrow> Value list list \<Rightarrow> ColumnData list list StatusOr" where
  "encode_rows S rows =
     (if list_all (\<lambda>row. length row = column_count S) rows then Inr (map (encode_row S) rows)
      else Inl kInvalidArgument)"

text \<open>The key under which an index has a row of a batch: a string without its length.\<close>

definition insert_key :: "ColumnType \<Rightarrow> ColumnData \<Rightarrow> byte list" where
  "insert_key ct col = (if ct = kVarChar then drop 4 (cd_data col) else cd_data col)"

text \<open>The key of a literal; \<open>std::get<std::string>\<close> throws for anything but a string.\<close>

fun index_key :: "ColumnType \<Rightarrow> Value \<Rightarrow> byte list option" where
  "index_key kVarChar v = (case v of VStr s \<Rightarrow> Some (string_bytes s) | _ \<Rightarrow> None)"
| "index_key ct v = Some (encode_value ct v)"

end
