(* ===== verification/Exec_Select.thy ===== *)
theory Exec_Select
  imports Exec_Values Db_Maintain
begin

text \<open>
  \<open>SELECT\<close> and \<open>JOIN\<close> of \<open>src/src/query/executor_select.cpp\<close>, with \<open>Executor::index_lookup\<close> of
  \<open>executor_scan.cpp\<close>. \<open>None\<close> is an exception, a read outside a buffer, or a crash. The outcomes
  of the system calls and what the standard library leaves open (the order that \<open>std::sort\<close> gives
  to equal elements, the order of the equal keys of a \<open>std::unordered_multimap\<close>) are fields of
  the environment. Sequentially no backup is ever in progress, so the page callback of the
  indexes does nothing.
\<close>

record QueryResult =
  qr_column_names :: "string list"
  qr_column_types :: "ColumnType list"
  qr_rows :: "string list list"

definition qr_empty :: QueryResult where
  "qr_empty = \<lparr>qr_column_names = [], qr_column_types = [], qr_rows = []\<rparr>"

record ExecEnv =
  ee_cpu :: Cpu
  ee_wal :: WalEnv
  ee_sync :: WalEnv
  ee_flush :: "TableId \<Rightarrow> OsEnv list"
  ee_index :: "nat \<Rightarrow> nat \<Rightarrow> OsEnv"
  ee_create :: OsEnv
  ee_schema :: FileEnv
  ee_vacuum :: VacuumEnv
  ee_backup :: BackupEnv
  ee_backup_files :: Files
  ee_tables :: "nat \<Rightarrow> TableIo"
  ee_meta :: FileEnv
  ee_sort :: "(RowId \<Rightarrow> RowId \<Rightarrow> bool) \<Rightarrow> RowId list \<Rightarrow> RowId list"
  ee_equal_range :: "nat list \<Rightarrow> nat list"

section \<open>Tables, columns, visibility\<close>

definition find_table :: "string \<Rightarrow> Database \<Rightarrow> TableId option" where
  "find_table name db = map_option word_of_nat (find (\<lambda>i. tb_name (db_tables db ! i) = name) [0..<length (db_tables db)])"

definition first_column :: "Schema \<Rightarrow> string \<Rightarrow> nat option" where
  "first_column S name = find (\<lambda>i. sc_names S ! i = name) [0..<length (sc_names S)]"

text \<open>A loop over the names that does not stop at the first match.\<close>

definition last_column :: "Schema \<Rightarrow> string \<Rightarrow> nat option" where
  "last_column S name = find (\<lambda>i. sc_names S ! i = name) (rev [0..<length (sc_names S)])"

definition flush_table :: "ExecEnv \<Rightarrow> TableId \<Rightarrow> Database \<Rightarrow> Status_Code \<times> Database" where
  "flush_table env tid db =
     (let (s, t) = flush_pending (ee_flush env tid) (db_tables db ! unat tid) in (s, set_table tid t db))"

text \<open>The timestamp to read with; the transaction of a connection is among those of the manager.\<close>

definition read_timestamp :: "TxId option \<Rightarrow> Database \<Rightarrow> Timestamp \<times> Database" where
  "read_timestamp c db =
     (case c of
        Some tx \<Rightarrow> (case db_txns db tx of None \<Rightarrow> 0 | Some x \<Rightarrow> tx_read_ts x, db)
      | None \<Rightarrow> (let (ts, a) = allocate_ts (db_timestamps db) in (ts, db\<lparr>db_timestamps := a\<rparr>)))"

text \<open>The rows of a list that the snapshot sees, in the order of the list.\<close>

fun visible_rows :: "Timestamp \<Rightarrow> RowId list \<Rightarrow> Table \<Rightarrow> RowId list \<times> Table" where
  "visible_rows ts [] t = ([], t)"
| "visible_rows ts (rid # rids) t =
     (let (r, t1) = search_version_index rid ts t;
          (vs, t2) = visible_rows ts rids t1
      in (case r of Inl e \<Rightarrow> vs | Inr off \<Rightarrow> if off \<noteq> kNotFoundOff then rid # vs else vs, t2))"

text \<open>The first index on the column whose search finds anything.\<close>

fun index_lookup_in :: "Predicate \<Rightarrow> IndexInfo list \<Rightarrow> RowId list option option" where
  "index_lookup_in p [] = Some None"
| "index_lookup_in p (ix # ixs) =
     (if ix_column_name ix \<noteq> cr_name (pr_column p) then index_lookup_in p ixs
      else case index_key (ix_column_type ix) (pr_value p) of None \<Rightarrow> None
        | Some key \<Rightarrow>
            (case bt_search (ix_tree ix) key of
               BtOk rids \<Rightarrow> Some (Some rids)
             | BtError e \<Rightarrow> index_lookup_in p ixs
             | BtCrash \<Rightarrow> None
             | BtDiverges \<Rightarrow> None))"

definition index_lookup :: "Table \<Rightarrow> Predicate \<Rightarrow> RowId list option option" where
  "index_lookup t p = (if pr_op p \<noteq> CmpEq then Some None else index_lookup_in p (tb_indexes t))"

section \<open>The header of the result\<close>

definition column_title :: "ColumnRef \<Rightarrow> string" where
  "column_title col =
     (case cr_func col of
        AggCount \<Rightarrow> ''COUNT('' @ cr_name col @ '')''
      | AggSum \<Rightarrow> ''SUM('' @ cr_name col @ '')''
      | AggAvg \<Rightarrow> ''AVG('' @ cr_name col @ '')''
      | AggMin \<Rightarrow> ''MIN('' @ cr_name col @ '')''
      | AggMax \<Rightarrow> ''MAX('' @ cr_name col @ '')''
      | AggNone \<Rightarrow> cr_name col)"

definition column_out_type :: "Schema \<Rightarrow> ColumnRef \<Rightarrow> ColumnType list" where
  "column_out_type S col =
     (case first_column S (cr_name col) of
        Some ci \<Rightarrow>
          [if cr_func col = AggCount then kInt64
           else if cr_func col = AggAvg \<or> cr_func col = AggSum then kFloat64
           else sc_columns S ! ci]
      | None \<Rightarrow> if cr_is_star col \<and> cr_func col = AggCount then [kInt64] else [])"

definition select_header :: "Schema \<Rightarrow> SelectStmt \<Rightarrow> QueryResult" where
  "select_header S stmt =
     (if se_columns stmt = []
      then \<lparr>qr_column_names = sc_names S, qr_column_types = sc_columns S, qr_rows = []\<rparr>
      else \<lparr>qr_column_names = map column_title (se_columns stmt),
            qr_column_types = concat (map (column_out_type S) (se_columns stmt)), qr_rows = []\<rparr>)"

definition is_aggregate :: "SelectStmt \<Rightarrow> bool" where
  "is_aggregate stmt \<longleftrightarrow> se_group_by stmt \<noteq> [] \<or> list_ex (\<lambda>c. cr_func c \<noteq> AggNone) (se_columns stmt)"

definition group_by_indices :: "Schema \<Rightarrow> SelectStmt \<Rightarrow> nat list" where
  "group_by_indices S stmt = List.map_filter (\<lambda>c. first_column S (cr_name c)) (se_group_by stmt)"

definition select_indices :: "Schema \<Rightarrow> SelectStmt \<Rightarrow> nat list" where
  "select_indices S stmt =
     (let cis = (if se_columns stmt = [] then [0..<length (sc_names S)]
                 else List.map_filter (\<lambda>c. first_column S (cr_name c)) (filter (\<lambda>c. \<not> cr_is_star c) (se_columns stmt)))
      in foldl (\<lambda>acc ci. if ci \<in> set acc then acc else acc @ [ci]) cis (group_by_indices S stmt))"

section \<open>Finding the rows\<close>

text \<open>\<open>visible\<close> by the index: the rows it names, as far as the table has them.\<close>

definition rows_by_index :: "Timestamp \<Rightarrow> RowId list \<Rightarrow> Table \<Rightarrow> RowId list \<times> Table" where
  "rows_by_index ts rids t = visible_rows ts (filter (\<lambda>rid. unat rid < tb_row_count t) rids) t"

text \<open>The comparator of \<open>ORDER BY\<close>; it reads only rows of the scan.\<close>

definition order_less :: "ColumnData \<Rightarrow> ColumnType \<Rightarrow> nat \<Rightarrow> bool \<Rightarrow> RowId \<Rightarrow> RowId \<Rightarrow> bool" where
  "order_less col ct n ascending a b =
     (case compare_column_values col ct (unat a) (unat b) n of None \<Rightarrow> False
      | Some cmp \<Rightarrow> if ascending then cmp < 0 else cmp > 0)"

definition order_rows :: "ExecEnv \<Rightarrow> Schema \<Rightarrow> SelectStmt \<Rightarrow> TableScanResult \<Rightarrow> RowId list \<Rightarrow> RowId list" where
  "order_rows env S stmt scan vs =
     (case se_order_by stmt of None \<Rightarrow> vs
      | Some ob \<Rightarrow>
          (case first_column S (cr_name (ob_column ob)) of None \<Rightarrow> vs
           | Some ci \<Rightarrow>
               if vs \<noteq> [] \<and> ci < length (sr_columns scan)
               then ee_sort env (order_less (sr_columns scan ! ci) (sc_columns S ! ci) (sr_row_count scan) (ob_asc ob)) vs
               else vs))"

definition rows_by_scan :: "ExecEnv \<Rightarrow> SelectStmt \<Rightarrow> Timestamp \<Rightarrow> Table \<Rightarrow> RowId list StatusOr \<times> Table" where
  "rows_by_scan env stmt ts t =
     (case read_table_columns t of Inl e \<Rightarrow> (Inl e, t)
      | Inr scan \<Rightarrow>
          (case (case se_where stmt of None \<Rightarrow> Inr [0..<sr_row_count scan]
                 | Some w \<Rightarrow> evaluate (ee_cpu env) (sr_columns scan) (tb_schema t) (sr_row_count scan) (Some w)) of
             Inl e \<Rightarrow> (Inl e, t)
           | Inr matching \<Rightarrow>
               let (vs, t') = visible_rows ts (map word_of_nat matching) t
               in (Inr (order_rows env (tb_schema t) stmt scan vs), t')))"

text \<open>The index is used for a single equality without \<open>ORDER BY\<close>.\<close>

definition index_rids :: "SelectStmt \<Rightarrow> Table \<Rightarrow> RowId list option option" where
  "index_rids stmt t =
     (case (se_order_by stmt, se_where stmt) of
        (None, Some (EPred p)) \<Rightarrow> if pr_op p = CmpEq then index_lookup t p else Some None
      | _ \<Rightarrow> Some None)"

definition find_rows :: "ExecEnv \<Rightarrow> SelectStmt \<Rightarrow> Timestamp \<Rightarrow> Table \<Rightarrow> (RowId list StatusOr \<times> Table) option" where
  "find_rows env stmt ts t =
     (case index_rids stmt t of None \<Rightarrow> None
      | Some (Some rids) \<Rightarrow> (let (vs, t') = rows_by_index ts rids t in Some (Inr vs, t'))
      | Some None \<Rightarrow> Some (rows_by_scan env stmt ts t))"

definition skip_offset :: "u64 option \<Rightarrow> 'a list \<Rightarrow> 'a list" where
  "skip_offset n xs = (case n of None \<Rightarrow> xs | Some k \<Rightarrow> drop (unat k) xs)"

definition cut_limit :: "u64 option \<Rightarrow> 'a list \<Rightarrow> 'a list" where
  "cut_limit n xs = (case n of None \<Rightarrow> xs | Some k \<Rightarrow> take (unat k) xs)"

section \<open>Rows of the result\<close>

text \<open>A cell of the rows that were read; a column that does not exist is outside the vector.\<close>

definition cell_text :: "Schema \<Rightarrow> TableScanResult \<Rightarrow> nat \<Rightarrow> nat \<Rightarrow> nat option \<Rightarrow> string option" where
  "cell_text S scan n ri ci =
     (case ci of None \<Rightarrow> None
      | Some c \<Rightarrow> if length (sr_columns scan) \<le> c then None
                 else value_to_string (sr_columns scan ! c) (sc_columns S ! c) ri n)"

definition plain_rows :: "Schema \<Rightarrow> SelectStmt \<Rightarrow> TableScanResult \<Rightarrow> nat \<Rightarrow> string list list option" where
  "plain_rows S stmt scan n =
     (let cols = (if se_columns stmt = [] then map Some (select_indices S stmt)
                  else map (\<lambda>c. last_column S (cr_name c)) (se_columns stmt))
      in those (map (\<lambda>ri. those (map (cell_text S scan n ri) cols)) [0..<n]))"

subsection \<open>Aggregation\<close>

record AggState =
  ag_count :: nat
  ag_sum :: u64
  ag_min :: u64
  ag_max :: u64

definition agg_init :: AggState where
  "agg_init = \<lparr>ag_count = 0, ag_sum = 0, ag_min = f64_max, ag_max = f64_lowest\<rparr>"

text \<open>The number of a cell: its text through \<open>stod\<close>, zero where that throws.\<close>

definition agg_number :: "string \<Rightarrow> u64" where
  "agg_number s = (if s = [] then 0 else case stod s of None \<Rightarrow> 0 | Some d \<Rightarrow> d)"

definition agg_update :: "u64 option \<Rightarrow> AggState \<Rightarrow> AggState" where
  "agg_update num st =
     (let st1 = st\<lparr>ag_count := ag_count st + 1\<rparr>
      in case num of None \<Rightarrow> st1
         | Some d \<Rightarrow>
             st1\<lparr>ag_sum := f64_add (ag_sum st) d,
                 ag_min := (if f64_lt d (ag_min st) then d else ag_min st),
                 ag_max := (if f64_lt (ag_max st) d then d else ag_max st)\<rparr>)"

type_synonym Groups = "(string \<times> AggState list) list"

fun group_update :: "string \<Rightarrow> u64 option list \<Rightarrow> Groups \<Rightarrow> Groups" where
  "group_update key nums [] = [(key, map (\<lambda>n. agg_update n agg_init) nums)]"
| "group_update key nums ((k, sts) # gs) =
     (if k = key then (k, map2 agg_update nums sts) # gs else (k, sts) # group_update key nums gs)"

definition group_key :: "Schema \<Rightarrow> SelectStmt \<Rightarrow> TableScanResult \<Rightarrow> nat \<Rightarrow> nat \<Rightarrow> string option" where
  "group_key S stmt scan n ri =
     map_option (\<lambda>cells. concat (map (\<lambda>c. c @ ''|'') cells))
       (those (map (\<lambda>ci. cell_text S scan n ri (Some ci)) (group_by_indices S stmt)))"

definition row_numbers :: "Schema \<Rightarrow> SelectStmt \<Rightarrow> TableScanResult \<Rightarrow> nat \<Rightarrow> nat \<Rightarrow> u64 option list option" where
  "row_numbers S stmt scan n ri =
     those (map (\<lambda>c. if cr_func c = AggNone \<or> cr_func c = AggCount then Some None
         else map_option (\<lambda>s. Some (agg_number s)) (cell_text S scan n ri (last_column S (cr_name c)))) (se_columns stmt))"

fun group_rows :: "Schema \<Rightarrow> SelectStmt \<Rightarrow> TableScanResult \<Rightarrow> nat \<Rightarrow> nat list \<Rightarrow> Groups \<Rightarrow> Groups option" where
  "group_rows S stmt scan n [] gs = Some gs"
| "group_rows S stmt scan n (ri # ris) gs =
     (case (group_key S stmt scan n ri, row_numbers S stmt scan n ri) of
        (Some key, Some nums) \<Rightarrow> group_rows S stmt scan n ris (group_update key nums gs)
      | _ \<Rightarrow> None)"

text \<open>The cells of the columns without a function are cut out of the key at its bars, in the
  order of these columns. Behind the last bar the search gives \<open>npos\<close>, and the position starts
  at zero again.\<close>

definition key_field :: "string \<Rightarrow> nat \<Rightarrow> string \<times> nat" where
  "key_field key pos =
     (let rest = drop pos key; field = takeWhile (\<lambda>c. c \<noteq> CHR ''|'') rest
      in (field, if length field = length rest then 0 else pos + length field + 1))"

fun group_row :: "string \<Rightarrow> nat \<Rightarrow> (ColumnRef \<times> AggState) list \<Rightarrow> string list" where
  "group_row key pos [] = []"
| "group_row key pos ((c, st) # cs) =
     (case cr_func c of
        AggCount \<Rightarrow> dec (ag_count st) # group_row key pos cs
      | AggSum \<Rightarrow> f64_to_string (ag_sum st) # group_row key pos cs
      | AggAvg \<Rightarrow> f64_to_string (f64_div (ag_sum st) (f64_of_ratio (int (ag_count st)) 1)) # group_row key pos cs
      | AggMin \<Rightarrow> f64_to_string (ag_min st) # group_row key pos cs
      | AggMax \<Rightarrow> f64_to_string (ag_max st) # group_row key pos cs
      | AggNone \<Rightarrow> (let (field, pos') = key_field key pos in field # group_row key pos' cs))"

definition aggregate_rows :: "Schema \<Rightarrow> SelectStmt \<Rightarrow> TableScanResult \<Rightarrow> nat \<Rightarrow> string list list option" where
  "aggregate_rows S stmt scan n =
     map_option (\<lambda>gs. cut_limit (se_limit stmt) (skip_offset (se_offset stmt)
         (map (\<lambda>(key, sts). group_row key 0 (zip (se_columns stmt) sts)) gs)))
       (group_rows S stmt scan n [0..<n] [])"

section \<open>\<open>SELECT\<close> from one table\<close>

definition result_rows :: "Schema \<Rightarrow> SelectStmt \<Rightarrow> Table \<Rightarrow> RowId list \<Rightarrow> string list list StatusOr option" where
  "result_rows S stmt t vs =
     (if vs = [] then
        Some (Inr (if is_aggregate stmt \<and> se_group_by stmt = [] then [map (\<lambda>c. ''0'') (se_columns stmt)] else []))
      else case read_rows t vs (select_indices S stmt) of Inl e \<Rightarrow> Some (Inl e)
        | Inr scan \<Rightarrow>
            map_option Inr (if is_aggregate stmt then aggregate_rows S stmt scan (length vs) else plain_rows S stmt scan (length vs)))"

definition select_one :: "ExecEnv \<Rightarrow> SelectStmt \<Rightarrow> TxId option \<Rightarrow> Database \<Rightarrow> (QueryResult StatusOr \<times> Database) option" where
  "select_one env stmt c db =
     (case find_table (se_table_name stmt) db of None \<Rightarrow> Some (Inl kNotFound, db)
      | Some tid \<Rightarrow>
          let (_, db1) = flush_table env tid db;
              (ts, db2) = read_timestamp c db1;
              t = db_tables db2 ! unat tid; S = tb_schema t
          in (case find_rows env stmt ts t of None \<Rightarrow> None
              | Some (Inl e, t') \<Rightarrow> Some (Inl e, set_table tid t' db2)
              | Some (Inr vs, t') \<Rightarrow>
                  let vs' = (if is_aggregate stmt then vs
                             else cut_limit (se_limit stmt) (skip_offset (se_offset stmt) vs))
                  in map_option (\<lambda>r. (map_sum id (\<lambda>rows. (select_header S stmt)\<lparr>qr_rows := rows\<rparr>) r, set_table tid t' db2))
                       (result_rows S stmt t' vs')))"

section \<open>\<open>JOIN\<close>\<close>

datatype Side = LeftTable nat | RightTable nat | AmbiguousColumn | NoColumn

text \<open>A column of either table; a table name restricts the search.\<close>

definition resolve_col :: "SelectStmt \<Rightarrow> JoinClause \<Rightarrow> Schema \<Rightarrow> Schema \<Rightarrow> ColumnRef \<Rightarrow> Side" where
  "resolve_col stmt j L R col =
     (let l = (if cr_table col = [] \<or> cr_table col = se_table_name stmt then first_column L (cr_name col) else None);
          r = (if cr_table col = [] \<or> cr_table col = jc_table_name j then first_column R (cr_name col) else None)
      in case (l, r) of
           (Some _, Some _) \<Rightarrow> AmbiguousColumn
         | (Some i, None) \<Rightarrow> LeftTable i
         | (None, Some i) \<Rightarrow> RightTable i
         | (None, None) \<Rightarrow> NoColumn)"

fun join_header_from :: "SelectStmt \<Rightarrow> JoinClause \<Rightarrow> Schema \<Rightarrow> Schema \<Rightarrow> ColumnRef list
    \<Rightarrow> (string \<times> ColumnType \<times> Side) list StatusOr" where
  "join_header_from stmt j L R [] = Inr []"
| "join_header_from stmt j L R (col # cols) =
     (let title = (if cr_table col = [] then cr_name col else cr_table col @ ''.'' @ cr_name col);
          add = (\<lambda>ct side. map_sum id ((#) (title, ct, side)) (join_header_from stmt j L R cols))
      in case resolve_col stmt j L R col of
           AmbiguousColumn \<Rightarrow> Inl kInvalidArgument
         | NoColumn \<Rightarrow> Inl kNotFound
         | LeftTable i \<Rightarrow> add (sc_columns L ! i) (LeftTable i)
         | RightTable i \<Rightarrow> add (sc_columns R ! i) (RightTable i))"

definition join_header :: "SelectStmt \<Rightarrow> JoinClause \<Rightarrow> Schema \<Rightarrow> Schema \<Rightarrow> (string \<times> ColumnType \<times> Side) list StatusOr" where
  "join_header stmt j L R =
     (if se_columns stmt = []
      then Inr (map (\<lambda>i. (se_table_name stmt @ ''.'' @ sc_names L ! i, sc_columns L ! i, LeftTable i)) [0..<length (sc_names L)] @
                map (\<lambda>i. (jc_table_name j @ ''.'' @ sc_names R ! i, sc_columns R ! i, RightTable i)) [0..<length (sc_names R)])
      else join_header_from stmt j L R (se_columns stmt))"

text \<open>The columns to join by, one of each table.\<close>

definition join_columns :: "SelectStmt \<Rightarrow> JoinClause \<Rightarrow> Schema \<Rightarrow> Schema \<Rightarrow> (nat \<times> nat) StatusOr" where
  "join_columns stmt j L R =
     (case (resolve_col stmt j L R (jc_left_col j), resolve_col stmt j L R (jc_right_col j)) of
        (LeftTable a, RightTable b) \<Rightarrow> Inr (a, b)
      | (RightTable b, LeftTable a) \<Rightarrow> Inr (a, b)
      | (LeftTable a, LeftTable b) \<Rightarrow> Inl kInvalidArgument
      | (RightTable a, RightTable b) \<Rightarrow> Inl kInvalidArgument
      | _ \<Rightarrow> Inl kNotFound)"

definition side_text :: "Schema \<Rightarrow> Schema \<Rightarrow> TableScanResult \<Rightarrow> TableScanResult \<Rightarrow> nat \<Rightarrow> nat \<Rightarrow> nat \<Rightarrow> nat \<Rightarrow> Side \<Rightarrow> string option" where
  "side_text L R sl sr nl nr kl kr side =
     (case side of LeftTable i \<Rightarrow> cell_text L sl nl kl (Some i) | RightTable i \<Rightarrow> cell_text R sr nr kr (Some i) | _ \<Rightarrow> None)"

text \<open>The rows of the right table are hashed by the text of their cell; each row of the left
  table goes through those with the same text.\<close>

definition join_rows :: "ExecEnv \<Rightarrow> Schema \<Rightarrow> Schema \<Rightarrow> TableScanResult \<Rightarrow> TableScanResult \<Rightarrow> nat \<Rightarrow> nat \<Rightarrow> nat \<Rightarrow> nat
    \<Rightarrow> Side list \<Rightarrow> string list list option" where
  "join_rows env L R sl sr nl nr jl jr out =
     Option.bind (those (map (\<lambda>k. cell_text R sr nr k (Some jr)) [0..<nr])) (\<lambda>keys.
     Option.bind (those (map (\<lambda>k. cell_text L sl nl k (Some jl)) [0..<nl])) (\<lambda>probes.
       map_option concat (those (map (\<lambda>kl.
         those (map (\<lambda>kr. those (map (side_text L R sl sr nl nr kl kr) out))
           (ee_equal_range env (filter (\<lambda>kr. keys ! kr = probes ! kl) [0..<nr])))) [0..<nl]))))"

definition join_tables :: "ExecEnv \<Rightarrow> SelectStmt \<Rightarrow> JoinClause \<Rightarrow> TableId \<Rightarrow> TableId \<Rightarrow> Timestamp \<Rightarrow> Database
    \<Rightarrow> (QueryResult StatusOr \<times> Database) option" where
  "join_tables env stmt j lt rt ts db =
     (let L = tb_schema (db_tables db ! unat lt); R = tb_schema (db_tables db ! unat rt);
          nl = tb_row_count (db_tables db ! unat lt); nr = tb_row_count (db_tables db ! unat rt)
      in case join_header stmt j L R of Inl e \<Rightarrow> Some (Inl e, db)
         | Inr hdr \<Rightarrow>
         (case join_columns stmt j L R of Inl e \<Rightarrow> Some (Inl e, db)
          | Inr (jl, jr) \<Rightarrow>
              let (vl, t1) = visible_rows ts (map word_of_nat [0..<nl]) (db_tables db ! unat lt);
                  db1 = set_table lt t1 db;
                  (vr, t2) = visible_rows ts (map word_of_nat [0..<nr]) (db_tables db1 ! unat rt);
                  db2 = set_table rt t2 db1
              in (case (read_rows (db_tables db2 ! unat lt) vl [0..<length (sc_columns L)],
                        read_rows (db_tables db2 ! unat rt) vr [0..<length (sc_columns R)]) of
                    (Inr sl, Inr sr) \<Rightarrow>
                      map_option (\<lambda>rows. (Inr \<lparr>qr_column_names = map fst hdr, qr_column_types = map (fst \<circ> snd) hdr,
                          qr_rows = cut_limit (se_limit stmt) (skip_offset (se_offset stmt) rows)\<rparr>, db2))
                        (join_rows env L R sl sr (length vl) (length vr) jl jr (map (snd \<circ> snd) hdr))
                  | (Inl e, _) \<Rightarrow> Some (Inl e, db2)
                  | (_, Inl e) \<Rightarrow> Some (Inl e, db2))))"

definition execute_join :: "ExecEnv \<Rightarrow> SelectStmt \<Rightarrow> JoinClause \<Rightarrow> TxId option \<Rightarrow> Database
    \<Rightarrow> (QueryResult StatusOr \<times> Database) option" where
  "execute_join env stmt j c db =
     (case (find_table (se_table_name stmt) db, find_table (jc_table_name j) db) of
        (Some lt, Some rt) \<Rightarrow>
          let (_, db1) = flush_table env lt db;
              (_, db2) = flush_table env rt db1;
              (ts, db3) = read_timestamp c db2
          in join_tables env stmt j lt rt ts db3
      | _ \<Rightarrow> Some (Inl kNotFound, db))"

definition execute_select :: "ExecEnv \<Rightarrow> SelectStmt \<Rightarrow> TxId option \<Rightarrow> Database \<Rightarrow> (QueryResult StatusOr \<times> Database) option" where
  "execute_select env stmt c db =
     (case se_join_clause stmt of Some j \<Rightarrow> execute_join env stmt j c db | None \<Rightarrow> select_one env stmt c db)"

end
