(* ===== verification/Executor.thy ===== *)
theory Executor
  imports Exec_Select Db_Recovery Sql_Parser
begin

text \<open>
  The other statements (\<open>executor_mutate.cpp\<close>, \<open>executor_ddl.cpp\<close>), the dispatch of
  \<open>executor.cpp\<close>, and the C interface of \<open>src/src/rawdb.cpp\<close>. A connection is its transaction, if
  it is in one. \<open>None\<close> is an exception, a crash, or an insertion that has to wait.
\<close>

section \<open>\<open>INSERT\<close>\<close>

text \<open>Entering the rows of a batch into the indexes, row by row, up to the first error.\<close>

fun index_row :: "(nat \<Rightarrow> OsEnv) \<Rightarrow> Schema \<Rightarrow> ColumnData list \<Rightarrow> RowId \<Rightarrow> nat \<Rightarrow> IndexInfo list
    \<Rightarrow> (Status_Code \<times> IndexInfo list) option" where
  "index_row envs S cols rid k [] = Some (kOk, [])"
| "index_row envs S cols rid k (ix # ixs) =
     (case bt_insert (envs k) (ix_tree ix) (insert_key (sc_columns S ! ix_column_idx ix) (cols ! ix_column_idx ix)) rid of
        BtOk (s, tree) \<Rightarrow>
          if s \<noteq> kOk then Some (s, ix\<lparr>ix_tree := tree\<rparr> # ixs)
          else map_option (\<lambda>(s', ixs'). (s', ix\<lparr>ix_tree := tree\<rparr> # ixs')) (index_row envs S cols rid (Suc k) ixs)
      | _ \<Rightarrow> None)"

fun index_batch :: "(nat \<Rightarrow> nat \<Rightarrow> OsEnv) \<Rightarrow> Schema \<Rightarrow> RowId \<Rightarrow> nat \<Rightarrow> ColumnData list list \<Rightarrow> IndexInfo list
    \<Rightarrow> (Status_Code \<times> IndexInfo list) option" where
  "index_batch envs S start i [] ixs = Some (kOk, ixs)"
| "index_batch envs S start i (row # rows) ixs =
     (case index_row (envs i) S row (start + word_of_nat i) 0 ixs of None \<Rightarrow> None
      | Some (s, ixs') \<Rightarrow> if s \<noteq> kOk then Some (s, ixs') else index_batch envs S start (Suc i) rows ixs')"

definition one_row :: "string \<Rightarrow> ColumnType \<Rightarrow> string \<Rightarrow> QueryResult" where
  "one_row name ct cell = \<lparr>qr_column_names = [name], qr_column_types = [ct], qr_rows = [[cell]]\<rparr>"

definition execute_insert :: "ExecEnv \<Rightarrow> InsertStmt \<Rightarrow> TxId option \<Rightarrow> Database \<Rightarrow> (QueryResult StatusOr \<times> Database) option" where
  "execute_insert env stmt c db =
     (case find_table (in_table_name stmt) db of None \<Rightarrow> Some (Inl kNotFound, db)
      | Some tid \<Rightarrow>
          let t = db_tables db ! unat tid; S = tb_schema t;
              done_row = one_row ''rows_inserted'' kInt64 (dec (length (in_rows stmt)))
          in (case encode_rows S (in_rows stmt) of Inl e \<Rightarrow> Some (Inl e, db)
              | Inr cols \<Rightarrow>
                  (case db_insert_batch (ee_wal env) tid cols c db of None \<Rightarrow> None
                   | Some (Inl e, db1) \<Rightarrow> Some (Inl e, db1)
                   | Some (Inr rids, db1) \<Rightarrow>
                       if \<not> has_indexes t then Some (Inr done_row, db1)
                       else
                         let t1 = db_tables db1 ! unat tid
                         in (case index_batch (ee_index env) S (word_of_nat (tb_row_count t)) 0 cols (tb_indexes t1) of None \<Rightarrow> None
                             | Some (s, ixs) \<Rightarrow>
                                 Some (if s \<noteq> kOk then Inl s else Inr done_row,
                                       set_table tid (t1\<lparr>tb_indexes := ixs\<rparr>) db1)))))"

section \<open>\<open>DELETE\<close> and \<open>UPDATE\<close>\<close>

text \<open>The visible rows that satisfy the condition, and the scan they were found in.\<close>

definition target_rows :: "ExecEnv \<Rightarrow> ExprNode option \<Rightarrow> TableId \<Rightarrow> TxId option \<Rightarrow> Database
    \<Rightarrow> (TableScanResult \<times> RowId list) StatusOr \<times> Database" where
  "target_rows env cond tid c db =
     (case flush_table env tid db of (s, db1) \<Rightarrow>
        if s \<noteq> kOk then (Inl s, db1)
        else case read_table_columns (db_tables db1 ! unat tid) of Inl e \<Rightarrow> (Inl e, db1)
          | Inr scan \<Rightarrow>
              let (ts, db2) = read_timestamp c db1; t = db_tables db2 ! unat tid
              in (case (case cond of None \<Rightarrow> Inr [0..<sr_row_count scan]
                        | Some w \<Rightarrow> evaluate (ee_cpu env) (sr_columns scan) (tb_schema t) (sr_row_count scan) (Some w)) of
                    Inl e \<Rightarrow> (Inl e, db2)
                  | Inr matching \<Rightarrow>
                      let (vs, t') = visible_rows ts (map word_of_nat matching) t
                      in (Inr (scan, vs), set_table tid t' db2)))"

definition execute_delete :: "ExecEnv \<Rightarrow> DeleteStmt \<Rightarrow> TxId option \<Rightarrow> Database \<Rightarrow> (QueryResult StatusOr \<times> Database) option" where
  "execute_delete env stmt c db =
     (case find_table (de_table_name stmt) db of None \<Rightarrow> Some (Inl kNotFound, db)
      | Some tid \<Rightarrow>
          (case target_rows env (de_where stmt) tid c db of
             (Inl e, db1) \<Rightarrow> Some (Inl e, db1)
           | (Inr (scan, rids), db1) \<Rightarrow>
               let done_row = one_row ''rows_deleted'' kInt64 (dec (length rids))
               in if rids = [] then Some (Inr done_row, db1)
                  else case db_delete_rows (ee_wal env) tid rids c db1 of
                         (s, db2) \<Rightarrow> Some (if s \<noteq> kOk then Inl s else Inr done_row, db2)))"

definition updated_row :: "Schema \<Rightarrow> TableScanResult \<Rightarrow> nat \<Rightarrow> Value \<Rightarrow> RowId \<Rightarrow> Value list option" where
  "updated_row S scan target v rid =
     those (map (\<lambda>ci. if ci = target then Some v
         else bytes_to_value (sr_columns scan ! ci) (sc_columns S ! ci) (unat rid) (sr_row_count scan)) [0..<column_count S])"

definition execute_update :: "ExecEnv \<Rightarrow> UpdateStmt \<Rightarrow> TxId option \<Rightarrow> Database \<Rightarrow> (QueryResult StatusOr \<times> Database) option" where
  "execute_update env stmt c db =
     (case find_table (up_table_name stmt) db of None \<Rightarrow> Some (Inl kNotFound, db)
      | Some tid \<Rightarrow>
          let S = tb_schema (db_tables db ! unat tid)
          in (case first_column S (up_column_name stmt) of None \<Rightarrow> Some (Inl kNotFound, db)
              | Some target \<Rightarrow>
                  (case target_rows env (up_where stmt) tid c db of
                     (Inl e, db1) \<Rightarrow> Some (Inl e, db1)
                   | (Inr (scan, rids), db1) \<Rightarrow>
                       let done_row = one_row ''rows_updated'' kInt64 (dec (length rids))
                       in if rids = [] then Some (Inr done_row, db1)
                          else
                            (case those (map (updated_row S scan target (up_new_value stmt)) rids) of None \<Rightarrow> None
                             | Some rows \<Rightarrow>
                                 (case db_delete_rows (ee_wal env) tid rids c db1 of (s, db2) \<Rightarrow>
                                    if s \<noteq> kOk then Some (Inl s, db2)
                                    else map_option (map_prod (map_sum id (\<lambda>_. done_row)) id)
                                           (execute_insert env \<lparr>in_table_name = up_table_name stmt, in_rows = rows\<rparr> c db2))))))"

section \<open>Definitions of tables and indexes\<close>

definition execute_create :: "ExecEnv \<Rightarrow> CreateStmt \<Rightarrow> Database \<Rightarrow> QueryResult StatusOr \<times> Database" where
  "execute_create env stmt db =
     (if find_table (cs_table_name stmt) db \<noteq> None then (Inl kAlreadyExists, db)
      else case create_table (ee_create env) (ee_schema env) (cs_table_name stmt)
               \<lparr>sc_columns = map cdef_type (cs_columns stmt), sc_names = map cdef_name (cs_columns stmt)\<rparr> db of
             (Inl e, db') \<Rightarrow> (Inl e, db')
           | (Inr tid, db') \<Rightarrow> (Inr (one_row ''created'' kBool ''true''), db'))"

text \<open>The tree is created before the table is flushed; a scan that fails leaves it empty.\<close>

definition execute_create_index :: "ExecEnv \<Rightarrow> CreateIndexStmt \<Rightarrow> Database \<Rightarrow> (QueryResult StatusOr \<times> Database) option" where
  "execute_create_index env stmt db =
     (case find_table (ci_table_name stmt) db of None \<Rightarrow> Some (Inl kNotFound, db)
      | Some tid \<Rightarrow>
          let t = db_tables db ! unat tid; S = tb_schema t
          in (case first_column S (ci_column_name stmt) of None \<Rightarrow> Some (Inl kNotFound, db)
              | Some ci \<Rightarrow>
                  let ct = sc_columns S ! ci; file = idx_name (tb_name t) ci;
                      contents = (case map_of (db_files db) file of None \<Rightarrow> [] | Some bs \<Rightarrow> bs)
                  in (case bt_create (ee_create env) contents ct of Inl e \<Rightarrow> Some (Inl e, db)
                      | Inr tree \<Rightarrow>
                          let (_, db1) = flush_table env tid db; t1 = db_tables db1 ! unat tid;
                              filled = (case read_table_columns t1 of Inl e \<Rightarrow> Some (kOk, tree)
                                | Inr scan \<Rightarrow>
                                    (case index_keys ct (tb_row_count t1) (cd_data (sr_columns scan ! ci)) of None \<Rightarrow> None
                                     | Some keys \<Rightarrow>
                                         (case fill_index (ee_index env ci) 0 keys tree of BtOk r \<Rightarrow> Some r | _ \<Rightarrow> None)))
                          in (case filled of None \<Rightarrow> None
                              | Some (s, tree') \<Rightarrow>
                                  if s \<noteq> kOk
                                  then Some (Inl s, db1\<lparr>db_files := file_put file (mf_disk (bt_file (bt_close tree'))) (db_files db1)\<rparr>)
                                  else Some (Inr (one_row ''created'' kBool ''true''),
                                         set_table tid (add_index \<lparr>ix_name = ci_index_name stmt, ix_column_name = ci_column_name stmt,
                                           ix_column_idx = ci, ix_column_type = ct, ix_tree = tree'\<rparr> t1) db1)))))"

definition execute_vacuum :: "ExecEnv \<Rightarrow> string \<Rightarrow> Database \<Rightarrow> (QueryResult StatusOr \<times> Database) option" where
  "execute_vacuum env name db =
     (case find_table name db of None \<Rightarrow> Some (Inl kNotFound, db)
      | Some tid \<Rightarrow>
          (case db_vacuum (ee_vacuum env) tid db of
             BtOk (s, db') \<Rightarrow> Some (if s \<noteq> kOk then Inl s else Inr (one_row ''vacuumed'' kBool ''true''), db')
           | _ \<Rightarrow> None))"

section \<open>Transactions, backups, settings\<close>

definition execute_begin :: "ExecEnv \<Rightarrow> TxId option \<Rightarrow> Database \<Rightarrow> QueryResult StatusOr \<times> TxId option \<times> Database" where
  "execute_begin env c db =
     (case conn_begin (ee_wal env) c db of (s, c', db') \<Rightarrow> (if s \<noteq> kOk then Inl s else Inr qr_empty, c', db'))"

definition execute_commit :: "ExecEnv \<Rightarrow> TxId option \<Rightarrow> Database \<Rightarrow> (QueryResult StatusOr \<times> TxId option \<times> Database) option" where
  "execute_commit env c db =
     map_option (\<lambda>(s, c', db'). (if s \<noteq> kOk then Inl s else Inr qr_empty, c', db')) (conn_commit (ee_wal env) (ee_sync env) c db)"

definition execute_rollback :: "ExecEnv \<Rightarrow> TxId option \<Rightarrow> Database \<Rightarrow> (QueryResult StatusOr \<times> TxId option \<times> Database) option" where
  "execute_rollback env c db =
     map_option (\<lambda>(s, c', db'). (if s \<noteq> kOk then Inl s else Inr (one_row ''status'' kVarChar ''OK''), c', db'))
       (conn_rollback (ee_wal env) c db)"

text \<open>The files of the target directory are in the environment; the copy is its new contents.\<close>

definition execute_backup :: "ExecEnv \<Rightarrow> Database \<Rightarrow> (QueryResult StatusOr \<times> Files \<times> Database) option" where
  "execute_backup env db =
     map_option (\<lambda>(s, fs, db'). (if s \<noteq> kOk then Inl s else Inr (one_row ''status'' kVarChar ''BACKUP SUCCESS''), fs, db'))
       (start_backup (ee_backup env) (ee_tables env) (ee_meta env) (ee_backup_files env) db)"

definition execute_config :: "ConfigStmt \<Rightarrow> Database \<Rightarrow> QueryResult StatusOr \<times> Database" where
  "execute_config stmt db =
     (let ok = Inr (one_row ''status'' kVarChar ''CONFIG UPDATED'')
      in if cf_key stmt = ''backup_interval'' then (ok, db\<lparr>db_backup_interval := cf_value stmt\<rparr>)
         else if cf_key stmt = ''backup_retention'' then (ok, db\<lparr>db_backup_retention := cf_value stmt\<rparr>)
         else (Inl kInvalidArgument, db))"

section \<open>Dispatch\<close>

definition execute :: "ExecEnv \<Rightarrow> Statement \<Rightarrow> TxId option \<Rightarrow> Database
    \<Rightarrow> (QueryResult StatusOr \<times> TxId option \<times> Database) option" where
  "execute env stmt c db =
     (let keep = map_option (\<lambda>(r, db'). (r, c, db'))
      in case stmt of
           SInsert s \<Rightarrow> keep (execute_insert env s c db)
         | SSelect s \<Rightarrow> keep (execute_select env s c db)
         | SDelete s \<Rightarrow> keep (execute_delete env s c db)
         | SUpdate s \<Rightarrow> keep (execute_update env s c db)
         | SCreate s \<Rightarrow> keep (Some (execute_create env s db))
         | SCreateIndex s \<Rightarrow> keep (execute_create_index env s db)
         | SVacuum s \<Rightarrow> keep (execute_vacuum env s db)
         | SBegin \<Rightarrow> Some (execute_begin env c db)
         | SCommit \<Rightarrow> execute_commit env c db
         | SRollback \<Rightarrow> execute_rollback env c db
         | SBackup p \<Rightarrow> map_option (\<lambda>(r, fs, db'). (r, c, db')) (execute_backup env db)
         | SConfig s \<Rightarrow> keep (Some (execute_config s db)))"

definition execute_sql :: "ExecEnv \<Rightarrow> string \<Rightarrow> TxId option \<Rightarrow> Database
    \<Rightarrow> (QueryResult StatusOr \<times> TxId option \<times> Database) option" where
  "execute_sql env sql c db =
     (case parse sql of
        Inl (PStatus e) \<Rightarrow> Some (Inl e, c, db)
      | Inl _ \<Rightarrow> None
      | Inr stmt \<Rightarrow> execute env stmt c db)"

section \<open>The C interface\<close>

record Rawdb =
  rw_db :: Database
  rw_errmsg :: string

definition rawdb_open :: "OpenEnv \<Rightarrow> Database \<Rightarrow> Rawdb option" where
  "rawdb_open env db =
     map_option (\<lambda>(s, db'). \<lparr>rw_db = db', rw_errmsg = (if s \<noteq> kOk then ''failed to open database'' else [])\<rparr>)
       (db_open env None db)"

text \<open>Every call has its own connection, which is gone at its end.\<close>

definition rawdb_execute :: "ExecEnv \<Rightarrow> string \<Rightarrow> Rawdb \<Rightarrow> (nat \<times> QueryResult option \<times> Rawdb) option" where
  "rawdb_execute env sql r =
     map_option (\<lambda>(res, c, db).
         case res of
           Inl e \<Rightarrow> (status_code e, None, \<lparr>rw_db = db, rw_errmsg = status_message e\<rparr>)
         | Inr q \<Rightarrow> (0, Some q, r\<lparr>rw_db := db\<rparr>))
       (execute_sql env sql None (rw_db r))"

text \<open>The counts are converted to \<open>int\<close>; a position outside the result is a null pointer.\<close>

definition int_of_size :: "nat \<Rightarrow> int" where "int_of_size n = sint (word_of_nat n :: 32 word)"

definition rawdb_result_row_count :: "QueryResult \<Rightarrow> int" where
  "rawdb_result_row_count q = int_of_size (length (qr_rows q))"

definition rawdb_result_col_count :: "QueryResult \<Rightarrow> int" where
  "rawdb_result_col_count q = int_of_size (length (qr_column_names q))"

definition rawdb_result_column_name :: "QueryResult \<Rightarrow> int \<Rightarrow> string option" where
  "rawdb_result_column_name q col =
     (if col < 0 \<or> length (qr_column_names q) \<le> nat col then None else Some (qr_column_names q ! nat col))"

definition rawdb_result_value :: "QueryResult \<Rightarrow> int \<Rightarrow> int \<Rightarrow> string option" where
  "rawdb_result_value q row col =
     (if row < 0 \<or> col < 0 \<or> length (qr_rows q) \<le> nat row then None
      else if length (qr_rows q ! nat row) \<le> nat col then None else Some (qr_rows q ! nat row ! nat col))"

end
