(* ===== verification/Exec_Shape.thy ===== *)
theory Exec_Shape
  imports Executor
begin

text \<open>
  The shape of results: every statement gives rows with as many fields as the result has columns,
  except an aggregation without a list of columns.
\<close>

definition rectangular :: "QueryResult \<Rightarrow> bool" where
  "rectangular q \<longleftrightarrow> list_all (\<lambda>row. length row = length (qr_column_names q)) (qr_rows q)"

lemma those_eq: "those xs = Some ys \<longleftrightarrow> xs = map Some ys"
  by (induction xs arbitrary: ys) (auto split: option.splits)

lemma those_length: "those xs = Some ys \<Longrightarrow> length ys = length xs"
  by (simp add: those_eq)

lemma those_all:
  assumes "those (map f xs) = Some ys" "\<forall>x \<in> set xs. \<forall>y. f x = Some y \<longrightarrow> P y"
  shows "list_all P ys"
proof -
  have "f ` set xs = Some ` set ys" using assms(1) by (metis those_eq set_map)
  then have "\<exists>x \<in> set xs. f x = Some y" if "y \<in> set ys" for y using that by (metis imageE imageI)
  then show ?thesis using assms(2) by (auto simp: list_all_iff)
qed

lemma cut_all: "list_all P xs \<Longrightarrow> list_all P (cut_limit n (skip_offset k xs))"
  by (auto simp: cut_limit_def skip_offset_def list_all_iff split: option.splits dest: in_set_takeD in_set_dropD)

subsection \<open>\<open>SELECT\<close>\<close>

lemma plain_rows_length:
  assumes "plain_rows S stmt scan n = Some rows" "\<not> is_aggregate stmt"
  shows "list_all (\<lambda>row. length row = length (qr_column_names (select_header S stmt))) rows"
proof -
  let ?cols = "if se_columns stmt = [] then map Some (select_indices S stmt) else map (\<lambda>c. last_column S (cr_name c)) (se_columns stmt)"
  have "select_indices S stmt = [0..<length (sc_names S)]" if "se_columns stmt = []"
    using that assms(2) by (simp add: select_indices_def group_by_indices_def is_aggregate_def map_filter_simps)
  then have "length ?cols = length (qr_column_names (select_header S stmt))" by (simp add: select_header_def)
  moreover have "list_all (\<lambda>row. length row = length ?cols) rows"
    using assms(1) unfolding plain_rows_def Let_def by (rule those_all) (auto dest: those_length)
  ultimately show ?thesis by simp
qed

lemma group_update_length:
  "list_all (\<lambda>(k, sts). length sts = n) gs \<Longrightarrow> length nums = n \<Longrightarrow> list_all (\<lambda>(k, sts). length sts = n) (group_update key nums gs)"
  by (induction key nums gs rule: group_update.induct) auto

lemma group_rows_length:
  "group_rows S stmt scan n ris gs = Some gs' \<Longrightarrow> list_all (\<lambda>(k, sts). length sts = length (se_columns stmt)) gs \<Longrightarrow>
   list_all (\<lambda>(k, sts). length sts = length (se_columns stmt)) gs'"
proof (induction S stmt scan n ris gs rule: group_rows.induct)
  case (2 S stmt scan n ri ris gs)
  then obtain key nums where "group_key S stmt scan n ri = Some key" and nums: "row_numbers S stmt scan n ri = Some nums"
    by (auto split: option.splits)
  moreover have "length nums = length (se_columns stmt)" using nums by (auto simp: row_numbers_def dest: those_length)
  ultimately show ?case using 2 group_update_length by auto
qed simp

lemma length_group_row: "length (group_row key pos cs) = length cs"
  by (induction key pos cs rule: group_row.induct) (auto split: AggFunc.split prod.split)

lemma aggregate_rows_length:
  assumes "aggregate_rows S stmt scan n = Some rows"
  shows "list_all (\<lambda>row. length row = length (se_columns stmt)) rows"
proof -
  obtain gs where gs: "group_rows S stmt scan n [0..<n] [] = Some gs"
    and rows: "rows = cut_limit (se_limit stmt) (skip_offset (se_offset stmt)
      (map (\<lambda>(key, sts). group_row key 0 (zip (se_columns stmt) sts)) gs))"
    using assms by (auto simp: aggregate_rows_def)
  have "list_all (\<lambda>(k, sts). length sts = length (se_columns stmt)) gs" using group_rows_length [OF gs] by simp
  then show ?thesis unfolding rows by (intro cut_all) (auto simp: list_all_iff length_group_row)
qed

lemma result_rows_length:
  assumes "result_rows S stmt t vs = Some (Inr rows)" "se_columns stmt \<noteq> [] \<or> \<not> is_aggregate stmt"
  shows "list_all (\<lambda>row. length row = length (qr_column_names (select_header S stmt))) rows"
proof (cases "is_aggregate stmt")
  case True
  then have "length (qr_column_names (select_header S stmt)) = length (se_columns stmt)" using assms(2) by (simp add: select_header_def)
  then show ?thesis
    using assms(1) True aggregate_rows_length by (auto simp: result_rows_def split: if_splits sum.splits)
next
  case False
  then show ?thesis
    using assms(1) plain_rows_length by (auto simp: result_rows_def split: if_splits sum.splits)
qed

lemma map_sum_Inr: "map_sum id f r = Inr y \<Longrightarrow> \<exists>x. r = Inr x \<and> y = f x"
  by (cases r) auto

lemma select_one_rectangular:
  assumes "select_one env stmt c db = Some (Inr q, db')" "se_columns stmt \<noteq> [] \<or> \<not> is_aggregate stmt"
  shows "rectangular q"
proof -
  obtain S t vs rows where r: "result_rows S stmt t vs = Some (Inr rows)" and q: "q = (select_header S stmt)\<lparr>qr_rows := rows\<rparr>"
    using assms(1) by (auto simp: select_one_def Let_def split: option.splits prod.splits sum.splits dest!: map_sum_Inr)
  from result_rows_length [OF r assms(2)] show ?thesis by (simp add: rectangular_def q)
qed

subsection \<open>\<open>JOIN\<close> and the other statements\<close>

lemma join_rows_length:
  assumes "join_rows env L R sl sr nl nr jl jr out = Some rows"
  shows "list_all (\<lambda>row. length row = length out) rows"
proof -
  define rows_of where "rows_of ks kl = those (map (\<lambda>kr. those (map (side_text L R sl sr nl nr kl kr) out)) ks)" for ks kl
  obtain f rss where rss: "those (map (\<lambda>kl. rows_of (f kl) kl) [0..<nl]) = Some rss" "rows = concat rss"
    using assms unfolding join_rows_def rows_of_def by (fastforce simp: bind_eq_Some_conv)
  have "list_all (list_all (\<lambda>row. length row = length out)) rss"
    by (rule those_all [OF rss(1)]) (auto simp: rows_of_def intro!: those_all dest: those_length)
  then show ?thesis by (auto simp: rss(2) list_all_iff)
qed

lemma join_rectangular: "execute_join env stmt j c db = Some (Inr q, db') \<Longrightarrow> rectangular q"
  by (auto simp: execute_join_def join_tables_def rectangular_def Let_def comp_def intro!: cut_all dest!: join_rows_length
      split: option.splits prod.splits sum.splits)

lemma one_row_rectangular: "rectangular (one_row name ct cell)" "rectangular qr_empty"
  by (simp_all add: rectangular_def one_row_def qr_empty_def)

lemma insert_rectangular: "execute_insert env stmt c db = Some (Inr q, db') \<Longrightarrow> rectangular q"
  by (auto simp: execute_insert_def Let_def one_row_rectangular split: option.splits sum.splits prod.splits if_splits)

lemma delete_rectangular: "execute_delete env stmt c db = Some (Inr q, db') \<Longrightarrow> rectangular q"
  by (auto simp: execute_delete_def Let_def one_row_rectangular split: option.splits sum.splits prod.splits if_splits)

lemma update_rectangular: "execute_update env stmt c db = Some (Inr q, db') \<Longrightarrow> rectangular q"
  by (auto simp: execute_update_def Let_def one_row_rectangular split: option.splits sum.splits prod.splits if_splits
      dest!: map_sum_Inr)

lemma definition_rectangular:
  "execute_create env cs db = (Inr q, db') \<Longrightarrow> rectangular q"
  "execute_create_index env ci db = Some (Inr q, db') \<Longrightarrow> rectangular q"
  "execute_vacuum env name db = Some (Inr q, db') \<Longrightarrow> rectangular q"
  "execute_config cf db = (Inr q, db') \<Longrightarrow> rectangular q"
  "execute_backup env db = Some (Inr q, fs, db') \<Longrightarrow> rectangular q"
  by (auto simp: execute_create_def execute_create_index_def execute_vacuum_def execute_config_def execute_backup_def Let_def
      one_row_rectangular split: option.splits sum.splits prod.splits if_splits BtResult.splits)

lemma transaction_rectangular:
  "execute_begin env c db = (Inr q, c', db') \<Longrightarrow> rectangular q"
  "execute_commit env c db = Some (Inr q, c', db') \<Longrightarrow> rectangular q"
  "execute_rollback env c db = Some (Inr q, c', db') \<Longrightarrow> rectangular q"
  by (auto simp: execute_begin_def execute_commit_def execute_rollback_def one_row_rectangular split: prod.splits if_splits)

lemmas rectangular_rules = insert_rectangular delete_rectangular update_rectangular definition_rectangular transaction_rectangular

text \<open>A statement whose rows have no fields although the result has columns.\<close>

definition bare_aggregate :: "Statement \<Rightarrow> bool" where
  "bare_aggregate stmt \<longleftrightarrow> (case stmt of
     SSelect s \<Rightarrow> se_join_clause s = None \<and> se_columns s = [] \<and> is_aggregate s | _ \<Rightarrow> False)"

lemma execute_rectangular:
  assumes "execute env stmt c db = Some (Inr q, c', db')" "\<not> bare_aggregate stmt"
  shows "rectangular q"
proof (cases stmt)
  case (SSelect s)
  with assms show ?thesis
    by (auto simp: execute_def Let_def execute_select_def bare_aggregate_def split: option.splits
        intro: join_rectangular select_one_rectangular)
qed (use assms rectangular_rules in \<open>auto simp: execute_def Let_def split: prod.splits\<close>)

end
