(* ===== verification/Db_Steps.thy ===== *)
theory Db_Steps
  imports Db_History State_Machine
begin

text \<open>
  Every step of a database keeps its invariant and the snapshots of the readers: all snapshots
  for what a transaction does before its end and for a rollback, and the snapshots up to the
  current time for a commit and for what is done outside transactions.
\<close>

text \<open>Replaying anything into a database without tables changes nothing.\<close>

lemma replay_nothing: "pass1 env rs [] cs = Some (ts, cs') \<Longrightarrow> ts = []" "pass2 cs rs [] = Some ts \<Longrightarrow> ts = []"
proof -
  show "pass1 env rs [] cs = Some (ts, cs') \<Longrightarrow> ts = []"
  proof (induction rs arbitrary: cs)
    case (Cons r rs)
    have "apply_full_page env p [] = Some []" for p by (simp add: apply_full_page_def Let_def)
    with Cons show ?case by (auto simp: Let_def split: if_splits)
  qed simp
  show "pass2 cs rs [] = Some ts \<Longrightarrow> ts = []"
  proof (induction rs)
    case (Cons r rs)
    have "replay_record cs r [] = Some []"
      by (simp add: replay_record_def replay_insert_def replay_insert_batch_def Let_def split: option.splits)
    with Cons show ?case by simp
  qed simp
qed

lemma opened_empty:
  assumes "db_open env target db_init = Some (kOk, db)"
  shows "db_tables db = [] \<and> db_timestamps db = ts_init \<and> db_next_tx_id db = 1 \<and> db_txns db = Map.empty"
proof -
  obtain rs1 rs2 cs ts3 where p: "pass1 (oe_page env) rs1 [] Map.empty = Some (ts3, cs)" "pass2 cs rs2 ts3 = Some (db_tables db)"
    and rest: "db_timestamps db = ts_init" "db_next_tx_id db = 1" "db_txns db = Map.empty"
    using assms by (auto simp: db_open_def db_init_def restore_timestamps_def Let_def split: option.splits prod.splits if_splits)
  then have "db_tables db = []" using replay_nothing by blast
  with rest show ?thesis by simp
qed

lemma opened_inv: "db_open env target db_init = Some (kOk, db) \<Longrightarrow> db_inv db"
  by (auto dest!: opened_empty simp: db_inv_def txns_inv_def marks_inv_def clock_inv_def ts_init_def kMaxTx_def kTxIdFlag_value)

lemma created_keeps:
  assumes "db_inv db" "create_table env fenv name S db = (r, db')" "map_of (db_files db) (raw_name name) = None"
    "length (db_tables db) + 1 < 2 ^ 32"
  shows "keeps M db db'"
proof -
  consider "same_state db db'" |
    t fs where "open_file env [] (table_init name S) = (kOk, t)" "db' = db\<lparr>db_tables := db_tables db @ [t], db_files := fs\<rparr>"
    using assms(2,3) by (auto simp: create_table_def Let_def split: if_splits prod.splits)
  then show ?thesis
  proof cases
    case 2
    have rep: "table_rep t []" using 2(1) by (rule created_rep)
    have vi: "tb_vindex t = vi_init" and p: "pending t = []"
      using 2(1) by (auto simp: open_file_def table_init_def pending_def split: if_splits prod.splits)
    have none: "table_versions t = {#}" by (simp add: table_versions_def vi p index_versions_def vi_init_def)
    have inv: "table_inv t" using rep vi by (auto simp: table_inv_def)
    have "write_set_ok (Suc n) ws" if "write_set_ok n ws" for n ws using that by (auto simp: write_set_ok_def)
    then have "txns_inv db'" using assms(1) by (auto simp: 2(2) db_inv_def txns_inv_def)
    moreover have "writes db' = writes db" by (simp add: 2(2) writes_def fun_eq_iff)
    ultimately have "db_inv db'"
      using assms(1,4) inv none by (auto simp: 2(2) db_inv_def marks_inv_def clock_inv_def nth_append less_Suc_eq)
    then show ?thesis by (simp add: keeps_def 2(2) snapshots_kept_def nth_append)
  qed (use assms(1) keeps_same in simp)
qed

text \<open>The tables at the end of a transaction.\<close>

lemma ended_kept:
  assumes "db_inv db" "db_txns db tx = Some x" "tx_state x = kActive" "c \<noteq> tx OR kTxIdFlag"
    and "commit_tables tx c (tx_write_set x) (db_tables db) = Some (db_tables db')"
    and "next_ts (db_timestamps db) \<le> next_ts (db_timestamps db')" "\<not> c < kTxIdFlag \<or> M < c"
  shows "snapshots_kept M db db'"
proof -
  have n: "length (db_tables db) < 2 ^ 32" using assms(1) by (simp add: db_inv_def)
  from commit_tables_versions [OF assms(1-4)] assms(5) have len: "length (db_tables db') = length (db_tables db)"
    and v: "\<And>tid :: TableId. unat tid < length (db_tables db) \<Longrightarrow>
      table_versions (db_tables db' ! unat tid) = image_mset (publish (tx OR kTxIdFlag) c) (table_versions (db_tables db ! unat tid))"
    by auto
  have "committed_upto m (table_versions (db_tables db' ! i)) = committed_upto m (table_versions (db_tables db ! i))"
    if "i < length (db_tables db)" "m \<le> M" for i m
    using v [of "word_of_nat i"] tid_index [OF that(1) n] that committed_upto_publish [of c m] assms(7) le_less_trans [OF that(2)]
    by simp
  then show ?thesis using assms(6) len by (simp add: snapshots_kept_def)
qed

lemma committed_keeps:
  assumes "db_inv db" "clock_room 1 db" "txn_commit env fenv tx db = Some (st, db')"
  shows "keeps (next_ts (db_timestamps db)) db db'"
proof -
  let ?a = "(db_timestamps db)\<lparr>next_ts := next_ts (db_timestamps db) + 1\<rparr>"
  have u: "unat (next_ts ?a) = unat (next_ts (db_timestamps db)) + 1"
    using assms(2) unat_word_of_nat64 [of "unat (next_ts (db_timestamps db)) + 1"] by (simp add: clock_room_def add.commute)
  note room = clock_room_word [OF assms(2) u]
  have "fst (snd v) \<le> next_ts ?a" if "t \<in> set (db_tables db)" "v \<in># table_versions t" "fst (snd v) < kTxIdFlag" for t v
    using that assms(1) order_trans [OF _ room(1), of "fst (snd v)"] by (simp add: db_inv_def clock_inv_def)
  then have ticked: "db_inv (db\<lparr>db_timestamps := ?a\<rparr>)"
    using assms(1) room(2) by (simp add: db_inv_def clock_inv_def txns_inv_def marks_inv_def writes_def)
  have c: "next_ts ?a < kTxIdFlag" using room(2) by (simp add: kMaxTx_def kTxIdFlag_value word_less_nat_alt)
  show ?thesis
  proof (cases "db_txns db tx")
    case (Some x)
    show ?thesis
    proof (cases "tx_state x = kActive")
      case True
      consider "same_state (db\<lparr>db_timestamps := ?a\<rparr>) db'" |
        ts l where "commit_tables tx (next_ts ?a) (tx_write_set x) (db_tables db) = Some ts"
          "db' = end_txn tx x kCommitted ((set_log l (db\<lparr>db_timestamps := ?a\<rparr>))\<lparr>db_tables := ts\<rparr>)"
        using assms(3) Some True by (auto simp: txn_commit_def allocate_ts_def Let_def split: prod.splits sum.splits)
      then show ?thesis
      proof cases
        case 1
        then show ?thesis using ticked room(1) db_inv_cong [of db' "db\<lparr>db_timestamps := ?a\<rparr>"]
          by (simp add: keeps_def snapshots_kept_same)
      next
        case 2
        have "db_inv db'"
          by (rule db_inv_end [OF assms(1) Some True, of kCommitted "next_ts ?a" ?a ts])
            (use 2 c room mark_ne(2) [OF c] in \<open>auto simp: end_txn_def\<close>)
        moreover have "next_ts (db_timestamps db) < next_ts ?a" using u by (simp add: word_less_nat_alt)
        then have "snapshots_kept (next_ts (db_timestamps db)) db db'"
          by (intro ended_kept [OF assms(1) Some True, of "next_ts ?a"])
            (use 2 room(1) mark_ne(2) [OF c] in \<open>simp_all add: end_txn_def\<close>)
        ultimately show ?thesis by (simp add: keeps_def)
      qed
    qed (use assms Some keeps_same in \<open>simp add: txn_commit_def\<close>)
  qed (use assms keeps_same in \<open>simp add: txn_commit_def\<close>)
qed

lemma rolled_back_keeps:
  assumes "db_inv db" "txn_rollback env tx db = Some (st, db')"
  shows "keeps M db db'"
proof (cases "db_txns db tx")
  case (Some x)
  show ?thesis
  proof (cases "tx_state x = kActive")
    case True
    consider "same_state db db'" |
      ts l where "commit_tables tx (-1) (tx_write_set x) (db_tables db) = Some ts"
        "db' = end_txn tx x kAborted ((set_log l db)\<lparr>db_tables := ts\<rparr>)"
      using assms(2) Some True by (auto simp: txn_rollback_def split: prod.splits sum.splits)
    then show ?thesis
    proof cases
      case 2
      have "next_ts (db_timestamps db) < kMaxTx" using assms(1) by (simp add: db_inv_def clock_inv_def)
      moreover have "\<not> (-1 :: u64) < kTxIdFlag" by (simp add: kTxIdFlag_value)
      moreover have "- 1 \<noteq> s OR kTxIdFlag" if "s < kMaxTx" for s using mark_ne(1) [OF that] by simp
      moreover have "tx < kMaxTx" using active_lt [OF assms(1) Some] .
      ultimately have "db_inv db'" "snapshots_kept M db db'"
        by (intro db_inv_end [OF assms(1) Some True, of kAborted "-1" "db_timestamps db" ts]
            ended_kept [OF assms(1) Some True, of "-1"]; use 2 in \<open>auto simp: end_txn_def\<close>)+
      then show ?thesis by (simp add: keeps_def)
    qed (use assms keeps_same in simp)
  qed (use assms Some keeps_same in \<open>simp add: txn_rollback_def\<close>)
qed (use assms keeps_same in \<open>simp add: txn_rollback_def\<close>)

text \<open>The writing operations.\<close>

lemma keeps_txn_write:
  assumes "db_inv db" "unat tid < length (db_tables db)" "table_inv t" "db_txns db tx = Some x" "tx_state x = kActive"
    and "table_versions t = table_versions (db_tables db ! unat tid) + mset (map (\<lambda>r. (r, tx OR kTxIdFlag, d)) rids)"
  shows "keeps M db (log_writes tx tid rids (set_table tid t (set_log l db)))"
proof -
  have "snapshots_kept M db (log_writes tx tid rids (set_table tid t (set_log l db)))"
    by (rule snapshots_kept_write [OF _ _ assms(6)]) (use flag_or [of tx] in auto)
  then show ?thesis using db_inv_txn_write [of "set_log l db" tid t tx x d rids] assms by (simp add: keeps_def)
qed

lemma keeps_auto_write:
  assumes "db_inv db" "unat tid < length (db_tables db)" "table_inv t"
    and "table_versions t = table_versions (db_tables db ! unat tid) + W"
    and "\<And>v. v \<in># W \<Longrightarrow> next_ts (db_timestamps db) < fst (snd v) \<and> fst (snd v) \<le> next_ts a"
    and "next_ts (db_timestamps db) \<le> next_ts a" "next_ts a < kMaxTx"
  shows "keeps (next_ts (db_timestamps db)) db ((set_table tid t (set_log l db))\<lparr>db_timestamps := a\<rparr>)"
proof -
  have "snapshots_kept (next_ts (db_timestamps db)) db ((set_table tid t (set_log l db))\<lparr>db_timestamps := a\<rparr>)"
    by (rule snapshots_kept_write [OF _ _ assms(4)]) (use assms in simp_all)
  then show ?thesis using db_inv_auto_write [of "set_log l db" tid t W a] assms by (simp add: keeps_def)
qed

lemma row_keeps:
  assumes "db_inv db" "\<forall>tx. c = Some tx \<longrightarrow> active_txn db tx" "clock_room 1 db"
    and "carries (tb_schema (db_tables db ! unat tid)) columns r" "tb_row_count (db_tables db ! unat tid) + 1 < 2 ^ 64"
    and "db_insert env tid columns c db = Some (res, db')"
  shows "keeps (if c = None then next_ts (db_timestamps db) else M) db db'"
proof -
  let ?t = "db_tables db ! unat tid"
  consider "same_state db db'" |
    l lsn where "unat tid < length (db_tables db)"
      "(case c of Some tx \<Rightarrow> map_option (\<lambda>(r, t'). (r, (case r of Inl e \<Rightarrow> id | Inr rid \<Rightarrow> log_writes tx tid [rid])
            (set_table tid t' (set_log l db)))) (insert_row (tx OR kTxIdFlag) columns (?t\<lparr>tb_lsn := lsn\<rparr>))
        | None \<Rightarrow> map_option (\<lambda>(r, t', a). (r, (set_table tid t' (set_log l db))\<lparr>db_timestamps := a\<rparr>))
            (insert_row_alloc (db_timestamps (set_log l db)) columns (?t\<lparr>tb_lsn := lsn\<rparr>))) = Some (res, db')"
    using assms(6) by (auto simp: db_insert_def Let_def not_le split: if_splits prod.splits sum.splits)
  then show ?thesis
  proof cases
    case 2
    let ?db = "set_log l db"
    have inv: "table_inv ?t" using assms(1) 2(1) by (simp add: db_inv_def)
    note row = table_inv_row [OF inv assms(4,5)]
    show ?thesis
    proof (cases c)
      case None
      then obtain t' a where t': "insert_row_with allocate_ts columns (?t\<lparr>tb_lsn := lsn\<rparr>) (db_timestamps db) = Some (res, t', a)"
          "db' = (set_table tid t' ?db)\<lparr>db_timestamps := a\<rparr>"
        using 2(2) by (auto simp: insert_row_alloc_def)
      from row [OF t'(1)] obtain rid where v: "table_inv t'" "a = snd (allocate_ts (db_timestamps db))"
          "table_versions t' = table_versions ?t + {#(rid, fst (allocate_ts (db_timestamps db)), False)#}" by auto
      have a: "next_ts a = next_ts (db_timestamps db) + 1" "fst (allocate_ts (db_timestamps db)) = next_ts a"
        by (simp_all add: v(2) allocate_ts_def)
      have "unat (next_ts a) = unat (next_ts (db_timestamps db)) + 1"
        using draw_alloc [of "db_timestamps db" 1] assms(3) by (simp add: v(2) clock_room_def split_beta)
      note room = clock_room_word [OF assms(3) this]
      have lt: "next_ts (db_timestamps db) < next_ts a" using \<open>unat (next_ts a) = _\<close> by (simp add: word_less_nat_alt)
      have "keeps (next_ts (db_timestamps db)) db db'" unfolding t'(2)
        by (rule keeps_auto_write [OF assms(1) 2(1) v(1,3)]) (use a room lt in auto)
      then show ?thesis using None by simp
    next
      case (Some tx)
      then obtain t' a where t': "insert_row_with (fixed_ts (tx OR kTxIdFlag)) columns (?t\<lparr>tb_lsn := lsn\<rparr>) ts_init = Some (res, t', a)"
          "db' = (case res of Inl e \<Rightarrow> id | Inr rid \<Rightarrow> log_writes tx tid [rid]) (set_table tid t' ?db)"
        using 2(2) by (auto simp: insert_row_def)
      from row [OF t'(1)] obtain rid where v: "res = Inr rid" "table_inv t'"
          "table_versions t' = add_mset (rid, tx OR kTxIdFlag, False) (table_versions ?t)" by (auto simp: fixed_ts_def)
      obtain x where x: "db_txns db tx = Some x" "tx_state x = kActive" using assms(2) Some by blast
      show ?thesis unfolding t'(2) v(1)
        using keeps_txn_write [OF assms(1) 2(1) v(2) x, of False "[rid]"] v(3) Some by simp
    qed
  qed (use assms(1) keeps_same in simp)
qed

lemma batch_keeps:
  assumes "db_inv db" "\<forall>tx. c = Some tx \<longrightarrow> active_txn db tx" "clock_room (length rows) db"
    and "list_all2 (carries (tb_schema (db_tables db ! unat tid))) rows new"
    and "tb_row_count (db_tables db ! unat tid) + length rows < 2 ^ 64"
    and "db_insert_batch env tid rows c db = Some (res, db')"
  shows "keeps (if c = None then next_ts (db_timestamps db) else M) db db'"
proof -
  let ?t = "db_tables db ! unat tid" and ?n = "length rows"
  consider "same_state db db'" |
    l lsn where "unat tid < length (db_tables db)"
      "(case c of Some tx \<Rightarrow> map_option (\<lambda>(r, t'). (r, (case r of Inl e \<Rightarrow> id | Inr rids \<Rightarrow> log_writes tx tid rids)
            (set_table tid t' (set_log l db)))) (insert_rows (tx OR kTxIdFlag) rows (?t\<lparr>tb_lsn := lsn\<rparr>))
        | None \<Rightarrow> map_option (\<lambda>(r, t', a). (r, (set_table tid t' (set_log l db))\<lparr>db_timestamps := a\<rparr>))
            (insert_rows_alloc (db_timestamps (set_log l db)) rows (?t\<lparr>tb_lsn := lsn\<rparr>))) = Some (res, db')"
    using assms(6) by (auto simp: db_insert_batch_def Let_def not_le split: if_splits prod.splits sum.splits)
  then show ?thesis
  proof cases
    case 2
    let ?db = "set_log l db"
    have inv: "table_inv ?t" using assms(1) 2(1) by (simp add: db_inv_def)
    note batch = table_inv_rows [OF inv assms(4,5)]
    show ?thesis
    proof (cases c)
      case None
      then obtain t' a where t': "insert_rows_with allocate_ts rows (?t\<lparr>tb_lsn := lsn\<rparr>) (db_timestamps db) = Some (res, t', a)"
          "db' = (set_table tid t' ?db)\<lparr>db_timestamps := a\<rparr>"
        using 2(2) by (auto simp: insert_rows_alloc_def)
      from batch [OF t'(1)] obtain rids where v: "table_inv t'" "a = snd (draw allocate_ts ?n (db_timestamps db))"
          "table_versions t' = table_versions ?t + mset (live_versions rids (fst (draw allocate_ts ?n (db_timestamps db))))"
        by auto
      have d: "unat (next_ts a) = unat (next_ts (db_timestamps db)) + ?n"
        "\<forall>ts \<in> set (fst (draw allocate_ts ?n (db_timestamps db))). next_ts (db_timestamps db) < ts \<and> ts \<le> next_ts a"
        using draw_alloc [of "db_timestamps db" ?n] assms(3) by (simp_all add: v(2) clock_room_def)
      have "next_ts (db_timestamps db) < fst (snd v) \<and> fst (snd v) \<le> next_ts a" if "v \<in># mset (live_versions rids (fst (draw allocate_ts ?n (db_timestamps db))))" for v
        using that d(2) by (auto dest: set_zip_rightD)
      note W = this and room = clock_room_word [OF assms(3) d(1)]
      have "keeps (next_ts (db_timestamps db)) db db'" unfolding t'(2)
        by (rule keeps_auto_write [OF assms(1) 2(1) v(1,3) W room])
      then show ?thesis using None by simp
    next
      case (Some tx)
      then obtain t' a where t': "insert_rows_with (fixed_ts (tx OR kTxIdFlag)) rows (?t\<lparr>tb_lsn := lsn\<rparr>) ts_init = Some (res, t', a)"
          "db' = (case res of Inl e \<Rightarrow> id | Inr rids \<Rightarrow> log_writes tx tid rids) (set_table tid t' ?db)"
        using 2(2) by (auto simp: insert_rows_def)
      from batch [OF t'(1)] obtain rids where v: "res = Inr rids" "table_inv t'"
          "table_versions t' = table_versions ?t + mset (map (\<lambda>r. (r, tx OR kTxIdFlag, False)) rids)"
        by (auto simp: live_versions_same simp del: mset_map)
      obtain x where x: "db_txns db tx = Some x" "tx_state x = kActive" using assms(2) Some by blast
      show ?thesis unfolding t'(2) v(1)
        using keeps_txn_write [OF assms(1) 2(1) v(2) x v(3)] Some by simp
    qed
  qed (use assms(1) keeps_same in simp)
qed

lemma deleted_keeps:
  assumes "db_inv db" "\<forall>tx. c = Some tx \<longrightarrow> active_txn db tx" "clock_room 1 db"
    and "db_delete_rows env tid rids c db = (st, db')"
  shows "keeps (if c = None then next_ts (db_timestamps db) else M) db db'"
proof -
  let ?t = "db_tables db ! unat tid" and ?a = "snd (allocate_ts (db_timestamps db))"
  let ?put = "\<lambda>s lsn. insert_version_entries (tombstones s rids) (?t\<lparr>tb_lsn := lsn\<rparr>)"
  consider "same_state db db'" |
    l lsn where "unat tid < length (db_tables db)"
      "case c of Some tx \<Rightarrow> db' = log_writes tx tid rids (set_table tid (?put (tx OR kTxIdFlag) lsn) (set_log l db))
        | None \<Rightarrow> db' = (set_table tid (?put (fst (allocate_ts (db_timestamps db))) lsn) (set_log l db))\<lparr>db_timestamps := ?a\<rparr>"
    using assms(4) by (auto simp: db_delete_rows_def Let_def not_le split: if_splits prod.splits sum.splits option.splits)
  then show ?thesis
  proof cases
    case 2
    let ?db = "set_log l db"
    have inv: "table_inv ?t" using assms(1) 2(1) by (simp add: db_inv_def)
    note v = tombstone_versions [OF inv, of _ rids lsn]
    show ?thesis
    proof (cases c)
      case None
      have ts: "fst (allocate_ts (db_timestamps db)) = next_ts ?a" by (simp add: allocate_ts_def)
      have "unat (next_ts ?a) = unat (next_ts (db_timestamps db)) + 1"
        using draw_alloc [of "db_timestamps db" 1] assms(3) by (simp add: clock_room_def split_beta)
      note room = clock_room_word [OF assms(3) this]
      have lt: "next_ts (db_timestamps db) < next_ts ?a" using \<open>unat (next_ts ?a) = _\<close> by (simp add: word_less_nat_alt)
      have db': "db' = (set_table tid (?put (next_ts ?a) lsn) ?db)\<lparr>db_timestamps := ?a\<rparr>" using 2(2) None by (simp add: ts)
      have "keeps (next_ts (db_timestamps db)) db db'" unfolding db'
        by (rule keeps_auto_write [OF assms(1) 2(1) v]) (use room lt in auto)
      then show ?thesis using None by simp
    next
      case (Some tx)
      obtain x where x: "db_txns db tx = Some x" "tx_state x = kActive" using assms(2) Some by blast
      show ?thesis
        using keeps_txn_write [OF assms(1) 2(1) v(1) x v(2)] 2(2) Some by simp
    qed
  qed (use assms(1) keeps_same in simp)
qed

lemma flush_keeps_table:
  assumes "table_inv t" "list_all os_ok envs" "list_all (batch_small (tb_schema t)) (pending t)"
    and "flush_pending envs t = (st, t')" "length (mf_disk (tb_file t')) < 2 ^ 64"
  shows "table_inv t'" "table_versions t' = table_versions t"
proof -
  obtain rows where rows: "table_rep t rows" "length rows < 2 ^ 64" using assms(1) by (auto simp: table_inv_def)
  have rep: "table_rep t' rows" using flush_pending_rep [OF rows(1) assms(2,3)] assms(4) by auto
  have v: "table_versions t' = table_versions t" "vi_inv (tb_vindex t')"
    using flush_pending_versions [OF table_inv_facts(4) [OF assms(1)] assms(2,4) table_inv_facts(1) [OF assms(1)] assms(5)]
      table_inv_facts(3) [OF assms(1)] by auto
  with rep rows(2) show "table_inv t'" unfolding table_inv_def by blast
  show "table_versions t' = table_versions t" by (rule v(1))
qed

lemma flushed_keeps:
  assumes "db_inv db" "unat tid < length (db_tables db)" "list_all os_ok envs"
    and "list_all (batch_small (tb_schema (db_tables db ! unat tid))) (pending (db_tables db ! unat tid))"
    and "flush_pending envs (db_tables db ! unat tid) = (st, t')" "length (mf_disk (tb_file t')) < 2 ^ 64"
  shows "keeps M db (set_table tid t' db)"
proof -
  have inv: "table_inv (db_tables db ! unat tid)" using assms(1,2) by (simp add: db_inv_def)
  note v = flush_keeps_table [OF inv assms(3-6)]
  then have "db_inv (set_table tid t' db)" by (intro db_inv_fewer [OF assms(1,2)]) simp_all
  moreover have "snapshots_kept M db (set_table tid t' db)" by (rule snapshots_kept_write [of _ _ tid t' "{#}"]) (simp_all add: v(2))
  ultimately show ?thesis by (simp add: keeps_def)
qed

lemma begun_keeps:
  assumes "db_inv db" "txn_begin env db = (c, db')" "db_next_tx_id db + 1 < kMaxTx"
  shows "keeps M db db'"
proof -
  have "db_tables db' = db_tables db" "db_timestamps db' = db_timestamps db"
    using assms(2) by (auto simp: txn_begin_def Let_def split: prod.splits sum.splits)
  then show ?thesis using db_inv_begin [OF assms] by (simp add: keeps_def snapshots_kept_same)
qed

text \<open>A checkpoint, alone or for a backup, flushes tables and saves their indexes.\<close>

lemma put_vindex_keeps:
  assumes "put_vindex fenv t fs = (t', fs')" "table_inv t"
  shows "table_inv t'" "table_versions t' = table_versions t" "tb_file t' = tb_file t"
proof -
  have t': "t' = t\<lparr>tb_vindex := ensure_sorted (tb_vindex t)\<rparr>"
    using assms(1) by (auto simp: put_vindex_def save_vindex_def vi_serialize_def Let_def split: if_splits prod.splits)
  obtain rows where rows: "table_rep t rows" "length rows < 2 ^ 64" "vi_inv (tb_vindex t)" using assms(2) by (auto simp: table_inv_def)
  have "vi_inv (ensure_sorted (tb_vindex t))" using ensure_sorted_inv [OF rows(3)] by (simp add: vi_inv_def)
  with vindex_rep [OF rows(1)] rows(2) show "table_inv t'" unfolding t' table_inv_def by (intro conjI exI) simp_all
  show "table_versions t' = table_versions t" by (simp add: t' table_versions_def index_versions_def pending_def)
  show "tb_file t' = tb_file t" by (simp add: t')
qed

lemma checkpoint_tables_keep:
  assumes "checkpoint_tables io i ts fs = (s, ts', fs')" "\<forall>i. list_all os_ok (io_flush (io i))"
    and "\<forall>t \<in> set ts. table_inv t \<and> list_all (batch_small (tb_schema t)) (pending t)"
    and "\<forall>t \<in> set ts'. length (mf_disk (tb_file t)) < 2 ^ 64"
  shows "list_all2 (\<lambda>t t'. table_inv t' \<and> table_versions t' = table_versions t) ts ts'"
  using assms
proof (induction io i ts fs arbitrary: s ts' fs' rule: checkpoint_tables.induct)
  case (2 io i t ts fs)
  obtain s1 t1 where f: "flush_pending (io_flush (io i)) t = (s1, t1)" by fastforce
  show ?case
  proof (cases "s1 = kOk")
    case False
    then have "ts' = t1 # ts" using "2.prems"(1) f by simp
    then show ?thesis using flush_keeps_table [OF _ _ _ f] "2.prems"(2-4) by (auto simp: list_all2_same)
  next
    case True
    obtain t2 fs1 where p: "put_vindex (io_vindex (io i)) t1 fs = (t2, fs1)" by fastforce
    obtain ts1 where r: "checkpoint_tables io (Suc i) ts fs1 = (s, ts1, fs')" "ts' = t2 # ts1"
      using "2.prems"(1) f True p by (auto split: prod.splits)
    have vi: "tb_file t2 = tb_file t1"
      using p by (auto simp: put_vindex_def save_vindex_def vi_serialize_def Let_def split: if_splits prod.splits)
    have t1: "table_inv t1" "table_versions t1 = table_versions t"
      using flush_keeps_table [OF _ _ _ f] "2.prems"(2-4) r(2) vi by auto
    have "list_all2 (\<lambda>t t'. table_inv t' \<and> table_versions t' = table_versions t) ts ts1"
      using "2.IH" [OF f [symmetric] _ p [symmetric]] True "2.prems"(2-4) r by simp
    then show ?thesis using put_vindex_keeps [OF p t1(1)] t1(2) r(2) by simp
  qed
qed simp

text \<open>The tables keep their versions or lose some, and the clock may run on.\<close>

lemma db_inv_tables:
  assumes "db_inv db" "list_all2 (\<lambda>t t'. table_inv t' \<and> table_versions t' \<subseteq># table_versions t) (db_tables db) (db_tables db')"
    and "db_txns db' = db_txns db" "db_next_tx_id db' = db_next_tx_id db"
    and "next_ts (db_timestamps db) \<le> next_ts (db_timestamps db')" "next_ts (db_timestamps db') < kMaxTx"
  shows "db_inv db'"
proof -
  have l: "length (db_tables db') = length (db_tables db)" using assms(2) by (simp add: list_all2_lengthD)
  have n: "i < length (db_tables db) \<Longrightarrow> table_inv (db_tables db' ! i) \<and> table_versions (db_tables db' ! i) \<subseteq># table_versions (db_tables db ! i)" for i
    using assms(2) by (simp add: list_all2_conv_all_nth)
  have w: "writes db' tx i = writes db tx i" for tx i by (simp add: writes_def assms(3))
  have "\<forall>t \<in> set (db_tables db'). table_inv t" using n by (simp add: all_set_conv_all_nth l)
  moreover have "txns_inv db'" using assms(1) by (simp add: db_inv_def txns_inv_def assms(3,4) l)
  moreover have "marks_inv db'" unfolding marks_inv_def w l
    using marks_invD [OF assms(1)] marked_le n by (meson order_trans)
  moreover have "clock_inv db'" unfolding clock_inv_def all_set_conv_all_nth l
    using clock_invD [OF assms(1)] n assms(5,6) by (meson mset_subset_eqD order_trans)
  ultimately show ?thesis using assms(1) by (simp add: db_inv_def l)
qed

lemma same_versions_keep:
  assumes "db_inv db" "list_all2 (\<lambda>t t'. table_inv t' \<and> table_versions t' = table_versions t) (db_tables db) (db_tables db')"
    and "db_txns db' = db_txns db" "db_next_tx_id db' = db_next_tx_id db" "db_timestamps db' = db_timestamps db"
  shows "keeps M db db'"
proof -
  have "list_all2 (\<lambda>t t'. table_inv t' \<and> table_versions t' \<subseteq># table_versions t) (db_tables db) (db_tables db')"
    using assms(2) by (rule list_all2_mono) simp
  moreover have "next_ts (db_timestamps db) < kMaxTx" using assms(1) by (simp add: db_inv_def clock_inv_def)
  ultimately have "db_inv db'" by (intro db_inv_tables [OF assms(1)]) (simp_all add: assms(3-5))
  then show ?thesis using assms(2) by (simp add: keeps_def snapshots_kept_def assms(5) list_all2_conv_all_nth)
qed

lemma checkpoint_keeps:
  assumes "db_inv db" "checkpoint_room io db db1" "checkpoint io fenv db = Some (s, db1)"
  shows "keeps M db db1"
proof -
  obtain s1 ts fs where c: "checkpoint_tables io 0 (db_tables db) (db_files db) = (s1, ts, fs)" by (metis prod_cases3)
  have d: "db_tables db1 = ts" "db_txns db1 = db_txns db" "db_next_tx_id db1 = db_next_tx_id db" "db_timestamps db1 = db_timestamps db"
    using assms(3) c by (auto simp: checkpoint_def Let_def split: if_splits prod.splits)
  then have "list_all2 (\<lambda>t t'. table_inv t' \<and> table_versions t' = table_versions t) (db_tables db) (db_tables db1)"
    using checkpoint_tables_keep [OF c] assms(1,2) by (simp add: checkpoint_room_def db_inv_def)
  with assms(1) d show ?thesis by (intro same_versions_keep) simp_all
qed

lemma checkpointer_keeps:
  assumes "db_inv db" "checkpoint_room io db db'" "checkpointer_turn th io fenv db = Some (goes, db')"
  shows "keeps M db db'"
  using assms keeps_same [OF assms(1)] by (auto simp: checkpointer_turn_def intro: checkpoint_keeps split: if_splits)

lemma backup_keeps:
  assumes "db_inv db" "checkpoint_room io db db'" "start_backup benv io fenv dest db = Some (s, files, db')"
  shows "keeps M db db'"
proof (cases "be_dir benv")
  case True
  then obtain s1 db1 where c: "checkpoint io fenv db = Some (s1, db1)" using assms(3) by (auto simp: start_backup_def split: option.splits)
  have "db' = db1 \<or> db' = db1\<lparr>db_logged_pages := []\<rparr>"
    using assms(3) c True by (auto simp: start_backup_def Let_def split: if_splits option.splits)
  then have d: "db_tables db' = db_tables db1" "db_txns db' = db_txns db1" "db_next_tx_id db' = db_next_tx_id db1"
    "db_timestamps db' = db_timestamps db1" by auto
  have "keeps M db db1" using assms(2) d(1) by (intro checkpoint_keeps [OF assms(1) _ c]) (simp add: checkpoint_room_def)
  then show ?thesis using d
    by (simp add: keeps_def db_inv_def txns_inv_def marks_inv_def clock_inv_def snapshots_kept_def writes_def)
qed (use assms keeps_same [OF assms(1)] in \<open>simp add: start_backup_def\<close>)

lemma auto_backup_keeps:
  assumes "db_inv db" "checkpoint_room io db db'"
    and "auto_backup_turn th benv io fenv now_ms later_ms removable (db, dir) = Some (goes, db', dir')"
  shows "keeps M db db'"
proof (cases "db' = db")
  case False
  then obtain s files where "start_backup benv io fenv (dir_files (backup_name now_ms) dir) db = Some (s, files, db')"
    using assms(3) by (auto simp: auto_backup_turn_def Let_def split: if_splits option.splits)
  with assms(1,2) show ?thesis by (rule backup_keeps)
qed (use keeps_same [OF assms(1)] in simp)

text \<open>A turn of the garbage collector.\<close>

lemma prune_loop_tables:
  assumes "\<forall>i. list_all os_ok (envs i)" "\<forall>t \<in> set ts. table_inv t \<and> list_all (batch_small (tb_schema t)) (pending t)"
    and "\<forall>t \<in> set (prune_tables_loop cutoff budget envs i ts). length (mf_disk (tb_file t)) < 2 ^ 64"
  shows "list_all2 (\<lambda>t t'. table_inv t' \<and> table_versions t' \<subseteq># table_versions t) ts (prune_tables_loop cutoff budget envs i ts)"
  using assms
proof (induction cutoff budget envs i ts rule: prune_tables_loop.induct)
  case (2 cutoff budget envs i t ts)
  show ?case
  proof (cases "version_index_size t = 0")
    case True
    then show ?thesis using 2 by simp
  next
    case False
    obtain s t1 where f: "flush_pending (envs i) t = (s, t1)" by fastforce
    obtain n t2 where p: "prune_version_index cutoff t1 = (n, t2)" by fastforce
    then have "tb_file t2 = tb_file t1" by (auto simp: prune_version_index_def split: prod.splits)
    then have "length (mf_disk (tb_file t1)) < 2 ^ 64" using "2.prems"(3) False f p by (simp add: Let_def split: if_splits)
    then have t1: "table_inv t1" "table_versions t1 = table_versions t" using flush_keeps_table [OF _ _ _ f] "2.prems"(1,2) by auto
    have t2: "table_inv t2" "table_versions t2 \<subseteq># table_versions t" using prune_versions [OF t1(1) p] t1(2) by auto
    show ?thesis
    proof (cases "budget \<le> n * kIndexEntrySize")
      case True
      then show ?thesis using False f p t2 "2.prems"(2) by (auto simp: Let_def list_all2_same)
    next
      case small: False
      then show ?thesis using "2.IH"(2) [OF False _ p [symmetric] refl refl] False f p t2 "2.prems" by (simp add: Let_def)
    qed
  qed
qed simp

lemma collected_inv:
  assumes "db_inv db" "collection_room envs db db'" "gc_turn th now envs (lt, db) = (goes, lt', db')"
  shows "db_inv db'"
proof (cases "db' = db")
  case False
  let ?a = "snd (allocate_ts (db_timestamps db))"
  obtain cutoff where d: "db' = db\<lparr>db_timestamps := ?a, db_tables := (if cutoff = 0 then db_tables db
      else prune_tables_loop cutoff kGcMaxBytesPerSec envs 0 (db_tables db))\<rparr>"
  proof -
    obtain cutoff where "compute_cutoff (db_watermarks db) (db_timestamps db) = (cutoff, ?a)"
      by (simp add: compute_cutoff_def split_beta Let_def)
    with assms(3) False show thesis
      by (intro that [of cutoff]) (auto simp: gc_turn_def gc_pass_def prune_tables_def split: if_splits)
  qed
  have room: "next_ts (db_timestamps db) \<le> next_ts ?a" "next_ts ?a < kMaxTx"
    using draw_alloc [of "db_timestamps db" 1] assms(2) clock_room_word [of 1 db ?a]
    by (simp_all add: collection_room_def clock_room_def split_beta)
  have "list_all2 (\<lambda>t t'. table_inv t' \<and> table_versions t' \<subseteq># table_versions t) (db_tables db) (db_tables db')"
  proof (cases "cutoff = 0")
    case True
    then show ?thesis using assms(1) by (simp add: d list_all2_same db_inv_def)
  next
    case False
    then have "db_tables db' = prune_tables_loop cutoff kGcMaxBytesPerSec envs 0 (db_tables db)" by (simp add: d)
    with prune_loop_tables [of envs "db_tables db"] assms(1,2) show ?thesis by (simp add: collection_room_def db_inv_def)
  qed
  then show ?thesis using room by (intro db_inv_tables [OF assms(1)]) (simp_all add: d)
qed (use assms(1) in simp)

lemma step_keeps:
  assumes "db_inv db" "db_step db db'"
  shows "keeps (next_ts (db_timestamps db)) db db'"
  using assms(2,1)
proof (induction rule: db_step.induct)
  case (row c db tid columns r env res db')
  from row_keeps [OF this(6,1-5), of "next_ts (db_timestamps db)"] show ?case by (simp only: if_cancel)
next
  case (batch c db rows tid new env res db')
  from batch_keeps [OF this(6,1-5), of "next_ts (db_timestamps db)"] show ?case by (simp only: if_cancel)
next
  case (deleted c db env tid rids st db')
  from deleted_keeps [OF this(4,1-3), of "next_ts (db_timestamps db)"] show ?case by (simp only: if_cancel)
qed (blast intro: created_keeps begun_keeps committed_keeps rolled_back_keeps flushed_keeps checkpointer_keeps auto_backup_keeps)+

lemma history_inv: "db_history db \<Longrightarrow> db_inv db"
proof (induction rule: db_history.induct)
  case (stepped db db')
  then show ?case using step_keeps by (simp add: keeps_def)
next
  case (collected db envs db' th now lt goes lt')
  then show ?case using collected_inv by blast
qed (rule opened_inv)

text \<open>
  The database as a machine: from any moment on, every sequence of steps keeps the snapshots up to
  \<open>M\<close>, if they were possible at that moment.
\<close>

interpretation db: keeping_machine db_step "\<lambda>db. db_inv db \<and> M \<le> next_ts (db_timestamps db)" "snapshots_kept M" for M
proof unfold_locales
  fix db db' assume inv: "db_inv db \<and> M \<le> next_ts (db_timestamps db)" and step: "db_step db db'"
  then have k: "db_inv db'" "snapshots_kept (next_ts (db_timestamps db)) db db'"
    using step_keeps by (auto simp: keeps_def)
  then show "snapshots_kept M db db'" using inv snapshots_kept_mono by blast
  show "db_inv db' \<and> M \<le> next_ts (db_timestamps db')" using k inv by (auto simp: snapshots_kept_def)
qed (auto intro: snapshots_kept_trans simp: snapshots_kept_same)

lemma steps_keep:
  assumes "db_step\<^sup>*\<^sup>* db db'" "db_inv db"
  shows "keeps (next_ts (db_timestamps db)) db db'"
  using db.run_inv [OF assms(1), of "next_ts (db_timestamps db)"] db.run_kept [OF assms(1), of "next_ts (db_timestamps db)"] assms(2)
  by (simp add: keeps_def)

end
