(* ===== verification/Db_Snapshots.thy ===== *)
theory Db_Snapshots
  imports Db_Steps Wal_Log
begin

text \<open>
  What transactions promise to readers: versions that are not committed belong to active
  transactions, commits and rollbacks are all-or-nothing, and a snapshot never changes. The
  sample database at the beginning has one table and a transaction that has inserted a row.
\<close>

section \<open>A sample database\<close>

text \<open>A write to a log whose stream is in order, which the system does not refuse.\<close>

abbreviation ww_ready :: "WalWriter \<Rightarrow> bool" where
  "ww_ready w \<equiv> ww_file w \<noteq> None \<and> ww_good w"

lemma append_record_ok:
  assumes "env_fail env = None" "env_open_ok env" "ww_ready w"
  shows "\<exists>w' d'. append_record env tx ty payload w d = (Inr (ww_next_lsn w), w', d') \<and> ww_ready w'"
  using assms by (auto simp: append_record_def rotate_if_needed_def Let_def split: option.splits)

lemma demo_append: "ww_ready w \<Longrightarrow>
  \<exists>w' d'. append_record demo_env tx ty payload w d = (Inr (ww_next_lsn w), w', d') \<and> ww_ready w'"
  by (rule append_record_ok) (simp_all add: demo_env_def)

definition sample_open :: OpenEnv where
  "sample_open = \<lparr>oe_read = (\<lambda>_. True), oe_raw = (\<lambda>_. os_fine), oe_cut = (\<lambda>_. os_fine), oe_index = (\<lambda>_. os_fine),
     oe_page = os_fine, oe_wal = demo_env\<rparr>"

definition sample_opened :: Database where "sample_opened = snd (the (db_open sample_open None db_init))"

definition sample_created :: Database where
  "sample_created = snd (create_table os_fine fe_fine ''t'' sample_schema sample_opened)"

definition sample_begun :: Database where "sample_begun = snd (txn_begin demo_env sample_created)"

definition sample_written :: Database where
  "sample_written = snd (the (db_insert demo_env 0 sample_columns (Some 1) sample_begun))"

lemma sample_opened_facts:
  "db_open sample_open None db_init = Some (kOk, sample_opened)" "db_files sample_opened = []"
  "db_is_open sample_opened" "db_tables sample_opened = []" "db_timestamps sample_opened = ts_init"
  "db_next_tx_id sample_opened = 1" "db_txns sample_opened = Map.empty" "ww_ready (db_wal sample_opened)"
proof -
  have "map_option fst (db_open sample_open None db_init) = Some kOk" by code_simp
  then show "db_open sample_open None db_init = Some (kOk, sample_opened)" unfolding sample_opened_def by auto
  then show "db_tables sample_opened = []" "db_timestamps sample_opened = ts_init" "db_next_tx_id sample_opened = 1"
    "db_txns sample_opened = Map.empty" by (simp_all add: opened_empty)
  show "db_files sample_opened = []" "db_is_open sample_opened" "ww_ready (db_wal sample_opened)" by code_simp+
qed

lemma sample_created_facts:
  "db_history sample_created" "db_tables sample_created = [sample_empty]" "db_timestamps sample_created = ts_init"
  "db_next_tx_id sample_created = 1" "db_txns sample_created = Map.empty" "ww_ready (db_wal sample_created)"
proof -
  obtain f where f: "open_file os_fine [] (table_init ''t'' sample_schema) =
      (kOk, (table_init ''t'' sample_schema)\<lparr>tb_file := f, tb_file_open := True\<rparr>)"
    using open_file_fresh [of os_fine "[]"] by (auto simp: os_fine_def os_ok_def)
  obtain r where "create_table os_fine fe_fine ''t'' sample_schema sample_opened = (r, sample_created)"
    unfolding sample_created_def by (metis surjective_pairing)
  then have "db_step sample_opened sample_created" using sample_opened_facts by (intro db_step.created) simp_all
  with sample_opened_facts(1) show "db_history sample_created" by (blast intro: db_history.intros)
  show "db_tables sample_created = [sample_empty]" "db_timestamps sample_created = ts_init"
    "db_next_tx_id sample_created = 1" "db_txns sample_created = Map.empty" "ww_ready (db_wal sample_created)"
    using f sample_opened_facts
    by (simp_all add: sample_created_def create_table_def sample_empty_def write_file_def fe_fine_def Let_def)
qed

lemma sample_begun_facts:
  "db_history sample_begun" "db_tables sample_begun = [sample_empty]" "db_timestamps sample_begun = ts_init"
  "db_next_tx_id sample_begun = 2" "ww_ready (db_wal sample_begun)"
  "\<exists>x. db_txns sample_begun 1 = Some x \<and> tx_state x = kActive \<and> tx_write_set x = [] \<and> tx_read_ts x = 0"
  "db_step sample_created sample_begun"
proof -
  have begun: "txn_begin demo_env sample_created = (fst (txn_begin demo_env sample_created), sample_begun)"
    by (simp add: sample_begun_def)
  show step: "db_step sample_created sample_begun"
    by (rule db_step.begun [OF begun]) (simp add: sample_created_facts kMaxTx_def kTxIdFlag_value)
  show "db_history sample_begun" using sample_created_facts(1) step by (rule db_history.stepped)
  obtain w d where "append_begin demo_env 1 (db_wal sample_created) (db_wal_dir sample_created) =
      (Inr (ww_next_lsn (db_wal sample_created)), w, d)" "ww_ready w"
    using demo_append [OF sample_created_facts(6)] unfolding append_begin_def by blast
  then show "db_tables sample_begun = [sample_empty]" "db_timestamps sample_begun = ts_init"
    "db_next_tx_id sample_begun = 2" "ww_ready (db_wal sample_begun)"
    "\<exists>x. db_txns sample_begun 1 = Some x \<and> tx_state x = kActive \<and> tx_write_set x = [] \<and> tx_read_ts x = 0"
    by (simp_all add: sample_begun_def txn_begin_def Let_def sample_created_facts set_log_def ts_current_def ts_init_def)
qed

lemma sample_written_facts:
  "db_history sample_written" "db_timestamps sample_written = ts_init" "length (db_tables sample_written) = 1"
  "(0, 1 OR kTxIdFlag, False) \<in># table_versions (db_tables sample_written ! 0)"
  "active_txn sample_written 1" "db_step sample_begun sample_written"
proof -
  obtain w d where log: "append_insert demo_env 1 0 sample_columns (db_wal sample_begun) (db_wal_dir sample_begun) =
      (Inr (ww_next_lsn (db_wal sample_begun)), w, d)"
    using demo_append [OF sample_begun_facts(5)] unfolding append_insert_def by blast
  let ?t = "sample_empty\<lparr>tb_lsn := ww_next_lsn (db_wal sample_begun)\<rparr>"
  have rep: "table_rep ?t []" using lsn_rep [OF history_rep [OF sample_empty_history(1)]] .
  obtain t' a' where ins: "insert_row_with (fixed_ts (1 OR kTxIdFlag)) sample_columns ?t ts_init = Some (Inr 0, t', a')"
    using insert_row_rep [OF rep, of sample_columns sample_row "fixed_ts (1 OR kTxIdFlag)" ts_init] sample_carries sample_empty_history by auto
  then have w: "db_insert demo_env 0 sample_columns (Some 1) sample_begun = Some (Inr 0, sample_written)"
      "sample_written = log_writes 1 0 [0] (set_table 0 t' (set_log (w, d) sample_begun))"
    using log by (simp_all add: sample_written_def db_insert_def sample_begun_facts insert_row_def Let_def)
  show step: "db_step sample_begun sample_written"
    by (rule db_step.row [OF _ _ _ _ w(1), of sample_row])
      (use sample_begun_facts sample_carries sample_empty_history in \<open>auto simp: clock_room_def ts_init_def\<close>)
  show "db_history sample_written" using sample_begun_facts(1) step by (rule db_history.stepped)
  show "db_timestamps sample_written = ts_init" "length (db_tables sample_written) = 1"
    using sample_begun_facts by (simp_all add: w(2))
  show "(0, 1 OR kTxIdFlag, False) \<in># table_versions (db_tables sample_written ! 0)"
    using insert_row_versions [OF ins rep_stamps [OF rep]] sample_begun_facts by (simp add: w(2) fixed_ts_def)
  show "active_txn sample_written 1" using sample_begun_facts by (auto simp: w(2) log_writes_def)
qed

section \<open>Ownership\<close>

text \<open>
  C14: In the life of a database from its creation in an empty directory to its end, without a
  restart in between: a version that is neither committed nor rolled back carries the
  number of an active transaction, and that transaction has the row in its write set: no version
  is ever orphaned, so every one of them will be reached by the commit or the rollback. (After a
  restart, marks of transactions of the earlier process can be left in the version indexes.)
\<close>

theorem uncommitted_versions_owned:
  assumes "db_history db" "unat tid < length (db_tables db)"
    and "(rid, ts, deleted) \<in># table_versions (db_tables db ! unat tid)" "kTxIdFlag \<le> ts" "ts \<noteq> -1"
  shows "\<exists>tx x. ts = tx OR kTxIdFlag \<and> db_txns db tx = Some x \<and> tx_state x = kActive \<and> rid \<in> set (rows_of tid (tx_write_set x))"
proof -
  note inv = history_inv [OF assms(1)]
  obtain tx where tx: "tx < kMaxTx" "ts = tx OR kTxIdFlag" using mark_names_tx [of ts] assms(4,5) by (auto simp: not_less)
  then have "fst (rid, ts, deleted) \<in> set (writes db tx tid)"
    using marks_invD [OF inv assms(2) tx(1)] by (intro marked_rows [OF _ assms(3)]) simp_all
  then obtain x where "db_txns db tx = Some x" "tx_state x = kActive" "rid \<in> set (rows_of tid (tx_write_set x))"
    by (cases "db_txns db tx") (simp_all add: writes_def split: if_splits)
  with tx(2) show ?thesis by blast
qed

theorem uncommitted_versions_owned_witness:
  "\<exists>tx x. 1 OR kTxIdFlag = tx OR kTxIdFlag \<and> db_txns sample_written tx = Some x \<and> tx_state x = kActive \<and> 0 \<in> set (rows_of 0 (tx_write_set x))"
proof -
  have "1 OR kTxIdFlag \<noteq> -1" by (rule mark_ne(1)) (simp add: kMaxTx_def kTxIdFlag_value)
  with uncommitted_versions_owned [OF sample_written_facts(1), of 0 0 "1 OR kTxIdFlag" False] sample_written_facts flag_or [of 1]
  show ?thesis by (simp add: not_less)
qed

section \<open>Commit and rollback\<close>

text \<open>
  C2: A commit is atomic. For an active transaction it returns; when it reports success, every
  version the transaction has written in any table carries the commit timestamp and no other
  version has changed; when it reports an error, no table has changed. Either way no snapshot that
  was taken before the commit sees a difference.
\<close>

theorem commit_publishes_atomically:
  assumes "db_history db" "db_txns db tx = Some x" "tx_state x = kActive" "clock_room 1 db"
  shows "\<exists>st db'. txn_commit env fenv tx db = Some (st, db') \<and>
    (st = kOk \<longrightarrow> (\<forall>tid :: TableId. unat tid < length (db_tables db) \<longrightarrow> table_versions (db_tables db' ! unat tid) =
        image_mset (publish (tx OR kTxIdFlag) (next_ts (db_timestamps db) + 1)) (table_versions (db_tables db ! unat tid)))) \<and>
    (st \<noteq> kOk \<longrightarrow> db_tables db' = db_tables db) \<and>
    (\<forall>i m rid. i < length (db_tables db) \<and> m \<le> next_ts (db_timestamps db) \<longrightarrow>
       visible (table_versions (db_tables db' ! i)) m rid = visible (table_versions (db_tables db ! i)) m rid)"
proof -
  note inv = history_inv [OF assms(1)]
  let ?c = "next_ts (db_timestamps db) + 1"
  have "unat (next_ts (db_timestamps db)) + 1 < 2 ^ 63" using assms(4) by (simp add: clock_room_def)
  then have "unat ?c < 2 ^ 63"
    using unat_word_of_nat64 [of "unat (next_ts (db_timestamps db)) + 1"] by (simp add: add.commute)
  then have c: "?c \<noteq> tx OR kTxIdFlag" by (intro mark_ne(2)) (simp add: kTxIdFlag_value word_less_nat_alt)
  from commit_tables_versions [OF inv assms(2,3) c] obtain ts where ts:
    "commit_tables tx ?c (tx_write_set x) (db_tables db) = Some ts"
    "\<And>tid :: TableId. unat tid < length (db_tables db) \<Longrightarrow>
      table_versions (ts ! unat tid) = image_mset (publish (tx OR kTxIdFlag) ?c) (table_versions (db_tables db ! unat tid))"
    by blast
  obtain r w d where app: "append_commit env tx ?c (db_wal db) (db_wal_dir db) = (r, w, d)" by (metis surj_pair)
  have ok: "e \<noteq> kOk" if "r = Inl e" for e
    using app that by (auto simp: append_commit_def append_record_def Let_def split: prod.splits option.splits if_splits)
  obtain st db' where res: "txn_commit env fenv tx db = Some (st, db')"
    "st = kOk \<longrightarrow> db_tables db' = ts" "st \<noteq> kOk \<longrightarrow> db_tables db' = db_tables db"
    using app ts(1) ok assms(2,3) by (cases r) (simp_all add: txn_commit_def allocate_ts_def Let_def end_txn_def)
  from committed_keeps [OF inv assms(4) res(1)] have "snapshots_kept (next_ts (db_timestamps db)) db db'" by (simp add: keeps_def)
  with res ts(2) show ?thesis by (auto simp: snapshots_keptD)
qed

theorem commit_publishes_atomically_witness:
  "\<exists>st db'. txn_commit demo_env demo_env 1 sample_written = Some (st, db') \<and>
    (st = kOk \<longrightarrow> table_versions (db_tables db' ! 0) = image_mset (publish (1 OR kTxIdFlag) 1) (table_versions (db_tables sample_written ! 0)))"
proof -
  obtain x where x: "db_txns sample_written 1 = Some x" "tx_state x = kActive" using sample_written_facts(5) by blast
  have "clock_room 1 sample_written" by (simp add: clock_room_def sample_written_facts ts_init_def)
  from commit_publishes_atomically [OF sample_written_facts(1) x this, of demo_env demo_env] show ?thesis
    using sample_written_facts by (fastforce simp: ts_init_def dest: spec [of _ 0])
qed

text \<open>
  C13: A rollback leaves no trace for readers: for an active transaction it returns, no snapshot of
  any table, whenever it was taken or will be taken, sees a difference, and on success no
  version of the transaction is left.
\<close>

theorem rollback_leaves_no_trace:
  assumes "db_history db" "db_txns db tx = Some x" "tx_state x = kActive"
  shows "\<exists>st db'. txn_rollback env tx db = Some (st, db') \<and>
    (\<forall>i m rid. i < length (db_tables db) \<longrightarrow>
       visible (table_versions (db_tables db' ! i)) m rid = visible (table_versions (db_tables db ! i)) m rid) \<and>
    (st = kOk \<longrightarrow> (\<forall>(tid :: TableId) rid d. unat tid < length (db_tables db) \<longrightarrow>
       (rid, tx OR kTxIdFlag, d) \<notin># table_versions (db_tables db' ! unat tid)))"
proof -
  note inv = history_inv [OF assms(1)]
  have c: "- 1 \<noteq> tx OR kTxIdFlag" using mark_ne(1) [OF active_lt [OF inv assms(2)]] by simp
  from commit_tables_versions [OF inv assms(2,3) c] obtain ts where ts:
    "commit_tables tx (- 1) (tx_write_set x) (db_tables db) = Some ts"
    "\<And>tid :: TableId. unat tid < length (db_tables db) \<Longrightarrow>
      table_versions (ts ! unat tid) = image_mset (publish (tx OR kTxIdFlag) (- 1)) (table_versions (db_tables db ! unat tid))"
    by blast
  obtain r w d where app: "append_rollback env tx (db_wal db) (db_wal_dir db) = (r, w, d)" by (metis surj_pair)
  have ok: "e \<noteq> kOk" if "r = Inl e" for e
    using app that by (auto simp: append_rollback_def append_record_def Let_def split: prod.splits option.splits if_splits)
  obtain st db' where res: "txn_rollback env tx db = Some (st, db')" "st = kOk \<longrightarrow> db_tables db' = ts"
    using app ts(1) ok assms(2,3) by (cases r) (simp_all add: txn_rollback_def Let_def end_txn_def)
  have "snapshots_kept (- 1) db db'" using rolled_back_keeps [OF inv res(1)] by (simp add: keeps_def)
  moreover have "(rid, tx OR kTxIdFlag, d) \<notin># image_mset (publish (tx OR kTxIdFlag) (- 1)) V" for rid d V
    using c by (auto simp: publish_def split: prod.splits if_splits)
  ultimately show ?thesis using res ts(2) snapshots_keptD [of "- 1" db db'] by auto
qed

theorem rollback_leaves_no_trace_witness:
  "\<exists>st db'. txn_rollback demo_env 1 sample_written = Some (st, db') \<and>
    visible (table_versions (db_tables db' ! 0)) 5 0 = visible (table_versions (db_tables sample_written ! 0)) 5 0"
proof -
  obtain x where x: "db_txns sample_written 1 = Some x" "tx_state x = kActive" using sample_written_facts(5) by blast
  from rollback_leaves_no_trace [OF sample_written_facts(1) x, of demo_env] show ?thesis
    using sample_written_facts(3) by auto
qed

section \<open>Isolation\<close>

text \<open>
  C1: Snapshot isolation: whatever is done to the database after a moment (transactions of others
  begun, committed and rolled back, rows inserted and deleted inside and outside of them, tables
  created and flushed), a snapshot of that moment sees the same rows as before. The timestamp with
  which a transaction reads is such a snapshot. Only pruning is not among these steps.
\<close>

theorem snapshot_isolation:
  assumes "db_history db" "db_step\<^sup>*\<^sup>* db db'" "m \<le> next_ts (db_timestamps db)" "unat tid < length (db_tables db)"
  shows "unat tid < length (db_tables db') \<and>
    visible (table_versions (db_tables db' ! unat tid)) m rid = visible (table_versions (db_tables db ! unat tid)) m rid"
proof -
  have "snapshots_kept (next_ts (db_timestamps db)) db db'"
    using steps_keep [OF assms(2) history_inv [OF assms(1)]] by (simp add: keeps_def)
  then have "length (db_tables db) \<le> length (db_tables db')"
    "visible (table_versions (db_tables db' ! unat tid)) m rid = visible (table_versions (db_tables db ! unat tid)) m rid"
    using snapshots_keptD [OF _ assms(4,3)] by (simp add: snapshots_kept_def, blast)
  then show ?thesis using assms(4) by simp
qed

theorem snapshot_isolation_witness:
  "visible (table_versions (db_tables sample_written ! 0)) 0 0 = visible (table_versions (db_tables sample_created ! 0)) 0 0"
proof -
  have "db_step\<^sup>*\<^sup>* sample_created sample_written"
    using sample_begun_facts(7) sample_written_facts(6) by (meson r_into_rtranclp rtranclp_trans)
  from snapshot_isolation [OF sample_created_facts(1) this, of 0 0] show ?thesis
    by (simp add: sample_created_facts)
qed

text \<open>
  C15: What a transaction writes before its commit changes no snapshot at all, neither earlier nor
  later ones: an insertion, a batch of insertions and a deletion inside a transaction leave
  every table as every reader sees it. This includes the transaction itself, which does not see
  its own writes.
\<close>

theorem uncommitted_writes_invisible:
  assumes "db_history db" "active_txn db tx" "unat tid < length (db_tables db)" "i < length (db_tables db)"
    and "list_all2 (carries (tb_schema (db_tables db ! unat tid))) rows new"
    and "tb_row_count (db_tables db ! unat tid) + length rows < 2 ^ 64" "clock_room (length rows + 1) db"
    and "(\<exists>res. db_insert_batch env tid rows (Some tx) db = Some (res, db')) \<or>
         (\<exists>res columns. rows = [columns] \<and> db_insert env tid columns (Some tx) db = Some (res, db')) \<or>
         (\<exists>st rids. db_delete_rows env tid rids (Some tx) db = (st, db'))"
  shows "visible (table_versions (db_tables db' ! i)) m rid = visible (table_versions (db_tables db ! i)) m rid"
proof -
  note inv = history_inv [OF assms(1)]
  have tx: "\<forall>t. Some tx = Some t \<longrightarrow> active_txn db t" using assms(2) by simp
  have room: "clock_room (length rows) db" "clock_room 1 db" using assms(7) by (simp_all add: clock_room_def)
  have "keeps (- 1) db db'" if "db_insert env tid columns (Some tx) db = Some (res, db')" "rows = [columns]" for res columns
  proof -
    have "\<exists>r. carries (tb_schema (db_tables db ! unat tid)) columns r" using assms(5) that(2) by (auto simp: list_all2_Cons1)
    then obtain r where "carries (tb_schema (db_tables db ! unat tid)) columns r" ..
    then show ?thesis using row_keeps [OF inv tx room(2) _ _ that(1), of r "- 1"] assms(6) that(2) by simp
  qed
  moreover have "keeps (- 1) db db'" if "db_insert_batch env tid rows (Some tx) db = Some (res, db')" for res
    using batch_keeps [OF inv tx room(1) assms(5,6) that, of "- 1"] by simp
  moreover have "keeps (- 1) db db'" if "db_delete_rows env tid rids (Some tx) db = (st, db')" for st rids
    using deleted_keeps [OF inv tx room(2) that, of "- 1"] by simp
  ultimately have "keeps (- 1) db db'" using assms(8) by blast
  then have "snapshots_kept (- 1) db db'" by (simp add: keeps_def)
  from snapshots_keptD [OF this assms(4)] show ?thesis by simp
qed

theorem uncommitted_writes_invisible_witness:
  "visible (table_versions (db_tables (snd (db_delete_rows demo_env 0 [0] (Some 1) sample_written)) ! 0)) 9 0 =
   visible (table_versions (db_tables sample_written ! 0)) 9 0"
proof -
  obtain st db' where "db_delete_rows demo_env 0 [0] (Some 1) sample_written = (st, db')" by fastforce
  moreover have "clock_room 1 sample_written" by (simp add: clock_room_def sample_written_facts ts_init_def)
  moreover have "tb_row_count (db_tables sample_written ! 0) < 2 ^ 64"
  proof -
    have "table_inv (db_tables sample_written ! 0)"
      using history_inv [OF sample_written_facts(1)] sample_written_facts(3) by (simp add: db_inv_def)
    then show ?thesis by (auto simp: table_inv_def table_rep_def chunks_rep_def)
  qed
  ultimately show ?thesis
    using uncommitted_writes_invisible [OF sample_written_facts(1,5), of 0 0 "[]" "[]" demo_env db' 9 0] sample_written_facts(3)
    by auto
qed

section \<open>Reading\<close>

text \<open>The search of a reader in a table without pending rows.\<close>

lemma search_visible:
  assumes "vi_inv (tb_vindex t)" "pending t = []"
    and "\<forall>ts. (rid, ts, False) \<in># table_versions t \<longrightarrow> ts < kTxIdFlag \<longrightarrow> (rid, ts, True) \<notin># table_versions t"
  shows "(\<exists>off. fst (search_version_index rid m t) = Inr off \<and> off \<noteq> kNotFoundOff) = visible (table_versions t) m rid"
proof -
  let ?E = "set (vi_entries (tb_vindex t))" and ?s = "fst (search_version_index rid m t)"
  have V: "table_versions t = index_versions (tb_vindex t)" by (simp add: table_versions_def assms(2))
  have mem: "((rid, ts, d) \<in># table_versions t \<and> ts < kTxIdFlag \<and> ts \<le> m) =
      (\<exists>e \<in> ?E. committed_version rid m e \<and> ie_ts e = ts \<and> (ie_offset e = kNotFoundOff) = d)" for ts d
    by (auto simp: V index_versions_def entry_version_def committed_version_def image_iff)
  have s: "?s = fst (search rid m kInvalidTxId (tb_vindex t))" by (simp add: search_version_index_def split_beta)
  note new = search_newest [OF assms(1), of rid m, folded s]
  show ?thesis
  proof (cases ?s)
    case (Inl c)
    then show ?thesis using new mem [of _ False] unfolding visible_def by auto
  next
    case (Inr off)
    with new obtain e where e: "e \<in> ?E" "committed_version rid m e" "ie_offset e = off"
      "\<forall>e' \<in> ?E. committed_version rid m e' \<longrightarrow> ie_ts e' \<le> ie_ts e" by auto
    show ?thesis
    proof (cases "off = kNotFoundOff")
      case True
      then have "(rid, ie_ts e, True) \<in># table_versions t \<and> ie_ts e < kTxIdFlag \<and> ie_ts e \<le> m" using e mem [of "ie_ts e" True] by auto
      moreover have "ts \<le> ie_ts e" if "(rid, ts, False) \<in># table_versions t" "ts < kTxIdFlag" "ts \<le> m" for ts
        using e(4) mem [of ts False] that by auto
      ultimately have "\<not> visible (table_versions t) m rid" unfolding visible_def using not_le by blast
      then show ?thesis using Inr True by simp
    next
      case False
      then have live: "(rid, ie_ts e, False) \<in># table_versions t \<and> ie_ts e < kTxIdFlag \<and> ie_ts e \<le> m" using e mem [of "ie_ts e" False] by auto
      moreover have "ts < ie_ts e" if "(rid, ts, True) \<in># table_versions t" "ts < kTxIdFlag" "ts \<le> m" for ts
        using e(4) mem [of ts True] that assms(3) live by (metis order_le_neq_trans)
      ultimately have "visible (table_versions t) m rid" unfolding visible_def by blast
      then show ?thesis using Inr False by simp
    qed
  qed
qed

text \<open>
  C11: The search of a reader implements the snapshot: in a table of any history, if no row of the
  table is pending and the row in question was not inserted and deleted with one and the same
  timestamp (which takes one transaction that deletes what it has inserted), \<open>search_version_index\<close>
  finds a page for the row exactly when it is visible to the snapshot of the reader.
\<close>

theorem search_implements_visibility:
  assumes "db_history db" "unat tid < length (db_tables db)" "pending (db_tables db ! unat tid) = []"
    and "\<forall>ts. (rid, ts, False) \<in># table_versions (db_tables db ! unat tid) \<longrightarrow> ts < kTxIdFlag \<longrightarrow>
      (rid, ts, True) \<notin># table_versions (db_tables db ! unat tid)"
  shows "(\<exists>off. fst (search_version_index rid m (db_tables db ! unat tid)) = Inr off \<and> off \<noteq> kNotFoundOff) =
    visible (table_versions (db_tables db ! unat tid)) m rid"
proof (rule search_visible [OF _ assms(3,4)])
  show "vi_inv (tb_vindex (db_tables db ! unat tid))"
    using history_inv [OF assms(1)] assms(2) by (simp add: db_inv_def table_inv_def)
qed

theorem search_implements_visibility_witness:
  "(\<exists>off. fst (search_version_index 0 5 (db_tables (snd (db_delete_rows demo_env 0 [0] None sample_created)) ! 0)) = Inr off \<and> off \<noteq> kNotFoundOff) =
    visible {#(0, 1, True)#} 5 0"
proof -
  let ?d = "snd (db_delete_rows demo_env 0 [0] None sample_created)" and ?t = "db_tables (snd (db_delete_rows demo_env 0 [0] None sample_created)) ! 0"
  obtain w d where log: "append_delete demo_env 0 0 [0] (db_wal sample_created) (db_wal_dir sample_created) =
      (Inr (ww_next_lsn (db_wal sample_created)), w, d)"
    using demo_append [OF sample_created_facts(6)] unfolding append_delete_def by blast
  let ?e = "sample_empty\<lparr>tb_lsn := ww_next_lsn (db_wal sample_created)\<rparr>"
  have r: "?t = insert_version_entries (tombstones 1 [0]) ?e" "length (db_tables ?d) = 1"
    using log by (simp_all add: db_delete_rows_def sample_created_facts Let_def kInvalidTxId_def allocate_ts_def ts_init_def)
  have e: "pending sample_empty = []" "tb_vindex sample_empty = vi_init"
    by (simp_all add: sample_empty_def open_file_def table_init_def pending_def mmap_open_def mmap_init_def os_fine_def)
  have "table_inv sample_empty" using history_inv [OF sample_created_facts(1)] by (simp add: db_inv_def sample_created_facts)
  from tombstone_versions(2) [OF this, of 1 "[0]"] have v: "table_versions ?t = {#(0, 1, True)#}"
    by (simp add: r(1) table_versions_def [of sample_empty] e index_versions_def vi_init_def)
  have p: "pending ?t = []" using e(1) by (simp add: r(1) insert_version_entries_def pending_def)
  have "db_step sample_created ?d"
    by (rule db_step.deleted [of None, OF _ _ surjective_pairing]) (simp_all add: clock_room_def sample_created_facts ts_init_def)
  with sample_created_facts(1) have "db_history ?d" by (rule db_history.stepped)
  from search_implements_visibility [OF this, of 0 0 5] p v r(2) show ?thesis by simp
qed

end
