(* ===== verification/Db_Replay.thy ===== *)
theory Db_Replay
  imports Db_Snapshots
begin

text \<open>
  Recovery: the records of insertions are read back as they were written, and the second pass
  over the log appends the rows of the committed transactions, with their commit timestamps, in
  the order of the log.
\<close>

section \<open>Reading the records of insertions\<close>

abbreviation logged_column :: "ColumnData \<Rightarrow> bool" where
  "logged_column c \<equiv> length (cd_data c) < 2 ^ 32 \<and> cd_nulls c = None"

lemma parse_column_bytes: "logged_column c \<Longrightarrow> parse_column (column_bytes c @ r) = Some (c, r)"
  by (simp add: parse_column_def column_bytes_def codec_simps unat_word_of_nat32)

lemma parse_columns_bytes:
  "list_all logged_column cs \<Longrightarrow> parse_columns (length cs) (concat (map column_bytes cs) @ r) = Some (cs, r)"
  by (induction cs) (simp_all add: parse_column_bytes)

lemma parse_row_list_bytes:
  "list_all (\<lambda>row. list_all logged_column row \<and> length row = n) rows \<Longrightarrow>
   parse_row_list (length rows) n (concat (map (\<lambda>row. concat (map column_bytes row)) rows) @ r) = Some (rows, r)"
proof (induction rows)
  case (Cons row rows)
  then have "parse_columns n (concat (map column_bytes row) @ s) = Some (row, s)" for s
    using parse_columns_bytes [of row s] by simp
  with Cons show ?case by simp
qed simp

section \<open>Replaying one record\<close>

text \<open>Rows that were inserted with the mark of a transaction and are committed at once.\<close>

lemma committed_rows:
  assumes "table_inv t" "table_versions t = V + mset (map (\<lambda>r. (r, tx OR kTxIdFlag, False)) rids)"
    and "\<And>v. v \<in># V \<Longrightarrow> fst (snd v) \<noteq> tx OR kTxIdFlag" "c < kTxIdFlag"
  shows "table_versions (table_commit_rows rids tx c t) = V + mset (map (\<lambda>r. (r, c, False)) rids)"
    "vi_inv (tb_vindex (table_commit_rows rids tx c t))"
proof -
  let ?m = "tx OR kTxIdFlag"
  have c: "c \<noteq> ?m" using mark_ne(2) [OF assms(4)] .
  have none: "marked ?m rid V = 0" for rid unfolding none_counted using assms(3) by blast
  have "marked ?m rid (table_versions t) \<le> count (mset rids) rid" for rid
    unfolding assms(2) by (subst marked_same [of _ ?m]) (auto simp only: set_mset_mset set_map none count_rows fst_conv snd_conv simp_thms if_True add_0 order_refl image_iff)
  then have cover: "\<forall>rid. marked ?m rid (table_versions t) \<le> count (mset rids) rid" by blast
  have "image_mset (publish ?m c) V = V" by (rule publish_none) (use assms(3) in blast)
  moreover have "publish ?m c (r, ?m, False) = (r, c, False)" for r by (simp add: publish_def)
  ultimately show "table_versions (table_commit_rows rids tx c t) = V + mset (map (\<lambda>r. (r, c, False)) rids)"
    using table_commit_versions(1) [OF table_inv_facts(1-3) [OF assms(1)] c cover]
    by (simp add: assms(2) multiset.map_comp comp_def)
  show "vi_inv (tb_vindex (table_commit_rows rids tx c t))"
    using table_commit_versions(3) [OF table_inv_facts(1-3) [OF assms(1)] c cover] .
qed

text \<open>What a table is before and after: its rows, and versions without the marks of the log.\<close>

definition recovering :: "Table \<Rightarrow> Cells list \<Rightarrow> Version multiset \<Rightarrow> bool" where
  "recovering t rows V \<longleftrightarrow> table_rep t rows \<and> vi_inv (tb_vindex t) \<and> table_versions t = V \<and>
     (\<forall>v \<in># V. fst (snd v) < kTxIdFlag \<or> fst (snd v) = -1)"

lemma recovering_commit:
  assumes "recovering t rows V" "table_rep t1 (rows @ new)" "length (rows @ new) < 2 ^ 64" "tb_vindex t1 = tb_vindex t"
    and "table_versions t1 = V + mset (map (\<lambda>r. (r, tx OR kTxIdFlag, False)) rids)" "tx < kMaxTx" "c < kTxIdFlag"
  shows "recovering (table_commit_rows rids tx c t1) (rows @ new) (V + mset (map (\<lambda>r. (r, c, False)) rids))"
proof -
  have inv: "table_inv t1" using assms(1-4) unfolding table_inv_def recovering_def by auto
  have "fst (snd v) \<noteq> tx OR kTxIdFlag" if "v \<in># V" for v
    using that assms(1) flag_or [of tx] mark_ne(1) [OF assms(6)] by (force simp: recovering_def)
  from committed_rows [OF inv assms(5) this assms(7)] commit_rep [OF assms(2)] assms(1,7) show ?thesis
    by (auto simp: recovering_def)
qed

lemma recovering_insert:
  assumes "recovering t rows V" "carries (tb_schema t) columns new" "length rows + 1 < 2 ^ 64" "tx < kMaxTx" "c < kTxIdFlag"
    and "insert_row (tx OR kTxIdFlag) columns t = Some (res, t1)"
  shows "res = Inr (word_of_nat (length rows))" "tb_schema t1 = tb_schema t" "tb_lsn t1 = tb_lsn t"
    "recovering (table_commit_rows [word_of_nat (length rows)] tx c t1) (rows @ [new])
       (V + mset (map (\<lambda>r. (r, c, False)) (row_ids (length rows) 1)))"
proof -
  have rep: "table_rep t rows" "table_versions t = V" using assms(1) by (simp_all add: recovering_def)
  obtain a' where "insert_row_with (fixed_ts (tx OR kTxIdFlag)) columns t ts_init = Some (res, t1, a')"
    using assms(6) by (auto simp: insert_row_def)
  note r = insert_row_all [OF rep(1) assms(2) this]
  show "res = Inr (word_of_nat (length rows))" "tb_schema t1 = tb_schema t" "tb_lsn t1 = tb_lsn t" using r by simp_all
  show "recovering (table_commit_rows [word_of_nat (length rows)] tx c t1) (rows @ [new])
       (V + mset (map (\<lambda>r. (r, c, False)) (row_ids (length rows) 1)))"
    using recovering_commit [OF assms(1) r(2) _ r(5), of tx "[word_of_nat (length rows)]" c] assms(3-5) r(4)
    by (simp add: rep(2) fixed_ts_def)
qed

lemma recovering_batch:
  assumes "recovering t rows V" "list_all2 (carries (tb_schema t)) cols new" "length rows + length cols < 2 ^ 64"
    and "tx < kMaxTx" "c < kTxIdFlag" "insert_rows (tx OR kTxIdFlag) cols t = Some (res, t1)"
  shows "res = Inr (row_ids (length rows) (length cols))" "tb_schema t1 = tb_schema t" "tb_lsn t1 = tb_lsn t"
    "recovering (table_commit_rows (row_ids (length rows) (length cols)) tx c t1) (rows @ new)
       (V + mset (map (\<lambda>r. (r, c, False)) (row_ids (length rows) (length cols))))"
proof -
  have rep: "table_rep t rows" "table_versions t = V" using assms(1) by (simp_all add: recovering_def)
  obtain a' where "insert_rows_with (fixed_ts (tx OR kTxIdFlag)) cols t ts_init = Some (res, t1, a')"
    using assms(6) by (auto simp: insert_rows_def)
  note r = insert_rows_all [OF rep(1) assms(2) this]
  show "res = Inr (row_ids (length rows) (length cols))" "tb_schema t1 = tb_schema t" "tb_lsn t1 = tb_lsn t" using r by simp_all
  have len: "length new = length cols" using assms(2) by (metis list_all2_lengthD)
  have z: "live_versions (row_ids (length rows) (length cols)) (replicate (length cols) s) =
      map (\<lambda>r. (r, s, False)) (row_ids (length rows) (length cols))" for s by (rule live_versions_same) simp
  have "table_versions t1 = V + mset (map (\<lambda>r. (r, tx OR kTxIdFlag, False)) (row_ids (length rows) (length cols)))"
    using r(4) unfolding draw_fixed fst_conv z rep(2) .
  then show "recovering (table_commit_rows (row_ids (length rows) (length cols)) tx c t1) (rows @ new)
       (V + mset (map (\<lambda>r. (r, c, False)) (row_ids (length rows) (length cols))))"
    using assms(3-5) r(5) len by (intro recovering_commit [OF assms(1) r(2)]) simp_all
qed

section \<open>Replaying a log\<close>

text \<open>What the records of a log stand for.\<close>

datatype LoggedOp = LInsert TableId "ColumnData list" Cells | LBatch TableId "ColumnData list list" "Cells list" | LOther

fun logs :: "Table list \<Rightarrow> WalRecord \<Rightarrow> LoggedOp \<Rightarrow> bool" where
  "logs ts r (LInsert tid columns new) \<longleftrightarrow>
     wh_type (rec_header r) = wal_type_tag WalInsert \<and> rec_payload r = insert_payload tid columns \<and>
     length columns < 2 ^ 32 \<and> list_all logged_column columns \<and>
     unat tid < length ts \<and> carries (tb_schema (ts ! unat tid)) columns new"
| "logs ts r (LBatch tid rows new) \<longleftrightarrow>
     wh_type (rec_header r) = wal_type_tag WalInsertBatch \<and> rec_payload r = batch_payload tid rows \<and>
     rows \<noteq> [] \<and> length rows < 2 ^ 32 \<and> length (hd rows) < 2 ^ 32 \<and>
     list_all (\<lambda>row. list_all logged_column row \<and> length row = length (hd rows)) rows \<and>
     unat tid < length ts \<and> list_all2 (carries (tb_schema (ts ! unat tid))) rows new"
| "logs ts r LOther \<longleftrightarrow> wh_type (rec_header r) \<noteq> wal_type_tag WalInsert \<and> wh_type (rec_header r) \<noteq> wal_type_tag WalInsertBatch"

fun op_rows :: "nat \<Rightarrow> LoggedOp \<Rightarrow> Cells list" where
  "op_rows i (LInsert tid columns new) = (if unat tid = i then [new] else [])"
| "op_rows i (LBatch tid rows new) = (if unat tid = i then new else [])"
| "op_rows i LOther = []"

text \<open>The rows of a table that a log brings back, with their timestamps.\<close>

fun replayed :: "Commits \<Rightarrow> nat \<Rightarrow> (WalRecord \<times> LoggedOp) list \<Rightarrow> (Cells \<times> Timestamp) list" where
  "replayed cs i [] = []"
| "replayed cs i ((r, opr) # ls) =
     (case cs (wh_tx_id (rec_header r)) of None \<Rightarrow> [] | Some c \<Rightarrow> map (\<lambda>row. (row, c)) (op_rows i opr)) @ replayed cs i ls"

lemma replayed_append: "replayed cs i (ls @ ls') = replayed cs i ls @ replayed cs i ls'"
  by (induction cs i ls rule: replayed.induct) simp_all

text \<open>One record: the other tables stay, and the table of the record gets its rows.\<close>

lemma replay_record_rep:
  assumes "logs ts r opr" "cs (wh_tx_id (rec_header r)) = Some c" "wh_tx_id (rec_header r) < kMaxTx" "c < kTxIdFlag"
    and "\<And>i. i < length ts \<Longrightarrow> recovering (ts ! i) (R i) (V i)"
    and "\<And>i. i < length ts \<Longrightarrow> tb_lsn (ts ! i) < wh_lsn (rec_header r)"
    and "\<And>i. i < length ts \<Longrightarrow> length (R i) + length (op_rows i opr) < 2 ^ 64"
    and "replay_record cs r ts = Some ts'"
  shows "length ts' = length ts \<and> (\<forall>i < length ts. tb_schema (ts' ! i) = tb_schema (ts ! i) \<and> tb_lsn (ts' ! i) = tb_lsn (ts ! i) \<and>
    recovering (ts' ! i) (R i @ op_rows i opr)
      (V i + mset (map (\<lambda>r. (r, c, False)) (row_ids (length (R i)) (length (op_rows i opr))))))"
proof (cases opr)
  case (LInsert tid columns new)
  let ?i = "unat tid" and ?tx = "wh_tx_id (rec_header r)"
  have l: "wh_type (rec_header r) = wal_type_tag WalInsert" "rec_payload r = insert_payload tid columns" "length columns < 2 ^ 32"
      "list_all logged_column columns" "?i < length ts" "carries (tb_schema (ts ! ?i)) columns new"
    using assms(1) LInsert by simp_all
  have p: "u32_at (rec_payload r) 0 = tid" "unat (u32_at (rec_payload r) 4) = length columns"
      "drop 8 (rec_payload r) = concat (map column_bytes columns)" "8 \<le> length (rec_payload r)"
    using l at_put(2) [of "put_u32 tid" 4 "word_of_nat (length columns)"] by (simp_all add: insert_payload_def unat_word_of_nat32)
  have parse: "parse_columns (length columns) (concat (map column_bytes columns)) = Some (columns, [])"
    using parse_columns_bytes [of columns "[]"] l by simp
  have "replay_record cs r ts = map_option (\<lambda>(res, t). ts[?i := (case res of Inl e \<Rightarrow> t
      | Inr rid \<Rightarrow> table_commit_rows [rid] ?tx c t)]) (insert_row (?tx OR kTxIdFlag) columns (ts ! ?i))"
    using l(1,5) p parse assms(2) assms(6) [OF l(5), unfolded not_le [symmetric]] by (simp add: replay_record_def replay_insert_def Let_def)
  with assms(8) obtain res t1 where
    ins: "insert_row (?tx OR kTxIdFlag) columns (ts ! ?i) = Some (res, t1)"
    and ts': "ts' = ts[?i := (case res of Inl e \<Rightarrow> t1 | Inr rid \<Rightarrow> table_commit_rows [rid] ?tx c t1)]" by auto
  note r = recovering_insert [OF assms(5) _ _ assms(3,4) ins, of new]
  show ?thesis
    using r l assms(5) assms(7) [of ?i] by (auto simp: ts' LInsert nth_list_update table_commit_rows_def Let_def)
next
  case (LBatch tid rows new)
  let ?i = "unat tid" and ?tx = "wh_tx_id (rec_header r)" and ?n = "length (hd rows)"
  have l: "wh_type (rec_header r) = wal_type_tag WalInsertBatch" "rec_payload r = batch_payload tid rows" "rows \<noteq> []"
      "length rows < 2 ^ 32" "?n < 2 ^ 32" "list_all (\<lambda>row. list_all logged_column row \<and> length row = ?n) rows"
      "?i < length ts" "list_all2 (carries (tb_schema (ts ! ?i))) rows new"
    using assms(1) LBatch by simp_all
  have p: "u32_at (rec_payload r) 0 = tid" "unat (u32_at (rec_payload r) 4) = length rows" "unat (u32_at (rec_payload r) 8) = ?n"
      "drop 12 (rec_payload r) = concat (map (\<lambda>row. concat (map column_bytes row)) rows)" "12 \<le> length (rec_payload r)"
    using l at_put(2) [of "put_u32 tid" 4 "word_of_nat (length rows)"]
      at_put(2) [of "put_u32 tid @ put_u32 (word_of_nat (length rows))" 8 "word_of_nat ?n"]
    by (simp_all add: batch_payload_def unat_word_of_nat32)
  have parse: "parse_row_list (length rows) ?n (concat (map (\<lambda>row. concat (map column_bytes row)) rows)) = Some (rows, [])"
    using parse_row_list_bytes [OF l(6), of "[]"] by simp
  have "replay_record cs r ts = map_option (\<lambda>(res, t). ts[?i := (case res of Inl e \<Rightarrow> t
      | Inr rids \<Rightarrow> table_commit_rows rids ?tx c t)]) (insert_rows (?tx OR kTxIdFlag) rows (ts ! ?i))"
    using l(1,7) p parse assms(2) assms(6) [OF l(7), unfolded not_le [symmetric]] by (simp add: replay_record_def replay_insert_batch_def Let_def)
  with assms(8) obtain res t1 where
    ins: "insert_rows (?tx OR kTxIdFlag) rows (ts ! ?i) = Some (res, t1)"
    and ts': "ts' = ts[?i := (case res of Inl e \<Rightarrow> t1 | Inr rids \<Rightarrow> table_commit_rows rids ?tx c t1)]" by auto
  have len: "length new = length rows" using l(8) by (metis list_all2_lengthD)
  note r = recovering_batch [OF assms(5) l(8) _ assms(3,4) ins]
  show ?thesis
    using r l(7) len assms(5) assms(7) [of ?i] by (auto simp: ts' LBatch nth_list_update table_commit_rows_def Let_def)
next
  case LOther
  then show ?thesis using assms by (auto simp: replay_record_def)
qed

text \<open>The whole pass.\<close>

lemma pass2_rep:
  assumes "pass2 cs (map fst ls) ts = Some ts'"
    and "\<And>r opr. (r, opr) \<in> set ls \<Longrightarrow> logs ts r opr \<and> wh_tx_id (rec_header r) < kMaxTx \<and>
      (\<forall>i < length ts. tb_lsn (ts ! i) < wh_lsn (rec_header r))"
    and "\<And>tx c. cs tx = Some c \<Longrightarrow> c < kTxIdFlag"
    and "\<And>i. i < length ts \<Longrightarrow> recovering (ts ! i) (R i) (V i)"
    and "\<And>i. i < length ts \<Longrightarrow> length (R i) + length (replayed cs i ls) < 2 ^ 64"
  shows "length ts' = length ts \<and> (\<forall>i < length ts.
    recovering (ts' ! i) (R i @ map fst (replayed cs i ls))
      (V i + mset (live_versions (row_ids (length (R i)) (length (replayed cs i ls))) (map snd (replayed cs i ls)))))"
  using assms
proof (induction ls arbitrary: ts R V)
  case (Cons e ls)
  obtain r opr where e: "e = (r, opr)" by fastforce
  obtain ts1 where ts1: "replay_record cs r ts = Some ts1" "pass2 cs (map fst ls) ts1 = Some ts'"
    using Cons.prems(1) e by (auto split: option.splits)
  have l: "logs ts r opr" "wh_tx_id (rec_header r) < kMaxTx" "\<And>i. i < length ts \<Longrightarrow> tb_lsn (ts ! i) < wh_lsn (rec_header r)"
    using Cons.prems(2) [of r opr] e by simp_all
  show ?case
  proof (cases "cs (wh_tx_id (rec_header r))")
    case None
    then have "ts1 = ts" using ts1(1) by (simp add: replay_record_def Let_def)
    then have pass: "pass2 cs (map fst ls) ts = Some ts'" using ts1(2) by simp
    have same: "replayed cs i (e # ls) = replayed cs i ls" for i using e None by simp
    show ?thesis unfolding same
      by (rule Cons.IH [OF pass _ Cons.prems(3,4)]) (use Cons.prems(2) Cons.prems(5) [unfolded same] in auto)
  next
    case (Some c)
    let ?o = "\<lambda>i. op_rows i opr"
    let ?R = "\<lambda>i. R i @ ?o i" and ?V = "\<lambda>i. V i + mset (map (\<lambda>r. (r, c, False)) (row_ids (length (R i)) (length (?o i))))"
    have n: "length (R i) + (length (?o i) + length (replayed cs i ls)) < 2 ^ 64" if "i < length ts" for i
      using Cons.prems(5) [OF that] e Some by simp
    then have "length (R i) + length (?o i) < 2 ^ 64" if "i < length ts" for i using that by fastforce
    from replay_record_rep [OF l(1) Some l(2) Cons.prems(3) [OF Some] Cons.prems(4) l(3) this ts1(1)]
    have one: "length ts1 = length ts" "\<And>i. i < length ts \<Longrightarrow> tb_schema (ts1 ! i) = tb_schema (ts ! i)"
      "\<And>i. i < length ts \<Longrightarrow> tb_lsn (ts1 ! i) = tb_lsn (ts ! i)" "\<And>i. i < length ts \<Longrightarrow> recovering (ts1 ! i) (?R i) (?V i)" by auto
    have "logs ts1 r' opr' = logs ts r' opr'" for r' opr' using one(1,2) by (cases opr') auto
    then have rest: "logs ts1 r' opr' \<and> wh_tx_id (rec_header r') < kMaxTx \<and> (\<forall>i < length ts1. tb_lsn (ts1 ! i) < wh_lsn (rec_header r'))"
      if "(r', opr') \<in> set ls" for r' opr' using Cons.prems(2) [of r' opr'] that one(1,3) by simp
    have "length ts' = length ts1 \<and> (\<forall>i < length ts1.
      recovering (ts' ! i) (?R i @ map fst (replayed cs i ls))
        (?V i + mset (live_versions (row_ids (length (?R i)) (length (replayed cs i ls))) (map snd (replayed cs i ls)))))"
      by (rule Cons.IH [OF ts1(2) rest Cons.prems(3)]) (use one(1,4) n in \<open>simp_all add: add.assoc\<close>)
    moreover have "live_versions (row_ids (length (R i)) (length (replayed cs i (e # ls)))) (map snd (replayed cs i (e # ls))) =
        map (\<lambda>r. (r, c, False)) (row_ids (length (R i)) (length (?o i))) @
        live_versions (row_ids (length (?R i)) (length (replayed cs i ls))) (map snd (replayed cs i ls))" for i
    proof -
      have "row_ids a (m + k) = row_ids a m @ row_ids (a + m) k" for a m k
        using upt_add_eq_append [of a "a + m" k] by (simp add: add.assoc)
      moreover have "map snd (replayed cs i (e # ls)) = replicate (length (?o i)) c @ map snd (replayed cs i ls)"
        using e Some by (simp add: map_replicate_const comp_def)
      ultimately show ?thesis
        using e Some live_versions_same [of "row_ids (length (R i)) (length (?o i))" "length (?o i)" c] by simp
    qed
    ultimately show ?thesis using one(1) e Some by (simp add: comp_def add.assoc)
  qed
qed simp

end
