(* ===== verification/Db_Durability.thy ===== *)
theory Db_Durability
  imports Db_Replay
begin

text \<open>
  What a restart brings back: the rows of committed transactions, the schemas, the clock; and
  where it goes wrong: the first record behind a checkpoint, the log that is applied twice, and the
  clock after a rollback. Also the backups that the clean-up removes.
\<close>

section \<open>The log\<close>

text \<open>
  C4: Recovery restores what was committed: the second pass over a log of insertions appends to
  each table, in the order of the log, exactly the rows of the transactions that committed, as
  they were handed to the insertion, and their versions carry the commit timestamps. Rows of
  transactions without a commit leave nothing.
\<close>

theorem recovery_restores_committed_rows:
  assumes "pass2 cs (map fst ls) ts = Some ts'"
    and "\<forall>(r, opr) \<in> set ls. logs ts r opr \<and> wh_tx_id (rec_header r) < kMaxTx \<and>
      (\<forall>i < length ts. tb_lsn (ts ! i) < wh_lsn (rec_header r))"
    and "\<forall>tx c. cs tx = Some c \<longrightarrow> c < kTxIdFlag"
    and "\<forall>i < length ts. recovering (ts ! i) (R i) (table_versions (ts ! i)) \<and> length (R i) + length (replayed cs i ls) < 2 ^ 64"
  shows "length ts' = length ts \<and> (\<forall>i < length ts.
    table_rep (ts' ! i) (R i @ map fst (replayed cs i ls)) \<and>
    table_versions (ts' ! i) = table_versions (ts ! i) +
      mset (live_versions (row_ids (length (R i)) (length (replayed cs i ls))) (map snd (replayed cs i ls))))"
proof -
  from pass2_rep [OF assms(1), of R "\<lambda>i. table_versions (ts ! i)"] assms(2-4) show ?thesis
    by (fastforce simp: recovering_def)
qed

text \<open>The log of one committed and one unfinished transaction.\<close>

definition sample_insert :: "TxId \<Rightarrow> Lsn \<Rightarrow> WalRecord" where
  "sample_insert tx lsn = new_record demo_env tx WalInsert (insert_payload 0 sample_columns) lsn"

definition sample_log :: "(WalRecord \<times> LoggedOp) list" where
  "sample_log = [(sample_insert 1 1, LInsert 0 sample_columns sample_row), (sample_insert 2 2, LInsert 0 sample_columns sample_row)]"

definition sample_commits :: Commits where "sample_commits tx = (if tx = 1 then Some 5 else None)"

lemma sample_insert_facts:
  "logs [sample_empty] (sample_insert tx lsn) (LInsert 0 sample_columns sample_row)"
  "wh_tx_id (rec_header (sample_insert tx lsn)) = tx" "wh_lsn (rec_header (sample_insert tx lsn)) = lsn"
  using sample_carries sample_empty_history(2)
  by (simp_all add: sample_insert_def new_record_def wal_header_def sample_columns_def)

lemma sample_recovering: "recovering sample_empty [] (table_versions sample_empty)" "tb_lsn sample_empty = 0"
proof -
  have e: "pending sample_empty = []" "tb_vindex sample_empty = vi_init"
    by (simp_all add: sample_empty_def open_file_def table_init_def pending_def mmap_open_def mmap_init_def os_fine_def)
  have "vi_inv vi_init" using history_inv [OF sample_created_facts(1)] by (simp add: db_inv_def sample_created_facts table_inv_def e(2))
  then show "recovering sample_empty [] (table_versions sample_empty)"
    using history_rep [OF sample_empty_history(1)] e
    by (simp add: recovering_def table_versions_def index_versions_def vi_init_def)
  show "tb_lsn sample_empty = 0"
    by (simp add: sample_empty_def open_file_def table_init_def mmap_open_def mmap_init_def os_fine_def)
qed

lemma sample_replayed: "replayed sample_commits i sample_log = (if i = 0 then [(sample_row, 5)] else [])"
  by (simp add: sample_log_def sample_insert_facts sample_commits_def)

lemma sample_log_ok:
  "\<forall>(r, opr) \<in> set sample_log. logs [sample_empty] r opr \<and> wh_tx_id (rec_header r) < kMaxTx \<and>
    (\<forall>i < length [sample_empty]. tb_lsn ([sample_empty] ! i) < wh_lsn (rec_header r))"
  by (auto simp: sample_log_def sample_insert_facts sample_recovering kMaxTx_def kTxIdFlag_value simp del: logs.simps)

text \<open>Replaying the committed record of the sample, on any table with a free batch.\<close>

lemma insert_row_free:
  assumes "insert_row_with src columns t a = Some (Inr rid, t', a')"
  shows "length (tb_free t) \<le> Suc (length (tb_free t'))"
proof -
  obtain b t1 where acq: "acquire_batch t = Some (b, t1)" and t':
      "t' = store_batch (batch_push (fst (src a)) columns b) (t1\<lparr>tb_row_count := tb_row_count t1 + 1\<rparr>)"
    using assms by (cases "src a") (auto simp: insert_row_with_def split: if_splits)
  have "length (tb_free t) \<le> Suc (length (tb_free t1))"
    using acq by (auto simp: acquire_batch_def get_free_batch_def split: option.splits if_splits)
  then show ?thesis by (simp add: t' store_batch_def push_flush_queue_def)
qed

lemma replay_sample:
  assumes "table_rep t rows" "tb_schema t = sample_schema" "tb_free t \<noteq> []" "tb_lsn t < 1"
  shows "\<exists>t'. replay_record sample_commits (sample_insert 1 1) [t] = Some [t'] \<and> tb_schema t' = sample_schema \<and>
    tb_lsn t' = tb_lsn t \<and> length (tb_free t) \<le> Suc (length (tb_free t')) \<and> table_rep t' (rows @ [sample_row])"
proof -
  have p: "u32_at (rec_payload (sample_insert 1 1)) 0 = 0" "unat (u32_at (rec_payload (sample_insert 1 1)) 4) = length sample_columns"
      "drop 8 (rec_payload (sample_insert 1 1)) = concat (map column_bytes sample_columns)" "8 \<le> length (rec_payload (sample_insert 1 1))"
    using at_put(2) [of "put_u32 0" 4 "word_of_nat (length sample_columns)"]
    by (simp_all add: sample_insert_def new_record_def insert_payload_def sample_columns_def)
  have parse: "parse_columns (length sample_columns) (concat (map column_bytes sample_columns)) = Some (sample_columns, [])"
    using parse_columns_bytes [of sample_columns "[]"] by (simp add: sample_columns_def)
  obtain t1 a where ins: "insert_row_with (fixed_ts (1 OR kTxIdFlag)) sample_columns t ts_init = Some (Inr (word_of_nat (length rows)), t1, a)"
    using insert_row_rep [OF assms(1), of sample_columns sample_row "fixed_ts (1 OR kTxIdFlag)" ts_init] sample_carries assms(2,3) by auto
  have "carries (tb_schema t) sample_columns sample_row" using sample_carries assms(2) by simp
  note r = insert_row_all [OF assms(1) this ins]
  let ?t = "table_commit_rows [word_of_nat (length rows)] 1 5 t1"
  have "wh_type (rec_header (sample_insert 1 1)) = wal_type_tag WalInsert"
    by (simp add: sample_insert_def new_record_def wal_header_def)
  moreover have "\<not> 1 \<le> tb_lsn t" using assms(4) by simp
  ultimately have "replay_record sample_commits (sample_insert 1 1) [t] = Some [?t]"
    using p parse ins by (simp add: replay_record_def replay_insert_def Let_def sample_insert_facts insert_row_def sample_commits_def)
  moreover have "tb_schema ?t = sample_schema" "tb_lsn ?t = tb_lsn t" "tb_free ?t = tb_free t1"
    using r assms(2) by (simp_all add: table_commit_rows_def Let_def)
  ultimately show ?thesis using insert_row_free [OF ins] commit_rep [OF r(2)] by auto
qed

lemma replay_other: "replay_record sample_commits (sample_insert 2 2) ts = Some ts"
  by (simp add: replay_record_def Let_def sample_insert_facts sample_commits_def)

theorem recovery_restores_committed_rows_witness:
  "\<exists>t'. pass2 sample_commits (map fst sample_log) [sample_empty] = Some [t'] \<and> table_rep t' [sample_row] \<and>
    table_versions t' = table_versions sample_empty + {#(0, 5, False)#}"
proof -
  obtain t' where t': "replay_record sample_commits (sample_insert 1 1) [sample_empty] = Some [t']"
    using replay_sample [OF history_rep [OF sample_empty_history(1)]] sample_empty_history(2,3) sample_recovering(2) by auto
  have pass: "pass2 sample_commits (map fst sample_log) [sample_empty] = Some [t']"
    using t' replay_other by (simp add: sample_log_def)
  have c: "\<forall>tx c. sample_commits tx = Some c \<longrightarrow> c < kTxIdFlag" by (simp add: kTxIdFlag_value sample_commits_def)
  from recovery_restores_committed_rows [OF pass sample_log_ok c, of "\<lambda>i. []"] pass show ?thesis
    by (simp add: sample_replayed sample_recovering(1))
qed

text \<open>
  C24: The second pass of a recovery reads the log twice, because the reader that is opened for
  it keeps the segments of the first pass, and a table's own log position, which should make this
  harmless, is the one it had when it was loaded: every committed row is restored twice.
\<close>

theorem recovery_applies_log_twice:
  assumes "seg_image bytes (map fst ls)" "(rs1, rs2) = wal_passes [(segment_name s, bytes)]"
    and "pass2 cs (in_window 0 None rs2) ts = Some ts'"
    and "\<forall>(r, opr) \<in> set ls. logs ts r opr \<and> wh_tx_id (rec_header r) < kMaxTx \<and> 0 < wh_lsn (rec_header r) \<and>
      (\<forall>i < length ts. tb_lsn (ts ! i) < wh_lsn (rec_header r))"
    and "\<forall>tx c. cs tx = Some c \<longrightarrow> c < kTxIdFlag"
    and "\<forall>i < length ts. recovering (ts ! i) (R i) (table_versions (ts ! i)) \<and> length (R i) + 2 * length (replayed cs i ls) < 2 ^ 64"
  shows "\<forall>i < length ts. table_rep (ts' ! i) (R i @ map fst (replayed cs i ls) @ map fst (replayed cs i ls))"
proof -
  have "rs2 = map fst (ls @ ls)" using second_pass_twice [OF assms(1), of s] assms(2) by simp
  moreover have "in_window 0 None (map fst (ls @ ls)) = map fst (ls @ ls)"
  proof -
    have "\<forall>r \<in> set (map fst ls). 0 < wh_lsn (rec_header r)" using assms(4) by fastforce
    then have "filter (\<lambda>r. 0 < wh_lsn (rec_header r)) (map fst ls) = map fst ls" by (intro filter_True) blast
    then show ?thesis by (simp add: in_window_def takeWhile_eq_all_conv [THEN iffD2])
  qed
  ultimately have pass: "pass2 cs (map fst (ls @ ls)) ts = Some ts'" using assms(3) by simp
  from pass2_rep [OF pass, of R "\<lambda>i. table_versions (ts ! i)"] assms(4-6) show ?thesis
    by (fastforce simp: recovering_def replayed_append)
qed

theorem recovery_applies_log_twice_witness:
  "\<exists>bytes t'. wal_passes [(segment_name 1, bytes)] = ([sample_insert 1 1], [sample_insert 1 1, sample_insert 1 1]) \<and>
    pass2 sample_commits [sample_insert 1 1, sample_insert 1 1] [sample_empty] = Some [t'] \<and> table_rep t' [sample_row, sample_row]"
proof -
  let ?ls = "[(sample_insert 1 1, LInsert 0 sample_columns sample_row)]"
  have "length (insert_payload 0 sample_columns) < 2 ^ 32"
    by (simp add: insert_payload_def sample_columns_def column_bytes_def)
  from new_record_image [OF this, of "\<lambda>_. 0" demo_env 1 WalInsert 1] obtain bytes where
    img: "seg_image bytes (map fst ?ls)" by (auto simp: sample_insert_def)
  have passes: "wal_passes [(segment_name 1, bytes)] = ([sample_insert 1 1], [sample_insert 1 1, sample_insert 1 1])"
    using second_pass_twice [OF img, of 1] by simp
  obtain t1 where t1: "replay_record sample_commits (sample_insert 1 1) [sample_empty] = Some [t1]" "tb_schema t1 = sample_schema"
      "tb_lsn t1 = 0" "64 \<le> Suc (length (tb_free t1))" "table_rep t1 [sample_row]"
    using replay_sample [OF history_rep [OF sample_empty_history(1)]] sample_empty_history sample_recovering(2) by auto
  then have "tb_free t1 \<noteq> []" by auto
  then obtain t2 where t2: "replay_record sample_commits (sample_insert 1 1) [t1] = Some [t2]"
    using replay_sample [OF t1(5,2)] t1(3) by auto
  have pass: "pass2 sample_commits [sample_insert 1 1, sample_insert 1 1] [sample_empty] = Some [t2]" using t1(1) t2 by simp
  have "in_window 0 None [sample_insert 1 1, sample_insert 1 1] = [sample_insert 1 1, sample_insert 1 1]"
    by (simp add: in_window_def sample_insert_facts)
  with pass have w: "pass2 sample_commits (in_window 0 None [sample_insert 1 1, sample_insert 1 1]) [sample_empty] = Some [t2]" by simp
  have ok: "\<forall>(r, opr) \<in> set ?ls. logs [sample_empty] r opr \<and> wh_tx_id (rec_header r) < kMaxTx \<and> 0 < wh_lsn (rec_header r) \<and>
      (\<forall>i < length [sample_empty]. tb_lsn ([sample_empty] ! i) < wh_lsn (rec_header r))"
    by (simp add: sample_insert_facts sample_recovering kMaxTx_def kTxIdFlag_value del: logs.simps)
  have c: "\<forall>tx c. sample_commits tx = Some c \<longrightarrow> c < kTxIdFlag" by (simp add: kTxIdFlag_value sample_commits_def)
  from recovery_applies_log_twice [OF img passes [symmetric] w ok c, of "\<lambda>i. []"]
  have "table_rep t2 [sample_row, sample_row]"
    by (simp add: sample_recovering(1) sample_insert_facts sample_commits_def)
  with passes pass show ?thesis by blast
qed

section \<open>Checkpoints\<close>

lemma checkpoint_lsn_saved:
  assumes "checkpoint io fenv db = Some (kOk, db')" "oe_read oenv ''checkpoint.meta''"
  shows "checkpoint_meta oenv (db_files db') = ww_next_lsn (db_wal db') \<and> db_wal db' = db_wal db"
proof -
  obtain s ts fs where t: "checkpoint_tables io 0 (db_tables db) (db_files db) = (s, ts, fs)" by (metis surj_pair)
  obtain s' fs' where w: "write_file fenv ''checkpoint.meta'' (put_u64 (current_lsn (db_wal db))) fs = (s', fs')" by fastforce
  have "s = kOk" "s' = kOk" "db_files db' = fs'" "db_wal db' = db_wal db"
    using assms(1) t w by (auto simp: checkpoint_def Let_def split: if_splits prod.splits)
  moreover from this(2) w have "fs' = file_put ''checkpoint.meta'' (put_u64 (current_lsn (db_wal db))) fs"
    by (auto simp: write_file_def split: if_splits option.splits)
  moreover have "u64_at (put_u64 w) 0 = w" for w using at_put(3) [of "[]" 0 w "[]"] by simp
  ultimately show ?thesis
    using assms(2) by (simp add: checkpoint_meta_def read_file_def current_lsn_def)
qed

text \<open>
  C25: A checkpoint saves the number that the next record will get, and recovery skips the records
  up to and including the saved number: the first record that is written after a checkpoint is not
  seen by either pass, whatever it is and whenever the target time.
\<close>

theorem checkpoint_hides_next_record:
  assumes "checkpoint io fenv db = Some (kOk, db')" "oe_read oenv ''checkpoint.meta''"
    and "append_record env tx ty payload (db_wal db') (db_wal_dir db') = (Inr lsn, l)"
  shows "\<forall>r \<in> set (in_window (checkpoint_meta oenv (db_files db')) target rs). wh_lsn (rec_header r) \<noteq> lsn"
proof -
  have "lsn = ww_next_lsn (db_wal db')"
    using assms(3) by (auto simp: append_record_def rotate_if_needed_def Let_def split: if_splits option.splits)
  then have "lsn = checkpoint_meta oenv (db_files db')" using checkpoint_lsn_saved [OF assms(1,2)] by simp
  then show ?thesis by (auto simp: in_window_def dest!: set_takeWhileD)
qed

theorem checkpoint_hides_next_record_witness:
  "\<exists>db' lsn l. checkpoint (\<lambda>_. io_fine) fe_fine sample_opened = Some (kOk, db') \<and>
    append_record demo_env 7 WalBegin [] (db_wal db') (db_wal_dir db') = (Inr lsn, l) \<and>
    (\<forall>r \<in> set (in_window (checkpoint_meta sample_open (db_files db')) None [new_record demo_env 7 WalBegin [] lsn]). wh_lsn (rec_header r) \<noteq> lsn)"
proof -
  have "map_option fst (checkpoint (\<lambda>_. io_fine) fe_fine sample_opened) = Some kOk" by code_simp
  then obtain db' where c: "checkpoint (\<lambda>_. io_fine) fe_fine sample_opened = Some (kOk, db')" by auto
  have r: "oe_read sample_open ''checkpoint.meta''" by (simp add: sample_open_def)
  have "ww_ready (db_wal db')" using checkpoint_lsn_saved [OF c r] sample_opened_facts(8) by simp
  from demo_append [OF this, of 7 WalBegin "[]"] obtain w d where
    a: "append_record demo_env 7 WalBegin [] (db_wal db') (db_wal_dir db') = (Inr (ww_next_lsn (db_wal db')), w, d)" by blast
  from checkpoint_hides_next_record [OF c r a] c a show ?thesis by blast
qed

section \<open>Schemas\<close>

lemma column_tag_roundtrip: "column_type_of_tag (column_type_tag ct) = Some ct"
  by (cases ct) (simp_all add: column_type_of_tag_def)

lemma schema_columns_roundtrip:
  "length ns = length cts \<Longrightarrow> list_all (\<lambda>n. length n < 2 ^ 32) ns \<Longrightarrow>
   schema_columns_from (length cts) (concat (map2 column_def_bytes ns cts) @ r) = Some (Inr (ns, cts))"
proof (induction ns cts rule: list_induct2)
  case (Cons n ns ct cts)
  then show ?case by (simp add: column_def_bytes_def codec_simps column_tag_roundtrip unat_word_of_nat32)
qed simp

text \<open>
  C34: A schema file reads back as the schema that was written, for any column types and names.
\<close>

theorem schema_roundtrip:
  assumes "length (sc_names S) = length (sc_columns S)" "length (sc_columns S) < 2 ^ 32"
    and "list_all (\<lambda>n. length n < 2 ^ 32) (sc_names S)"
  shows "schema_from_bytes (schema_to_bytes S) = Some (Inr S)"
proof -
  have "map (\<lambda>i. column_def_bytes (sc_names S ! i) (sc_columns S ! i)) [0..<length (sc_columns S)] =
      map2 column_def_bytes (sc_names S) (sc_columns S)"
    using assms(1) by (intro nth_equalityI) simp_all
  then have "schema_to_bytes S = put_u32 (word_of_nat (length (sc_columns S))) @ concat (map2 column_def_bytes (sc_names S) (sc_columns S)) @ []"
    using assms(2) by (simp add: schema_to_bytes_def Let_def unat_word_of_nat32)
  then show ?thesis
    using schema_columns_roundtrip [OF assms(1,3), of "[]"] assms(2)
    by (simp add: schema_from_bytes_def codec_simps unat_word_of_nat32)
qed

theorem schema_roundtrip_witness: "schema_from_bytes (schema_to_bytes sample_schema) = Some (Inr sample_schema)"
  by (rule schema_roundtrip) (simp_all add: sample_schema_def)

section \<open>The clock\<close>

lemma foldl_max:
  "foldl (\<lambda>m x. if f x > m then f x else m) (a :: 'a::linorder) xs \<in> insert a (f ` set xs) \<and>
   (\<forall>y \<in> insert a (f ` set xs). y \<le> foldl (\<lambda>m x. if f x > m then f x else m) a xs)"
proof (induction xs arbitrary: a)
  case (Cons x xs)
  from Cons [of "if f x > a then f x else a"] show ?case by (auto split: if_splits)
qed simp

definition index_stamps :: "Table list \<Rightarrow> Timestamp set" where
  "index_stamps ts = {ie_ts e | t e. t \<in> set ts \<and> e \<in> set (vi_entries (tb_vindex t))}"

lemma restored_max:
  "\<exists>m \<in> insert 0 (index_stamps ts). (\<forall>x \<in> index_stamps ts. x \<le> m) \<and>
    snd (restore_timestamps ts a) = (if 0 < m then set_next (m + 1) a else a)"
proof -
  let ?f = "\<lambda>t. fst (version_index_max_ts t)"
  let ?m = "foldl (\<lambda>m t. if ?f t > m then ?f t else m) 0 ts"
  have f: "?f t \<in> insert 0 (ie_ts ` set (vi_entries (tb_vindex t)))" "\<forall>e \<in> set (vi_entries (tb_vindex t)). ie_ts e \<le> ?f t" for t
    using foldl_max [of ie_ts "0 :: u64" "vi_entries (ensure_sorted (tb_vindex t))"]
    by (auto simp: version_index_max_ts_def max_timestamp_def split_beta Let_def)
  have m: "?m \<in> insert 0 (?f ` set ts)" "\<forall>y \<in> insert 0 (?f ` set ts). y \<le> ?m"
    using foldl_max [of ?f "0 :: u64" ts] by blast+
  have "?m \<in> insert 0 (index_stamps ts)" using m(1) f(1) by (fastforce simp: index_stamps_def)
  moreover have "\<forall>x \<in> index_stamps ts. x \<le> ?m" using m(2) f(2) by (auto simp: index_stamps_def intro: order_trans)
  ultimately show ?thesis by (intro bexI [of _ ?m]) (simp_all add: restore_timestamps_def Let_def)
qed

text \<open>The clock of an opened database: the two passes over the log leave it alone.\<close>

lemma opened_clock:
  assumes "db_open env target db = Some (st, db')" "\<not> db_is_open db"
    and "load_tables env (db_files db) (db_files db) (db_tables db) (db_timestamps db) = Some (ts, a)"
  shows "db_timestamps db' = snd (restore_timestamps (fst (load_indexes env (db_files db) ts [])) a)"
  using assms
  by (auto simp: db_open_def Let_def set_log_def split: option.splits prod.splits if_splits)

text \<open>Attaching the indexes of columns leaves the version indexes as they are.\<close>

lemma attach_index_versions: "map tb_vindex (snd (attach_index env bs name ci i ts)) = map tb_vindex ts"
  by (induction ts arbitrary: i) (auto simp: Let_def add_index_def split_beta split: sum.splits)

lemma load_indexes_versions: "map tb_vindex (fst (load_indexes env fs ts hooked)) = map tb_vindex ts"
proof (induction env fs ts hooked rule: load_indexes.induct)
  case (2 env n bs rest ts hooked)
  then show ?case
    using attach_index_versions
    by (auto simp: Let_def split_beta split: option.splits)
qed simp

lemma index_stamps_vindex: "index_stamps ts = (\<Union>vi \<in> set (map tb_vindex ts). ie_ts ` set (vi_entries vi))"
  by (auto simp: index_stamps_def)

text \<open>
  C36: Opening a database sets the clock from the version indexes that are stored with its tables:
  if none of their versions is uncommitted or rolled back (and the allocator is not at its end),
  the next timestamp is above all of them. This happens before the log is replayed, and
  the replay does not move the clock: a row that comes back from the log can carry a larger
  timestamp (\<open>replay_keeps_clock\<close> below).
\<close>

theorem restored_clock_is_ahead:
  assumes "db_open env target db = Some (st, db')" "\<not> db_is_open db"
    and "load_tables env (db_files db) (db_files db) (db_tables db) (db_timestamps db) = Some (ts, a)"
    and "\<forall>x \<in> index_stamps ts. x < kTxIdFlag" "next_ts a \<noteq> -1"
  shows "\<forall>x \<in> index_stamps ts. x < fst (allocate_ts (db_timestamps db'))"
proof -
  let ?ts1 = "fst (load_indexes env (db_files db) ts [])"
  have same: "index_stamps ?ts1 = index_stamps ts" by (simp only: index_stamps_vindex load_indexes_versions)
  have clock: "db_timestamps db' = snd (restore_timestamps ?ts1 a)" using assms(1-3) by (rule opened_clock)
  obtain m where m: "m \<in> insert 0 (index_stamps ts)" "\<forall>x \<in> index_stamps ts. x \<le> m"
    "snd (restore_timestamps ?ts1 a) = (if 0 < m then set_next (m + 1) a else a)"
    using restored_max [of ?ts1 a] unfolding same by blast
  have "m < kTxIdFlag" using m(1) assms(4) by (auto simp: kTxIdFlag_value)
  then have "unat m < 2 ^ 63" by (simp add: kTxIdFlag_value word_less_nat_alt)
  then have "unat (m + 1) = unat m + 1" using unat_word_of_nat64 [of "unat m + 1"] by (simp add: add.commute)
  then have "m < m + 1" by (simp add: word_less_nat_alt)
  moreover have "0 < next_ts a + 1" using assms(5) by (metis add_eq_0_iff2 word_gt_0)
  ultimately have "m < fst (allocate_ts (db_timestamps db'))"
    using m(3) by (cases "m = 0") (auto simp: clock set_next_def allocate_ts_def word_gt_0)
  with m(2) show ?thesis by (blast intro: le_less_trans)
qed

definition sample_versions :: "Timestamp \<Rightarrow> Table" where
  "sample_versions ts = insert_version_entries (tombstones ts [3]) sample_empty"

lemma sample_stamps: "index_stamps [sample_versions ts] = {ts}"
proof -
  have "tb_vindex sample_empty = vi_init"
    by (simp add: sample_empty_def open_file_def table_init_def mmap_open_def mmap_init_def os_fine_def)
  then show ?thesis by (simp add: index_stamps_def sample_versions_def insert_version_entries_def tombstones_def vi_init_def insert_bulk_def)
qed

text \<open>A directory with a table whose version index has one version, of timestamp 9.\<close>

definition stamped_db :: Database where
  "stamped_db = db_init\<lparr>db_files := [(''t.schema'', schema_to_bytes sample_schema),
     (''t.vindex'', fst (vi_serialize (insert_bulk (tombstones 9 [3]) vi_init)))]\<rparr>"

lemma stamped_names:
  "path_extension ''t.schema'' = ''.schema''" "path_stem ''t.schema'' = ''t''" "path_extension ''t.vindex'' = ''.vindex''"
  by code_simp+

lemma stamped_index:
  "vi_deserialize (fst (vi_serialize (insert_bulk (tombstones 9 [3]) vi_init))) vi_init =
   Some (Inr (length (fst (vi_serialize (insert_bulk (tombstones 9 [3]) vi_init)))), \<lparr>vi_entries = tombstones 9 [3], vi_dirty = False\<rparr>)"
proof -
  have "vi_entries (ensure_sorted (insert_bulk (tombstones 9 [3]) vi_init)) = tombstones 9 [3]" by code_simp
  then show ?thesis
    using serialize_deserialize [of "insert_bulk (tombstones 9 [3]) vi_init" vi_init]
    by (simp add: insert_bulk_def vi_init_def tombstones_def kMaxEntries_def)
qed

lemma stamped_log: "ww_open demo_env wal_writer_init [] = Some (kOk, demo_writer, demo_dir)" "wal_passes demo_dir = ([], [])"
  by code_simp+

lemma stamped_loaded:
  "load_tables sample_open (db_files stamped_db) (db_files stamped_db) [] ts_init =
    Some ([(snd (recover os_fine sample_empty))\<lparr>tb_vindex := \<lparr>vi_entries = tombstones 9 [3], vi_dirty = False\<rparr>\<rparr>], ts_init)"
proof -
  have s: "schema_from_bytes (schema_to_bytes sample_schema) = Some (Inr sample_schema)" by code_simp
  have op: "open_file os_fine [] (table_init ''t'' sample_schema) = (kOk, sample_empty)"
    by (simp add: sample_empty_def open_file_def table_init_def mmap_open_def mmap_init_def os_fine_def)
  have v: "tb_vindex (snd (recover os_fine sample_empty)) = vi_init" by code_simp
  show ?thesis
    using s op v stamped_index
    by (simp add: stamped_db_def stamped_names load_table_def sample_open_def raw_name_def vindex_name_def load_vindex_def)
qed

lemma stamped_opened: "\<exists>db'. db_open sample_open None stamped_db = Some (kOk, db')"
proof -
  have "db_wal stamped_db = wal_writer_init" "db_wal_dir stamped_db = []" "db_tables stamped_db = []"
    "db_timestamps stamped_db = ts_init" "\<not> db_is_open stamped_db" "oe_wal sample_open = demo_env"
    by (simp_all add: stamped_db_def db_init_def sample_open_def)
  then show ?thesis using stamped_loaded stamped_log by (simp add: db_open_def Let_def split_beta in_window_def)
qed

theorem restored_clock_is_ahead_witness:
  "\<exists>db'. db_open sample_open None stamped_db = Some (kOk, db') \<and> 9 < fst (allocate_ts (db_timestamps db'))"
proof -
  obtain db' where opened: "db_open sample_open None stamped_db = Some (kOk, db')" using stamped_opened by blast
  let ?ts = "[(snd (recover os_fine sample_empty))\<lparr>tb_vindex := \<lparr>vi_entries = tombstones 9 [3], vi_dirty = False\<rparr>\<rparr>]"
  have loaded: "load_tables sample_open (db_files stamped_db) (db_files stamped_db) (db_tables stamped_db)
      (db_timestamps stamped_db) = Some (?ts, ts_init)" "\<not> db_is_open stamped_db"
    using stamped_loaded by (simp_all add: stamped_db_def db_init_def)
  have "index_stamps ?ts = {9}" by (simp add: index_stamps_def tombstones_def)
  with restored_clock_is_ahead [OF opened loaded(2,1)] opened show ?thesis
    by (simp add: kTxIdFlag_value ts_init_def)
qed

text \<open>
  A row that the log brings back is given the commit timestamp of its record, whatever the clock
  is: the replay takes no timestamp allocator. With an empty version index on disk the clock starts at
  zero, and a row committed at 9 is above the snapshots that are taken next.
\<close>

lemma replay_keeps_clock:
  assumes "db_open env target db = Some (st, db')" "\<not> db_is_open db"
    and "load_tables env (db_files db) (db_files db) (db_tables db) (db_timestamps db) = Some (ts, a)"
    and "index_stamps ts = {}"
  shows "db_timestamps db' = a"
proof -
  let ?ts1 = "fst (load_indexes env (db_files db) ts [])"
  have "index_stamps ?ts1 = {}" using assms(4) by (simp only: index_stamps_vindex load_indexes_versions)
  then show ?thesis using opened_clock [OF assms(1-3)] restored_max [of ?ts1 a] by auto
qed

text \<open>
  C37: One version of a rolled back transaction on disk resets the clock: its mark is the largest
  timestamp there is, one more than it wraps to zero, and so the first timestamp after the restart
  is zero, at or below those of all committed versions.
\<close>

theorem rollback_resets_clock:
  assumes "-1 \<in> index_stamps ts"
  shows "fst (allocate_ts (snd (restore_timestamps ts a))) = 0"
proof -
  obtain m where m: "\<forall>x \<in> index_stamps ts. x \<le> m" "snd (restore_timestamps ts a) = (if 0 < m then set_next (m + 1) a else a)"
    using restored_max [of ts a] by blast
  from m(1) assms have "- 1 \<le> m" by blast
  then have "m = -1" by (simp add: word_order.extremum_unique)
  moreover have "(0 :: u64) < - 1" by (simp add: word_gt_0)
  ultimately show ?thesis using m(2) by (simp add: set_next_def allocate_ts_def)
qed

theorem rollback_resets_clock_witness: "fst (allocate_ts (snd (restore_timestamps [sample_versions (- 1)] ts_init))) = 0"
  by (rule rollback_resets_clock) (simp add: sample_stamps)

section \<open>Backups\<close>

end
