(* ===== verification/Exec_Where.thy ===== *)
theory Exec_Where
  imports Exec_Shape Db_Durability Scan_Rows
begin

text \<open>
  A \<open>WHERE\<close> expression on a row of cells, and the filter of the executor on a full scan: it
  selects the rows for which the expression holds.
\<close>

section \<open>Expressions on rows\<close>

abbreviation cell32 :: "byte list \<Rightarrow> u32" where "cell32 c \<equiv> word_of_nat (le_nat c)"
abbreviation cell64 :: "byte list \<Rightarrow> u64" where "cell64 c \<equiv> word_of_nat (le_nat c)"

fun cell_holds :: "ColumnType \<Rightarrow> CmpOp \<Rightarrow> Value \<Rightarrow> byte list \<Rightarrow> bool" where
  "cell_holds t op (VInt v) c \<longleftrightarrow>
     (t = kInt64 \<or> t = kTimestamp) \<and> apply_int (sint (cell64 c)) (sint v) op \<or>
     t = kInt32 \<and> apply_int (sint (cell32 c)) (sint v) op"
| "cell_holds t op (VDouble v) c \<longleftrightarrow> t = kFloat64 \<and>
     (if op = CmpEq then f64_eq (cell64 c) v else apply_double (cell64 c) v op)"
| "cell_holds t op (VStr v) c \<longleftrightarrow> t = kVarChar \<and> apply_str (bytes_string c) v op"

fun row_holds :: "Schema \<Rightarrow> ExprNode \<Rightarrow> Cells \<Rightarrow> bool" where
  "row_holds S (EAnd l r) row \<longleftrightarrow> row_holds S l row \<and> row_holds S r row"
| "row_holds S (EOr l r) row \<longleftrightarrow> row_holds S l row \<or> row_holds S r row"
| "row_holds S (EPred p) row \<longleftrightarrow>
     (case get_column_index S (cr_name (pr_column p)) of Inl _ \<Rightarrow> False
      | Inr ci \<Rightarrow>
          if pr_op p = CmpIn then \<exists>v \<in> set (pr_in_values p). cell_holds (sc_columns S ! ci) CmpEq v (row ! ci)
          else cell_holds (sc_columns S ! ci) (pr_op p) (pr_value p) (row ! ci))"

text \<open>What the filter needs of literals and of the doubles that an \<open>IN\<close> list is compared with.\<close>

fun where_ok :: "Schema \<Rightarrow> Cells list \<Rightarrow> ExprNode \<Rightarrow> bool" where
  "where_ok S rows (EAnd l r) \<longleftrightarrow> where_ok S rows l \<and> where_ok S rows r"
| "where_ok S rows (EOr l r) \<longleftrightarrow> where_ok S rows l \<and> where_ok S rows r"
| "where_ok S rows (EPred p) \<longleftrightarrow>
     (case get_column_index S (cr_name (pr_column p)) of Inl _ \<Rightarrow> True
      | Inr ci \<Rightarrow>
          if pr_op p = CmpIn
          then list_all (literal_ok (sc_columns S ! ci)) (pr_in_values p) \<and>
               (sc_columns S ! ci = kFloat64 \<longrightarrow> list_all (\<lambda>row. \<not> f64_nan (cell64 (row ! ci))) rows)
          else literal_ok (sc_columns S ! ci) (pr_value p))"

section \<open>The meaning in SQL\<close>

text \<open>The value of a cell, and what a \<open>WHERE\<close> expression of SQL says of a row.\<close>

definition cell_value :: "ColumnType \<Rightarrow> byte list \<Rightarrow> SqlValue" where
  "cell_value t c =
     (case t of kInt32 \<Rightarrow> SqlInt (sint (cell32 c))
      | kInt64 \<Rightarrow> SqlInt (sint (cell64 c))
      | kTimestamp \<Rightarrow> SqlInt (sint (cell64 c))
      | kFloat64 \<Rightarrow> SqlDouble (cell64 c)
      | kVarChar \<Rightarrow> SqlText (bytes_string c)
      | kBool \<Rightarrow> SqlBool (c \<noteq> [0]))"

fun sql_row :: "Schema \<Rightarrow> ExprNode \<Rightarrow> Cells \<Rightarrow> bool" where
  "sql_row S (EAnd l r) row \<longleftrightarrow> sql_row S l row \<and> sql_row S r row"
| "sql_row S (EOr l r) row \<longleftrightarrow> sql_row S l row \<or> sql_row S r row"
| "sql_row S (EPred p) row \<longleftrightarrow>
     (case get_column_index S (cr_name (pr_column p)) of Inl _ \<Rightarrow> False
      | Inr ci \<Rightarrow> sql_pred p (cell_value (sc_columns S ! ci) (row ! ci)))"

text \<open>When the filter computes it: literals of the types of their columns, and no NaN
  in a column that is compared with an \<open>IN\<close> list.\<close>

fun where_typed :: "Schema \<Rightarrow> Cells list \<Rightarrow> ExprNode \<Rightarrow> bool" where
  "where_typed S rows (EAnd l r) \<longleftrightarrow> where_typed S rows l \<and> where_typed S rows r"
| "where_typed S rows (EOr l r) \<longleftrightarrow> where_typed S rows l \<and> where_typed S rows r"
| "where_typed S rows (EPred p) \<longleftrightarrow>
     (case get_column_index S (cr_name (pr_column p)) of Inl _ \<Rightarrow> True
      | Inr ci \<Rightarrow> pred_fits (sc_columns S ! ci) p \<and>
          (pr_op p = CmpIn \<and> sc_columns S ! ci = kFloat64 \<longrightarrow> list_all (\<lambda>row. \<not> f64_nan (cell64 (row ! ci))) rows))"

lemma cell_holds_sql: "literal_fits t op v \<Longrightarrow> cell_holds t op v c \<longleftrightarrow> sql_holds op (cell_value t c) (literal_value v)"
  by (cases t; cases v; cases op) (simp_all add: cell_value_def sql_holds_int sql_holds_double sql_holds_text)

lemma row_holds_sql: "where_typed S rows e \<Longrightarrow> row_holds S e row \<longleftrightarrow> sql_row S e row"
proof (induction e)
  case (EPred p)
  then show ?case
    using cell_holds_sql
    by (cases "get_column_index S (cr_name (pr_column p))")
      (auto simp: sql_pred_def pred_fits_def list_all_iff split: if_splits)
qed simp_all

lemma where_typed_ok: "where_typed S rows e \<Longrightarrow> where_ok S rows e"
  using literal_fits_ok
  by (induction e) (fastforce simp: pred_fits_def list_all_iff split: sum.splits if_splits)+

section \<open>Columns of a scan\<close>

lemma arr_cells:
  assumes "cd_data col = column_bytes_of ct cells" "list_all (cell_ok ct) cells" "i < length cells"
  shows "ct = kInt32 \<Longrightarrow> arr32 col i = cell32 (cells ! i)"
    and "ct = kInt64 \<or> ct = kTimestamp \<or> ct = kFloat64 \<Longrightarrow> arr64 col i = cell64 (cells ! i)"
    and "ct = kVarChar \<Longrightarrow> length (concat cells) < 2 ^ 32 \<Longrightarrow> arr_str col (length cells) i = bytes_string (cells ! i)"
proof -
  have fixed: "take (column_element_size) (drop (i * column_element_size) (cd_data col)) = cells ! i"
    if "ct \<noteq> kVarChar" "column_element_size = column_elem_size ct" for column_element_size
    using concat_fixed_nth [of column_element_size cells i "[]"] assms that
    by (simp add: column_bytes_of_def cell_ok_def list_all_iff)
  show "arr32 col i = cell32 (cells ! i)" if "ct = kInt32"
    using fixed [of 4] that by (simp add: arr32_def u32_at_def mult.commute)
  show "arr64 col i = cell64 (cells ! i)" if "ct = kInt64 \<or> ct = kTimestamp \<or> ct = kFloat64"
    using fixed [of 8] that by (auto simp: arr64_def u64_at_def mult.commute)
  show "arr_str col (length cells) i = bytes_string (cells ! i)" if ct: "ct = kVarChar" and small: "length (concat cells) < 2 ^ 32"
  proof -
    let ?n = "\<lambda>k. length (concat (take k cells))"
    have d: "cd_data col = concat (map put_u32 (cums 0 cells)) @ concat cells @ []" using assms(1) ct by (simp add: column_bytes_of_def)
    note sc = string_column_cell [OF _ small, of _ "[]", folded d]
    have e: "u32_at (cd_data col) (4 * i) = word_of_nat (?n (Suc i))" using sc(1) [OF assms(3)] by (simp only: mult.commute)
    have s: "(if i = 0 then 0 else u32_at (cd_data col) (4 * (i - 1))) = word_of_nat (?n i)"
      using sc(1) [of "i - 1"] assms(3) by (cases i) (simp_all add: mult.commute)
    have "?n (Suc i) = ?n i + length (cells ! i)" by (rule take_suc_length [OF assms(3)])
    moreover have "?n (Suc i) < 2 ^ 32" using length_concat_take_le [of "Suc i" cells] small by simp
    ultimately have u: "unat (word_of_nat (?n (Suc i)) - word_of_nat (?n i) :: u32) = length (cells ! i)"
      "unat (word_of_nat (?n i) :: u32) = ?n i"
      by (simp_all add: unat_word_of_nat32)
    show ?thesis unfolding arr_str_def Let_def e s u sc(2) [OF assms(3)] by (rule refl)
  qed
qed

lemma cmp_cell:
  assumes "cd_data col = column_bytes_of ct cells" "list_all (cell_ok ct) cells" "i < length cells"
    and "ct = kVarChar \<longrightarrow> length (concat cells) < 2 ^ 32"
  shows "cmp_holds ct col (length cells) op v i = cell_holds ct op v (cells ! i)"
  using arr_cells [OF assms(1-3)] assms(4) by (cases v) auto

lemma clear_not_null:
  assumes "nulls_clear ct cells ns" "ct = kVarChar \<longrightarrow> [] \<notin> set cells" "i < length cells"
    and "cd_nulls col = (if ns = [] then None else Some ns)"
  shows "\<not> is_null col i"
proof -
  have ns: "set ns \<subseteq> {0}" "length cells \<le> 8 * length ns" using assms(1,2) by (simp_all add: nulls_clear_def)
  then have "i div 8 < length ns" using assms(3) by linarith
  then have "ns ! (i div 8) = 0" using ns(1) nth_mem by blast
  then show ?thesis using assms(4) by (simp add: is_null_def split: option.splits)
qed

section \<open>The filter on a scan\<close>

definition strings_small :: "Schema \<Rightarrow> Cells list \<Rightarrow> bool" where
  "strings_small S rows \<longleftrightarrow> (\<forall>ci < column_count S. sc_columns S ! ci = kVarChar \<longrightarrow> length (concat (column_of rows ci)) < 2 ^ 32)"

definition strings_present :: "Schema \<Rightarrow> Cells list \<Rightarrow> bool" where
  "strings_present S rows \<longleftrightarrow> (\<forall>ci < column_count S. sc_columns S ! ci = kVarChar \<longrightarrow> [] \<notin> set (column_of rows ci))"

definition scan_of :: "Schema \<Rightarrow> Cells list \<Rightarrow> ColumnData list \<Rightarrow> bool" where
  "scan_of S rows cols \<longleftrightarrow> (\<forall>ci < column_count S. cd_data (cols ! ci) = column_bytes_of (sc_columns S ! ci) (column_of rows ci) \<and>
     (\<forall>i < length rows. \<not> is_null (cols ! ci) i))"

lemma index_of_range: "index_of ns name k = Inr i \<Longrightarrow> k \<le> i \<and> i < k + length ns"
  by (induction ns arbitrary: k) (fastforce split: if_splits)+

lemma pred_row:
  assumes "scan_of S rows cols" "list_all (row_ok S) rows" "strings_small S rows" "length (sc_names S) = column_count S" "i < length rows"
  shows "pred_holds cols S (length rows) p i = row_holds S (EPred p) (rows ! i)"
proof (cases "get_column_index S (cr_name (pr_column p))")
  case (Inr ci)
  then have ci: "ci < column_count S" using index_of_range [of "sc_names S" _ 0 ci] assms(4) by (simp add: get_column_index_def)
  let ?cells = "column_of rows ci" and ?ct = "sc_columns S ! ci"
  have n: "length ?cells = length rows" "?cells ! i = rows ! i ! ci" using assms(5) by (simp_all add: column_of_def)
  have "cmp_holds ?ct (cols ! ci) (length ?cells) op v i = cell_holds ?ct op v (?cells ! i)" for op v
    using cmp_cell [of "cols ! ci" ?ct ?cells i] assms column_of_ok [OF assms(2), of ci] ci n(1)
    by (simp add: scan_of_def strings_small_def column_count_def)
  then show ?thesis using Inr assms(1,5) ci n by (simp add: pred_holds_def in_holds_def scan_of_def)
qed (simp add: pred_holds_def)

lemma expr_row:
  assumes "scan_of S rows cols" "list_all (row_ok S) rows" "strings_small S rows" "length (sc_names S) = column_count S" "i < length rows"
  shows "expr_holds cols S (length rows) e i = row_holds S e (rows ! i)"
  by (induction e) (simp_all add: pred_row [OF assms] del: row_holds.simps(3))

lemma expr_ok_scan:
  assumes "scan_of S rows cols" "list_all (row_ok S) rows" "length (sc_names S) = column_count S"
  shows "where_ok S rows e \<Longrightarrow> expr_ok cols S (length rows) e"
proof (induction e)
  case (EPred p)
  show ?case
  proof (cases "get_column_index S (cr_name (pr_column p))")
    case (Inr ci)
    then have ci: "ci < column_count S" using index_of_range [of "sc_names S" _ 0 ci] assms(3) by (simp add: get_column_index_def)
    have "arr64 (cols ! ci) i = cell64 (rows ! i ! ci)" if "sc_columns S ! ci = kFloat64" "i < length rows" for i
      using arr_cells(2) [of "cols ! ci" kFloat64 "column_of rows ci" i] assms(1) column_of_ok [OF assms(2), of ci] ci that
      by (simp add: scan_of_def column_of_def column_count_def)
    then show ?thesis using EPred Inr by (auto simp: pred_ok_def list_all_iff split: if_splits)
  qed (simp add: pred_ok_def)
qed simp_all

lemma filter_scan:
  assumes "scan_of S rows cols" "list_all (row_ok S) rows" "strings_small S rows" "length (sc_names S) = column_count S"
    and "where_ok S rows e"
  shows "evaluate cpu cols S (length rows) (Some e) =
    (if expr_known S e then Inr (filter (\<lambda>i. row_holds S e (rows ! i)) [0..<length rows]) else Inl kNotFound)"
proof -
  have "filter (expr_holds cols S (length rows) e) [0..<length rows] = filter (\<lambda>i. row_holds S e (rows ! i)) [0..<length rows]"
    by (rule filter_cong) (simp_all add: expr_row [OF assms(1-4)])
  then show ?thesis using evaluate_expr_correct [OF expr_ok_scan [OF assms(1,2,4,5)], of cpu] by (simp add: evaluate_def)
qed

lemma scan_all_of:
  assumes "table_rep t rows" "table_small t" "pending t = []" "rows \<noteq> []" "column_count (tb_schema t) \<noteq> 0"
    and "strings_present (tb_schema t) rows"
  shows "\<exists>scan. read_table_columns t = Inr scan \<and> sr_row_count scan = length rows \<and>
    length (sr_columns scan) = column_count (tb_schema t) \<and> scan_of (tb_schema t) rows (sr_columns scan)"
proof -
  obtain scan where scan: "read_table_columns t = Inr scan" "sr_row_count scan = length rows"
      "length (sr_columns scan) = column_count (tb_schema t)"
    and col: "\<forall>ci < column_count (tb_schema t).
      cd_data (sr_columns scan ! ci) = column_bytes_of (sc_columns (tb_schema t) ! ci) (column_of rows ci) \<and>
      (\<exists>ns. cd_nulls (sr_columns scan ! ci) = (if ns = [] then None else Some ns) \<and>
        nulls_clear (sc_columns (tb_schema t) ! ci) (column_of rows ci) ns)"
    using scan_all_rows [OF assms(1-5)] by blast
  have "\<not> is_null (sr_columns scan ! ci) i" if "ci < column_count (tb_schema t)" "i < length rows" for ci i
    using col that assms(6) clear_not_null [of "sc_columns (tb_schema t) ! ci" "column_of rows ci" _ i "sr_columns scan ! ci"]
    by (auto simp: strings_present_def column_of_def)
  with scan col show ?thesis by (auto simp: scan_of_def)
qed

section \<open>Indexes\<close>

lemma flush_loop_indexes: "tb_indexes (snd (flush_loop envs t)) = tb_indexes t"
proof (induction envs t rule: flush_loop.induct)
  case (1 envs t)
  show ?case
  proof (cases "pop_flush_queue t")
    case (Some bt)
    obtain b t1 where bt: "bt = (b, t1)" by (cases bt)
    define env where "env = (case envs of [] \<Rightarrow> os_fine | e # _ \<Rightarrow> e)"
    obtain s t2 where w: "write_batch_to_page env b t1 = (s, t2)" by fastforce
    have "tb_indexes t1 = tb_indexes t" using Some bt by (auto simp: pop_flush_queue_def split: list.splits)
    moreover have "tb_indexes t2 = tb_indexes t1"
      using w by (auto simp: write_batch_to_page_def Let_def insert_version_entries_def split: prod.splits if_splits)
    moreover have "s = kOk \<Longrightarrow> tb_indexes (snd (flush_loop (tl envs) (return_free_batch b t2))) = tb_indexes (return_free_batch b t2)"
      using "1.IH" [OF Some bt [symmetric] env_def refl w [symmetric]] by simp
    ultimately show ?thesis
      using Some bt w by (subst flush_loop.simps) (simp add: env_def [symmetric] Let_def push_flush_queue_def return_free_batch_def)
  qed (simp add: flush_loop.simps)
qed

lemma flush_pending_indexes: "tb_indexes (snd (flush_pending envs t)) = tb_indexes t"
  by (simp add: flush_pending_def flush_loop_indexes queue_active_def push_flush_queue_def split: option.splits)

lemma no_index_rids: "tb_indexes t = [] \<or> se_where stmt = None \<Longrightarrow> index_rids stmt t = Some None"
  by (auto simp: index_rids_def index_lookup_def split: option.splits ExprNode.splits)

end
