(* ===== verification/Exec_Correct.thy ===== *)
theory Exec_Correct
  imports Exec_Where
begin

text \<open>
  What the executor promises: a \<open>SELECT\<close> delivers the text of the cells of exactly the rows that
  its snapshot sees, an \<open>INSERT\<close> appends the cells of its literals, and what happens to unknown
  columns and to transactions over the C interface.
\<close>

section \<open>The text of a cell\<close>

definition cell_string :: "ColumnType \<Rightarrow> byte list \<Rightarrow> string" where
  "cell_string ct c =
     (let w32 = word_of_nat (le_nat c) :: u32; w64 = word_of_nat (le_nat c) :: u64
      in case ct of
           kInt32 \<Rightarrow> dec_int (sint w32)
         | kInt64 \<Rightarrow> dec_int (sint w64)
         | kTimestamp \<Rightarrow> timestamp_to_string (sint w64)
         | kFloat64 \<Rightarrow> f64_to_string w64
         | kBool \<Rightarrow> if le_nat c \<noteq> 0 then ''true'' else ''false''
         | kVarChar \<Rightarrow> bytes_string c)"

lemma length_concat_fixed: "list_all (\<lambda>c. length c = k) cells \<Longrightarrow> length (concat cells) = length cells * k"
  by (induction cells) simp_all

lemma elem_fixed:
  assumes "list_all (\<lambda>c. length c = k) cells" "i < length cells" "cd_data col = concat cells"
  shows "elem k col i = Some (cells ! i)"
proof -
  have "(i + 1) * k \<le> length cells * k" using assms(2) by (intro mult_le_mono1) simp
  then show ?thesis
    using concat_fixed_nth [OF assms(1,2), of "[]"] length_concat_fixed [OF assms(1)] assms(3) by (simp add: elem_def)
qed

text \<open>The end of a string, and the string between two ends.\<close>

lemma cums_elem:
  assumes "i < length cells" "cd_data col = concat (map put_u32 (cums 0 cells)) @ r"
  shows "elem32 col i = Some (word_of_nat (length (concat (take (Suc i) cells))))"
proof -
  let ?p = "map put_u32 (cums 0 cells)"
  have f: "list_all (\<lambda>c. length c = 4) ?p" by (simp add: list_all_iff)
  have "i * 4 + 4 \<le> length (concat ?p)" using assms(1) length_concat_fixed [OF f] by simp
  moreover have "take 4 (drop (i * 4) (concat ?p @ r)) = ?p ! i" using concat_fixed_nth [OF f] assms(1) by simp
  ultimately show ?thesis using assms cums_nth [of i cells 0] by (simp add: elem32_def elem_def)
qed

lemma blob_between:
  assumes "i < length cells"
  shows "take (length (cells ! i)) (drop (length (concat (take i cells))) (concat cells)) = cells ! i"
    "length (concat (take (Suc i) cells)) = length (concat (take i cells)) + length (cells ! i)"
    "length (concat (take (Suc i) cells)) \<le> length (concat cells)"
proof -
  have "concat cells = concat (take i cells) @ cells ! i @ concat (drop (Suc i) cells)"
    using id_take_nth_drop [OF assms] by (metis concat.simps(2) concat_append)
  then show "take (length (cells ! i)) (drop (length (concat (take i cells))) (concat cells)) = cells ! i"
    "length (concat (take (Suc i) cells)) \<le> length (concat cells)"
    using assms by (simp_all add: take_Suc_conv_app_nth)
  show "length (concat (take (Suc i) cells)) = length (concat (take i cells)) + length (cells ! i)"
    using assms by (simp add: take_Suc_conv_app_nth)
qed

lemma varchar_bounds:
  assumes "i < length cells" "length (concat cells) < 2 ^ 32" "cd_data col = column_bytes_of kVarChar cells"
  obtains start stop where "str_bounds col i = Some (start, stop)" "unat start = length (concat (take i cells))"
    "unat stop = length (concat (take (Suc i) cells))" "unat (stop - start) = length (cells ! i)" "\<not> stop < start"
proof
  let ?start = "length (concat (take i cells))" and ?stop = "length (concat (take (Suc i) cells))"
  have d: "cd_data col = concat (map put_u32 (cums 0 cells)) @ concat cells" using assms(3) by (simp add: column_bytes_of_def)
  note b = blob_between [OF assms(1)]
  show "str_bounds col i = Some (word_of_nat ?start, word_of_nat ?stop)"
    using cums_elem [OF _ d] assms(1) by (cases i) (simp_all add: str_bounds_def)
  have "?stop < 2 ^ 32" "?start < 2 ^ 32" using b(2,3) assms(2) by linarith+
  then show u: "unat (word_of_nat ?start :: u32) = ?start" "unat (word_of_nat ?stop :: u32) = ?stop"
    by (simp_all only: unat_word_of_nat32)
  show "unat (word_of_nat ?stop - word_of_nat ?start :: u32) = length (cells ! i)"
    using b(2,3) assms(2) by (simp add: unat_word_of_nat32)
  show "\<not> (word_of_nat ?stop :: u32) < word_of_nat ?start" using u b(2) by (simp add: word_less_nat_alt)
qed

lemma varchar_text:
  assumes "i < length cells" "length (concat cells) < 2 ^ 32" "cd_data col = column_bytes_of kVarChar cells"
  shows "varchar_to_string col i (length cells) = Some (bytes_string (cells ! i))"
proof -
  have d: "cd_data col = concat (map put_u32 (cums 0 cells)) @ concat cells" using assms(3) by (simp add: column_bytes_of_def)
  obtain start stop where b: "str_bounds col i = Some (start, stop)" "unat start = length (concat (take i cells))"
      "unat stop = length (concat (take (Suc i) cells))" "unat (stop - start) = length (cells ! i)" "\<not> stop < start"
    using varchar_bounds [OF assms] .
  then show ?thesis using blob_between [OF assms(1)] d by (simp add: varchar_to_string_def Let_def)
qed

lemma cell_to_string:
  assumes "list_all (cell_ok ct) cells" "i < length cells" "ct = kVarChar \<longrightarrow> length (concat cells) < 2 ^ 32"
    and "cd_data col = column_bytes_of ct cells" "cd_nulls col = None"
  shows "value_to_string col ct i (length cells) = Some (cell_string ct (cells ! i))"
proof (cases "ct = kVarChar")
  case True
  then show ?thesis
    using varchar_text [OF assms(2), of col] assms(3-5) by (simp add: value_to_string_def null_bit_def cell_string_def)
next
  case False
  then have "list_all (\<lambda>c. length c = column_elem_size ct) cells" using assms(1) by (simp add: cell_ok_def list_all_iff)
  from elem_fixed [OF this assms(2)] False assms(4) have e: "elem (column_elem_size ct) col i = Some (cells ! i)"
    by (simp add: column_bytes_of_def)
  show ?thesis
    using e False assms(5)
    by (cases ct) (simp_all add: value_to_string_def null_bit_def cell_string_def elem32_def elem64_def elem_bool_def)
qed

section \<open>The rows that a snapshot sees\<close>

lemma search_table:
  "snd (search_version_index rid ts t) = t\<lparr>tb_vindex := ensure_sorted (tb_vindex t)\<rparr>"
  by (simp add: search_version_index_def search_def split_beta Let_def)

lemma visible_rows_filter:
  assumes "vi_inv (tb_vindex t)" "pending t = []"
    and "\<forall>rid \<in> set rids. \<forall>ts'. (rid, ts', False) \<in># table_versions t \<longrightarrow> ts' < kTxIdFlag \<longrightarrow> (rid, ts', True) \<notin># table_versions t"
  shows "\<exists>vi. visible_rows ts rids t = (filter (visible (table_versions t) ts) rids, t\<lparr>tb_vindex := vi\<rparr>)"
  using assms
proof (induction rids arbitrary: t)
  case Nil
  have "t = t\<lparr>tb_vindex := tb_vindex t\<rparr>" by simp
  then show ?case by (metis filter.simps(1) visible_rows.simps(1))
next
  case (Cons rid rids)
  let ?t = "t\<lparr>tb_vindex := ensure_sorted (tb_vindex t)\<rparr>"
  obtain r where r: "search_version_index rid ts t = (r, ?t)" using search_table [of rid ts t] by (metis surjective_pairing)
  have v: "table_versions ?t = table_versions t" by (simp add: table_versions_def index_versions_def pending_def)
  have "vi_inv (tb_vindex ?t)" using Cons.prems(1) ensure_sorted_inv by (simp add: vi_inv_def)
  moreover have "pending ?t = []" using Cons.prems(2) by (simp add: pending_def)
  ultimately obtain vi where vi: "visible_rows ts rids ?t = (filter (visible (table_versions t) ts) rids, ?t\<lparr>tb_vindex := vi\<rparr>)"
    using Cons.IH [of ?t] Cons.prems(3) by (auto simp: v)
  have "(\<exists>off. r = Inr off \<and> off \<noteq> kNotFoundOff) = visible (table_versions t) ts rid"
    using search_visible [OF Cons.prems(1,2), of rid ts] Cons.prems(3) r by simp
  then show ?case using r vi by (auto split: sum.splits)
qed

section \<open>\<open>SELECT\<close> of columns\<close>

text \<open>A \<open>SELECT\<close> of all or of distinct known columns, possibly with \<open>WHERE\<close>, \<open>LIMIT\<close> and \<open>OFFSET\<close>.\<close>

definition plain_select :: "Schema \<Rightarrow> SelectStmt \<Rightarrow> bool" where
  "plain_select S stmt \<longleftrightarrow> se_join_clause stmt = None \<and> se_order_by stmt = None \<and> se_group_by stmt = [] \<and>
     list_all (\<lambda>c. cr_func c = AggNone \<and> \<not> cr_is_star c \<and> cr_name c \<in> set (sc_names S)) (se_columns stmt) \<and>
     distinct (map cr_name (se_columns stmt)) \<and> distinct (sc_names S) \<and> length (sc_names S) = column_count S \<and> column_count S \<noteq> 0"

definition out_columns :: "Schema \<Rightarrow> SelectStmt \<Rightarrow> nat list" where
  "out_columns S stmt =
     (if se_columns stmt = [] then [0..<column_count S] else map (\<lambda>c. the (first_column S (cr_name c))) (se_columns stmt))"

definition row_text :: "Schema \<Rightarrow> SelectStmt \<Rightarrow> Cells \<Rightarrow> string list" where
  "row_text S stmt row = map (\<lambda>ci. cell_string (sc_columns S ! ci) (row ! ci)) (out_columns S stmt)"

lemma unique_column:
  assumes "distinct (sc_names S)" "i < length (sc_names S)"
  shows "first_column S (sc_names S ! i) = Some i" "last_column S (sc_names S ! i) = Some i"
proof -
  have f: "find P xs = Some i" if "i \<in> set xs" "\<And>x. x \<in> set xs \<Longrightarrow> P x = (x = i)" for P xs
    using that by (induction xs) auto
  have "(sc_names S ! j = sc_names S ! i) = (j = i)" if "j < length (sc_names S)" for j
    using nth_eq_iff_index_eq [OF assms(1) that assms(2)] .
  then show "first_column S (sc_names S ! i) = Some i" "last_column S (sc_names S ! i) = Some i"
    unfolding first_column_def last_column_def using assms(2) by (auto intro!: f)
qed

lemma known_column:
  assumes "plain_select S stmt" "c \<in> set (se_columns stmt)"
  shows "\<exists>ci < column_count S. sc_names S ! ci = cr_name c \<and> first_column S (cr_name c) = Some ci \<and> last_column S (cr_name c) = Some ci"
proof -
  have "cr_name c \<in> set (sc_names S)" using assms by (simp add: plain_select_def list_all_iff)
  then obtain i where "i < length (sc_names S)" "sc_names S ! i = cr_name c" by (auto simp: in_set_conv_nth)
  with unique_column [of S i] assms(1) show ?thesis by (intro exI [of _ i]) (simp add: plain_select_def)
qed

lemma map_filter_all: "(\<And>x. x \<in> set xs \<Longrightarrow> f x = Some (g x)) \<Longrightarrow> List.map_filter f xs = map g xs"
  by (induction xs) (simp_all add: List.map_filter_simps)

lemma plain_columns:
  assumes "plain_select S stmt"
  shows "select_indices S stmt = out_columns S stmt" "distinct (out_columns S stmt)" "out_columns S stmt \<noteq> []"
    "set (out_columns S stmt) \<subseteq> {..<column_count S}" "\<not> is_aggregate stmt"
    "se_columns stmt \<noteq> [] \<Longrightarrow> map (\<lambda>c. last_column S (cr_name c)) (se_columns stmt) = map Some (out_columns S stmt)"
proof -
  let ?f = "\<lambda>c. the (first_column S (cr_name c))"
  have k: "first_column S (cr_name c) = Some (?f c)" "last_column S (cr_name c) = Some (?f c)" "?f c < column_count S"
    "sc_names S ! ?f c = cr_name c" if "c \<in> set (se_columns stmt)" for c
    using known_column [OF assms that] by auto
  have g: "group_by_indices S stmt = []" using assms by (simp add: plain_select_def group_by_indices_def List.map_filter_simps)
  have "filter (\<lambda>c. \<not> cr_is_star c) (se_columns stmt) = se_columns stmt"
    using assms by (simp add: plain_select_def list_all_iff)
  moreover have "List.map_filter (\<lambda>c. first_column S (cr_name c)) (se_columns stmt) = map ?f (se_columns stmt)"
    using k(1) by (rule map_filter_all)
  ultimately show "select_indices S stmt = out_columns S stmt"
    using assms by (simp add: select_indices_def g out_columns_def plain_select_def)
  have "inj_on ?f (set (se_columns stmt))"
  proof (rule inj_onI)
    fix c d assume "c \<in> set (se_columns stmt)" "d \<in> set (se_columns stmt)" "?f c = ?f d"
    then have "cr_name c = cr_name d" using k(4) by metis
    then show "c = d" using assms \<open>c \<in> _\<close> \<open>d \<in> _\<close> by (auto simp: plain_select_def distinct_map dest: inj_onD)
  qed
  then show "distinct (out_columns S stmt)" using assms by (auto simp: out_columns_def plain_select_def distinct_map)
  show "out_columns S stmt \<noteq> []" using assms by (simp add: out_columns_def plain_select_def)
  show "set (out_columns S stmt) \<subseteq> {..<column_count S}" using k(3) by (auto simp: out_columns_def)
  show "\<not> is_aggregate stmt" using assms by (auto simp: plain_select_def is_aggregate_def list_ex_iff list_all_iff)
  show "map (\<lambda>c. last_column S (cr_name c)) (se_columns stmt) = map Some (out_columns S stmt)" if "se_columns stmt \<noteq> []"
    using that k(2) by (simp add: out_columns_def)
qed

lemma those_map_Some: "(\<And>x. x \<in> set xs \<Longrightarrow> f x = Some (g x)) \<Longrightarrow> those (map f xs) = Some (map g xs)"
  by (induction xs) simp_all

lemma none_those: "x \<in> set xs \<Longrightarrow> f x = None \<Longrightarrow> those (map f xs) = None"
  by (induction xs) (auto split: option.splits)

text \<open>The cells of some of the rows take no more room than those of all.\<close>

lemma chosen_cells_small:
  assumes "distinct rs" "set rs \<subseteq> {..<n}"
  shows "length (concat (map f rs)) \<le> length (concat (map f [0..<n]))"
proof -
  have "(\<Sum>r \<in> set rs. length (f r)) \<le> (\<Sum>r \<in> {..<n}. length (f r))" using assms(2) by (intro sum_mono2) auto
  then show ?thesis
    using sum_list_distinct_conv_sum_set [OF assms(1), of "\<lambda>r. length (f r)"]
    by (simp add: length_concat comp_def atLeast0LessThan interv_sum_list_conv_sum_set_nat)
qed

lemma plain_result:
  assumes "plain_select (tb_schema t) stmt" "table_rep t rows" "table_small t" "distinct rs" "set rs \<subseteq> {..<length rows}"
    and "strings_small (tb_schema t) rows"
  shows "result_rows (tb_schema t) stmt t (map word_of_nat rs) = Some (Inr (map (\<lambda>r. row_text (tb_schema t) stmt (rows ! r)) rs))"
proof (cases "rs = []")
  case True
  then show ?thesis using plain_columns(5) [OF assms(1)] by (simp add: result_rows_def)
next
  case False
  let ?S = "tb_schema t" and ?cols = "out_columns (tb_schema t) stmt"
  note p = plain_columns [OF assms(1)]
  define data where "data = map (\<lambda>ci. if ci \<in> set ?cols then column_bytes_of (sc_columns ?S ! ci) (cells_at rows rs ci) else []) [0..<length (sc_columns ?S)]"
  define scan where "scan = \<lparr>sr_col_data = data,
    sr_columns = map2 (\<lambda>ct d. \<lparr>cd_type = column_type_tag ct, cd_data = d, cd_nulls = None\<rparr>) (sc_columns ?S) data, sr_row_count = 0\<rparr>"
  have read: "read_rows t (map word_of_nat rs) ?cols = Inr scan"
    using read_rows_data [OF assms(2,3) _ False p(3,2,4)] assms(5) by (auto simp: scan_def data_def)
  have cell: "cell_text ?S scan (length rs) ri (Some ci) = Some (cell_string (sc_columns ?S ! ci) (rows ! (rs ! ri) ! ci))"
    if "ci \<in> set ?cols" "ri < length rs" for ci ri
  proof -
    let ?cells = "cells_at rows rs ci" and ?ct = "sc_columns ?S ! ci"
    have ci: "ci < length (sc_columns ?S)" using p(4) that(1) by (auto simp: column_count_def)
    have ok: "list_all (cell_ok ?ct) ?cells"
      using table_rep_rows_ok [OF assms(2)] assms(5) ci by (auto simp: cells_at_def list_all_iff intro!: row_ok_nth)
    have "map (\<lambda>r. rows ! r ! ci) [0..<length rows] = map (\<lambda>r. r ! ci) rows" by (rule nth_equalityI) simp_all
    then have "length (concat ?cells) \<le> length (concat (map (\<lambda>r. r ! ci) rows))"
      using chosen_cells_small [OF assms(4,5), of "\<lambda>r. rows ! r ! ci"] by (simp only: cells_at_def)
    then have small: "?ct = kVarChar \<longrightarrow> length (concat ?cells) < 2 ^ 32" using assms(6) ci
      by (fastforce simp: strings_small_def column_of_def column_count_def)
    have col: "length (sr_columns scan) = length (sc_columns ?S)" "cd_data (sr_columns scan ! ci) = column_bytes_of ?ct ?cells"
      "cd_nulls (sr_columns scan ! ci) = None" using ci that(1) by (simp_all add: scan_def data_def)
    have "length ?cells = length rs" "?cells ! ri = rows ! (rs ! ri) ! ci" using that(2) by (simp_all add: cells_at_def)
    with cell_to_string [OF ok _ small col(2,3), of ri] that(2) col(1) ci show ?thesis by (simp add: cell_text_def)
  qed
  have "(if se_columns stmt = [] then map Some (select_indices ?S stmt) else map (\<lambda>c. last_column ?S (cr_name c)) (se_columns stmt)) = map Some ?cols"
    using p(1,6) by simp
  then have "plain_rows ?S stmt scan (length rs) =
      those (map (\<lambda>ri. those (map (cell_text ?S scan (length rs) ri) (map Some ?cols))) [0..<length rs])"
    by (simp only: plain_rows_def Let_def)
  also have "\<dots> = Some (map (\<lambda>ri. row_text ?S stmt (rows ! (rs ! ri))) [0..<length rs])"
  proof (rule those_map_Some)
    fix ri assume "ri \<in> set [0..<length rs]"
    then have "those (map (\<lambda>ci. cell_text ?S scan (length rs) ri (Some ci)) ?cols) =
        Some (map (\<lambda>ci. cell_string (sc_columns ?S ! ci) (rows ! (rs ! ri) ! ci)) ?cols)"
      by (intro those_map_Some cell) simp_all
    then show "those (map (cell_text ?S scan (length rs) ri) (map Some ?cols)) = Some (row_text ?S stmt (rows ! (rs ! ri)))"
      by (simp add: row_text_def comp_def)
  qed
  also have "map (\<lambda>ri. row_text ?S stmt (rows ! (rs ! ri))) [0..<length rs] = map (\<lambda>r. row_text ?S stmt (rows ! r)) rs"
    by (rule nth_equalityI) simp_all
  finally show ?thesis using read False p(1,5) by (simp add: result_rows_def)
qed

lemma find_table_index:
  assumes "find_table name db = Some tid" "length (db_tables db) < 2 ^ 32"
  shows "unat tid < length (db_tables db)"
proof -
  obtain i where i: "find (\<lambda>i. tb_name (db_tables db ! i) = name) [0..<length (db_tables db)] = Some i" "tid = word_of_nat i"
    using assms(1) by (auto simp: find_table_def)
  then have "i < length (db_tables db)" by (auto simp: find_Some_iff)
  then show ?thesis using tid_index [OF _ assms(2)] i(2) by simp
qed

text \<open>What a statement finds after its flush.\<close>

lemma flush_table_facts:
  assumes "db_inv db" "unat tid < length (db_tables db)" "table_rep (db_tables db ! unat tid) rows" "length rows < 2 ^ 30"
    and "list_all os_ok (ee_flush env tid)"
    and "list_all (batch_small (tb_schema (db_tables db ! unat tid))) (pending (db_tables db ! unat tid))"
  shows "\<exists>t. flush_table env tid db = (kOk, set_table tid t db) \<and> table_rep t rows \<and> table_small t \<and> pending t = [] \<and>
    tb_schema t = tb_schema (db_tables db ! unat tid) \<and> vi_inv (tb_vindex t) \<and>
    tb_indexes t = tb_indexes (db_tables db ! unat tid) \<and> table_versions t = table_versions (db_tables db ! unat tid)"
proof -
  let ?t = "db_tables db ! unat tid"
  have inv: "table_inv ?t" using assms(1,2) by (simp add: db_inv_def)
  obtain t where t: "flush_pending (ee_flush env tid) ?t = (kOk, t)" "table_rep t rows" "pending t = []" "tb_schema t = tb_schema ?t"
    using flush_pending_rep [OF assms(3,5,6)] by blast
  have small: "table_small t" using few_rows_small [OF t(2) assms(4) t(3)] .
  then have "length (mf_disk (tb_file t)) < 2 ^ 64" by (simp add: table_small_def)
  from flush_pending_versions [OF table_inv_facts(4) [OF inv] assms(5) t(1) table_inv_facts(1) [OF inv] this] table_inv_facts(3) [OF inv] t small
    flush_pending_indexes [of "ee_flush env tid" ?t]
  show ?thesis by (intro exI [of _ t]) (simp add: flush_table_def)
qed

text \<open>What the filter needs for the \<open>WHERE\<close>: no index, known columns, fitting literals, no empty strings.\<close>

definition where_fits :: "Table \<Rightarrow> Cells list \<Rightarrow> SelectStmt \<Rightarrow> bool" where
  "where_fits t rows stmt \<longleftrightarrow> (case se_where stmt of None \<Rightarrow> True
     | Some w \<Rightarrow> tb_indexes t = [] \<and> expr_known (tb_schema t) w \<and> where_ok (tb_schema t) rows w \<and>
         strings_small (tb_schema t) rows \<and> strings_present (tb_schema t) rows \<and> length (sc_names (tb_schema t)) = column_count (tb_schema t))"

definition admits :: "Schema \<Rightarrow> SelectStmt \<Rightarrow> Cells \<Rightarrow> bool" where
  "admits S stmt row \<longleftrightarrow> (case se_where stmt of None \<Rightarrow> True | Some w \<Rightarrow> row_holds S w row)"

text \<open>
  The same in terms of SQL: what the condition of a \<open>SELECT\<close> says of a row, and when the executor
  evaluates it so. The table has no index, every column exists, the literals have the types of
  their columns, and no string is empty.
\<close>

definition sql_admits :: "Schema \<Rightarrow> SelectStmt \<Rightarrow> Cells \<Rightarrow> bool" where
  "sql_admits S stmt row \<longleftrightarrow> (case se_where stmt of None \<Rightarrow> True | Some w \<Rightarrow> sql_row S w row)"

definition where_regular :: "Table \<Rightarrow> Cells list \<Rightarrow> SelectStmt \<Rightarrow> bool" where
  "where_regular t rows stmt \<longleftrightarrow> (case se_where stmt of None \<Rightarrow> True
     | Some w \<Rightarrow> tb_indexes t = [] \<and> expr_known (tb_schema t) w \<and> where_typed (tb_schema t) rows w \<and>
         strings_present (tb_schema t) rows \<and> length (sc_names (tb_schema t)) = column_count (tb_schema t))"

lemma regular_fits: "where_regular t rows stmt \<Longrightarrow> strings_small (tb_schema t) rows \<Longrightarrow> where_fits t rows stmt"
  by (auto simp: where_regular_def where_fits_def where_typed_ok split: option.splits)

lemma regular_admits: "where_regular t rows stmt \<Longrightarrow> admits (tb_schema t) stmt = sql_admits (tb_schema t) stmt"
  by (auto simp: where_regular_def admits_def sql_admits_def row_holds_sql split: option.splits)

lemma scan_matching:
  assumes "table_rep t rows" "table_small t" "pending t = []" "rows \<noteq> []" "column_count (tb_schema t) \<noteq> 0" "where_fits t rows stmt"
  obtains scan where "read_table_columns t = Inr scan"
    "(case se_where stmt of None \<Rightarrow> Inr [0..<sr_row_count scan]
      | Some w \<Rightarrow> evaluate cpu (sr_columns scan) (tb_schema t) (sr_row_count scan) (Some w)) =
     Inr (filter (\<lambda>r. admits (tb_schema t) stmt (rows ! r)) [0..<length rows])"
proof (cases "se_where stmt")
  case None
  obtain scan where "read_table_columns t = Inr scan" "sr_row_count scan = length rows" using scan_all_rows [OF assms(1-5)] by blast
  with None show thesis by (intro that [of scan]) (simp_all add: admits_def)
next
  case (Some w)
  then have w: "expr_known (tb_schema t) w" "where_ok (tb_schema t) rows w" "strings_small (tb_schema t) rows"
    "strings_present (tb_schema t) rows" "length (sc_names (tb_schema t)) = column_count (tb_schema t)"
    using assms(6) by (simp_all add: where_fits_def)
  obtain scan where scan: "read_table_columns t = Inr scan" "sr_row_count scan = length rows" "scan_of (tb_schema t) rows (sr_columns scan)"
    using scan_all_of [OF assms(1-5) w(4)] by blast
  from filter_scan [OF scan(3) table_rep_rows_ok [OF assms(1)] w(3,5,2), of cpu] w(1) scan(1,2) Some show thesis
    by (intro that [of scan]) (simp_all add: admits_def)
qed

text \<open>A \<open>SELECT\<close> without order and aggregates finds the visible rows of the table that its \<open>WHERE\<close> admits.\<close>

lemma select_found:
  fixes c :: "TxId option"
  assumes "db_history db" "find_table (se_table_name stmt) db = Some tid"
    and "table_rep (db_tables db ! unat tid) rows" "rows \<noteq> []" "length rows < 2 ^ 30"
    and "se_join_clause stmt = None" "where_fits (db_tables db ! unat tid) rows stmt" "se_order_by stmt = None" "\<not> is_aggregate stmt"
    and "column_count (tb_schema (db_tables db ! unat tid)) \<noteq> 0" "list_all os_ok (ee_flush env tid)"
    and "list_all (batch_small (tb_schema (db_tables db ! unat tid))) (pending (db_tables db ! unat tid))"
    and "\<forall>rid ts. (rid, ts, False) \<in># table_versions (db_tables db ! unat tid) \<longrightarrow> ts < kTxIdFlag \<longrightarrow>
      (rid, ts, True) \<notin># table_versions (db_tables db ! unat tid)"
  defines "S \<equiv> tb_schema (db_tables db ! unat tid)"
  defines "rs \<equiv> cut_limit (se_limit stmt) (skip_offset (se_offset stmt)
    (filter (\<lambda>r. admits S stmt (rows ! r) \<and>
       visible (table_versions (db_tables db ! unat tid)) (fst (read_timestamp c db)) (word_of_nat r)) [0..<length rows]))"
  shows "\<exists>t db'. table_rep t rows \<and> table_small t \<and> tb_schema t = S \<and> distinct rs \<and> set rs \<subseteq> {..<length rows} \<and>
    execute_select env stmt c db =
      map_option (\<lambda>r. (map_sum id (\<lambda>rows. (select_header S stmt)\<lparr>qr_rows := rows\<rparr>) r, db')) (result_rows S stmt t (map word_of_nat rs))"
proof -
  let ?t = "db_tables db ! unat tid" and ?m = "fst (read_timestamp c db)"
  note inv = history_inv [OF assms(1)]
  have lt: "unat tid < length (db_tables db)" using find_table_index [OF assms(2)] inv by (simp add: db_inv_def)
  obtain t where t: "flush_table env tid db = (kOk, set_table tid t db)" "table_rep t rows" "table_small t" "pending t = []"
      "tb_schema t = S" "vi_inv (tb_vindex t)" "table_versions t = table_versions ?t" "tb_indexes t = tb_indexes ?t"
    using flush_table_facts [OF inv lt assms(3,5,11,12)] by (auto simp: S_def)
  obtain db2 where ts: "read_timestamp c (set_table tid t db) = (?m, db2)" and db2: "db_tables db2 = (db_tables db)[unat tid := t]"
    by (cases c) (auto simp: read_timestamp_def set_table_def allocate_ts_def)
  have cc: "column_count (tb_schema t) \<noteq> 0" using assms(10) t(5) by (simp add: S_def)
  have fits: "where_fits t rows stmt" using assms(7) unfolding where_fits_def t(5,8) S_def .
  obtain scan where scan: "read_table_columns t = Inr scan"
    "(case se_where stmt of None \<Rightarrow> Inr [0..<sr_row_count scan]
      | Some w \<Rightarrow> evaluate (ee_cpu env) (sr_columns scan) (tb_schema t) (sr_row_count scan) (Some w)) =
     Inr (filter (\<lambda>r. admits S stmt (rows ! r)) [0..<length rows])"
    using scan_matching [OF t(2,3,4) assms(4) cc fits] t(5) by metis
  let ?match = "filter (\<lambda>r. admits S stmt (rows ! r)) [0..<length rows]"
  obtain vi where vis: "visible_rows ?m (map word_of_nat ?match) t =
      (filter (visible (table_versions ?t) ?m) (map word_of_nat ?match), t\<lparr>tb_vindex := vi\<rparr>)"
    using visible_rows_filter [OF t(6,4), of "map word_of_nat ?match" ?m] assms(13) t(7) by auto
  define found where "found = filter (\<lambda>r. admits S stmt (rows ! r) \<and> visible (table_versions ?t) ?m (word_of_nat r)) [0..<length rows]"
  have rs: "rs = cut_limit (se_limit stmt) (skip_offset (se_offset stmt) found)" by (simp add: rs_def found_def)
  have "index_rids stmt t = Some None" using fits by (intro no_index_rids) (auto simp: where_fits_def split: option.splits)
  moreover have "filter (visible (table_versions ?t) ?m) (map word_of_nat ?match) = map word_of_nat found"
    by (simp add: found_def filter_map comp_def conj_commute)
  ultimately have rows: "find_rows env stmt ?m t = Some (Inr (map word_of_nat found), t\<lparr>tb_vindex := vi\<rparr>)"
    using assms(8) scan vis by (simp add: find_rows_def rows_by_scan_def order_rows_def)
  have cut: "cut_limit (se_limit stmt) (skip_offset (se_offset stmt) (map word_of_nat found :: RowId list)) = map word_of_nat rs"
    by (simp add: rs cut_limit_def skip_offset_def drop_map take_map split: option.splits)
  have dist: "distinct rs" "set rs \<subseteq> {..<length rows}"
    by (auto simp: rs found_def cut_limit_def skip_offset_def split: option.splits dest!: in_set_takeD in_set_dropD)
  have "execute_select env stmt c db =
      map_option (\<lambda>r. (map_sum id (\<lambda>rows. (select_header S stmt)\<lparr>qr_rows := rows\<rparr>) r, set_table tid (t\<lparr>tb_vindex := vi\<rparr>) db2))
        (result_rows S stmt (t\<lparr>tb_vindex := vi\<rparr>) (map word_of_nat rs))"
    using assms(2,6,9) t(1,5) ts db2 lt rows cut by (simp add: execute_select_def select_one_def Let_def)
  moreover have "table_rep (t\<lparr>tb_vindex := vi\<rparr>) rows" "table_small (t\<lparr>tb_vindex := vi\<rparr>)" "tb_schema (t\<lparr>tb_vindex := vi\<rparr>) = S"
    using vindex_rep [OF t(2)] t(3,5) by (simp_all add: table_small_def)
  ultimately show ?thesis using dist by blast
qed

text \<open>The result of such a \<open>SELECT\<close>.\<close>

lemma select_plain:
  assumes "db_history db" "find_table (se_table_name stmt) db = Some tid"
    and "table_rep (db_tables db ! unat tid) rows" "rows \<noteq> []" "length rows < 2 ^ 30"
    and "plain_select (tb_schema (db_tables db ! unat tid)) stmt" "list_all os_ok (ee_flush env tid)"
    and "list_all (batch_small (tb_schema (db_tables db ! unat tid))) (pending (db_tables db ! unat tid))"
    and "strings_small (tb_schema (db_tables db ! unat tid)) rows" "where_fits (db_tables db ! unat tid) rows stmt"
    and "\<forall>rid ts. (rid, ts, False) \<in># table_versions (db_tables db ! unat tid) \<longrightarrow> ts < kTxIdFlag \<longrightarrow>
      (rid, ts, True) \<notin># table_versions (db_tables db ! unat tid)"
  shows "\<exists>db'. execute_select env stmt c db = Some (Inr ((select_header (tb_schema (db_tables db ! unat tid)) stmt)\<lparr>qr_rows :=
      map (\<lambda>r. row_text (tb_schema (db_tables db ! unat tid)) stmt (rows ! r))
        (cut_limit (se_limit stmt) (skip_offset (se_offset stmt)
          (filter (\<lambda>r. admits (tb_schema (db_tables db ! unat tid)) stmt (rows ! r) \<and>
          visible (table_versions (db_tables db ! unat tid)) (fst (read_timestamp c db)) (word_of_nat r)) [0..<length rows])))\<rparr>), db')"
proof -
  let ?S = "tb_schema (db_tables db ! unat tid)"
  have p: "se_join_clause stmt = None" "se_order_by stmt = None" "\<not> is_aggregate stmt" "column_count ?S \<noteq> 0"
    using assms(6) plain_columns(5) [OF assms(6)] by (simp_all add: plain_select_def)
  from select_found [OF assms(1-5) p(1) assms(10) p(2-4) assms(7,8,11), of c] obtain t db' rs where t: "table_rep t rows" "table_small t" "tb_schema t = ?S"
      "distinct rs" "set rs \<subseteq> {..<length rows}"
    and rs: "rs = cut_limit (se_limit stmt) (skip_offset (se_offset stmt)
        (filter (\<lambda>r. admits (tb_schema (db_tables db ! unat tid)) stmt (rows ! r) \<and>
          visible (table_versions (db_tables db ! unat tid)) (fst (read_timestamp c db)) (word_of_nat r)) [0..<length rows]))"
    and q: "execute_select env stmt c db =
      map_option (\<lambda>r. (map_sum id (\<lambda>rows. (select_header ?S stmt)\<lparr>qr_rows := rows\<rparr>) r, db')) (result_rows ?S stmt t (map word_of_nat rs))"
    by blast
  have "result_rows ?S stmt t (map word_of_nat rs) = Some (Inr (map (\<lambda>r. row_text ?S stmt (rows ! r)) rs))"
    using plain_result [of t stmt rows rs] assms(6,9) t by simp
  then show ?thesis using q rs by simp
qed


text \<open>
  C19: Results are rectangular: whatever statement is executed on whatever database, every row of
  its result has as many fields as the result has columns. The exception is an aggregation
  without a list of columns (\<open>SELECT * ... GROUP BY\<close>), whose rows have no fields.
\<close>

theorem results_are_rectangular:
  assumes "execute env stmt c db = Some (Inr q, c', db')" "\<not> bare_aggregate stmt"
  shows "\<forall>row \<in> set (qr_rows q). length row = length (qr_column_names q)"
  using execute_rectangular [OF assms] by (simp add: rectangular_def list_all_iff)

text \<open>
  C26: A column that the table does not have is not refused: as soon as the snapshot sees a row
  (and the limit keeps one), selecting such a column reads outside the vector of the columns.
\<close>

theorem unknown_column_crashes:
  assumes "db_history db" "find_table (se_table_name stmt) db = Some tid"
    and "table_rep (db_tables db ! unat tid) rows" "rows \<noteq> []" "length rows < 2 ^ 30"
    and "se_join_clause stmt = None" "where_fits (db_tables db ! unat tid) rows stmt" "se_order_by stmt = None" "\<not> is_aggregate stmt"
    and "column_count (tb_schema (db_tables db ! unat tid)) \<noteq> 0" "list_all os_ok (ee_flush env tid)"
    and "list_all (batch_small (tb_schema (db_tables db ! unat tid))) (pending (db_tables db ! unat tid))"
    and "\<forall>rid ts. (rid, ts, False) \<in># table_versions (db_tables db ! unat tid) \<longrightarrow> ts < kTxIdFlag \<longrightarrow>
      (rid, ts, True) \<notin># table_versions (db_tables db ! unat tid)"
    and "c \<in> set (se_columns stmt)" "cr_name c \<notin> set (sc_names (tb_schema (db_tables db ! unat tid)))"
    and "cut_limit (se_limit stmt) (skip_offset (se_offset stmt)
        (filter (\<lambda>r. admits (tb_schema (db_tables db ! unat tid)) stmt (rows ! r) \<and>
          visible (table_versions (db_tables db ! unat tid)) (fst (read_timestamp tx db)) (word_of_nat r)) [0..<length rows])) \<noteq> []"
  shows "execute_select env stmt tx db = None"
proof -
  let ?S = "tb_schema (db_tables db ! unat tid)"
  from select_found [OF assms(1-13), of tx] assms(16) obtain t db' rs where rs: "rs \<noteq> []"
    and q: "execute_select env stmt tx db =
      map_option (\<lambda>r. (map_sum id (\<lambda>rows. (select_header ?S stmt)\<lparr>qr_rows := rows\<rparr>) r, db')) (result_rows ?S stmt t (map word_of_nat rs))"
    by blast
  have "last_column ?S (cr_name c) = None"
    using assms(15) by (auto simp: last_column_def find_None_iff in_set_conv_nth)
  then have "those (map (cell_text ?S scan n ri) (map (\<lambda>c. last_column ?S (cr_name c)) (se_columns stmt))) = None" for scan n ri
    using none_those [of "None" "map (\<lambda>c. last_column ?S (cr_name c)) (se_columns stmt)" "cell_text ?S scan n ri"] assms(14)
    by (force simp: cell_text_def)
  then have "plain_rows ?S stmt scan (length rs) = None" for scan
    using assms(14) rs by (cases "se_columns stmt") (auto simp: plain_rows_def Let_def upt_rec)
  moreover have "\<exists>scan. read_rows t (map word_of_nat rs) (select_indices ?S stmt) = Inr scan"
    by (simp add: read_rows_def Let_def split: prod.splits)
  ultimately have "result_rows ?S stmt t (map word_of_nat rs) = None"
    using rs assms(9) by (auto simp: result_rows_def)
  then show ?thesis using q by simp
qed

subsection \<open>A sample\<close>

definition sample_inserted_db :: Database where
  "sample_inserted_db = snd (the (db_insert demo_env 0 sample_columns None sample_created))"

lemma sample_inserted_facts:
  "db_history sample_inserted_db" "next_ts (db_timestamps sample_inserted_db) = 1" "length (db_tables sample_inserted_db) = 1"
  "table_rep (db_tables sample_inserted_db ! 0) [sample_row]" "tb_schema (db_tables sample_inserted_db ! 0) = sample_schema"
  "table_versions (db_tables sample_inserted_db ! 0) = {#(0, 1, False)#}"
  "list_all (batch_small sample_schema) (pending (db_tables sample_inserted_db ! 0))"
  "tb_name (db_tables sample_inserted_db ! 0) = ''t''" "tb_indexes (db_tables sample_inserted_db ! 0) = []"
proof -
  obtain w d where log: "append_insert demo_env 0 0 sample_columns (db_wal sample_created) (db_wal_dir sample_created) =
      (Inr (ww_next_lsn (db_wal sample_created)), w, d)"
    using demo_append [OF sample_created_facts(6)] unfolding append_insert_def by blast
  let ?t = "sample_empty\<lparr>tb_lsn := ww_next_lsn (db_wal sample_created)\<rparr>"
  have rep: "table_rep ?t []" using lsn_rep [OF history_rep [OF sample_empty_history(1)]] .
  have car: "carries (tb_schema ?t) sample_columns sample_row" using sample_carries sample_empty_history(2) by simp
  obtain t' a' where ins: "insert_row_with allocate_ts sample_columns ?t ts_init = Some (Inr 0, t', a')"
    using insert_row_rep [OF rep car, of allocate_ts ts_init] sample_empty_history by auto
  note all = insert_row_all [OF rep car ins]
  have w: "db_insert demo_env 0 sample_columns None sample_created = Some (Inr 0, sample_inserted_db)"
      "sample_inserted_db = (set_table 0 t' (set_log (w, d) sample_created))\<lparr>db_timestamps := a'\<rparr>"
    using log ins by (simp_all add: sample_inserted_db_def db_insert_def sample_created_facts insert_row_alloc_def Let_def kInvalidTxId_def)
  have "db_step sample_created sample_inserted_db"
    by (rule db_step.row [OF _ _ _ _ w(1), of sample_row])
      (use sample_created_facts sample_carries sample_empty_history in \<open>auto simp: clock_room_def ts_init_def\<close>)
  with sample_created_facts(1) show "db_history sample_inserted_db" by (rule db_history.stepped)
  have t: "db_tables sample_inserted_db ! 0 = t'" by (simp add: w(2) sample_created_facts)
  have e: "pending sample_empty = []" "tb_vindex sample_empty = vi_init" "mf_disk (tb_file sample_empty) = []" "tb_name sample_empty = ''t''"
    "tb_indexes sample_empty = []"
    by (simp_all add: sample_empty_def open_file_def table_init_def pending_def mmap_open_def mmap_init_def os_fine_def)
  show "next_ts (db_timestamps sample_inserted_db) = 1" using all(3) by (simp add: w(2) allocate_ts_def ts_init_def)
  show "length (db_tables sample_inserted_db) = 1" by (simp add: w(2) sample_created_facts)
  show r: "table_rep (db_tables sample_inserted_db ! 0) [sample_row]" "tb_schema (db_tables sample_inserted_db ! 0) = sample_schema"
    using all(2,6) sample_empty_history(2) by (simp_all add: t)
  show "table_versions (db_tables sample_inserted_db ! 0) = {#(0, 1, False)#}"
    using all(4) e(1,2) by (simp add: t allocate_ts_def ts_init_def table_versions_def [of sample_empty] index_versions_def vi_init_def)
  have "mf_disk (tb_file t') = []" using insert_row_same [OF ins] e(3) by simp
  with sample_row_pending [OF r] show "list_all (batch_small sample_schema) (pending (db_tables sample_inserted_db ! 0))"
    by (auto simp: t)
  obtain b t1 where acq: "acquire_batch ?t = Some (b, t1)" and t1: "t' = store_batch (batch_push (fst (allocate_ts ts_init)) sample_columns b)
      (t1\<lparr>tb_row_count := tb_row_count t1 + 1\<rparr>)"
    using ins by (auto simp: insert_row_with_def allocate_ts_def split: if_splits)
  have "tb_name t1 = ''t'' \<and> tb_indexes t1 = []"
    using acq e(4,5) by (auto simp: acquire_batch_def get_free_batch_def split: option.splits if_splits)
  then show "tb_name (db_tables sample_inserted_db ! 0) = ''t''" "tb_indexes (db_tables sample_inserted_db ! 0) = []"
    by (simp_all add: t t1 store_batch_def push_flush_queue_def)
qed

definition sample_exec :: ExecEnv where
  "sample_exec = \<lparr>ee_cpu = \<lparr>cpu_avx512f = False, cpu_avx512dq = False, cpu_avx2 = False\<rparr>, ee_wal = demo_env, ee_sync = demo_env,
     ee_flush = \<lambda>_. [], ee_index = \<lambda>_ _. os_fine, ee_create = os_fine, ee_schema = fe_fine, ee_vacuum = ve_fine,
     ee_backup = \<lparr>be_dir = True, be_copy_fail = None, be_meta = fe_fine\<rparr>, ee_backup_files = [], ee_tables = \<lambda>_. io_fine,
     ee_meta = fe_fine, ee_sort = std_sort, ee_equal_range = id\<rparr>"

definition sample_select :: "ColumnRef list \<Rightarrow> SelectStmt" where
  "sample_select cols = \<lparr>se_columns = cols, se_table_name = ''t'', se_where = None, se_group_by = [], se_join_clause = None,
     se_order_by = None, se_limit = None, se_offset = None\<rparr>"

lemma sample_row_text: "row_text sample_schema (sample_select []) sample_row = [''7'', ''hi'']"
proof -
  have "dec_int (sint (word_of_nat (le_nat [7, 0, 0, 0]) :: u32)) = ''7''" "bytes_string [0x68, 0x69] = ''hi''" by code_simp+
  then show ?thesis
    by (simp add: row_text_def out_columns_def sample_select_def sample_schema_def sample_row_def column_count_def upt_rec cell_string_def)
qed

lemma sample_find: "find_table ''t'' sample_inserted_db = Some 0"
  using sample_inserted_facts(3,8) by (simp add: find_table_def upt_rec)

lemma sample_read:
  "find_table (se_table_name (sample_select cols)) sample_inserted_db = Some 0"
  "fst (read_timestamp None sample_inserted_db) = 2" "plain_select sample_schema (sample_select [])"
  "visible {#(0, 1, False)#} 2 0" "se_limit (sample_select cols) = None" "se_offset (sample_select cols) = None"
proof -
  show "find_table (se_table_name (sample_select cols)) sample_inserted_db = Some 0" using sample_find by (simp add: sample_select_def)
  show "fst (read_timestamp None sample_inserted_db) = 2"
    using sample_inserted_facts(2) by (simp add: read_timestamp_def allocate_ts_def)
  show "plain_select sample_schema (sample_select [])"
    by (simp add: plain_select_def sample_select_def sample_schema_def column_count_def)
  show "visible {#(0, 1, False)#} 2 0" by (simp add: visible_def kTxIdFlag_value)
  show "se_limit (sample_select cols) = None" "se_offset (sample_select cols) = None" by (simp_all add: sample_select_def)
qed

definition sample_where :: "u64 \<Rightarrow> SelectStmt" where
  "sample_where n = (sample_select [])\<lparr>se_where := Some (EPred \<lparr>pr_column = \<lparr>cr_table = [], cr_name = ''id'', cr_func = AggNone,
     cr_is_star = False\<rparr>, pr_op = CmpGt, pr_value = VInt n, pr_in_values = []\<rparr>)\<rparr>"

lemma sample_strings: "strings_small sample_schema [sample_row]" "strings_present sample_schema [sample_row]"
  by (simp_all add: strings_small_def strings_present_def sample_schema_def column_count_def sample_row_def column_of_def less_Suc_eq)

lemma sample_fits:
  "where_fits (db_tables sample_inserted_db ! 0) [sample_row] (sample_select cols)"
  "0 \<le> sint n \<Longrightarrow> sint n < 2 ^ 31 \<Longrightarrow> where_regular (db_tables sample_inserted_db ! 0) [sample_row] (sample_where n)"
  "admits sample_schema (sample_select cols) row" "list_all os_ok (ee_flush sample_exec 0)"
proof -
  show "where_fits (db_tables sample_inserted_db ! 0) [sample_row] (sample_select cols)" "admits sample_schema (sample_select cols) row"
    by (simp_all add: where_fits_def admits_def sample_select_def)
  show "list_all os_ok (ee_flush sample_exec 0)" by (simp add: sample_exec_def)
  have "get_column_index sample_schema ''id'' = Inr 0" "sc_columns sample_schema ! 0 = kInt32" "''id'' \<in> set (sc_names sample_schema)"
    "length (sc_names sample_schema) = column_count sample_schema"
    by (simp_all add: get_column_index_def sample_schema_def column_count_def)
  then show "0 \<le> sint n \<Longrightarrow> sint n < 2 ^ 31 \<Longrightarrow> where_regular (db_tables sample_inserted_db ! 0) [sample_row] (sample_where n)"
    using sample_inserted_facts(5,9) sample_strings
    by (fastforce simp: where_regular_def sample_where_def sample_select_def pred_fits_def)
qed

lemma sample_admits: "sql_admits sample_schema (sample_where 5) sample_row" "\<not> sql_admits sample_schema (sample_where 9) sample_row"
proof -
  have "get_column_index sample_schema ''id'' = Inr 0" "sc_columns sample_schema ! 0 = kInt32"
    by (simp_all add: get_column_index_def sample_schema_def)
  moreover have "sint (cell32 [7, 0, 0, 0]) = 7" by code_simp
  ultimately show "sql_admits sample_schema (sample_where 5) sample_row" "\<not> sql_admits sample_schema (sample_where 9) sample_row"
    by (simp_all add: sql_admits_def sample_where_def sample_select_def sample_row_def sql_pred_def cell_value_def sql_holds_int)
qed

lemma sample_plain:
  "plain_select sample_schema (sample_where n)" "find_table (se_table_name (sample_where n)) sample_inserted_db = Some 0"
  "row_text sample_schema (sample_where n) sample_row = [''7'', ''hi'']" "se_limit (sample_where n) = None" "se_offset (sample_where n) = None"
  using sample_read(1,3) sample_row_text
  by (simp_all add: sample_where_def sample_select_def plain_select_def row_text_def out_columns_def)


definition unknown_columns :: "ColumnRef list" where
  "unknown_columns = [\<lparr>cr_table = [], cr_name = ''zz'', cr_func = AggNone, cr_is_star = False\<rparr>]"

theorem unknown_column_crashes_witness:
  "execute_select sample_exec (sample_select unknown_columns) None sample_inserted_db = None"
proof -
  note s = sample_inserted_facts and r = sample_read
  show ?thesis
    by (rule unknown_column_crashes [OF s(1) r(1) [of unknown_columns], of "[sample_row]" _ "hd unknown_columns"])
      (use s(4-7) r(2,4) sample_fits in \<open>simp_all add: sample_exec_def sample_schema_def column_count_def unknown_columns_def sample_select_def
        is_aggregate_def cut_limit_def skip_offset_def\<close>)
qed

theorem results_are_rectangular_witness:
  "\<exists>q db'. execute sample_exec (SSelect (sample_select [])) None sample_inserted_db = Some (Inr q, None, db') \<and>
    qr_rows q \<noteq> [] \<and> (\<forall>row \<in> set (qr_rows q). length row = length (qr_column_names q))"
proof -
  note s = sample_inserted_facts and r = sample_read
  obtain q db' where q: "execute_select sample_exec (sample_select []) None sample_inserted_db = Some (Inr q, db')" "qr_rows q \<noteq> []"
    using select_plain [OF s(1) r(1) [of "[]"], of "[sample_row]" sample_exec None] s(4-7) r(2-6)
      sample_strings(1) sample_fits
    by (auto simp: cut_limit_def skip_offset_def)
  then have e: "execute sample_exec (SSelect (sample_select [])) None sample_inserted_db = Some (Inr q, None, db')"
    by (simp add: execute_def Let_def)
  moreover have "\<not> bare_aggregate (SSelect (sample_select []))"
    by (simp add: bare_aggregate_def sample_select_def is_aggregate_def)
  ultimately show ?thesis using results_are_rectangular [OF e] q(2) by blast
qed

end
