(* ===== verification/Exec_Insert.thy ===== *)
theory Exec_Insert
  imports Exec_Correct
begin

text \<open>
  What an \<open>INSERT\<close> stores and an \<open>UPDATE\<close> copies: the cells of the literals, the round trip from a
  cell to a literal and back, and the rows that are visible afterwards.
\<close>

section \<open>Literals and cells\<close>

text \<open>The string that a literal is for a column of strings, and the cell of a literal.\<close>

definition value_text :: "Value \<Rightarrow> string" where
  "value_text v = (case v of VStr s \<Rightarrow> s | VInt n \<Rightarrow> dec_int (sint n) | _ \<Rightarrow> [])"

definition value_cell :: "ColumnType \<Rightarrow> Value \<Rightarrow> byte list" where
  "value_cell ct v = (if ct = kVarChar then string_bytes (value_text v) else encode_value ct v)"

abbreviation row_cells :: "Schema \<Rightarrow> Value list \<Rightarrow> Cells" where
  "row_cells S row \<equiv> map2 value_cell (sc_columns S) row"

definition row_fits :: "Schema \<Rightarrow> Value list \<Rightarrow> bool" where
  "row_fits S row \<longleftrightarrow> length row = column_count S \<and> list_all (\<lambda>v. length (value_text v) < 2 ^ 32) row"

lemma encode_cell: "encode_value ct v = cell_src ct (value_cell ct v)"
  by (cases ct) (simp_all add: value_cell_def cell_src_def varchar_cell_def value_text_def)

lemma value_cell_ok: "length (value_text v) < 2 ^ 32 \<Longrightarrow> cell_ok ct (value_cell ct v)"
  by (cases ct) (simp_all add: value_cell_def cell_ok_def)

lemma encode_row_carries:
  assumes "row_fits S row"
  shows "carries S (encode_row S row) (row_cells S row)"
proof -
  have len: "length row = length (sc_columns S)" using assms by (simp add: row_fits_def column_count_def)
  have "row_ok S (row_cells S row)"
    unfolding row_ok_def list_all2_conv_all_nth
    using assms len by (auto simp: row_fits_def list_all_length intro: value_cell_ok)
  moreover have "map cd_data (encode_row S row) = map2 cell_src (sc_columns S) (row_cells S row)"
    using len by (intro nth_equalityI) (simp_all add: encode_row_def encode_cell)
  ultimately show ?thesis by (simp add: carries_def)
qed

lemma length_bytes_string [simp]: "length (bytes_string bs) = length bs"
  by (simp add: bytes_string_def)

lemma varchar_value:
  assumes "i < length cells" "length (concat cells) < 2 ^ 32" "cd_data col = column_bytes_of kVarChar cells"
  shows "bytes_to_value col kVarChar i (length cells) = Some (VStr (bytes_string (cells ! i)))"
proof -
  have d: "cd_data col = concat (map put_u32 (cums 0 cells)) @ concat cells" using assms(3) by (simp add: column_bytes_of_def)
  obtain start stop where b: "str_bounds col i = Some (start, stop)" "unat start = length (concat (take i cells))"
      "unat stop = length (concat (take (Suc i) cells))" "unat (stop - start) = length (cells ! i)" "\<not> stop < start"
    using varchar_bounds [OF assms] .
  then show ?thesis using blob_between [OF assms(1)] d by (simp add: bytes_to_value_def blob_slice_def Let_def)
qed

text \<open>A cell as a number and back.\<close>

lemma put_cell:
  "length c = 4 \<Longrightarrow> put_u32 (word_of_nat (le_nat c)) = c" "length c = 8 \<Longrightarrow> put_u64 (word_of_nat (le_nat c)) = c"
  using le_nat_bound [of c] le_bytes_le_nat [of c]
  by (auto simp: put_u32_def put_u64_def unat_word_of_nat32 unat_word_of_nat64)

lemma ucast_scast: "ucast (scast (w :: u32) :: u64) = w"
  by (rule bit_word_eqI) (auto simp: bit_simps)

text \<open>
  What a literal means for a column, in values of SQL: the integer, if the column can hold it; for a
  \<open>FLOAT64\<close> column the double itself or the double nearest to the integer; for a \<open>BOOL\<close> column whether the number is
  zero; for a \<open>VARCHAR\<close> column the string, or the digits of the integer. \<open>None\<close> is a literal that the
  column cannot hold: the program stores zero, the empty string or the lower bits for it.
\<close>

fun stored_value :: "ColumnType \<Rightarrow> Value \<Rightarrow> SqlValue option" where
  "stored_value kInt32 (VInt n) = (if - (2 ^ 31) \<le> sint n \<and> sint n < 2 ^ 31 then Some (SqlInt (sint n)) else None)"
| "stored_value kInt64 (VInt n) = Some (SqlInt (sint n))"
| "stored_value kTimestamp (VInt n) = Some (SqlInt (sint n))"
| "stored_value kFloat64 (VDouble d) = Some (SqlDouble d)"
| "stored_value kFloat64 (VInt n) = Some (SqlDouble (f64_of_int n))"
| "stored_value kBool (VInt n) = Some (SqlBool (sint n \<noteq> 0))"
| "stored_value kVarChar (VStr s) = Some (SqlText s)"
| "stored_value kVarChar (VInt n) = Some (SqlText (dec_int (sint n)))"
| "stored_value _ _ = None"

lemma put_number: "word_of_nat (le_nat (put_u32 v)) = v" "word_of_nat (le_nat (put_u64 w)) = w"
  using unsigned_less [of v, where 'a=nat] unsigned_less [of w, where 'a=nat]
  by (simp_all add: put_u32_def put_u64_def le_nat_le_bytes)

lemma stored_cell: "stored_value ct v = Some x \<Longrightarrow> cell_value ct (value_cell ct v) = x"
  by (induction ct v rule: stored_value.induct)
    (auto simp: value_cell_def cell_value_def value_text_def put_number sint_ucast32 signed_eq_0_iff split: if_splits)

text \<open>
  C28: An \<open>UPDATE\<close> copies the other cells of a row unchanged: reading a cell as a literal and storing
  the literal in a column of the same type gives the cell back, for cells of every type (a bool
  is stored as zero or one).
\<close>

theorem copied_cell_unchanged:
  assumes "list_all (cell_ok ct) cells" "i < length cells" "length (concat cells) < 2 ^ 32"
    and "cd_data col = column_bytes_of ct cells" "ct = kBool \<longrightarrow> cells ! i \<in> {[0], [1]}"
  shows "\<exists>v. bytes_to_value col ct i (length cells) = Some v \<and> encode_value ct v = cell_src ct (cells ! i)"
proof (cases "ct = kVarChar")
  case True
  then show ?thesis using varchar_value [of i cells col] assms
    by (simp add: varchar_cell_def cell_src_def)
next
  case False
  then have f: "list_all (\<lambda>c. length c = column_elem_size ct) cells" using assms(1) by (simp add: cell_ok_def list_all_iff)
  then have len: "length (cells ! i) = column_elem_size ct" using assms(2) by (simp add: list_all_iff)
  from elem_fixed [OF f assms(2)] False assms(4) have e: "elem (column_elem_size ct) col i = Some (cells ! i)"
    by (simp add: column_bytes_of_def)
  show ?thesis
    using e False len assms(5)
    by (cases ct) (auto simp: bytes_to_value_def elem32_def elem64_def elem_bool_def cell_src_def put_cell ucast_scast)
qed

theorem copied_cell_unchanged_witness:
  "\<exists>v. bytes_to_value \<lparr>cd_type = 4, cd_data = column_bytes_of kVarChar [[0x61, 0x62], [0x63]], cd_nulls = None\<rparr> kVarChar 1 2 = Some v \<and>
    encode_value kVarChar v = cell_src kVarChar [0x63]"
  using copied_cell_unchanged [of kVarChar "[[0x61, 0x62], [0x63]]" 1
      "\<lparr>cd_type = 4, cd_data = column_bytes_of kVarChar [[0x61, 0x62], [0x63]], cd_nulls = None\<rparr>"]
  by (simp add: cell_ok_def flip: numeral_2_eq_2)

section \<open>\<open>INSERT\<close>\<close>

lemma insert_rows_some:
  assumes "table_rep t rows" "list_all2 (carries (tb_schema t)) cols new" "length cols \<le> room t"
  shows "\<exists>t' a'. insert_rows_with src cols t a = Some (Inr (row_ids (length rows) (length cols)), t', a')"
proof -
  have "cols \<noteq> [] \<Longrightarrow> length (hd cols) = column_count (tb_schema t)"
    using assms(2) carries_length by (cases cols; cases new) auto
  moreover obtain r where "insert_rows_loop src cols [] t a = Some r" using insert_rows_loop_some [OF assms] by blast
  ultimately obtain rids t' a' where ins: "insert_rows_with src cols t a = Some (Inr rids, t', a')"
    by (cases r; cases "cols = []") (simp_all add: insert_rows_with_def)
  from insert_rows_all(1) [OF assms(1,2) ins] ins show ?thesis by blast
qed

text \<open>New rows have stamps above all others, so from now on every snapshot sees them.\<close>

lemma new_rows_visible:
  assumes "db_inv db" "unat tid < length (db_tables db)" "clock_room n db" "length rids = n" "i < n"
    and "draw allocate_ts n (db_timestamps db) = (tss, a)" "next_ts a \<le> m"
  shows "visible (table_versions (db_tables db ! unat tid) + mset (live_versions rids tss)) m (rids ! i)"
proof -
  let ?c = "next_ts (db_timestamps db)"
  have room: "unat ?c + n < 2 ^ 64" using assms(3) by (simp add: clock_room_def)
  note d = draw_alloc [OF room]
  have tss: "length tss = n" using assms(6) length_draw [of allocate_ts n "db_timestamps db"] by simp
  then have ts: "?c < tss ! i" "tss ! i \<le> next_ts a" using d assms(5,6) by auto
  have "next_ts a < kMaxTx" using clock_room_word(2) [OF assms(3), of a] d assms(6) by simp
  then have flag: "tss ! i < kTxIdFlag" using ts(2) by (auto simp: kMaxTx_def kTxIdFlag_value word_le_nat_alt word_less_nat_alt)
  have "(rids ! i, tss ! i, False) \<in># mset (live_versions rids tss)"
    using assms(4,5) tss by (auto simp: set_zip intro!: exI [of _ i])
  moreover have "ts' < tss ! i"
    if "(rids ! i, ts', True) \<in># table_versions (db_tables db ! unat tid) + mset (live_versions rids tss)" "ts' < kTxIdFlag" for ts'
  proof -
    have "(rids ! i, ts', True) \<in># table_versions (db_tables db ! unat tid)" using that(1) by auto
    from clock_invD [OF assms(1,2) this] that(2) ts(1) show ?thesis by auto
  qed
  ultimately show ?thesis using flag ts(2) assms(7) unfolding visible_def by (meson order_trans union_iff)
qed

text \<open>
  C9: An \<open>INSERT\<close> outside of a transaction into a table without indexes appends its rows: if every row has a
  literal for every column, the log takes the record and the table has room, the statement
  returns and reports their number; the table then holds the old rows and, behind them and in order, one
  new row for each row of literals, each of whose cells has the value that its literal
  means for the column (unless the column cannot hold it), and from the time of its return every
  snapshot sees them.
\<close>

theorem insert_appends_rows:
  assumes "db_history db" "find_table (in_table_name stmt) db = Some tid"
    and "table_rep (db_tables db ! unat tid) rows" "list_all (row_fits (tb_schema (db_tables db ! unat tid))) (in_rows stmt)"
    and "tb_indexes (db_tables db ! unat tid) = []" "length rows + length (in_rows stmt) < 2 ^ 64"
    and "length (in_rows stmt) \<le> room (db_tables db ! unat tid)" "clock_room (length (in_rows stmt)) db"
    and "append_insert_batch (ee_wal env) kInvalidTxId tid (map (encode_row (tb_schema (db_tables db ! unat tid))) (in_rows stmt))
      (db_wal db) (db_wal_dir db) = (Inr lsn, l)"
  shows "\<exists>db' new. execute_insert env stmt None db =
      Some (Inr (one_row ''rows_inserted'' kInt64 (dec (length (in_rows stmt)))), db') \<and> db_history db' \<and>
    table_rep (db_tables db' ! unat tid) (rows @ new) \<and> length new = length (in_rows stmt) \<and>
    (\<forall>i ci x. i < length new \<longrightarrow> ci < column_count (tb_schema (db_tables db ! unat tid)) \<longrightarrow>
       stored_value (sc_columns (tb_schema (db_tables db ! unat tid)) ! ci) (in_rows stmt ! i ! ci) = Some x \<longrightarrow>
       cell_value (sc_columns (tb_schema (db_tables db ! unat tid)) ! ci) (new ! i ! ci) = x) \<and>
    (\<forall>i m. i < length (in_rows stmt) \<longrightarrow> next_ts (db_timestamps db') \<le> m \<longrightarrow>
       visible (table_versions (db_tables db' ! unat tid)) m (word_of_nat (length rows + i)))"
proof -
  let ?t = "db_tables db ! unat tid" and ?n = "length (in_rows stmt)"
  let ?S = "tb_schema ?t" and ?a = "db_timestamps db"
  let ?cols = "map (encode_row ?S) (in_rows stmt)"
  note inv = history_inv [OF assms(1)]
  have lt: "unat tid < length (db_tables db)" using find_table_index [OF assms(2)] inv by (simp add: db_inv_def)
  have car: "list_all2 (carries ?S) ?cols (map (row_cells ?S) (in_rows stmt))"
    using assms(4) by (auto simp: list_all2_conv_all_nth list_all_length intro!: encode_row_carries)
  have rep: "table_rep (?t\<lparr>tb_lsn := lsn\<rparr>) rows" using lsn_rep [OF assms(3)] .
  have car': "list_all2 (carries (tb_schema (?t\<lparr>tb_lsn := lsn\<rparr>))) ?cols (map (row_cells ?S) (in_rows stmt))" using car by simp
  have "length ?cols \<le> room (?t\<lparr>tb_lsn := lsn\<rparr>)" using assms(7) by (simp add: room_def)
  with insert_rows_some [OF rep car' this, of allocate_ts ?a] obtain t' a' where
    ins: "insert_rows_with allocate_ts ?cols (?t\<lparr>tb_lsn := lsn\<rparr>) ?a = Some (Inr (row_ids (length rows) ?n), t', a')" by auto
  note all = insert_rows_all [OF rep car' ins]
  define db' where "db' = (set_table tid t' (set_log l db))\<lparr>db_timestamps := a'\<rparr>"
  have batch: "db_insert_batch (ee_wal env) tid ?cols None db = Some (Inr (row_ids (length rows) ?n), db')"
    using assms(9) lt ins by (simp add: db_insert_batch_def insert_rows_alloc_def db'_def Let_def)
  have count: "tb_row_count ?t = length rows" using assms(3) by (auto simp: table_rep_def chunks_rep_def)
  have "db_step db db'"
    using batch assms(6,8) car count by (intro db_step.batch [OF _ _ _ _ batch, of "map (row_cells ?S) (in_rows stmt)"]) simp_all
  then have hist: "db_history db'" using assms(1) by (rule db_history.stepped [rotated])
  have "encode_rows ?S (in_rows stmt) = Inr ?cols" using assms(4) by (auto simp: encode_rows_def row_fits_def list_all_iff)
  then have "execute_insert env stmt None db = Some (Inr (one_row ''rows_inserted'' kInt64 (dec ?n)), db')"
    using assms(2,5) batch by (simp add: execute_insert_def has_indexes_def Let_def)
  moreover have t': "db_tables db' ! unat tid = t'" using lt by (simp add: db'_def set_table_def set_log_def)
  moreover have "visible (table_versions t') m (word_of_nat (length rows + i))" if "i < ?n" "next_ts a' \<le> m" for i m
  proof -
    obtain tss where tss: "draw allocate_ts ?n ?a = (tss, a')" using all(3) by (simp add: prod_eq_iff)
    have "table_versions (?t\<lparr>tb_lsn := lsn\<rparr>) = table_versions ?t" by (simp add: table_versions_def pending_def)
    with new_rows_visible [OF inv lt assms(8) _ that(1) tss that(2), of "row_ids (length rows) ?n"] all(4) tss that(1)
    show ?thesis by simp
  qed
  moreover have "cell_value (sc_columns ?S ! ci) (map (row_cells ?S) (in_rows stmt) ! i ! ci) = x"
    if "i < ?n" "ci < column_count ?S" "stored_value (sc_columns ?S ! ci) (in_rows stmt ! i ! ci) = Some x" for i ci x
    using that assms(4) stored_cell [OF that(3)] by (simp add: list_all_length row_fits_def column_count_def)
  ultimately show ?thesis using hist all(2)
    by (intro exI [of _ db'] exI [of _ "map (row_cells ?S) (in_rows stmt)"]) (simp add: db'_def set_log_def set_table_def)
qed

definition sample_insert_stmt :: InsertStmt where
  "sample_insert_stmt = \<lparr>in_table_name = ''t'', in_rows = [[VInt 7, VStr ''hi''], [VInt 9, VInt (-3)]]\<rparr>"

theorem insert_appends_rows_witness:
  "\<exists>db' new. execute_insert sample_exec sample_insert_stmt None sample_created =
      Some (Inr (one_row ''rows_inserted'' kInt64 ''2''), db') \<and>
    table_rep (db_tables db' ! 0) new \<and> length new = 2 \<and> cell_value kInt32 (new ! 0 ! 0) = SqlInt 7 \<and>
    cell_value kVarChar (new ! 0 ! 1) = SqlText ''hi'' \<and> cell_value kVarChar (new ! 1 ! 1) = SqlText ''-3'' \<and>
    visible (table_versions (db_tables db' ! 0)) (next_ts (db_timestamps db')) 1"
proof -
  note c = sample_created_facts and e = sample_empty_history
  have name: "tb_name sample_empty = ''t''" "tb_indexes sample_empty = []" "tb_active sample_empty = None"
    by (simp_all add: sample_empty_def open_file_def table_init_def mmap_open_def mmap_init_def os_fine_def)
  have find: "find_table (in_table_name sample_insert_stmt) sample_created = Some 0"
    using c(2) name(1) by (simp add: find_table_def sample_insert_stmt_def)
  let ?cols = "map (encode_row sample_schema) (in_rows sample_insert_stmt)"
  have ne: "?cols \<noteq> []" by (simp add: sample_insert_stmt_def)
  obtain w d where log: "append_insert_batch demo_env kInvalidTxId 0 ?cols (db_wal sample_created) (db_wal_dir sample_created) =
      (Inr (ww_next_lsn (db_wal sample_created)), w, d)"
    using demo_append [OF c(6)] ne unfolding append_insert_batch_def by (metis (no_types))
  have num: "dec_int (sint (-3 :: u64)) = ''-3''" "dec 2 = ''2''" "dec_int 7 = ''7''" "dec_int 9 = ''9''" by code_simp+
  have fits: "list_all (row_fits sample_schema) (in_rows sample_insert_stmt)"
    by (simp add: row_fits_def sample_insert_stmt_def sample_schema_def column_count_def value_text_def num [simplified])
  have len: "length (in_rows sample_insert_stmt) = 2" by (simp add: sample_insert_stmt_def)
  have clock: "clock_room (length (in_rows sample_insert_stmt)) sample_created" using c(3) len by (simp add: clock_room_def ts_init_def)
  have free: "2 \<le> room sample_empty" using e(5) by (simp add: room_def kBatchSize_def)
  have wal: "ee_wal sample_exec = demo_env" by (simp add: sample_exec_def)
  have "\<exists>db' new. execute_insert sample_exec sample_insert_stmt None sample_created =
      Some (Inr (one_row ''rows_inserted'' kInt64 (dec 2)), db') \<and>
    table_rep (db_tables db' ! 0) new \<and> length new = 2 \<and>
    (\<forall>i ci x. i < 2 \<longrightarrow> ci < column_count sample_schema \<longrightarrow>
       stored_value (sc_columns sample_schema ! ci) (in_rows sample_insert_stmt ! i ! ci) = Some x \<longrightarrow>
       cell_value (sc_columns sample_schema ! ci) (new ! i ! ci) = x) \<and>
    (\<forall>i m. i < 2 \<longrightarrow> next_ts (db_timestamps db') \<le> m \<longrightarrow> visible (table_versions (db_tables db' ! 0)) m (word_of_nat i))"
    using insert_appends_rows [OF c(1) find _ _ _ _ _ clock, of "[]" sample_exec "ww_next_lsn (db_wal sample_created)" "(w, d)"]
      c(2) e(2) fits len log name(2) free wal history_rep [OF e(1)] by auto
  then obtain db' new where x: "execute_insert sample_exec sample_insert_stmt None sample_created =
      Some (Inr (one_row ''rows_inserted'' kInt64 (dec 2)), db')"
    "table_rep (db_tables db' ! 0) new" "length new = 2"
    "\<And>i ci x. i < 2 \<Longrightarrow> ci < column_count sample_schema \<Longrightarrow>
       stored_value (sc_columns sample_schema ! ci) (in_rows sample_insert_stmt ! i ! ci) = Some x \<Longrightarrow>
       cell_value (sc_columns sample_schema ! ci) (new ! i ! ci) = x"
    "\<forall>i m. i < 2 \<longrightarrow> next_ts (db_timestamps db') \<le> m \<longrightarrow> visible (table_versions (db_tables db' ! 0)) m (word_of_nat i)" by blast
  have cells: "cell_value kInt32 (new ! 0 ! 0) = SqlInt 7" "cell_value kVarChar (new ! 0 ! 1) = SqlText ''hi''"
    "cell_value kVarChar (new ! 1 ! 1) = SqlText ''-3''"
    using x(4) [of 0 0 "SqlInt 7"] x(4) [of 0 1 "SqlText ''hi''"] x(4) [of 1 1 "SqlText ''-3''"] num(1)
    by (simp_all add: sample_schema_def sample_insert_stmt_def column_count_def)
  from x(5) [rule_format, of 1 "next_ts (db_timestamps db')"]
  have "visible (table_versions (db_tables db' ! 0)) (next_ts (db_timestamps db')) 1" by simp
  with x(1-3) cells show ?thesis using num(2) by (intro exI [of _ db'] exI [of _ new]) simp
qed

end
