(* ===== verification/Cli.thy ===== *)
theory Cli
  imports Exec_Shape
begin

text \<open>
  The shell of \<open>src/src/cli\<close>: the table printer (\<open>formatter.cpp\<close>), the loop that reads lines and
  executes statements (\<open>repl.cpp\<close>), and the program around it (\<open>main.cpp\<close>). Input is the list of
  its lines, output is the text that is written to the standard output. What \<open>operator<<\<close> prints
  for a status is an argument, because a status is modelled by its code and some carry a message
  of their own. \<open>None\<close> is an exception or a crash.
\<close>

abbreviation nl :: string where "nl \<equiv> [CHR 0x0A]"

section \<open>Tables\<close>

text \<open>A row widens the columns; one with more cells than there are columns writes outside of the
  vector of the widths.\<close>

fun widen :: "nat list \<Rightarrow> string list \<Rightarrow> nat list option" where
  "widen ws [] = Some ws"
| "widen [] (c # cs) = None"
| "widen (w # ws) (c # cs) = map_option ((#) (max w (length c))) (widen ws cs)"

fun table_widths :: "nat list \<Rightarrow> string list list \<Rightarrow> nat list option" where
  "table_widths ws [] = Some ws"
| "table_widths ws (row # rows) = (case widen ws row of None \<Rightarrow> None | Some ws' \<Rightarrow> table_widths ws' rows)"

definition table_separator :: "nat list \<Rightarrow> string" where
  "table_separator ws = ''+'' @ concat (map (\<lambda>w. replicate (w + 2) CHR ''-'' @ ''+'') ws)"

definition table_line :: "nat list \<Rightarrow> string list \<Rightarrow> string" where
  "table_line ws cells = ''|'' @ concat (map2 (\<lambda>w c. '' '' @ c @ replicate (w - length c) CHR '' '' @ '' |'') ws cells)"

definition table_lines :: "nat list \<Rightarrow> QueryResult \<Rightarrow> string list" where
  "table_lines ws q =
     [table_separator ws, table_line ws (qr_column_names q), table_separator ws] @
     map (table_line ws) (qr_rows q) @ [table_separator ws]"

definition unlines :: "string list \<Rightarrow> string" where
  "unlines ls = concat (map (\<lambda>l. l @ nl) ls)"

definition print_table :: "QueryResult \<Rightarrow> string option" where
  "print_table q =
     (if qr_column_names q = [] then Some []
      else map_option (\<lambda>ws. unlines (table_lines ws q) @ ''('' @ dec (length (qr_rows q)) @ '' row'' @
               (if length (qr_rows q) = 1 then [] else ''s'') @ '')'' @ nl)
             (table_widths (map length (qr_column_names q)) (qr_rows q)))"

section \<open>Commands\<close>

fun type_text :: "ColumnType \<Rightarrow> string" where
  "type_text kInt32 = ''INT32''"
| "type_text kTimestamp = ''TIMESTAMP''"
| "type_text kInt64 = ''INT64''"
| "type_text kFloat64 = ''FLOAT64''"
| "type_text kBool = ''BOOL''"
| "type_text kVarChar = ''VARCHAR''"

definition schema_text :: "string \<Rightarrow> Schema \<Rightarrow> string" where
  "schema_text name S =
     ''CREATE TABLE '' @ name @ '' ('' @ nl @
     concat (map (\<lambda>c. ''  '' @ sc_names S ! c @ '' '' @ type_text (sc_columns S ! c) @
       (if c + 1 < length (sc_columns S) then '','' else []) @ nl) [0..<length (sc_columns S)]) @
     '');'' @ nl"

text \<open>The second word of a line, as \<open>>>\<close> reads it.\<close>

definition second_word :: "string \<Rightarrow> string" where
  "second_word s =
     takeWhile (\<lambda>c. \<not> is_space c) (dropWhile is_space (dropWhile (\<lambda>c. \<not> is_space c) (dropWhile is_space s)))"

definition help_text :: string where
  "help_text = unlines [''Available meta-commands:'', ''  .exit, .quit     Exit the shell'', ''  .tables          List all tables'',
     ''  .schema <table>  Show table schema'', ''  .help            Show this help message'']"

definition handle_meta_command :: "Database \<Rightarrow> string \<Rightarrow> string" where
  "handle_meta_command db cmd =
     (if cmd = ''.tables'' then ''Tables in database:'' @ nl @ unlines (map (\<lambda>t. ''  '' @ tb_name t) (db_tables db))
      else if take 7 cmd = ''.schema'' then
        (let name = second_word cmd
         in if name = [] then ''Usage: .schema <table_name>'' @ nl
            else case find (\<lambda>t. tb_name t = name) (db_tables db) of
                   Some t \<Rightarrow> schema_text name (tb_schema t)
                 | None \<Rightarrow> ''Error: Table '' @ [CHR 0x27] @ name @ [CHR 0x27] @ '' not found.'' @ nl)
      else if cmd = ''.help'' then help_text
      else ''Unknown command: '' @ cmd @ nl)"

section \<open>The loop\<close>

record Repl =
  rp_buffer :: string
  rp_txn :: "TxId option"
  rp_db :: Database

definition execute_query :: "ExecEnv \<Rightarrow> (Status_Code \<Rightarrow> string) \<Rightarrow> string \<Rightarrow> Repl \<Rightarrow> (string \<times> Repl) option" where
  "execute_query env explain query r =
     (case execute_sql env query (rp_txn r) (rp_db r) of None \<Rightarrow> None
      | Some (res, c, db) \<Rightarrow>
          map_option (\<lambda>out. (out, r\<lparr>rp_txn := c, rp_db := db\<rparr>))
            (case res of
               Inl e \<Rightarrow> Some (''Error: '' @ explain e @ nl)
             | Inr q \<Rightarrow> if qr_column_names q \<noteq> [] then print_table q else Some (''Query executed successfully.'' @ nl)))"

definition blank :: "char \<Rightarrow> bool" where
  "blank c \<longleftrightarrow> c = CHR '' '' \<or> c = CHR 0x09 \<or> c = CHR 0x0D \<or> c = CHR 0x0A"

definition trim :: "string \<Rightarrow> string" where
  "trim s = rev (dropWhile blank (rev (dropWhile blank s)))"

text \<open>One line; the mark at the end tells whether the loop goes on.\<close>

definition repl_line :: "ExecEnv \<Rightarrow> (Status_Code \<Rightarrow> string) \<Rightarrow> string \<Rightarrow> Repl \<Rightarrow> (string \<times> Repl \<times> bool) option" where
  "repl_line env explain text r =
     (let line = trim text; fresh = (rp_buffer r = [])
      in if fresh \<and> line = [] then Some ([], r, True)
         else if fresh \<and> (line \<in> {''.exit'', ''.quit'', ''exit'', ''quit''}) then Some ([], r, False)
         else if fresh \<and> hd line = CHR ''.'' then Some (handle_meta_command (rp_db r) line, r, True)
         else if fresh \<and> line = ''help'' then Some (handle_meta_command (rp_db r) ''.help'', r, True)
         else
           let buffer = rp_buffer r @ line @ '' ''
           in if CHR '';'' \<in> set buffer
              then map_option (\<lambda>(out, r'). (out, r'\<lparr>rp_buffer := []\<rparr>, True))
                     (execute_query env explain buffer (r\<lparr>rp_buffer := buffer\<rparr>))
              else Some ([], r\<lparr>rp_buffer := buffer\<rparr>, True))"

definition prompt :: "Repl \<Rightarrow> string" where
  "prompt r = (if rp_buffer r = [] then ''rawdb> '' else ''  ...> '')"

fun repl_lines :: "(nat \<Rightarrow> ExecEnv) \<Rightarrow> (Status_Code \<Rightarrow> string) \<Rightarrow> nat \<Rightarrow> string list \<Rightarrow> Repl \<Rightarrow> (string \<times> Repl) option" where
  "repl_lines envs explain i [] r = Some (prompt r, r)"
| "repl_lines envs explain i (l # ls) r =
     (case repl_line (envs i) explain l r of None \<Rightarrow> None
      | Some (out, r', go_on) \<Rightarrow>
          if go_on then map_option (\<lambda>(outs, r''). (prompt r @ out @ outs, r'')) (repl_lines envs explain (Suc i) ls r')
          else Some (prompt r @ out, r'))"

definition repl_run :: "(nat \<Rightarrow> ExecEnv) \<Rightarrow> (Status_Code \<Rightarrow> string) \<Rightarrow> string list \<Rightarrow> Database \<Rightarrow> (string \<times> Repl) option" where
  "repl_run envs explain ls db =
     map_option (\<lambda>(out, r). (unlines [''rawDB shell'', ''Type \".help\" for hints.''] @ out, r))
       (repl_lines envs explain 0 ls \<lparr>rp_buffer = [], rp_txn = None, rp_db = db\<rparr>)"

section \<open>The program\<close>

text \<open>The directory, and what is said about it.\<close>

definition cli_path :: "string option \<Rightarrow> string \<times> string" where
  "cli_path arg =
     (case arg of
        None \<Rightarrow> (''rawdb_data'', ''No database path provided. Using default: \"rawdb_data\"'' @ nl)
      | Some p \<Rightarrow>
          if p = '':memory:''
          then (''rawdb_memory_fallback'', ''In-memory mode is not fully supported by CLI yet, storing on disk.'' @ nl)
          else (p, []))"

text \<open>\<open>dirs\<close> gives the closed database that lies in a directory, \<open>cenv\<close> the outcomes for closing. The result is the exit code, the
  output and the database as it is closed at the end.\<close>

definition cli_main :: "OpenEnv \<Rightarrow> (nat \<Rightarrow> ExecEnv) \<Rightarrow> (nat \<Rightarrow> OsEnv list) \<times> (nat \<Rightarrow> OsEnv list) \<times> (nat \<Rightarrow> FileEnv)
    \<Rightarrow> (Status_Code \<Rightarrow> string) \<Rightarrow> (string \<Rightarrow> Database) \<Rightarrow> string option \<Rightarrow> string list \<Rightarrow> (nat \<times> string \<times> Database) option" where
  "cli_main oenv envs cenv explain dirs arg ls =
     (case db_open oenv None (dirs (fst (cli_path arg))) of None \<Rightarrow> None
      | Some (s, db) \<Rightarrow>
          if s \<noteq> kOk then Some (1, snd (cli_path arg), db)
          else map_option (\<lambda>(out, r). (0, snd (cli_path arg) @ out, db_close (fst cenv) (fst (snd cenv)) (snd (snd cenv)) (rp_db r))) (repl_run envs explain ls db))"

section \<open>What is printed\<close>

lemma widen_fits:
  "length cs = length ws \<Longrightarrow> \<exists>ws'. widen ws cs = Some ws' \<and> list_all2 (\<le>) ws ws' \<and> list_all2 (\<lambda>c w. length c \<le> w) cs ws'"
  by (induction ws cs rule: widen.induct) auto

lemma fits_mono:
  "list_all2 (\<lambda>c w. length c \<le> w) cs ws \<Longrightarrow> list_all2 (\<le>) ws ws' \<Longrightarrow> list_all2 (\<lambda>c w. length c \<le> w) cs (ws' :: nat list)"
  by (rule list_all2_trans) (rule le_trans)

lemma widths_mono: "list_all2 (\<le>) ws ws' \<Longrightarrow> list_all2 (\<le>) ws' ws'' \<Longrightarrow> list_all2 (\<le>) ws (ws'' :: nat list)"
  by (rule list_all2_trans) (rule le_trans)

lemma widths_refl: "list_all2 (\<le>) ws (ws :: nat list)"
  by (simp add: list_all2_refl)

lemma table_widths_fit:
  assumes "\<forall>row \<in> set rows. length row = length ws"
  shows "\<exists>ws'. table_widths ws rows = Some ws' \<and> list_all2 (\<le>) ws ws' \<and>
    (\<forall>row \<in> set rows. list_all2 (\<lambda>c w. length c \<le> w) row ws')"
  using assms
proof (induction rows arbitrary: ws)
  case Nil
  then show ?case by (simp add: widths_refl)
next
  case (Cons row rows)
  obtain ws1 where ws1: "widen ws row = Some ws1" "list_all2 (\<le>) ws ws1" "list_all2 (\<lambda>c w. length c \<le> w) row ws1"
    using widen_fits [of row ws] Cons.prems by auto
  then have "length ws1 = length ws" by (simp add: list_all2_lengthD)
  with Cons obtain ws' where "table_widths ws1 rows = Some ws'" "list_all2 (\<le>) ws1 ws'"
      "\<forall>row \<in> set rows. list_all2 (\<lambda>c w. length c \<le> w) row ws'"
    by (metis list.set_intros(2))
  with ws1 show ?case by (auto intro: widths_mono fits_mono)
qed

lemma length_table_line:
  "list_all2 (\<lambda>c w. length c \<le> w) cells ws \<Longrightarrow> length (table_line ws cells) = length (table_separator ws)"
  by (induction rule: list_all2_induct) (simp_all add: table_line_def table_separator_def)

lemma newline_free_line:
  "\<forall>c \<in> set cells. CHR 0x0A \<notin> set c \<Longrightarrow> CHR 0x0A \<notin> set (table_line ws cells)"
  by (auto simp: table_line_def dest: set_zip_rightD)

text \<open>The last line: the number of rows in words.\<close>

definition row_count_line :: "nat \<Rightarrow> string" where
  "row_count_line n = (if n = 1 then ''(1 row)'' else ''('' @ dec n @ '' rows)'')"

text \<open>
  C38: A result whose rows have as many fields as it has columns, and whose names and fields hold no line
  break, prints as a table: a separator, the header, a separator, one line for every row with its fields in
  order, a separator, all of the same width, and as the last line the number of rows.
\<close>

theorem printed_table_aligned:
  assumes "qr_column_names q \<noteq> []" "\<forall>row \<in> set (qr_rows q). length row = length (qr_column_names q)"
    and "\<forall>cells \<in> set (qr_column_names q # qr_rows q). \<forall>c \<in> set cells. CHR 0x0A \<notin> set c"
  shows "\<exists>ws. print_table q = Some (unlines (table_lines ws q @ [row_count_line (length (qr_rows q))])) \<and>
    length (table_lines ws q) = length (qr_rows q) + 4 \<and>
    (\<forall>l \<in> set (table_lines ws q). length l = length (table_separator ws) \<and> CHR 0x0A \<notin> set l) \<and>
    list_all2 (\<lambda>c w. length c \<le> w) (qr_column_names q) ws \<and>
    (\<forall>row \<in> set (qr_rows q). list_all2 (\<lambda>c w. length c \<le> w) row ws)"
proof -
  let ?names = "qr_column_names q"
  obtain ws where ws: "table_widths (map length ?names) (qr_rows q) = Some ws" "list_all2 (\<le>) (map length ?names) ws"
      "\<forall>row \<in> set (qr_rows q). list_all2 (\<lambda>c w. length c \<le> w) row ws"
    using table_widths_fit [of "qr_rows q" "map length ?names"] assms(2) by auto
  then have fit: "list_all2 (\<lambda>c w. length c \<le> w) ?names ws" by (simp add: list_all2_map1)
  have "dec 1 = ''1''" by code_simp
  then have out: "print_table q = Some (unlines (table_lines ws q @ [row_count_line (length (qr_rows q))]))"
    using ws(1) assms(1) by (simp add: print_table_def unlines_def row_count_line_def)
  have sep: "CHR 0x0A \<notin> set (table_separator ws)" by (auto simp: table_separator_def)
  have line: "CHR 0x0A \<notin> set (table_line ws cells)" if "cells \<in> set (?names # qr_rows q)" for cells
    using that assms(3) by (intro newline_free_line) blast
  have "\<forall>l \<in> set (table_lines ws q). length l = length (table_separator ws) \<and> CHR 0x0A \<notin> set l"
    using ws(3) fit sep line by (auto simp: table_lines_def length_table_line)
  with out ws(3) fit show ?thesis by (intro exI [of _ ws]) (simp add: table_lines_def)
qed

definition sample_result :: QueryResult where
  "sample_result = \<lparr>qr_column_names = [''id'', ''name''], qr_column_types = [kInt32, kVarChar], qr_rows = [[''7'', ''hello'']]\<rparr>"

theorem printed_table_aligned_witness:
  "\<exists>ws. print_table sample_result = Some (unlines (table_lines ws sample_result @ [''(1 row)''])) \<and>
     length (table_lines ws sample_result) = 5 \<and>
     (\<forall>l \<in> set (table_lines ws sample_result). length l = length (table_separator ws))"
  using printed_table_aligned [of sample_result] by (auto simp: sample_result_def row_count_line_def)

lemma sample_printed:
  "print_table sample_result = Some (unlines [''+----+-------+'', ''| id | name  |'', ''+----+-------+'', ''| 7  | hello |'', ''+----+-------+'',
     ''(1 row)''])"
  by code_simp

end
