(* ===== verification/Btree_Tree.thy ===== *)
theory Btree_Tree
  imports Btree
begin

text \<open>
  The index as a functional B+-tree: the tree that \<open>src/src/index/btree.cpp\<close> keeps in the blocks of
  its file, with the insertion and the search of the code on it, and what they do to its entries.
  Keys are compared by a rank, an integer; the contract that ties the comparison of the code to it
  is the locale \<open>key_order\<close>.
\<close>

section \<open>Trees\<close>

type_synonym Entry = "byte list \<times> RowId"

text \<open>A node has the number of its block in the file.\<close>

datatype bptree = BLeaf nat "Entry list" | BInner nat "bptree list" "byte list list"

primrec block_of :: "bptree \<Rightarrow> nat" where
  "block_of (BLeaf k es) = k"
| "block_of (BInner k cs ss) = k"

primrec blocks :: "bptree \<Rightarrow> nat list" where
  "blocks (BLeaf k es) = [k]"
| "blocks (BInner k cs ss) = k # concat (map blocks cs)"

primrec entries :: "bptree \<Rightarrow> Entry list" where
  "entries (BLeaf k es) = es"
| "entries (BInner k cs ss) = concat (map entries cs)"

primrec separators :: "bptree \<Rightarrow> byte list list" where
  "separators (BLeaf k es) = []"
| "separators (BInner k cs ss) = ss @ concat (map separators cs)"

text \<open>The nodes are not too full.\<close>

primrec small_nodes :: "bptree \<Rightarrow> bool" where
  "small_nodes (BLeaf k es) \<longleftrightarrow> length es \<le> kMaxKeys"
| "small_nodes (BInner k cs ss) \<longleftrightarrow> length ss \<le> kMaxKeys \<and> length cs = Suc (length ss) \<and> list_all id (map small_nodes cs)"

text \<open>Children between their bounds: each has the previous bound below and its own above.\<close>

fun links :: "(int \<Rightarrow> int \<Rightarrow> bool) list \<Rightarrow> int \<Rightarrow> int list \<Rightarrow> bool" where
  "links [] lo [] \<longleftrightarrow> True"
| "links (P # Ps) lo (s # ss) \<longleftrightarrow> lo \<le> s \<and> P lo s \<and> links Ps s ss"
| "links Ps lo ss \<longleftrightarrow> False"

lemma links_append:
  "length Ps = length ss \<Longrightarrow> links (Ps @ Qs) lo (ss @ ts) \<longleftrightarrow> links Ps lo ss \<and> links Qs (last (lo # ss)) ts"
  by (induction Ps ss arbitrary: lo rule: list_induct2) auto

lemma links_length: "links Ps lo ss \<Longrightarrow> length Ps = length ss"
  by (induction Ps lo ss rule: links.induct) auto

lemma links_last: "links Ps lo ss \<Longrightarrow> lo \<le> last (lo # ss)"
  by (induction Ps lo ss rule: links.induct) auto

primrec ordered :: "(byte list \<Rightarrow> int) \<Rightarrow> bptree \<Rightarrow> int \<Rightarrow> int \<Rightarrow> bool" where
  "ordered r (BLeaf k es) = (\<lambda>lo hi. sorted_wrt (\<lambda>a b. r (fst a) < r (fst b)) es \<and> (\<forall>e \<in> set es. lo \<le> r (fst e) \<and> r (fst e) < hi))"
| "ordered r (BInner k cs ss) = (\<lambda>lo hi. links (map (ordered r) cs) lo (map r ss @ [hi]))"

section \<open>Insertion and search\<close>

definition child_ix :: "(byte list \<Rightarrow> int) \<Rightarrow> byte list \<Rightarrow> byte list list \<Rightarrow> nat" where
  "child_ix r key ss = length (takeWhile (\<lambda>s. r s \<le> r key) ss)"

definition leaf_ix :: "(byte list \<Rightarrow> int) \<Rightarrow> byte list \<Rightarrow> Entry list \<Rightarrow> nat" where
  "leaf_ix r key es = length (takeWhile (\<lambda>e. r (fst e) < r key) es)"

definition put_at :: "nat \<Rightarrow> 'a \<Rightarrow> 'a list \<Rightarrow> 'a list" where
  "put_at i x xs = take i xs @ x # drop i xs"

text \<open>Insertion into a subtree, new nodes at the end of the file: the changed subtree, the node
  that was split off with its separator, and the number of blocks.\<close>

primrec tree_insert :: "(byte list \<Rightarrow> int) \<Rightarrow> bptree \<Rightarrow> byte list \<Rightarrow> RowId \<Rightarrow> nat
    \<Rightarrow> bptree \<times> (byte list \<times> bptree) option \<times> nat" where
  "tree_insert r (BLeaf k es) = (\<lambda>key row nx.
     let es' = put_at (leaf_ix r key es) (key, row) es
     in if length es < kMaxKeys then (BLeaf k es', None, nx)
        else (BLeaf k (take 16 es'), Some (fst (es' ! 16), BLeaf nx (drop 16 es')), Suc nx))"
| "tree_insert r (BInner k cs ss) = (\<lambda>key row nx.
     let i = child_ix r key ss; (c, split, nx') = (map (tree_insert r) cs ! i) key row nx
     in case split of None \<Rightarrow> (BInner k (cs[i := c]) ss, None, nx')
        | Some (s, d) \<Rightarrow>
            let cs' = put_at (Suc i) d (cs[i := c]); ss' = put_at i s ss
            in if length ss < kMaxKeys then (BInner k cs' ss', None, nx')
               else (BInner k (take 17 cs') (take 16 ss'), Some (ss' ! 16, BInner nx' (drop 17 cs') (drop 17 ss')), Suc nx'))"

primrec tree_search :: "(byte list \<Rightarrow> int) \<Rightarrow> bptree \<Rightarrow> byte list \<Rightarrow> RowId list" where
  "tree_search r (BLeaf k es) = (\<lambda>key. map snd (filter (\<lambda>e. r (fst e) = r key) es))"
| "tree_search r (BInner k cs ss) = (\<lambda>key. (map (tree_search r) cs ! child_ix r key ss) key)"

definition split_list :: "(byte list \<times> bptree) option \<Rightarrow> (bptree \<Rightarrow> 'a list) \<Rightarrow> 'a list" where
  "split_list sp f = (case sp of None \<Rightarrow> [] | Some (s, d) \<Rightarrow> f d)"

text \<open>The child into which a key goes, and its place between the others.\<close>

lemma child_split:
  assumes "ordered r (BInner k cs ss) lo hi" "lo \<le> r key" "r key < hi"
  obtains xs c ys ss1 ss2 lo' hi' where "cs = xs @ c # ys" "ss = ss1 @ ss2" "length xs = child_ix r key ss" "length ss1 = child_ix r key ss"
    "length ys = length ss2" "links (map (ordered r) xs) lo (map r ss1)" "lo' = last (lo # map r ss1)" "ordered r c lo' hi'"
    "links (map (ordered r) ys) hi' (tl (map r ss2 @ [hi]))" "hi' = hd (map r ss2 @ [hi])"
    "lo \<le> lo'" "lo' \<le> r key" "r key < hi'" "length cs = Suc (length ss)"
proof -
  let ?i = "child_ix r key ss"
  define ss1 ss2 where ss12: "ss1 = takeWhile (\<lambda>s. r s \<le> r key) ss" "ss2 = dropWhile (\<lambda>s. r s \<le> r key) ss"
  have l: "links (map (ordered r) cs) lo (map r ss @ [hi])" using assms(1) by simp
  then have len: "length cs = Suc (length ss)" by (drule_tac links_length) simp
  have ss: "ss = ss1 @ ss2" "length ss1 = ?i" by (simp_all add: ss12 child_ix_def)
  have "?i < length cs" using len ss by simp
  then have cs: "cs = take ?i cs @ cs ! ?i # drop (Suc ?i) cs" by (rule id_take_nth_drop)
  define xs c ys where xcy: "xs = take ?i cs" "c = cs ! ?i" "ys = drop (Suc ?i) cs"
  have cs': "cs = xs @ c # ys" "length xs = ?i" using cs \<open>?i < length cs\<close> by (simp_all add: xcy)
  obtain u us where u: "map r ss2 @ [hi] = u # us" by (cases "map r ss2 @ [hi]") auto
  have "links (map (ordered r) xs @ map (ordered r) (c # ys)) lo (map r ss1 @ u # us)"
    using l u cs'(1) ss(1) by simp
  moreover have "length (map (ordered r) xs) = length (map r ss1)" using cs' ss by simp
  ultimately have split: "links (map (ordered r) xs) lo (map r ss1)" "links (map (ordered r) (c # ys)) (last (lo # map r ss1)) (u # us)"
    by (simp_all only: links_append)
  have "last (lo # map r ss1) \<le> r key"
    using assms(2) ss12(1) by (auto simp: last_map dest: last_in_set set_takeWhileD)
  moreover have "r key < u"
  proof (cases ss2)
    case Nil
    with u assms(3) show ?thesis by simp
  next
    case (Cons a as)
    then have "\<not> r a \<le> r key" using hd_dropWhile [of "\<lambda>s. r s \<le> r key" ss] by (simp add: ss12(2) [symmetric])
    with Cons u show ?thesis by simp
  qed
  moreover have "length ys = length ss2" using len cs' ss by simp
  ultimately show ?thesis using split cs' ss len u links_last [OF split(1)] by (intro that [of xs c ys ss1 ss2 "last (lo # map r ss1)" u]) simp_all
qed

section \<open>Order\<close>

lemma links_member:
  "links Ps lo bs \<Longrightarrow> P \<in> set Ps \<Longrightarrow> \<exists>l u. lo \<le> l \<and> u \<le> last (lo # bs) \<and> P l u"
proof (induction Ps lo bs rule: links.induct)
  case (2 P' Ps lo s ss)
  have l: "lo \<le> s" "P' lo s" "links Ps s ss" using 2(2) by simp_all
  note u = links_last [OF l(3)]
  show ?case
  proof (cases "P = P'")
    case True
    with l u show ?thesis by (intro exI [of _ lo] exI [of _ s]) simp
  next
    case False
    with 2(3) have "P \<in> set Ps" by simp
    from 2(1) [OF l(3) this] obtain l' u' where "s \<le> l'" "u' \<le> last (s # ss)" "P l' u'" by blast
    with l show ?thesis by (intro exI [of _ l'] exI [of _ u']) simp
  qed
qed simp_all

lemma ordered_bounds: "ordered r T lo hi \<Longrightarrow> e \<in> set (entries T) \<Longrightarrow> lo \<le> r (fst e) \<and> r (fst e) < hi"
proof (induction T arbitrary: lo hi)
  case (BInner k cs ss)
  then obtain c where c: "c \<in> set cs" "e \<in> set (entries c)" by auto
  from BInner.prems(1) have "links (map (ordered r) cs) lo (map r ss @ [hi])" by simp
  from links_member [OF this, of "ordered r c"] c(1) obtain l u where "lo \<le> l" "u \<le> hi" "ordered r c l u" by auto
  with BInner.IH [OF c(1) this(3) c(2)] show ?case by simp
qed simp

lemma links_bounds:
  assumes "links (map (ordered r) cs) lo bs" "e \<in> set (concat (map entries cs))"
  shows "lo \<le> r (fst e) \<and> r (fst e) < last (lo # bs)"
proof -
  obtain c where c: "c \<in> set cs" "e \<in> set (entries c)" using assms(2) by auto
  from links_member [OF assms(1), of "ordered r c"] c(1) obtain l u where "lo \<le> l" "u \<le> last (lo # bs)" "ordered r c l u" by auto
  with ordered_bounds [OF this(3) c(2)] show ?thesis by simp
qed

lemma links_widen:
  assumes "\<forall>P \<in> set Ps. \<forall>l l' u u'. P l u \<longrightarrow> l' \<le> l \<longrightarrow> u \<le> u' \<longrightarrow> P l' u'"
    and "links Ps lo (ss @ [hi])" "lo' \<le> lo" "hi \<le> hi'"
  shows "links Ps lo' (ss @ [hi'])"
  using assms
proof (induction Ps arbitrary: lo lo' ss)
  case (Cons P Ps)
  show ?case
  proof (cases ss)
    case Nil
    with Cons.prems show ?thesis by (cases Ps) (force dest: links_length)+
  next
    case (Cons s ss')
    with Cons.prems have "links Ps s (ss' @ [hi'])" by (intro Cons.IH [of s ss' s]) auto
    with Cons Cons.prems show ?thesis by force
  qed
qed (use links_length in fastforce)

lemma ordered_widen: "ordered r T lo hi \<Longrightarrow> lo' \<le> lo \<Longrightarrow> hi \<le> hi' \<Longrightarrow> ordered r T lo' hi'"
proof (induction T arbitrary: lo hi lo' hi')
  case (BInner k cs ss)
  then show ?case by (auto intro!: links_widen [of _ lo _ hi])
qed fastforce

lemma tree_search_entries:
  "ordered r T lo hi \<Longrightarrow> lo \<le> r key \<Longrightarrow> r key < hi \<Longrightarrow>
    tree_search r T key = map snd (filter (\<lambda>e. r (fst e) = r key) (entries T))"
proof (induction T arbitrary: lo hi)
  case (BInner k cs ss)
  obtain xs c ys ss1 ss2 lo' hi' where s: "cs = xs @ c # ys" "ss = ss1 @ ss2" "length xs = child_ix r key ss"
      "links (map (ordered r) xs) lo (map r ss1)" "lo' = last (lo # map r ss1)" "ordered r c lo' hi'"
      "links (map (ordered r) ys) hi' (tl (map r ss2 @ [hi]))" "lo' \<le> r key" "r key < hi'"
    using child_split [OF BInner.prems] by metis
  have "\<forall>e \<in> set (concat (map entries xs)). r (fst e) \<noteq> r key" "\<forall>e \<in> set (concat (map entries ys)). r (fst e) \<noteq> r key"
    using links_bounds [OF s(4)] links_bounds [OF s(7)] s(5,8,9) by fastforce+
  then have "filter (\<lambda>e. r (fst e) = r key) (concat (map entries xs)) = []" "filter (\<lambda>e. r (fst e) = r key) (concat (map entries ys)) = []"
    by (simp_all add: filter_empty_conv)
  moreover have "tree_search r (BInner k cs ss) key = tree_search r c key"
    using s(1,3) by (simp add: nth_append flip: s(3))
  ultimately show ?case using BInner.IH [of c, OF _ s(6,8,9)] s(1) by simp
qed simp

section \<open>Insertion keeps the order\<close>

lemma put_at_append: "length xs = i \<Longrightarrow> put_at i x (xs @ ys) = xs @ x # ys" "length xs = i \<Longrightarrow> put_at (Suc i) x (xs @ y # ys) = xs @ y # x # ys"
  by (simp_all add: put_at_def)

lemma length_put_at [simp]: "length (put_at i x xs) = Suc (length xs)"
  by (simp add: put_at_def)

lemma mset_put_at [simp]: "mset (put_at i x xs) = add_mset x (mset xs)"
  unfolding put_at_def using mset_append [of "take i xs" "drop i xs"] by simp

lemma map_put_at: "map f (put_at i x xs) = put_at i (f x) (map f xs)"
  by (simp add: put_at_def take_map drop_map)

lemma links_take_drop:
  assumes "links Ps lo bs" "n \<le> length bs"
  shows "links (take n Ps) lo (take n bs)" "links (drop n Ps) (last (lo # take n bs)) (drop n bs)"
proof -
  have "length (take n Ps) = length (take n bs)" using links_length [OF assms(1)] by simp
  from links_append [OF this, of "drop n Ps" lo "drop n bs"] assms(1)
  show "links (take n Ps) lo (take n bs)" "links (drop n Ps) (last (lo # take n bs)) (drop n bs)" by simp_all
qed

lemma leaf_put_sorted:
  assumes "sorted_wrt (\<lambda>a b. r (fst a) < r (fst b)) es" "r key \<notin> (r \<circ> fst) ` set es"
  shows "sorted_wrt (\<lambda>a b. r (fst a) < r (fst b)) (put_at (leaf_ix r key es) (key, row) es)"
proof -
  let ?p = "\<lambda>e. r (fst e) < r key"
  have split: "put_at (leaf_ix r key es) (key, row) es = takeWhile ?p es @ (key, row) # dropWhile ?p es"
    by (simp add: put_at_def leaf_ix_def takeWhile_eq_take [symmetric] dropWhile_eq_drop [symmetric])
  have "partitioned ?p es" unfolding partitioned_def using assms(1) by (rule sorted_wrt_mono_rel [rotated]) simp
  then have "\<forall>e \<in> set (dropWhile ?p es). r key < r (fst e)"
    using assms(2) by (auto simp: partitioned_dropWhile) (metis comp_apply image_eqI not_less_iff_gr_or_eq fst_conv)
  moreover have "\<forall>e \<in> set (takeWhile ?p es). ?p e" by (auto dest: set_takeWhileD)
  moreover have "sorted_wrt (\<lambda>a b. r (fst a) < r (fst b)) (takeWhile ?p es @ dropWhile ?p es)" using assms(1) by simp
  ultimately show ?thesis unfolding split by (fastforce simp only: sorted_wrt_append sorted_wrt.simps ball_Un set_append list.set ball_simps fst_conv dest: less_trans)
qed

definition split_ok :: "(byte list \<Rightarrow> int) \<Rightarrow> int \<Rightarrow> int \<Rightarrow> bptree \<Rightarrow> (byte list \<times> bptree) option \<Rightarrow> bool" where
  "split_ok r lo hi T split \<longleftrightarrow>
     (case split of None \<Rightarrow> ordered r T lo hi
      | Some (s, d) \<Rightarrow> lo \<le> r s \<and> r s \<le> hi \<and> ordered r T lo (r s) \<and> ordered r d (r s) hi)"

lemma leaf_insert_ordered:
  assumes "ordered r (BLeaf k es) lo hi" "lo \<le> r key" "r key < hi" "r key \<notin> (r \<circ> fst) ` set es"
    and "tree_insert r (BLeaf k es) key row nx = (T, split, nx')"
  shows "split_ok r lo hi T split \<and> mset (entries T @ split_list split entries) = add_mset (key, row) (mset es)"
proof -
  let ?es = "put_at (leaf_ix r key es) (key, row) es"
  have set: "set ?es = insert (key, row) (set es)" by (metis mset_put_at set_mset_add_mset_insert set_mset_mset)
  have o: "ordered r (BLeaf k ?es) lo hi" using assms(1-4) leaf_put_sorted [of r es key row] by (simp add: set)
  show ?thesis
  proof (cases "length es < kMaxKeys")
    case True
    with assms(5) o show ?thesis by (auto simp: Let_def split_ok_def split_list_def)
  next
    case False
    then have long: "16 < length ?es" by (simp add: kMaxKeys_def)
    let ?s = "?es ! 16"
    have es: "?es = take 16 ?es @ ?s # drop 17 ?es" using id_take_nth_drop [OF long] by simp
    then have "drop 16 ?es = ?s # drop 17 ?es" using Cons_nth_drop_Suc [OF long] by simp
    moreover from o have "sorted_wrt (\<lambda>a b. r (fst a) < r (fst b)) (take 16 ?es @ ?s # drop 17 ?es)" by (simp flip: es)
    ultimately have "ordered r (BLeaf k (take 16 ?es)) lo (r (fst ?s))" "ordered r (BLeaf nx (drop 16 ?es)) (r (fst ?s)) hi"
      using o in_set_takeD [of _ 16 ?es] in_set_dropD [of _ 16 ?es] by (auto simp: sorted_wrt_append intro: less_imp_le)
    moreover have "lo \<le> r (fst ?s)" "r (fst ?s) \<le> hi" using o nth_mem [OF long] by (simp_all add: less_imp_le)
    moreover have "mset (take 16 ?es) + mset (drop 16 ?es) = add_mset (key, row) (mset es)"
      by (metis append_take_drop_id mset_append mset_put_at)
    ultimately show ?thesis using assms(5) False by (auto simp: Let_def split_ok_def split_list_def)
  qed
qed

text \<open>The parent takes up a changed child and, if it was split, its other half.\<close>

lemma inner_insert_ordered:
  assumes "links (map (ordered r) xs) lo (map r ss1)" "links (map (ordered r) ys) hi' (tl (map r ss2 @ [hi]))" "hi' = hd (map r ss2 @ [hi])"
    and "length xs = length ss1" "length ys = length ss2" "split_ok r (last (lo # map r ss1)) hi' c split" "last (lo # map r ss1) \<le> hi'"
  shows "case split of None \<Rightarrow> links (map (ordered r) (xs @ c # ys)) lo (map r (ss1 @ ss2) @ [hi])
    | Some (s, d) \<Rightarrow> links (map (ordered r) (xs @ c # d # ys)) lo (map r (ss1 @ s # ss2) @ [hi])"
proof -
  have bs: "map r ss2 @ [hi] = hi' # tl (map r ss2 @ [hi])" using assms(3) by (cases "map r ss2 @ [hi]") simp_all
  have app: "links (map (ordered r) xs @ Qs) lo (map r ss1 @ ts) \<longleftrightarrow> links Qs (last (lo # map r ss1)) ts" for Qs ts
    using assms(1,4) by (subst links_append) auto
  show ?thesis
  proof (cases split)
    case None
    with assms(2,6,7) have "links (map (ordered r) (c # ys)) (last (lo # map r ss1)) (map r ss2 @ [hi])"
      by (subst bs) (simp add: split_ok_def)
    with None app show ?thesis by simp
  next
    case (Some p)
    obtain s d where p: "p = (s, d)" by (cases p)
    have "links (map (ordered r) (c # d # ys)) (last (lo # map r ss1)) (r s # map r ss2 @ [hi])"
      using assms(2,6) Some p by (subst bs) (simp add: split_ok_def)
    with Some p app show ?thesis by simp
  qed
qed

lemma inner_split_ordered:
  assumes "links (map (ordered r) cs) lo (map r ss @ [hi])" "16 < length ss"
  shows "split_ok r lo hi (BInner k (take 17 cs) (take 16 ss)) (Some (ss ! 16, BInner k' (drop 17 cs) (drop 17 ss)))"
proof -
  let ?bs = "map r ss @ [hi]"
  have "take 17 ss = take 16 ss @ [ss ! 16]" using take_Suc_conv_app_nth [OF assms(2)] by simp
  then have bs: "take 17 ?bs = map r (take 16 ss) @ [r (ss ! 16)]" "drop 17 ?bs = map r (drop 17 ss) @ [hi]"
    using assms(2) by (simp_all add: take_map drop_map)
  have "17 \<le> length ?bs" using assms(2) by simp
  note td = links_take_drop [OF assms(1) this, unfolded bs take_map drop_map]
  have l: "links (map (ordered r) (take 17 cs)) lo (map r (take 16 ss) @ [r (ss ! 16)])"
      "links (map (ordered r) (drop 17 cs)) (r (ss ! 16)) (map r (drop 17 ss) @ [hi])"
    using td by simp_all
  with links_last [OF l(1)] links_last [OF l(2)] show ?thesis by (simp add: split_ok_def)
qed

text \<open>One level of the insertion, around the child into which the key goes.\<close>

definition absorb :: "nat \<Rightarrow> bptree list \<Rightarrow> bptree list \<Rightarrow> byte list list \<Rightarrow> byte list list
    \<Rightarrow> bptree \<times> (byte list \<times> bptree) option \<times> nat \<Rightarrow> bptree \<times> (byte list \<times> bptree) option \<times> nat" where
  "absorb k xs ys ss1 ss2 res =
     (case res of (c, None, nx) \<Rightarrow> (BInner k (xs @ c # ys) (ss1 @ ss2), None, nx)
      | (c, Some (s, d), nx) \<Rightarrow>
          let cs = xs @ c # d # ys; ss = ss1 @ s # ss2
          in if length (ss1 @ ss2) < kMaxKeys then (BInner k cs ss, None, nx)
             else (BInner k (take 17 cs) (take 16 ss), Some (ss ! 16, BInner nx (drop 17 cs) (drop 17 ss)), Suc nx))"

lemma tree_insert_inner:
  assumes "cs = xs @ c # ys" "ss = ss1 @ ss2" "length xs = child_ix r key ss" "length ss1 = child_ix r key ss"
  shows "tree_insert r (BInner k cs ss) key row nx = absorb k xs ys ss1 ss2 (tree_insert r c key row nx)"
proof -
  have "map (tree_insert r) cs ! child_ix r key ss = tree_insert r c" using assms(1,3) by (simp add: nth_append flip: assms(3))
  moreover have "cs[child_ix r key ss := c'] = xs @ c' # ys" for c' using assms(1,3) by (simp add: list_update_append flip: assms(3))
  moreover have "put_at (child_ix r key ss) s ss = ss1 @ s # ss2" for s using assms(2,4) put_at_append(1) by metis
  ultimately show ?thesis
    using assms(2) put_at_append(2) [OF assms(3)]
    by (auto simp: absorb_def Let_def split: prod.splits option.splits)
qed

lemma tree_insert_ordered:
  "ordered r T lo hi \<Longrightarrow> lo \<le> r key \<Longrightarrow> r key < hi \<Longrightarrow> r key \<notin> (r \<circ> fst) ` set (entries T) \<Longrightarrow>
    tree_insert r T key row nx = (T', split, nx') \<Longrightarrow>
    split_ok r lo hi T' split \<and> mset (entries T' @ split_list split entries) = add_mset (key, row) (mset (entries T))"
proof (induction T arbitrary: lo hi T' split nx')
  case (BLeaf k es)
  then show ?case using leaf_insert_ordered [of r k es lo hi key row nx T' split nx'] by (simp del: tree_insert.simps)
next
  case (BInner k cs ss)
  obtain xs c ys ss1 ss2 lo' hi' where s: "cs = xs @ c # ys" "ss = ss1 @ ss2" "length xs = child_ix r key ss" "length ss1 = child_ix r key ss"
      "length ys = length ss2" "links (map (ordered r) xs) lo (map r ss1)" "lo' = last (lo # map r ss1)" "ordered r c lo' hi'"
      "links (map (ordered r) ys) hi' (tl (map r ss2 @ [hi]))" "hi' = hd (map r ss2 @ [hi])" "lo' \<le> r key" "r key < hi'"
    using child_split [OF BInner.prems(1-3)] by metis
  obtain c' sp nx1 where c': "tree_insert r c key row nx = (c', sp, nx1)" by (cases "tree_insert r c key row nx") auto
  have "c \<in> set cs" "r key \<notin> (r \<circ> fst) ` set (entries c)" using s(1) BInner.prems(4) by auto
  from BInner.IH [OF this(1) s(8,11,12) this(2) c']
  have ok: "split_ok r lo' hi' c' sp" and ms: "mset (entries c') + mset (split_list sp entries) = add_mset (key, row) (mset (entries c))" by simp_all
  have res: "(T', split, nx') = absorb k xs ys ss1 ss2 (c', sp, nx1)"
    using BInner.prems(5) tree_insert_inner [OF s(1,2,3,4)] c' by simp
  have "length xs = length ss1" "lo' \<le> hi'" using s(3,4,11,12) by simp_all
  note links = inner_insert_ordered [OF s(6,9,10) this(1) s(5) ok [unfolded s(7)] this(2) [unfolded s(7)]]
  show ?case
  proof (cases sp)
    case None
    with res links ms s(1) show ?thesis by (simp add: absorb_def split_ok_def split_list_def)
  next
    case (Some p)
    obtain sep d where p: "p = (sep, d)" by (cases p)
    let ?cs = "xs @ c' # d # ys" and ?ss = "ss1 @ sep # ss2"
    have l: "links (map (ordered r) ?cs) lo (map r ?ss @ [hi])" using links Some p by simp
    have m: "mset (concat (map entries ?cs)) = add_mset (key, row) (mset (entries (BInner k cs ss)))"
      using ms Some p s(1) by (simp add: split_list_def)
    show ?thesis
    proof (cases "length (ss1 @ ss2) < kMaxKeys")
      case True
      with res Some p l m show ?thesis by (auto simp: absorb_def split_ok_def split_list_def Let_def)
    next
      case False
      then have "16 < length ?ss" by (simp add: kMaxKeys_def)
      note ok = inner_split_ordered [OF l this, of k nx1]
      have "mset (concat (map entries (take 17 ?cs))) + mset (concat (map entries (drop 17 ?cs))) = mset (concat (map entries ?cs))"
        by (metis append_take_drop_id map_append concat_append mset_append)
      with ok m res Some p False show ?thesis by (auto simp: absorb_def split_list_def Let_def simp del: take_append drop_append)
    qed
  qed
qed

section \<open>Blocks and keys of the changed tree\<close>

lemma child_parts:
  assumes "length cs = Suc (length ss)"
  obtains xs c ys ss1 ss2 where "cs = xs @ c # ys" "ss = ss1 @ ss2" "length xs = child_ix r key ss" "length ss1 = child_ix r key ss"
    "length ys = length ss2"
proof -
  let ?i = "child_ix r key ss"
  have i: "?i \<le> length ss" unfolding child_ix_def by (rule length_takeWhile_le)
  with assms have "?i < length cs" by simp
  from id_take_nth_drop [OF this] i assms show ?thesis
    by (intro that [of "take ?i cs" "cs ! ?i" "drop (Suc ?i) cs" "take ?i ss" "drop ?i ss"]) simp_all
qed

lemma absorb_blocks:
  assumes "absorb k xs ys ss1 ss2 (c', sp, nx1) = (T', split, nx')"
    and "mset (blocks c' @ split_list sp blocks) = mset (blocks c @ [nx..<nx1])" "nx \<le> nx1"
  shows "nx1 \<le> nx' \<and> nx' \<le> Suc nx1 \<and> block_of T' = k \<and>
    mset (blocks T' @ split_list split blocks) = mset (blocks (BInner k (xs @ c # ys) (ss1 @ ss2)) @ [nx..<nx'])"
proof (cases sp)
  case None
  with assms show ?thesis by (auto simp: absorb_def split_list_def)
next
  case (Some p)
  obtain s d where p: "p = (s, d)" by (cases p)
  let ?cs = "xs @ c' # d # ys"
  have m: "mset (concat (map blocks ?cs)) = mset (concat (map blocks (xs @ c # ys))) + mset [nx..<nx1]"
    using assms(2) Some p by (simp add: split_list_def)
  have "mset (concat (map blocks (take 17 ?cs))) + mset (concat (map blocks (drop 17 ?cs))) = mset (concat (map blocks ?cs))"
    by (metis append_take_drop_id map_append concat_append mset_append)
  moreover have "mset_set {nx..<Suc nx1} = add_mset nx1 (mset_set {nx..<nx1})"
    using assms(3) by (simp add: atLeastLessThanSuc)
  ultimately show ?thesis
    using m assms(1,3) Some p by (auto simp: absorb_def split_list_def Let_def simp del: take_append drop_append split: if_splits)
qed

definition split_small :: "bptree \<Rightarrow> (byte list \<times> bptree) option \<Rightarrow> bool" where
  "split_small T split \<longleftrightarrow> small_nodes T \<and> (case split of None \<Rightarrow> True | Some (s, d) \<Rightarrow> small_nodes d)"

lemma list_all_parts: "list_all P xs \<Longrightarrow> list_all P (take n xs) \<and> list_all P (drop n xs)"
  by (metis append_take_drop_id list_all_append)

lemma absorb_small:
  assumes "absorb k xs ys ss1 ss2 (c', sp, nx1) = (T', split, nx')" "split_small c' sp"
    and "small_nodes (BInner k (xs @ c # ys) (ss1 @ ss2))" "length xs = length ss1"
  shows "split_small T' split"
proof (cases sp)
  case None
  with assms show ?thesis by (auto simp: absorb_def split_small_def)
next
  case (Some p)
  obtain s d where p: "p = (s, d)" by (cases p)
  let ?cs = "xs @ c' # d # ys"
  have all: "list_all id (map small_nodes ?cs)" "length ?cs = Suc (length (ss1 @ s # ss2))" using assms(2,3) Some p by (auto simp: split_small_def)
  note list_all_parts [OF all(1), of 17]
  with all show ?thesis
    using assms(1,3) Some p
    by (auto simp: absorb_def split_small_def Let_def kMaxKeys_def take_map [symmetric] drop_map [symmetric]
        simp del: take_append drop_append split: if_splits)
qed

lemma tree_insert_blocks:
  "small_nodes T \<Longrightarrow> tree_insert r T key row nx = (T', split, nx') \<Longrightarrow>
    nx \<le> nx' \<and> nx' \<le> nx + length (blocks T) \<and> block_of T' = block_of T \<and> split_small T' split \<and>
    mset (blocks T' @ split_list split blocks) = mset (blocks T @ [nx..<nx'])"
proof (induction T arbitrary: T' split nx')
  case (BLeaf k es)
  then show ?case by (auto simp: Let_def split_list_def split_small_def kMaxKeys_def split: if_splits)
next
  case (BInner k cs ss)
  have "length cs = Suc (length ss)" using BInner.prems(1) by simp
  then obtain xs c ys ss1 ss2 where s: "cs = xs @ c # ys" "ss = ss1 @ ss2" "length xs = child_ix r key ss" "length ss1 = child_ix r key ss"
    using child_parts by metis
  obtain c' sp nx1 where c': "tree_insert r c key row nx = (c', sp, nx1)" by (cases "tree_insert r c key row nx") auto
  have "c \<in> set cs" "small_nodes c" using s(1) BInner.prems(1) by auto
  note ih = BInner.IH [OF this c']
  have res: "absorb k xs ys ss1 ss2 (c', sp, nx1) = (T', split, nx')"
    using BInner.prems(2) tree_insert_inner [OF s(1,2,3,4)] c' by simp
  have b: "nx1 \<le> nx' \<and> nx' \<le> Suc nx1 \<and> block_of T' = k \<and>
      mset (blocks T' @ split_list split blocks) = mset (blocks (BInner k (xs @ c # ys) (ss1 @ ss2)) @ [nx..<nx'])"
    using ih by (intro absorb_blocks [OF res]) blast+
  have "split_small T' split"
    using ih s BInner.prems(1) by (intro absorb_small [OF res, of c]) simp_all
  moreover have "Suc (length (blocks c)) \<le> length (blocks (BInner k cs ss))" using s(1) by simp
  ultimately show ?case using b ih s(1,2) by (simp del: blocks.simps)
qed

definition tree_keys :: "bptree \<Rightarrow> byte list set" where
  "tree_keys T = fst ` set (entries T) \<union> set (separators T)"

definition split_keys :: "(byte list \<times> bptree) option \<Rightarrow> byte list set" where
  "split_keys split = (case split of None \<Rightarrow> {} | Some (s, d) \<Rightarrow> insert s (tree_keys d))"

lemma tree_keys_inner: "tree_keys (BInner k cs ss) = set ss \<union> (\<Union>c \<in> set cs. tree_keys c)"
  by (auto simp: tree_keys_def)

lemma halves_subset:
  "a \<in> S \<Longrightarrow> A1 \<subseteq> U \<Longrightarrow> A2 \<subseteq> U \<Longrightarrow> B1 \<subseteq> S \<Longrightarrow> B2 \<subseteq> S \<Longrightarrow> S \<union> U \<subseteq> K \<Longrightarrow> (B1 \<union> A1) \<union> insert a (B2 \<union> A2) \<subseteq> K"
  by blast

lemma tree_insert_keys:
  "small_nodes T \<Longrightarrow> tree_insert r T key row nx = (T', split, nx') \<Longrightarrow>
    tree_keys T' \<union> split_keys split \<subseteq> insert key (tree_keys T)"
proof (induction T arbitrary: T' split nx')
  case (BLeaf k es)
  let ?es = "put_at (leaf_ix r key es) (key, row) es"
  have set: "set ?es = insert (key, row) (set es)" by (metis mset_put_at set_mset_add_mset_insert set_mset_mset)
  have keys: "fst ` set ?es \<subseteq> insert key (tree_keys (BLeaf k es))" by (auto simp: set tree_keys_def)
  show ?case
  proof (cases "length es < kMaxKeys")
    case True
    with BLeaf.prems(2) have "T' = BLeaf k ?es" "split = None" by (simp_all add: Let_def)
    with keys show ?thesis by (simp add: split_keys_def tree_keys_def)
  next
    case False
    then have "?es ! 16 \<in> set ?es" by (intro nth_mem) (simp add: kMaxKeys_def)
    then have "fst ` set (take 16 ?es) \<union> insert (fst (?es ! 16)) (fst ` set (drop 16 ?es)) \<subseteq> fst ` set ?es"
      by (blast dest: in_set_takeD in_set_dropD)
    moreover have "T' = BLeaf k (take 16 ?es)" "split = Some (fst (?es ! 16), BLeaf nx (drop 16 ?es))"
      using BLeaf.prems(2) False by (simp_all add: Let_def)
    ultimately show ?thesis using keys by (simp add: split_keys_def tree_keys_def) blast
  qed
next
  case (BInner k cs ss)
  have "length cs = Suc (length ss)" using BInner.prems(1) by simp
  then obtain xs c ys ss1 ss2 where s: "cs = xs @ c # ys" "ss = ss1 @ ss2" "length xs = child_ix r key ss" "length ss1 = child_ix r key ss"
    using child_parts by metis
  obtain c' sp nx1 where c': "tree_insert r c key row nx = (c', sp, nx1)" by (cases "tree_insert r c key row nx") auto
  have "c \<in> set cs" "small_nodes c" using s(1) BInner.prems(1) by auto
  note ih = BInner.IH [OF this c']
  have res: "absorb k xs ys ss1 ss2 (c', sp, nx1) = (T', split, nx')"
    using BInner.prems(2) tree_insert_inner [OF s(1,2,3,4)] c' by simp
  show ?case
  proof (cases sp)
    case None
    with res ih s show ?thesis by (auto simp: absorb_def split_keys_def tree_keys_inner)
  next
    case (Some p)
    obtain sep d where p: "p = (sep, d)" by (cases p)
    let ?cs = "xs @ c' # d # ys" and ?ss = "ss1 @ sep # ss2"
    have sub: "set ?ss \<union> (\<Union>c \<in> set ?cs. tree_keys c) \<subseteq> insert key (tree_keys (BInner k cs ss))"
      using ih Some p s by (auto simp: split_keys_def tree_keys_inner)
    show ?thesis
    proof (cases "length (ss1 @ ss2) < kMaxKeys")
      case True
      then have "T' = BInner k ?cs ?ss" "split = None" using res Some p by (simp_all add: absorb_def)
      with sub show ?thesis by (simp add: split_keys_def tree_keys_inner)
    next
      case False
      then have "?ss ! 16 \<in> set ?ss" by (intro nth_mem) (simp add: kMaxKeys_def)
      moreover have "T' = BInner k (take 17 ?cs) (take 16 ?ss)" "split = Some (?ss ! 16, BInner nx1 (drop 17 ?cs) (drop 17 ?ss))"
        using res Some p False by (simp_all add: absorb_def Let_def del: take_append drop_append)
      moreover have "(\<Union>c \<in> set (take 17 ?cs). tree_keys c) \<subseteq> (\<Union>c \<in> set ?cs. tree_keys c)"
        "(\<Union>c \<in> set (drop 17 ?cs). tree_keys c) \<subseteq> (\<Union>c \<in> set ?cs. tree_keys c)"
        by (intro UN_mono set_take_subset set_drop_subset order_refl)+
      ultimately show ?thesis using sub halves_subset [OF _ _ _ set_take_subset [of 16 ?ss] set_drop_subset [of 17 ?ss]]
        by (simp only: split_keys_def tree_keys_inner [of k "take 17 ?cs"] tree_keys_inner [of nx1] option.case prod.case)
    qed
  qed
qed

end
