(* ===== verification/Btree_File.thy ===== *)
theory Btree_File
  imports Btree_Tree Table_Refine
begin

text \<open>
  The index file: its blocks as a list of nodes, writing and appending a node, the searches inside
  a node, and the relation between the nodes of the file and the tree of \<open>Btree_Tree\<close>.
\<close>

section \<open>Keys\<close>

text \<open>The contract of a comparison function: on valid keys it compares a rank.\<close>

locale key_order =
  fixes cmp :: "'k \<Rightarrow> 'k \<Rightarrow> int" and valid :: "'k \<Rightarrow> bool" and rank :: "'k \<Rightarrow> int"
  assumes cmp_rank: "valid a \<Longrightarrow> valid b \<Longrightarrow> cmp a b = sgn_cmp (rank a) (rank b)"
begin

lemma cmp_iff:
  assumes "valid a" "valid b"
  shows "cmp a b < 0 \<longleftrightarrow> rank a < rank b" "cmp a b \<le> 0 \<longleftrightarrow> rank a \<le> rank b" "cmp a b = 0 \<longleftrightarrow> rank a = rank b"
  using assms by (auto simp: cmp_rank sgn_cmp_def)

text \<open>The two binary searches of the code, over a range whose comparisons are \<open>c\<close>.\<close>

lemma upper_search:
  assumes "\<And>i. i < length ss \<Longrightarrow> c i = cmp key (ss ! i)" "\<forall>s \<in> set ss. valid s" "valid key" "sorted (map rank ss)"
  shows "bin_search (\<lambda>i. \<not> c i < 0) 0 (length ss) = length (takeWhile (\<lambda>s. rank s \<le> rank key) ss)"
proof (rule bin_search_eq)
  fix i
  assume i: "i < length ss"
  have "partitioned (\<lambda>s. rank s \<le> rank key) ss"
    using assms(4) unfolding partitioned_def sorted_map by (rule sorted_wrt_mono_rel [rotated]) simp
  from partitioned_nth [OF this i] show "(\<not> c i < 0) = (i < length (takeWhile (\<lambda>s. rank s \<le> rank key) ss))"
    using i assms(1-3) by (simp add: cmp_iff not_less)
qed (simp_all add: length_takeWhile_le)

lemma lower_search:
  assumes "\<And>i. i < length ss \<Longrightarrow> c i = cmp key (ss ! i)" "\<forall>s \<in> set ss. valid s" "valid key" "sorted (map rank ss)"
  shows "bin_search (\<lambda>i. \<not> c i \<le> 0) 0 (length ss) = length (takeWhile (\<lambda>s. rank s < rank key) ss)"
proof (rule bin_search_eq)
  fix i
  assume i: "i < length ss"
  have "partitioned (\<lambda>s. rank s < rank key) ss"
    using assms(4) unfolding partitioned_def sorted_map by (rule sorted_wrt_mono_rel [rotated]) simp
  from partitioned_nth [OF this i] show "(\<not> c i \<le> 0) = (i < length (takeWhile (\<lambda>s. rank s < rank key) ss))"
    using i assms(1-3) by (simp add: cmp_iff not_le)
qed (simp_all add: length_takeWhile_le)

end

text \<open>The search for an equal key, in a range without duplicates.\<close>

lemma search_loop:
  assumes "\<And>i. i < n \<Longrightarrow> c i = sgn_cmp x (v i)" "\<And>i j. i < j \<Longrightarrow> j < n \<Longrightarrow> v i < (v j :: int)"
    and "hi \<le> n" "\<forall>i < n. v i = x \<longrightarrow> lo \<le> i \<and> i < hi"
  shows "case search_key_loop c lo hi of None \<Rightarrow> \<forall>i < n. v i \<noteq> x | Some i \<Rightarrow> i < n \<and> v i = x"
  using assms
proof (induction c lo hi rule: search_key_loop.induct)
  case (1 c lo hi)
  show ?case
  proof (cases "lo < hi")
    case False
    with "1.prems"(4) show ?thesis by (subst search_key_loop.simps) fastforce
  next
    case True
    define mid where "mid = lo + (hi - lo) div 2"
    have mid: "lo \<le> mid" "mid < hi" "mid < n" using True "1.prems"(3) by (auto simp: mid_def)
    have c: "c mid = sgn_cmp x (v mid)" using "1.prems"(1) mid(3) by simp
    have unfold: "search_key_loop c lo hi = (if c mid = 0 then Some (back_equal c mid)
        else if c mid < 0 then search_key_loop c lo mid else search_key_loop c (mid + 1) hi)"
      using True by (subst search_key_loop.simps) (simp add: mid_def Let_def)
    consider "v mid = x" | "x < v mid" | "v mid < x" by linarith
    then show ?thesis
    proof cases
      case 1
      have "back_equal c mid = mid"
      proof (cases mid)
        case (Suc m)
        then have "v m < v mid" "c m = sgn_cmp x (v m)" using "1.prems"(1,2) mid(3) by simp_all
        with Suc 1 show ?thesis by (simp add: sgn_cmp_def)
      qed simp
      with 1 c unfold mid(3) show ?thesis by (simp add: sgn_cmp_def)
    next
      case 2
      with c have "c mid \<noteq> 0" "c mid < 0" by (simp_all add: sgn_cmp_def)
      moreover have "\<forall>i < n. v i = x \<longrightarrow> lo \<le> i \<and> i < mid"
        using 2 "1.prems"(2,4) mid(3) by (metis less_asym linorder_neqE_nat)
      ultimately show ?thesis
        using "1.IH"(1) [OF True mid_def] "1.prems"(1,2) mid(3) unfold by simp
    next
      case 3
      with c have "c mid \<noteq> 0" "\<not> c mid < 0" by (simp_all add: sgn_cmp_def)
      moreover have "\<forall>i < n. v i = x \<longrightarrow> mid + 1 \<le> i \<and> i < hi"
        using 3 "1.prems"(2,4) mid(3) by (metis Suc_eq_plus1 Suc_leI less_asym linorder_neqE_nat)
      ultimately show ?thesis
        using "1.IH"(2) [OF True mid_def] "1.prems"(1,2,3) unfold by simp
    qed
  qed
qed

text \<open>The keys of the types of fixed size, and what they stand for. Not a number is no key.\<close>

definition key_rank :: "byte \<Rightarrow> byte list \<Rightarrow> int" where
  "key_rank t k =
     (if t = column_type_tag kInt32 then sint (u32_at k 0)
      else if t = column_type_tag kTimestamp \<or> t = column_type_tag kInt64 then sint (u64_at k 0)
      else if t = column_type_tag kFloat64 then f64_key (u64_at k 0)
      else if k = [0] then 0 else 1)"

definition good_key :: "byte \<Rightarrow> byte list \<Rightarrow> bool" where
  "good_key t k \<longleftrightarrow> t \<in> column_type_tag ` {kInt32, kTimestamp, kInt64, kFloat64, kBool} \<and> length k = slot_key_size t \<and>
     (t = column_type_tag kFloat64 \<longrightarrow> \<not> f64_nan (u64_at k 0))"

lemma compare_good:
  assumes "good_key t a" "good_key t b"
  shows "compare_keys a b t = sgn_cmp (key_rank t a) (key_rank t b)"
  using assms
  by (auto simp: good_key_def slot_key_size_def compare_keys_def key_rank_def sgn_cmp_def f64_lt_def length_Suc_conv)

interpretation keys: key_order "\<lambda>a b. compare_keys a b t" "good_key t" "key_rank t" for t
  by unfold_locales (rule compare_good)

section \<open>Nodes\<close>

definition node_ok :: "nat \<Rightarrow> Node \<Rightarrow> bool" where
  "node_ok ks n \<longleftrightarrow> length (nd_pad n) = 3 \<and> length (nd_keys n) = kMaxKeys \<and> list_all (\<lambda>k. length k = ks) (nd_keys n) \<and>
     length (nd_vals n) = kMaxKeys"

lemma length_concat_keys: "list_all (\<lambda>k. length k = ks) xs \<Longrightarrow> length (concat xs) = length xs * ks"
  by (induction xs) simp_all

lemma length_node_bytes: "node_ok ks n \<Longrightarrow> length (node_bytes n) = node_size ks"
  using length_concat_keys [of ks "nd_keys n"] length_concat_keys [of 8 "map put_u64 (nd_vals n)"]
  by (simp add: node_ok_def node_bytes_def node_size_def kNodeHdr_def list_all_iff add_mult_distrib2)

lemma drop_exact: "length p = k \<Longrightarrow> drop (k + m) (p @ r) = drop m r"
  by simp

lemma node_roundtrip:
  assumes "node_ok ks n"
  shows "node_of_bytes ks (node_bytes n) = n"
proof -
  let ?h = "put_u32 (nd_num n) @ [nd_leaf n] @ nd_pad n @ put_u64 (nd_first n)"
  let ?ks = "concat (nd_keys n)" and ?vs = "concat (map put_u64 (nd_vals n))"
  have bytes: "node_bytes n = ?h @ ?ks @ ?vs" by (simp add: node_bytes_def)
  have len: "length ?h = 16" "length ?ks = kMaxKeys * ks" "length (nd_keys n) = kMaxKeys" "length (nd_vals n) = kMaxKeys" "length (nd_pad n) = 3"
    using assms length_concat_keys [of ks "nd_keys n"] by (simp_all add: node_ok_def)
  have "u32_at (node_bytes n) 0 = nd_num n"
    using at_put(2) [of "[]" 0 "nd_num n"] by (simp add: node_bytes_def)
  moreover have "hd (drop 4 (node_bytes n)) = nd_leaf n" "take 3 (drop 5 (node_bytes n)) = nd_pad n"
    using len(5) by (simp_all add: node_bytes_def)
  moreover have "u64_at (node_bytes n) 8 = nd_first n"
    using at_put(3) [of "put_u32 (nd_num n) @ [nd_leaf n] @ nd_pad n" 8 "nd_first n" "?ks @ ?vs"] len(5) by (simp add: node_bytes_def)
  moreover have "map (\<lambda>i. take ks (drop (16 + i * ks) (node_bytes n))) [0..<kMaxKeys] = nd_keys n"
  proof (rule nth_equalityI)
    fix i
    assume i: "i < length (map (\<lambda>i. take ks (drop (16 + i * ks) (node_bytes n))) [0..<kMaxKeys])"
    have "list_all (\<lambda>c. length c = ks) (nd_keys n)" using assms by (simp add: node_ok_def)
    from concat_fixed_nth [OF this, of i ?vs] i len have "take ks (drop (i * ks) (?ks @ ?vs)) = nd_keys n ! i" by simp
    moreover have "drop (16 + i * ks) (node_bytes n) = drop (i * ks) (?ks @ ?vs)" unfolding bytes by (rule drop_exact [OF len(1)])
    ultimately show "map (\<lambda>i. take ks (drop (16 + i * ks) (node_bytes n))) [0..<kMaxKeys] ! i = nd_keys n ! i"
      using i by simp
  qed (simp add: len)
  moreover have "map (\<lambda>i. u64_at (node_bytes n) (16 + kMaxKeys * ks + i * 8)) [0..<kMaxKeys] = nd_vals n"
  proof (rule nth_equalityI)
    fix i
    assume i: "i < length (map (\<lambda>i. u64_at (node_bytes n) (16 + kMaxKeys * ks + i * 8)) [0..<kMaxKeys])"
    have "drop (16 + (kMaxKeys * ks + i * 8)) (node_bytes n) = drop (kMaxKeys * ks + i * 8) (?ks @ ?vs)"
      unfolding bytes by (rule drop_exact [OF len(1)])
    also have "\<dots> = drop (i * 8) ?vs" by (rule drop_exact [OF len(2)])
    finally have "drop (16 + kMaxKeys * ks + i * 8) (node_bytes n) = drop (i * 8) ?vs" by (simp add: add.assoc)
    with i concat_fixed_nth [of 8 "map put_u64 (nd_vals n)" i "[]"] len
    show "map (\<lambda>i. u64_at (node_bytes n) (16 + kMaxKeys * ks + i * 8)) [0..<kMaxKeys] ! i = nd_vals n ! i"
      by (simp add: u64_at_def list_all_length)
  qed (simp add: len)
  ultimately show ?thesis by (simp add: node_of_bytes_def kNodeHdr_def)
qed

lemma node_ok_of_bytes:
  assumes "length bs = node_size ks"
  shows "node_ok ks (node_of_bytes ks bs)"
proof -
  have "ks \<le> kMaxKeys * ks + kMaxKeys * 8 - k * ks" if "k < kMaxKeys" for k
  proof -
    have "Suc k * ks \<le> kMaxKeys * ks" using that by (intro mult_le_mono1) simp
    then show ?thesis by simp
  qed
  with assms show ?thesis by (auto simp: node_ok_def node_of_bytes_def node_size_def kNodeHdr_def list_all_iff add_mult_distrib2)
qed

section \<open>Blocks of the file\<close>

definition block_off :: "nat \<Rightarrow> nat \<Rightarrow> nat" where "block_off ks k = kHeaderSize + k * node_size ks"

definition page_of :: "nat \<Rightarrow> nat \<Rightarrow> PageId" where "page_of ks k = word_of_nat (block_off ks k)"

text \<open>The file is the header, with the offset of the root and the key type, and the given nodes.\<close>

definition header_ok :: "BTree \<Rightarrow> bool" where
  "header_ok t \<longleftrightarrow> u64_at (mf_disk (bt_file t)) 0 = bt_root_off t \<and> u64_at (mf_disk (bt_file t)) 8 = ucast (bt_key_type t)"

definition file_rep :: "BTree \<Rightarrow> Node list \<Rightarrow> bool" where
  "file_rep t ns \<longleftrightarrow> mmap_inv (bt_file t) \<and> header_ok t \<and> bt_slot t = slot_key_size (bt_key_type t) \<and> bt_node_size t = node_size (bt_slot t) \<and>
     length (mf_disk (bt_file t)) = block_off (bt_slot t) (length ns) \<and> length (mf_disk (bt_file t)) < 2 ^ 64 \<and>
     (\<forall>k < length ns. node_of_bytes (bt_slot t) (bt_block t (block_off (bt_slot t) k)) = ns ! k)"

text \<open>What the operations on the nodes do not change.\<close>

definition same_tree :: "BTree \<Rightarrow> BTree \<Rightarrow> bool" where
  "same_tree t t' \<longleftrightarrow> bt_key_type t' = bt_key_type t \<and> bt_slot t' = bt_slot t \<and> bt_root_off t' = bt_root_off t"

lemma same_tree_refl [simp]: "same_tree t t" by (simp add: same_tree_def)
lemma same_tree_trans: "same_tree t1 t2 \<Longrightarrow> same_tree t2 t3 \<Longrightarrow> same_tree t1 t3" by (simp add: same_tree_def)

lemma block_off_Suc: "block_off ks (Suc k) = block_off ks k + node_size ks"
  by (simp add: block_off_def)

lemma block_off_mono: "j \<le> k \<Longrightarrow> block_off ks j \<le> block_off ks k"
  by (simp add: block_off_def)

lemma block_off_less: "j < k \<Longrightarrow> block_off ks j + node_size ks \<le> block_off ks k"
  using block_off_mono [of "Suc j" k ks] by (simp add: block_off_Suc)

lemma poke_block:
  "off + length bs \<le> length m \<Longrightarrow> o' + c \<le> off \<Longrightarrow> take c (drop o' (poke off bs m)) = take c (drop o' m)"
  "off + length bs \<le> length m \<Longrightarrow> off + length bs \<le> o' \<Longrightarrow> take c (drop o' (poke off bs m)) = take c (drop o' m)"
  "off + length bs \<le> length m \<Longrightarrow> take (length bs) (drop off (poke off bs m)) = bs"
  "off + length bs \<le> length m \<Longrightarrow> length (poke off bs m) = length m"
  by (auto simp: poke_def take_drop min_def)

lemma file_facts:
  assumes rep: "file_rep t ns"
  shows "mmap_inv (bt_file t)" "bt_node_size t = node_size (bt_slot t)" "length (mf_disk (bt_file t)) = block_off (bt_slot t) (length ns)"
  "block_off (bt_slot t) (length ns) < 2 ^ 64" "mf_size (bt_file t) = block_off (bt_slot t) (length ns)" "mf_fd (bt_file t)" "header_ok t"
  using rep unfolding file_rep_def mmap_inv_def by metis+

lemma file_nodes:
  assumes rep: "file_rep t ns"
  shows "k < length ns \<Longrightarrow> node_of_bytes (bt_slot t) (bt_block t (block_off (bt_slot t) k)) = ns ! k"
  using rep unfolding file_rep_def by blast

lemma page_unat:
  assumes rep: "file_rep t ns"
  shows "k \<le> length ns \<Longrightarrow> unat (page_of (bt_slot t) k) = block_off (bt_slot t) k"
  unfolding page_of_def using file_facts(4) [OF rep] block_off_mono by (intro unat_word_of_nat64) (rule le_less_trans)

lemma file_block_length:
  assumes rep: "file_rep t ns"
  shows "k < length ns \<Longrightarrow> length (bt_block t (block_off (bt_slot t) k)) = node_size (bt_slot t)"
  using file_facts(2,3) [OF rep] block_off_less [of k "length ns" "bt_slot t"] by (simp add: bt_block_def)

lemma file_node_ok:
  assumes rep: "file_rep t ns"
  shows "k < length ns \<Longrightarrow> node_ok (bt_slot t) (ns ! k)"
  using node_ok_of_bytes [OF file_block_length [OF rep]] file_nodes [OF rep] by simp

lemma file_block:
  assumes rep: "file_rep t ns"
  shows "k < length ns \<Longrightarrow> node_of_bytes (bt_slot t) (bt_block t (unat (page_of (bt_slot t) k))) = ns ! k"
  by (simp add: page_unat [OF rep] file_nodes [OF rep])

lemma read_rep:
  assumes rep: "file_rep t ns" and "k < length ns"
  shows "read_node t (page_of (bt_slot t) k) = Inr (ns ! k)"
proof -
  have le: "block_off (bt_slot t) k + node_size (bt_slot t) \<le> block_off (bt_slot t) (length ns)" by (rule block_off_less [OF assms(2)])
  then have "unat (word_of_nat (block_off (bt_slot t) k + node_size (bt_slot t)) :: u64) = block_off (bt_slot t) k + node_size (bt_slot t)"
    using file_facts(4) [OF rep] by (intro unat_word_of_nat64) (rule le_less_trans)
  then have "unat (page_of (bt_slot t) k + word_of_nat (bt_node_size t)) = block_off (bt_slot t) k + node_size (bt_slot t)"
    by (simp add: page_of_def file_facts(2) [OF rep])
  with le file_block [OF rep assms(2)] show ?thesis unfolding read_node_def file_facts(5) [OF rep] by simp
qed

lemma write_rep:
  assumes rep: "file_rep t ns" and "k < length ns" "node_ok (bt_slot t) n"
  shows "file_rep (write_node (page_of (bt_slot t) k) n t) (ns[k := n]) \<and> same_tree t (write_node (page_of (bt_slot t) k) n t)"
proof -
  let ?ks = "bt_slot t" and ?d = "mf_disk (bt_file t)"
  let ?off = "block_off (bt_slot t)" and ?d' = "poke (block_off (bt_slot t) k) (node_bytes n) (mf_disk (bt_file t))"
  have len: "length (node_bytes n) = node_size ?ks" using assms(3) by (rule length_node_bytes)
  have fits: "?off k + length (node_bytes n) \<le> length ?d" using file_facts(3) [OF rep] block_off_less [OF assms(2)] len by simp
  have blk: "take (node_size ?ks) (drop (?off j) ?d') = (if j = k then node_bytes n else take (node_size ?ks) (drop (?off j) ?d))" for j
    using poke_block(1) [OF fits, of "?off j" "node_size ?ks"] poke_block(2) [OF fits, of "?off j" "node_size ?ks"] poke_block(3) [OF fits]
      block_off_less [of j k ?ks] block_off_less [of k j ?ks] len by (cases j k rule: linorder_cases) simp_all
  have t': "write_node (page_of ?ks k) n t = t\<lparr>bt_fpw := bt_fpw t @ [(page_of ?ks k, bt_block t (?off k))], bt_file := (bt_file t)\<lparr>mf_disk := ?d'\<rparr>\<rparr>"
    using assms(2) by (simp add: write_node_def bt_poke_def mf_poke_def page_unat [OF rep])
  have "mmap_inv ((bt_file t)\<lparr>mf_disk := ?d'\<rparr>)" using file_facts(1) [OF rep] poke_block(4) [OF fits] by (simp add: mmap_inv_def)
  moreover have "u64_at ?d' j = u64_at ?d j" if "j \<le> 8" for j
    using poke_block(1) [OF fits, of j 8] that by (simp add: u64_at_def block_off_def kHeaderSize_def)
  moreover have "node_of_bytes ?ks (take (node_size ?ks) (drop (?off j) ?d')) = ns[k := n] ! j" if "j < length ns" for j
    using blk [of j] node_roundtrip [OF assms(3)] file_nodes [OF rep that] assms(2) by (simp add: bt_block_def file_facts(2) [OF rep])
  moreover have "bt_slot t = slot_key_size (bt_key_type t)" using rep by (simp add: file_rep_def)
  ultimately show ?thesis
    unfolding t' file_rep_def using file_facts(2-4,7) [OF rep] poke_block(4) [OF fits] by (simp add: same_tree_def bt_block_def header_ok_def)
qed

lemma append_rep:
  assumes rep: "file_rep t ns" and "node_ok (bt_slot t) n" "os_ftruncate env = None" "os_mmap env" "block_off (bt_slot t) (Suc (length ns)) < 2 ^ 64"
  shows "\<exists>t'. append_node env n t = BtOk (page_of (bt_slot t) (length ns), t') \<and> file_rep t' (ns @ [n]) \<and> same_tree t t'"
proof -
  let ?ks = "bt_slot t" and ?d = "mf_disk (bt_file t)" and ?off = "block_off (bt_slot t)"
  note size = file_facts(5,3,6,1) [OF rep]
  have len: "length (node_bytes n) = node_size ?ks" using assms(2) by (rule length_node_bytes)
  obtain f where f: "mmap_resize env (?off (Suc (length ns))) (bt_file t) = (kOk, f)"
    using mmap_resize_fine [OF size(3) assms(3,4)] by blast
  note f' = mmap_resize_ok [OF size(4) f]
  have disk: "mf_disk f = ?d @ replicate (node_size ?ks) 0" using f' size(2) by (simp add: ftruncate_def block_off_Suc)
  define d' where "d' = poke (?off (length ns)) (node_bytes n) (mf_disk f)"
  have d': "d' = ?d @ node_bytes n" using disk size(2) len by (simp add: d'_def poke_def)
  define t' where "t' = t\<lparr>bt_file := f\<lparr>mf_disk := d'\<rparr>\<rparr>"
  have "mf_mapped f" using f' disk len by (simp add: mmap_inv_def node_size_def kNodeHdr_def)
  then have "append_node env n t = BtOk (page_of ?ks (length ns), t')"
    using f size(1) by (simp add: append_node_def t'_def d'_def bt_poke_def mf_poke_def page_of_def file_facts(2) [OF rep] block_off_Suc Let_def)
  moreover have "file_rep t' (ns @ [n])"
  proof -
    have inv: "mmap_inv (f\<lparr>mf_disk := d'\<rparr>)" using f' d' disk len by (simp add: mmap_inv_def)
    have "take (node_size ?ks) (drop (?off k) d') = (if k = length ns then node_bytes n else take (node_size ?ks) (drop (?off k) ?d))"
      if "k \<le> length ns" for k
      using that size(2) len block_off_less [of k "length ns" ?ks] by (auto simp: d')
    then have "node_of_bytes ?ks (take (node_size ?ks) (drop (?off k) d')) = (ns @ [n]) ! k" if "k < Suc (length ns)" for k
      using that node_roundtrip [OF assms(2)] file_nodes [OF rep, of k] by (auto simp: nth_append bt_block_def file_facts(2) [OF rep] less_Suc_eq)
    moreover have "bt_slot t = slot_key_size (bt_key_type t)" using rep by (simp add: file_rep_def)
    moreover have "length d' = ?off (Suc (length ns))" using d' size(2) len by (simp add: block_off_Suc)
    moreover have "header_ok t'"
      using file_facts(7) [OF rep] size(2) d' by (simp add: header_ok_def t'_def u64_at_def block_off_def kHeaderSize_def)
    ultimately show ?thesis
      unfolding file_rep_def using inv assms(5) file_facts(2) [OF rep] by (simp add: t'_def bt_block_def)
  qed
  ultimately show ?thesis by (auto simp: t'_def same_tree_def)
qed

section \<open>Entries of a node\<close>

text \<open>The used slots of a node.\<close>

definition holds :: "nat \<Rightarrow> byte list list \<Rightarrow> u64 list \<Rightarrow> Node \<Rightarrow> bool" where
  "holds ks keys vals n \<longleftrightarrow> node_ok ks n \<and> unat (nd_num n) = length keys \<and> length vals = length keys \<and>
     take (length keys) (nd_keys n) = keys \<and> take (length keys) (nd_vals n) = vals"

lemma holds_lengths:
  assumes "holds ks keys vals n"
  shows "length keys \<le> kMaxKeys" "list_all (\<lambda>k. length k = ks) keys" "length vals = length keys"
proof -
  have "length (take (length keys) (nd_keys n)) = length keys" using assms by (simp add: holds_def)
  then show "length keys \<le> kMaxKeys" using assms by (simp add: holds_def node_ok_def)
  have "list_all (\<lambda>k. length k = ks) (nd_keys n)" using assms by (simp add: holds_def node_ok_def)
  from list_all_parts [OF this, of "length keys"] show "list_all (\<lambda>k. length k = ks) keys" using assms by (simp add: holds_def)
  show "length vals = length keys" using assms by (simp add: holds_def)
qed

lemma holds_nth:
  assumes "holds ks keys vals n" "i < length keys"
  shows "key_at n i = keys ! i" "val_at n i = vals ! i"
proof -
  have "i < length (nd_keys n)" "i < length (nd_vals n)"
    using assms holds_lengths(1) [OF assms(1)] by (simp_all add: holds_def node_ok_def)
  moreover have "nd_keys n ! i = keys ! i" "nd_vals n ! i = vals ! i" using assms by (metis holds_def nth_take)+
  ultimately show "key_at n i = keys ! i" "val_at n i = vals ! i" by (simp_all add: key_at_def val_at_def)
qed

lemma open_slot_put:
  assumes "i \<le> num" "num < length xs"
  shows "take (Suc num) ((open_slot i num xs)[i := x]) = put_at i x (take num xs)" "length (open_slot i num xs) = length xs"
proof -
  show len: "length (open_slot i num xs) = length xs" using assms by (auto simp: open_slot_def)
  show "take (Suc num) ((open_slot i num xs)[i := x]) = put_at i x (take num xs)"
  proof (cases "i < num")
    case True
    have "take (i + 1) xs = take i xs @ [xs ! i]" using take_Suc_conv_app_nth [of i xs] True assms(2) by simp
    then have "(open_slot i num xs)[i := x] = (take i xs @ x # take (num - i) (drop i xs)) @ drop (num + 1) xs"
      using True assms by (simp add: open_slot_def list_update_append)
    moreover have ys: "take i xs @ x # take (num - i) (drop i xs) = put_at i x (take num xs)"
      using True by (simp add: put_at_def drop_take min_def)
    moreover have "length (put_at i x (take num xs)) = Suc num" using assms by simp
    ultimately show ?thesis by (metis append_eq_conv_conj)
  next
    case False
    then show ?thesis using assms by (simp add: open_slot_def put_at_def take_Suc_conv_app_nth)
  qed
qed

lemma over_full: "length key = ks \<Longrightarrow> length slot = ks \<Longrightarrow> over ks key slot = key"
  by (simp add: over_def)

lemma list_all_put_at: "list_all P xs \<Longrightarrow> P x \<Longrightarrow> list_all P (put_at i x xs)"
  using list_all_parts by (auto simp: put_at_def)

lemma insert_slot_holds:
  assumes "holds ks keys vals n" "length keys < kMaxKeys" "i \<le> length keys" "length key = ks"
  shows "holds ks (put_at i key keys) (put_at i v vals) (insert_slot ks i key v n)"
    "nd_leaf (insert_slot ks i key v n) = nd_leaf n" "nd_first (insert_slot ks i key v n) = nd_first n"
proof -
  let ?n = "length keys" and ?o = "open_slot i (length keys) (nd_keys n)"
  have n: "node_ok ks n" "unat (nd_num n) = ?n" "take ?n (nd_keys n) = keys" "take ?n (nd_vals n) = vals" "length vals = ?n"
    using assms(1) by (simp_all add: holds_def)
  have long: "?n < length (nd_keys n)" "?n < length (nd_vals n)" using n(1) assms(2) by (simp_all add: node_ok_def)
  note put = open_slot_put [OF assms(3) long(1)] open_slot_put [OF assms(3) long(2)]
  have all: "list_all (\<lambda>k. length k = ks) ?o"
    using n(1) list_all_parts [of "\<lambda>k. length k = ks"] by (auto simp: open_slot_def node_ok_def)
  then have over: "over ks key (?o ! i) = key"
    using assms(3,4) long(1) put(2) by (intro over_full) (simp_all add: list_all_length)
  have ins: "insert_slot ks i key v n = n\<lparr>nd_num := nd_num n + 1, nd_keys := ?o[i := key], nd_vals := (open_slot i ?n (nd_vals n))[i := v]\<rparr>"
    by (simp add: insert_slot_def n(2) over Let_def)
  have "list_all (\<lambda>k. length k = ks) (?o[i := key])"
    using all assms(4) set_update_subset_insert [of ?o i key] by (auto simp: list_all_iff)
  then have "node_ok ks (insert_slot ks i key v n)" using n(1) put(2,4) by (simp add: ins node_ok_def)
  moreover have "unat (nd_num n + 1) = Suc ?n"
    using n(2) assms(2) by (simp add: unat_word_ariths kMaxKeys_def)
  ultimately show "holds ks (put_at i key keys) (put_at i v vals) (insert_slot ks i key v n)"
    using put(1) [of key] put(3) [of v] n(3-5) by (simp add: holds_def ins)
  show "nd_leaf (insert_slot ks i key v n) = nd_leaf n" "nd_first (insert_slot ks i key v n) = nd_first n"
    by (simp_all add: ins)
qed

lemma combined_holds:
  assumes "holds ks keys vals n" "length keys = kMaxKeys" "length key = ks"
  shows "combined_keys ks i key n = put_at i key keys" "combined_vals i v n = put_at i v vals"
proof -
  have n: "nd_keys n = keys" "nd_vals n = vals" "unat (nd_num n) = kMaxKeys" "length vals = kMaxKeys"
    using assms(1,2) by (auto simp: holds_def node_ok_def)
  show "combined_keys ks i key n = put_at i key keys" "combined_vals i v n = put_at i v vals"
    using assms n by (simp_all add: combined_keys_def combined_vals_def put_at_def over_full Let_def)
qed

lemma fresh_holds:
  assumes "length keys \<le> kMaxKeys" "length vals = length keys" "list_all (\<lambda>k. length k = ks) keys"
  shows "holds ks keys vals (fresh_node ks leaf first keys vals)"
proof -
  have "unat (word_of_nat (length keys) :: u32) = length keys"
    using assms(1) by (intro unat_word_of_nat32) (simp add: kMaxKeys_def)
  with assms show ?thesis by (auto simp: holds_def fresh_node_def node_ok_def list_all_iff)
qed

end
