(* ===== verification/Btree_Refine.thy ===== *)
theory Btree_Refine
  imports Btree_File
begin

text \<open>
  The index file implements the tree of \<open>Btree_Tree\<close>: the search and the insertion of
  \<open>src/src/index/btree.cpp\<close> on the bytes of the file do what the functions on trees do, so an index
  is a map from keys to rows, over any number of insertions, splits, and restarts.
\<close>

section \<open>Trees in the file\<close>

abbreviation page_at :: "nat \<Rightarrow> bptree \<Rightarrow> PageId" where "page_at ks T \<equiv> page_of ks (block_of T)"

primrec stored :: "nat \<Rightarrow> Node list \<Rightarrow> bptree \<Rightarrow> bool" where
  "stored ks ns (BLeaf k es) \<longleftrightarrow> k < length ns \<and> nd_leaf (ns ! k) \<noteq> 0 \<and> holds ks (map fst es) (map snd es) (ns ! k)"
| "stored ks ns (BInner k cs ss) \<longleftrightarrow> k < length ns \<and> nd_leaf (ns ! k) = 0 \<and> length cs = Suc (length ss) \<and>
     nd_first (ns ! k) = page_at ks (hd cs) \<and> holds ks ss (map (page_at ks) (tl cs)) (ns ! k) \<and> list_all id (map (stored ks ns) cs)"

lemma stored_child: "stored ks ns (BInner k cs ss) \<Longrightarrow> c \<in> set cs \<Longrightarrow> stored ks ns c"
  by (auto simp: list_all_iff)

lemma stored_block: "stored ks ns T \<Longrightarrow> block_of T < length ns"
  by (cases T) simp_all

lemma stored_cong:
  "stored ks ns T \<Longrightarrow> length ns \<le> length ns' \<Longrightarrow> \<forall>k \<in> set (blocks T). ns' ! k = ns ! k \<Longrightarrow> stored ks ns' T"
  by (induction T) (auto simp: list_all_iff)

lemma stored_blocks: "stored ks ns T \<Longrightarrow> \<forall>k \<in> set (blocks T). k < length ns"
  by (induction T) (auto simp: list_all_iff)

lemma stored_small: "stored ks ns T \<Longrightarrow> small_nodes T"
  by (induction T) (auto simp: list_all_iff dest: holds_lengths(1))

lemma blocks_not_empty: "blocks T \<noteq> []"
  by (cases T) simp_all

lemma child_offset:
  assumes "stored ks ns (BInner k cs ss)" "i < length cs"
  shows "child_off (ns ! k) i = page_at ks (cs ! i)"
proof -
  have h: "holds ks ss (map (page_at ks) (tl cs)) (ns ! k)" "length cs = Suc (length ss)" "nd_first (ns ! k) = page_at ks (hd cs)"
    using assms(1) by simp_all
  show ?thesis
  proof (cases i)
    case 0
    with h(2,3) show ?thesis by (cases cs) (simp_all add: child_off_def)
  next
    case (Suc j)
    with assms(2) h(2) have "j < length ss" by simp
    from holds_nth(2) [OF h(1) this] Suc h(2) \<open>j < length ss\<close> show ?thesis by (simp add: child_off_def nth_tl)
  qed
qed

text \<open>The order of a tree whose keys are valid.\<close>

definition well_ordered :: "byte \<Rightarrow> bptree \<Rightarrow> int \<Rightarrow> int \<Rightarrow> bool" where
  "well_ordered kt T lo hi \<longleftrightarrow> ordered (key_rank kt) T lo hi \<and> (\<forall>k \<in> tree_keys T. good_key kt k)"

lemma links_sorted: "links Ps lo bs \<Longrightarrow> sorted (lo # bs)"
proof (induction Ps lo bs rule: links.induct)
  case (2 P Ps lo s ss)
  then show ?case by auto
qed simp_all

lemma separators_sorted:
  assumes "ordered r (BInner k cs ss) lo hi"
  shows "sorted (map r ss)"
proof -
  have "sorted (lo # map r ss @ [hi])" using assms links_sorted [of "map (ordered r) cs" lo "map r ss @ [hi]"] by simp
  then show ?thesis by (simp add: sorted_append)
qed

lemma leaf_sorted: "sorted_wrt (\<lambda>a b. r (fst a) < r (fst b)) es \<Longrightarrow> sorted (map r (map fst es))"
  unfolding sorted_map sorted_wrt_map by (erule sorted_wrt_mono_rel [rotated]) auto

section \<open>Searching\<close>

lemma find_child_rep:
  assumes "stored ks ns (BInner k cs ss)" "well_ordered kt (BInner k cs ss) lo hi" "good_key kt key"
  shows "find_child_binary kt key (ns ! k) = child_ix (key_rank kt) key ss"
proof -
  have h: "holds ks ss (map (page_at ks) (tl cs)) (ns ! k)" using assms(1) by simp
  have "\<forall>s \<in> set ss. good_key kt s" using assms(2) by (auto simp: well_ordered_def tree_keys_inner)
  moreover have "sorted (map (key_rank kt) ss)" using assms(2) separators_sorted by (auto simp: well_ordered_def)
  ultimately have "bin_search (\<lambda>i. \<not> node_cmp kt key (ns ! k) i < 0) 0 (length ss) = length (takeWhile (\<lambda>s. key_rank kt s \<le> key_rank kt key) ss)"
    using assms(3) holds_nth(1) [OF h] by (intro keys.upper_search) (simp_all add: node_cmp_def)
  then show ?thesis using h by (simp add: find_child_binary_def child_ix_def holds_def)
qed

lemma unique_entry:
  assumes "sorted_wrt (\<lambda>a b. (r (fst a) :: int) < r (fst b)) es" "i < length es"
  shows "filter (\<lambda>e. r (fst e) = r (fst (es ! i))) es = [es ! i]"
proof -
  have es: "es = take i es @ es ! i # drop (Suc i) es" using id_take_nth_drop [OF assms(2)] .
  from assms(1) have "sorted_wrt (\<lambda>a b. r (fst a) < r (fst b)) (take i es @ es ! i # drop (Suc i) es)" by (simp flip: es)
  then have "\<forall>e \<in> set (take i es). r (fst e) \<noteq> r (fst (es ! i))" "\<forall>e \<in> set (drop (Suc i) es). r (fst e) \<noteq> r (fst (es ! i))"
    by (fastforce simp: sorted_wrt_append)+
  then have "filter (\<lambda>e. r (fst e) = r (fst (es ! i))) (take i es @ es ! i # drop (Suc i) es) = [es ! i]"
    by (simp add: filter_empty_conv)
  then show ?thesis by (simp flip: es)
qed

lemma leaf_search_rep:
  assumes "holds ks (map fst es) (map snd es) n" "sorted_wrt (\<lambda>a b. key_rank kt (fst a) < key_rank kt (fst b)) es"
    and "\<forall>e \<in> set es. good_key kt (fst e)" "good_key kt key"
  shows "(case search_key_binary kt key n of None \<Rightarrow> [] | Some i \<Rightarrow> leaf_matches kt key n i) =
    map snd (filter (\<lambda>e. key_rank kt (fst e) = key_rank kt key) es)"
proof -
  let ?v = "\<lambda>i. key_rank kt (fst (es ! i))"
  have num: "unat (nd_num n) = length es" using assms(1) by (simp add: holds_def)
  have cmp: "node_cmp kt key n i = sgn_cmp (key_rank kt key) (?v i)" if "i < length es" for i
    using that holds_nth(1) [OF assms(1), of i] assms(3,4) by (simp add: node_cmp_def compare_good)
  have mono: "?v i < ?v j" if "i < j" "j < length es" for i j
    using assms(2) that by (simp add: sorted_wrt_iff_nth_less)
  have loop: "case search_key_loop (node_cmp kt key n) 0 (length es) of None \<Rightarrow> \<forall>i < length es. ?v i \<noteq> key_rank kt key
      | Some i \<Rightarrow> i < length es \<and> ?v i = key_rank kt key"
    by (rule search_loop [where x = "key_rank kt key"]) (simp_all add: cmp mono)
  show ?thesis
  proof (cases "es = []")
    case True
    with num show ?thesis by (simp add: search_key_binary_def unat_eq_zero)
  next
    case False
    with num have s: "search_key_binary kt key n = search_key_loop (node_cmp kt key n) 0 (length es)"
      by (auto simp: search_key_binary_def)
    show ?thesis
    proof (cases "search_key_loop (node_cmp kt key n) 0 (length es)")
      case None
      with loop have "\<forall>e \<in> set es. key_rank kt (fst e) \<noteq> key_rank kt key" by (simp add: all_set_conv_all_nth)
      with None s show ?thesis by (simp add: filter_empty_conv)
    next
      case (Some i)
      with loop have i: "i < length es" "?v i = key_rank kt key" by simp_all
      have "takeWhile (\<lambda>j. node_cmp kt key n j = 0) [Suc i..<length es] = []"
        using cmp mono [of i "Suc i"] i(2) by (auto simp: upt_conv_Cons takeWhile_eq_Nil_iff sgn_cmp_def)
      then have "leaf_matches kt key n i = [snd (es ! i)]"
        using i cmp [OF i(1)] holds_nth(2) [OF assms(1), of i] num by (simp add: leaf_matches_def upt_conv_Cons sgn_cmp_def)
      with Some s unique_entry [OF assms(2) i(1)] i(2) show ?thesis by simp
    qed
  qed
qed

text \<open>A leaf never matches without entries, so the result of the code is the list or \<open>kNotFound\<close>.\<close>

definition rows_or_none :: "RowId list \<Rightarrow> RowId list BtResult" where
  "rows_or_none rs = (if rs = [] then BtError kNotFound else BtOk rs)"

lemma search_rep:
  "file_rep t ns \<Longrightarrow> stored (bt_slot t) ns T \<Longrightarrow> well_ordered (bt_key_type t) T lo hi \<Longrightarrow> good_key (bt_key_type t) key \<Longrightarrow>
    lo \<le> key_rank (bt_key_type t) key \<Longrightarrow> key_rank (bt_key_type t) key < hi \<Longrightarrow> length (blocks T) \<le> fuel \<Longrightarrow>
    bt_search_from fuel t key (page_at (bt_slot t) T) = rows_or_none (tree_search (key_rank (bt_key_type t)) T key)"
proof (induction T arbitrary: fuel lo hi)
  case (BLeaf k es)
  then obtain f where fuel: "fuel = Suc f" by (cases fuel) simp_all
  have k: "k < length ns" "nd_leaf (ns ! k) \<noteq> 0" "holds (bt_slot t) (map fst es) (map snd es) (ns ! k)" using BLeaf.prems(2) by simp_all
  have "sorted_wrt (\<lambda>a b. key_rank (bt_key_type t) (fst a) < key_rank (bt_key_type t) (fst b)) es" "\<forall>e \<in> set es. good_key (bt_key_type t) (fst e)"
    using BLeaf.prems(3) by (auto simp: well_ordered_def tree_keys_def)
  from leaf_search_rep [OF k(3) this BLeaf.prems(4)] show ?case
    using read_rep [OF BLeaf.prems(1) k(1)] k(2)
    by (auto simp: fuel rows_or_none_def Let_def split: option.splits)
next
  case (BInner k cs ss)
  let ?kt = "bt_key_type t" and ?r = "key_rank (bt_key_type t)"
  obtain f where fuel: "fuel = Suc f" using BInner.prems(7) by (cases fuel) simp_all
  have k: "k < length ns" "nd_leaf (ns ! k) = 0" using BInner.prems(2) by simp_all
  have ord: "ordered ?r (BInner k cs ss) lo hi" using BInner.prems(3) by (simp add: well_ordered_def)
  obtain xs c ys lo' hi' where s: "cs = xs @ c # ys" "length xs = child_ix ?r key ss" "ordered ?r c lo' hi'" "lo' \<le> ?r key" "?r key < hi'"
    using child_split [OF ord BInner.prems(5,6)] by metis
  have c: "c \<in> set cs" "cs ! child_ix ?r key ss = c" "child_ix ?r key ss < length cs" using s(1,2) by (auto simp: nth_append)
  have "well_ordered ?kt c lo' hi'" using BInner.prems(3) c(1) s(3) by (auto simp: well_ordered_def tree_keys_inner)
  moreover have "length (blocks c) \<le> f" using BInner.prems(7) fuel s(1) by simp
  ultimately have ih: "bt_search_from f t key (page_at (bt_slot t) c) = rows_or_none (tree_search ?r c key)"
    using BInner.IH [OF c(1) BInner.prems(1) stored_child [OF BInner.prems(2) c(1)] _ BInner.prems(4) s(4,5)] by blast
  have "tree_search ?r (BInner k cs ss) key = tree_search ?r c key" using c(2,3) by simp
  with ih show ?case
    using read_rep [OF BInner.prems(1) k(1)] k(2) child_offset [OF BInner.prems(2) c(3)] c(2)
      find_child_rep [OF BInner.prems(2,3,4)] by (simp add: fuel Let_def)
qed

section \<open>Inserting into a node\<close>

text \<open>Splitting a node: one half over the old block, the other behind the file.\<close>

lemma split_rep:
  assumes "file_rep t ns" "k < length ns" "node_ok (bt_slot t) left" "node_ok (bt_slot t) right" "os_ok env"
    and "block_off (bt_slot t) (Suc (length ns)) < 2 ^ 64"
  shows "\<exists>t'. append_node env right (write_node (page_of (bt_slot t) k) left t) = BtOk (page_of (bt_slot t) (length ns), t') \<and>
    file_rep t' (ns[k := left] @ [right]) \<and> same_tree t t'"
proof -
  let ?t1 = "write_node (page_of (bt_slot t) k) left t"
  have w: "file_rep ?t1 (ns[k := left])" "same_tree t ?t1" using write_rep [OF assms(1,2,3)] by simp_all
  then have slot: "bt_slot ?t1 = bt_slot t" by (simp add: same_tree_def)
  from append_rep [OF w(1), of right env] slot assms(4-6) w(2) show ?thesis
    by (auto simp: os_ok_def intro: same_tree_trans)
qed

lemma leaf_ix_map: "length (takeWhile (\<lambda>s. r s < r key) (map fst es)) = leaf_ix r key es"
  by (simp add: leaf_ix_def takeWhile_map comp_def)

lemma child_ix_le: "child_ix r key ss \<le> length ss"
  by (simp add: child_ix_def length_takeWhile_le)

lemma leaf_ix_le: "leaf_ix r key es \<le> length es"
  by (simp add: leaf_ix_def length_takeWhile_le)

lemma halves_hold:
  assumes "length ks' = Suc kMaxKeys" "length vs = Suc kMaxKeys" "list_all (\<lambda>k. length k = ks) ks'" "m \<le> Suc kMaxKeys" "1 \<le> m"
  shows "holds ks (take (m - 1) ks') (take (m - 1) vs) (fresh_node ks leaf first (take (m - 1) ks') (take (m - 1) vs))"
    "holds ks (drop m ks') (drop m vs) (fresh_node ks leaf first (drop m ks') (drop m vs))"
  using assms by (auto intro!: fresh_holds simp: list_all_parts)

text \<open>What an insertion into a subtree leaves behind.\<close>

definition inserted :: "BTree \<Rightarrow> Node list \<Rightarrow> bptree \<Rightarrow> (Split \<times> BTree) BtResult \<Rightarrow> bptree \<times> (byte list \<times> bptree) option \<times> nat \<Rightarrow> bool" where
  "inserted t ns T res out \<longleftrightarrow>
     (case out of (T', split, nx') \<Rightarrow>
        \<exists>t' ns'. res = BtOk (map_option (\<lambda>(s, d). (s, page_at (bt_slot t) d)) split, t') \<and> file_rep t' ns' \<and> same_tree t t' \<and>
          length ns' = nx' \<and> length ns \<le> nx' \<and> stored (bt_slot t) ns' T' \<and>
          (case split of None \<Rightarrow> True | Some (s, d) \<Rightarrow> stored (bt_slot t) ns' d) \<and>
          (\<forall>k < length ns. k \<notin> set (blocks T) \<longrightarrow> ns' ! k = ns ! k))"

lemma leaf_insert_rep:
  assumes "file_rep t ns" "stored (bt_slot t) ns (BLeaf k es)" "well_ordered (bt_key_type t) (BLeaf k es) lo hi"
    and "good_key (bt_key_type t) key" "os_ok env" "block_off (bt_slot t) (Suc (length ns)) < 2 ^ 64"
  shows "inserted t ns (BLeaf k es) (insert_into_leaf_node env t (page_of (bt_slot t) k) key row)
    (tree_insert (key_rank (bt_key_type t)) (BLeaf k es) key row (length ns))"
proof -
  let ?ks = "bt_slot t" and ?kt = "bt_key_type t" and ?r = "key_rank (bt_key_type t)"
  let ?i = "leaf_ix ?r key es" and ?n = "ns ! k"
  let ?es = "put_at ?i (key, row) es"
  have k: "k < length ns" "nd_leaf ?n \<noteq> 0" "holds ?ks (map fst es) (map snd es) ?n" using assms(2) by simp_all
  have len: "length key = ?ks" using assms(1,4) by (simp add: good_key_def file_rep_def)
  have ord: "sorted (map ?r (map fst es))" "\<forall>s \<in> set (map fst es). good_key ?kt s"
    using assms(3) leaf_sorted by (auto simp: well_ordered_def tree_keys_def)
  have "bin_search (\<lambda>i. \<not> node_cmp ?kt key ?n i \<le> 0) 0 (length (map fst es)) = length (takeWhile (\<lambda>s. ?r s < ?r key) (map fst es))"
    using holds_nth(1) [OF k(3)] ord assms(4) by (intro keys.lower_search) (simp_all add: node_cmp_def)
  then have pos: "bin_search (\<lambda>i. \<not> node_cmp ?kt key ?n i \<le> 0) 0 (length es) = ?i" by (simp only: leaf_ix_map length_map)
  have n: "node_of_bytes ?ks (bt_block t (unat (page_of ?ks k))) = ?n" "unat (nd_num ?n) = length es"
    using file_block [OF assms(1) k(1)] k(3) by (simp_all add: holds_def)
  have put: "put_at ?i key (map fst es) = map fst ?es" "put_at ?i row (map snd es) = map snd ?es" by (simp_all add: map_put_at)
  show ?thesis
  proof (cases "length es < kMaxKeys")
    case True
    let ?n' = "insert_slot ?ks ?i key row ?n"
    note ins = insert_slot_holds [OF k(3) _ _ len, of ?i row, simplified length_map, OF True leaf_ix_le, unfolded put]
    from write_rep [OF assms(1) k(1), of ?n'] ins k show ?thesis
      using True n pos by (auto simp: inserted_def insert_into_leaf_node_def Let_def holds_def)
  next
    case False
    have full: "length es = kMaxKeys" using False holds_lengths(1) [OF k(3)] by simp
    let ?left = "fresh_node ?ks 1 0 (take 16 (map fst ?es)) (take 16 (map snd ?es))"
    let ?right = "fresh_node ?ks 1 0 (drop 16 (map fst ?es)) (drop 16 (map snd ?es))"
    have comb: "combined_keys ?ks ?i key ?n = map fst ?es" "combined_vals ?i row ?n = map snd ?es"
      using combined_holds(1) [OF k(3) _ len, of ?i] combined_holds(2) [OF k(3) _ len, of ?i row] full put by simp_all
    have all: "list_all (\<lambda>k. length k = ?ks) (map fst ?es)"
      using list_all_put_at [OF holds_lengths(2) [OF k(3)], of key ?i] len by (simp add: put)
    have h: "holds ?ks (map fst (take 16 ?es)) (map snd (take 16 ?es)) ?left" "holds ?ks (map fst (drop 16 ?es)) (map snd (drop 16 ?es)) ?right"
      using halves_hold(1) [OF _ _ all, of "map snd ?es" 17 1 0] halves_hold(2) [OF _ _ all, of "map snd ?es" 16 1 0] full
      by (simp_all add: kMaxKeys_def take_map drop_map)
    then have ok: "node_ok ?ks ?left" "node_ok ?ks ?right" by (simp_all add: holds_def)
    obtain t' where t': "append_node env ?right (write_node (page_of ?ks k) ?left t) = BtOk (page_of ?ks (length ns), t')"
        "file_rep t' (ns[k := ?left] @ [?right])" "same_tree t t'"
      using split_rep [OF assms(1) k(1) ok assms(5,6)] by blast
    have half: "(length es + 1) div 2 = 16" "16 < length ?es" using full by (simp_all add: kMaxKeys_def)
    have "insert_into_leaf_node env t (page_of ?ks k) key row = BtOk (Some (map fst ?es ! 16, page_of ?ks (length ns)), t')"
      using False n pos comb t'(1) half by (simp add: insert_into_leaf_node_def Let_def)
    moreover have "tree_insert ?r (BLeaf k es) key row (length ns) =
        (BLeaf k (take 16 ?es), Some (fst (?es ! 16), BLeaf (length ns) (drop 16 ?es)), Suc (length ns))"
      using False by (simp add: Let_def)
    moreover have "nd_leaf ?left \<noteq> 0" "nd_leaf ?right \<noteq> 0" by (simp_all add: fresh_node_def)
    ultimately show ?thesis
      using t'(2,3) h k(1) half(2) by (auto simp: inserted_def nth_append)
  qed
qed

text \<open>An inner node takes up the separator and the page of a split child.\<close>

lemma pages_put:
  assumes "f c' = f c"
  shows "put_at (length xs) (f d) (map f (tl (xs @ c # ys))) = map f (tl (xs @ c' # d # ys))" "f (hd (xs @ c' # d # ys)) = f (hd (xs @ c # ys))"
proof -
  show "put_at (length xs) (f d) (map f (tl (xs @ c # ys))) = map f (tl (xs @ c' # d # ys))"
  proof (cases xs)
    case Nil
    then show ?thesis by (simp add: put_at_def)
  next
    case (Cons x xs')
    then show ?thesis using assms put_at_append(2) [of "map f xs'" "length xs'" "f d" "f c" "map f ys"] by simp
  qed
  show "f (hd (xs @ c' # d # ys)) = f (hd (xs @ c # ys))" using assms by (cases xs) simp_all
qed

lemma pages_same:
  "f c' = f c \<Longrightarrow> map f (tl (xs @ c' # ys)) = map f (tl (xs @ c # ys)) \<and> f (hd (xs @ c' # ys)) = f (hd (xs @ c # ys))"
  by (cases xs) simp_all

lemma list_all_stored: "list_all id (map P xs) \<longleftrightarrow> (\<forall>x \<in> set xs. P x)"
  by (simp add: list_all_iff)

text \<open>The part of \<open>insert_into_subtree\<close> behind the recursive call.\<close>

definition inner_step :: "OsEnv \<Rightarrow> PageId \<Rightarrow> nat \<Rightarrow> u64 \<Rightarrow> Split \<times> BTree \<Rightarrow> (Split \<times> BTree) BtResult" where
  "inner_step env off ci first = (\<lambda>(split, t1).
     case split of None \<Rightarrow> BtOk (None, t1)
     | Some (sep_key, new_page) \<Rightarrow>
         let ks = bt_slot t1; n = node_of_bytes ks (bt_block t1 (unat off)); num = unat (nd_num n)
         in if num < kMaxKeys then BtOk (None, write_node off (insert_slot ks ci sep_key new_page n) t1)
            else
              let keys = combined_keys ks ci sep_key n; vals = combined_vals ci new_page n; half = (num + 1) div 2;
                  t2 = write_node off (fresh_node ks 0 first (take half keys) (take half vals)) t1
              in bt_bind (append_node env (fresh_node ks 0 (vals ! half) (drop (half + 1) keys) (drop (half + 1) vals)) t2)
                   (\<lambda>(page, t3). BtOk (Some (keys ! half, page), t3)))"

lemma insert_inner:
  assumes "file_rep t ns" "stored (bt_slot t) ns (BInner k cs ss)" "well_ordered (bt_key_type t) (BInner k cs ss) lo hi" "good_key (bt_key_type t) key"
    and "i = child_ix (key_rank (bt_key_type t)) key ss"
  shows "insert_into_subtree (Suc fuel) env t (page_of (bt_slot t) k) key row =
    bt_bind (insert_into_subtree fuel env t (page_at (bt_slot t) (cs ! i)) key row) (inner_step env (page_of (bt_slot t) k) i (nd_first (ns ! k)))"
proof -
  have k: "k < length ns" "nd_leaf (ns ! k) = 0" "length cs = Suc (length ss)" using assms(2) by simp_all
  have "i < length cs" using child_ix_le [of _ key ss] k(3) by (simp add: assms(5) less_Suc_eq_le)
  with k read_rep [OF assms(1) k(1)] child_offset [OF assms(2)] find_child_rep [OF assms(2-4)] show ?thesis
    by (simp add: inner_step_def assms(5) Let_def)
qed

lemma inner_holds:
  assumes "holds ks (ss1 @ ss2) (map (page_at ks) (tl (xs @ c # ys))) n" "length ss1 = length xs" "block_of c' = block_of c" "length s = ks"
  shows "length (ss1 @ ss2) < kMaxKeys \<Longrightarrow>
      holds ks (ss1 @ s # ss2) (map (page_at ks) (tl (xs @ c' # d # ys))) (insert_slot ks (length xs) s (page_at ks d) n)"
    "length (ss1 @ ss2) = kMaxKeys \<Longrightarrow> combined_keys ks (length xs) s n = ss1 @ s # ss2 \<and>
      combined_vals (length xs) (page_at ks d) n = map (page_at ks) (tl (xs @ c' # d # ys))"
proof -
  have put: "put_at (length xs) s (ss1 @ ss2) = ss1 @ s # ss2" using assms(2) by (simp add: put_at_append)
  note vals = pages_put(1) [of "page_at ks" c' c xs d ys, OF arg_cong [OF assms(3)]]
  show "length (ss1 @ ss2) < kMaxKeys \<Longrightarrow>
      holds ks (ss1 @ s # ss2) (map (page_at ks) (tl (xs @ c' # d # ys))) (insert_slot ks (length xs) s (page_at ks d) n)"
    using insert_slot_holds(1) [OF assms(1) _ _ assms(4), of "length xs" "page_at ks d"] assms(2) by (simp only: put vals) simp
  show "length (ss1 @ ss2) = kMaxKeys \<Longrightarrow> combined_keys ks (length xs) s n = ss1 @ s # ss2 \<and>
      combined_vals (length xs) (page_at ks d) n = map (page_at ks) (tl (xs @ c' # d # ys))"
    using combined_holds(1) [OF assms(1) _ assms(4), of "length xs"] combined_holds(2) [OF assms(1) _ assms(4), of "length xs" "page_at ks d"]
    by (simp only: put vals)
qed

text \<open>Children whose blocks are not touched stay where they are.\<close>

definition apart :: "nat \<Rightarrow> Node list \<Rightarrow> nat \<Rightarrow> bptree \<Rightarrow> bool" where
  "apart ks ns k T \<longleftrightarrow> stored ks ns T \<and> k \<notin> set (blocks T)"

lemma apart_write:
  assumes "apart ks ns k T"
  shows "stored ks (ns[k := n] @ ms) T"
proof (rule stored_cong [of ks ns])
  show "stored ks ns T" using assms by (simp add: apart_def)
  from stored_blocks [OF this] assms show "\<forall>j \<in> set (blocks T). (ns[k := n] @ ms) ! j = ns ! j"
    by (auto simp: apart_def nth_append) (metis nth_list_update_neq)
qed simp

text \<open>The two halves of a split inner node.\<close>

lemma split_stored:
  assumes "length cs = Suc (Suc kMaxKeys)" "length ss = Suc kMaxKeys" "list_all (\<lambda>k. length k = ks) ss" "\<forall>T \<in> set cs. stored ks ns T"
    and "k < length ns" "ns ! k = fresh_node ks 0 (page_at ks (hd cs)) (take 16 ss) (take 16 (map (page_at ks) (tl cs)))"
    and "m < length ns" "ns ! m = fresh_node ks 0 (map (page_at ks) (tl cs) ! 16) (drop 17 ss) (drop 17 (map (page_at ks) (tl cs)))"
  shows "stored ks ns (BInner k (take 17 cs) (take 16 ss))" "stored ks ns (BInner m (drop 17 cs) (drop 17 ss))"
proof -
  let ?vs = "map (page_at ks) (tl cs)"
  have lens: "length ?vs = Suc kMaxKeys" using assms(1) by simp
  have h: "holds ks (take 16 ss) (take 16 ?vs) (ns ! k)" "holds ks (drop 17 ss) (drop 17 ?vs) (ns ! m)"
    using halves_hold(1) [OF assms(2) lens assms(3), of 17] halves_hold(2) [OF assms(2) lens assms(3), of 17] assms(6,8)
    by (simp_all add: kMaxKeys_def)
  obtain c cs' where cs: "cs = c # cs'" using assms(1) by (cases cs) simp_all
  then have cut: "take 16 ?vs = map (page_at ks) (tl (take 17 cs))" "hd (take 17 cs) = hd cs"
    by (simp_all add: take_map)
  have "16 < length cs'" using assms(1) cs by (simp add: kMaxKeys_def)
  then have cut2: "drop 17 ?vs = map (page_at ks) (tl (drop 17 cs))" "?vs ! 16 = page_at ks (hd (drop 17 cs))"
    using cs by (simp_all add: drop_map tl_drop drop_Suc [symmetric] hd_drop_conv_nth)
  have "\<forall>T \<in> set (take 17 cs). stored ks ns T" "\<forall>T \<in> set (drop 17 cs). stored ks ns T"
    using assms(4) by (auto dest: in_set_takeD in_set_dropD)
  then show "stored ks ns (BInner k (take 17 cs) (take 16 ss))" "stored ks ns (BInner m (drop 17 cs) (drop 17 ss))"
    using h assms(1,2,5,7) cut cut2 by (simp_all add: list_all_stored kMaxKeys_def assms(6,8)) (simp_all add: fresh_node_def)
qed

lemma inner_step_rep:
  assumes "file_rep t ns" "k < length ns" "nd_leaf (ns ! k) = 0" "nd_first (ns ! k) = page_at (bt_slot t) (hd (xs @ c # ys))"
    and "holds (bt_slot t) (ss1 @ ss2) (map (page_at (bt_slot t)) (tl (xs @ c # ys))) (ns ! k)"
    and len: "length ss1 = length xs" "length ys = length ss2" and "block_of c' = block_of c"
    and apart: "\<forall>T \<in> set (xs @ c' # split_list sp (\<lambda>d. [d]) @ ys). apart (bt_slot t) ns k T"
    and sep: "\<forall>s d. sp = Some (s, d) \<longrightarrow> length s = bt_slot t" and env: "os_ok env" "block_off (bt_slot t) (Suc (length ns)) < 2 ^ 64"
    and out: "absorb k xs ys ss1 ss2 (c', sp, length ns) = (T', split, nx')"
  shows "\<exists>t' ns'. inner_step env (page_of (bt_slot t) k) (length xs) (nd_first (ns ! k)) (map_option (\<lambda>(s, d). (s, page_at (bt_slot t) d)) sp, t) =
        BtOk (map_option (\<lambda>(s, d). (s, page_at (bt_slot t) d)) split, t') \<and> file_rep t' ns' \<and> same_tree t t' \<and>
      length ns' = nx' \<and> length ns \<le> nx' \<and> stored (bt_slot t) ns' T' \<and>
      (case split of None \<Rightarrow> True | Some (s, d) \<Rightarrow> stored (bt_slot t) ns' d) \<and> (\<forall>j < length ns. j \<noteq> k \<longrightarrow> ns' ! j = ns ! j)"
proof -
  let ?ks = "bt_slot t" and ?off = "page_of (bt_slot t) k"
  let ?pg = "page_at (bt_slot t)"
  have num: "unat (nd_num (ns ! k)) = length (ss1 @ ss2)" "length (ss1 @ ss2) \<le> kMaxKeys"
    using assms(5) holds_lengths(1) [OF assms(5)] by (simp_all add: holds_def)
  have n: "node_of_bytes ?ks (bt_block t (unat ?off)) = ns ! k" by (rule file_block [OF assms(1,2)])
  show ?thesis
  proof (cases sp)
    case None
    have "\<forall>T \<in> set (xs @ c' # ys). stored ?ks ns T" using apart None by (auto simp: apart_def split_list_def)
    then have "stored ?ks ns (BInner k (xs @ c' # ys) (ss1 @ ss2))"
      using assms(2-5) len pages_same [of ?pg c' c xs ys] assms(8) by (simp add: list_all_stored)
    with None out assms(1) show ?thesis by (auto simp: absorb_def inner_step_def)
  next
    case (Some p)
    obtain s d where p: "p = (s, d)" by (cases p)
    let ?cs = "xs @ c' # d # ys" and ?ss = "ss1 @ s # ss2"
    have slen: "length s = ?ks" using sep Some p by simp
    note hold = inner_holds [OF assms(5) len(1) assms(8) slen, of d]
    have hd: "?pg (hd ?cs) = nd_first (ns ! k)" using pages_put(2) [of ?pg c' c] assms(4,8) by simp
    have ap: "\<forall>T \<in> set ?cs. apart ?ks ns k T" using apart Some p by (auto simp: split_list_def)
    show ?thesis
    proof (cases "length (ss1 @ ss2) < kMaxKeys")
      case True
      let ?n = "insert_slot ?ks (length xs) s (?pg d) (ns ! k)"
      note h = hold(1) [OF True]
      have "nd_leaf ?n = 0" "nd_first ?n = nd_first (ns ! k)" using assms(3) by (simp_all add: insert_slot_def Let_def)
      moreover have "\<forall>T \<in> set ?cs. stored ?ks (ns[k := ?n]) T" using ap apart_write [of ?ks ns k _ ?n "[]"] by auto
      ultimately have "stored ?ks (ns[k := ?n]) (BInner k ?cs ?ss)"
        using h hd assms(2) len by (simp add: list_all_stored)
      moreover have "node_ok ?ks ?n" using h by (simp add: holds_def)
      note write_rep [OF assms(1,2) this]
      ultimately show ?thesis
        using Some p out True n num by (auto simp: absorb_def inner_step_def Let_def)
    next
      case False
      with num have full: "length (ss1 @ ss2) = kMaxKeys" by simp
      note comb = hold(2) [OF full]
      let ?vs = "map ?pg (tl ?cs)"
      have lens: "length ?ss = Suc kMaxKeys" "length ?vs = Suc kMaxKeys" "length ?cs = Suc (Suc kMaxKeys)" using full len by simp_all
      have all: "list_all (\<lambda>k. length k = ?ks) ?ss" using holds_lengths(2) [OF assms(5)] slen by simp
      let ?left = "fresh_node ?ks 0 (nd_first (ns ! k)) (take 16 ?ss) (take 16 ?vs)"
      let ?right = "fresh_node ?ks 0 (?vs ! 16) (drop 17 ?ss) (drop 17 ?vs)"
      have h: "holds ?ks (take 16 ?ss) (take 16 ?vs) ?left" "holds ?ks (drop 17 ?ss) (drop 17 ?vs) ?right"
        using halves_hold(1) [OF lens(1,2) all, of 17 0 "nd_first (ns ! k)"] halves_hold(2) [OF lens(1,2) all, of 17 0 "?vs ! 16"]
        by (simp_all add: kMaxKeys_def)
      then have ok: "node_ok ?ks ?left" "node_ok ?ks ?right" by (simp_all add: holds_def)
      obtain t' where t': "append_node env ?right (write_node ?off ?left t) = BtOk (page_of ?ks (length ns), t')"
          "file_rep t' (ns[k := ?left] @ [?right])" "same_tree t t'"
        using split_rep [OF assms(1,2) ok env] by blast
      have half: "(length (ss1 @ ss2) + 1) div 2 = 16" using full by (simp add: kMaxKeys_def)
      have st: "\<forall>T \<in> set ?cs. stored ?ks (ns[k := ?left] @ [?right]) T" using ap apart_write by blast
      note st = split_stored [OF lens(3,1) all st, of k "length ns"]
      have st: "stored ?ks (ns[k := ?left] @ [?right]) (BInner k (take 17 ?cs) (take 16 ?ss))"
          "stored ?ks (ns[k := ?left] @ [?right]) (BInner (length ns) (drop 17 ?cs) (drop 17 ?ss))"
        using assms(2) by (intro st; simp add: nth_append hd)+
      have "inner_step env ?off (length xs) (nd_first (ns ! k)) (map_option (\<lambda>(s, d). (s, ?pg d)) sp, t) =
          BtOk (Some (?ss ! 16, page_of ?ks (length ns)), t')"
        using t'(1) half comb n num(1) False Some p
        by (simp add: inner_step_def Let_def del: take_append drop_append append_Cons)
      moreover have "T' = BInner k (take 17 ?cs) (take 16 ?ss)" "split = Some (?ss ! 16, BInner (length ns) (drop 17 ?cs) (drop 17 ?ss))"
          "nx' = Suc (length ns)"
        using out Some p False by (simp_all add: absorb_def Let_def del: take_append drop_append)
      ultimately show ?thesis using t'(2,3) st assms(2)
        by (intro exI [of _ t'] exI [of _ "ns[k := ?left] @ [?right]"]) (simp add: nth_append)
    qed
  qed
qed

section \<open>Inserting into a tree\<close>

lemma inserted_blocks:
  assumes "small_nodes c" "tree_insert r c key row nx = (c', sp, nx1)"
  shows "set (blocks c') \<union> set (split_list sp blocks) \<subseteq> set (blocks c) \<union> {nx..<nx1}"
proof -
  have "mset (blocks c' @ split_list sp blocks) = mset (blocks c @ [nx..<nx1])"
    using tree_insert_blocks [OF assms] by blast
  then have "set (blocks c' @ split_list sp blocks) = set (blocks c @ [nx..<nx1])" by (metis set_mset_mset)
  then show ?thesis by simp
qed

text \<open>The other children and the changed one are apart from the block of their parent.\<close>

lemma children_apart:
  assumes "stored ks ns (BInner k (xs @ c # ys) ss)" "distinct (blocks (BInner k (xs @ c # ys) ss))"
    and "tree_insert r c key row (length ns) = (c', sp, length ns1)" "length ns \<le> length ns1" "stored ks ns1 c'"
    and "case sp of None \<Rightarrow> True | Some (s, d) \<Rightarrow> stored ks ns1 d" "\<forall>j < length ns. j \<notin> set (blocks c) \<longrightarrow> ns1 ! j = ns ! j"
  shows "\<forall>T \<in> set (xs @ c' # split_list sp (\<lambda>d. [d]) @ ys). apart ks ns1 k T"
proof -
  have k: "k < length ns" "k \<notin> set (blocks c)" using assms(1,2) by auto
  have "small_nodes c" using stored_small [OF stored_child [OF assms(1)]] by simp
  note new = inserted_blocks [OF this assms(3)]
  have other: "apart ks ns1 k T" if "T \<in> set xs \<or> T \<in> set ys" for T
  proof -
    have T: "stored ks ns T" using that by (intro stored_child [OF assms(1)]) auto
    have "set (blocks T) \<inter> set (blocks c) = {}" "k \<notin> set (blocks T)" using assms(2) that by fastforce+
    moreover have "stored ks ns1 T"
      using stored_blocks [OF T] assms(7) calculation(1) by (intro stored_cong [OF T assms(4)]) blast
    ultimately show ?thesis by (simp add: apart_def)
  qed
  have "apart ks ns1 k c'" using assms(5) new k by (auto simp: apart_def)
  moreover have "\<forall>T \<in> set (split_list sp (\<lambda>d. [d])). apart ks ns1 k T"
    using assms(6) new k by (auto simp: apart_def split_list_def split: option.splits)
  ultimately show ?thesis using other by auto
qed

lemma insert_rep:
  "file_rep t ns \<Longrightarrow> stored (bt_slot t) ns T \<Longrightarrow> well_ordered (bt_key_type t) T lo hi \<Longrightarrow> good_key (bt_key_type t) key \<Longrightarrow>
    lo \<le> key_rank (bt_key_type t) key \<Longrightarrow> key_rank (bt_key_type t) key < hi \<Longrightarrow> distinct (blocks T) \<Longrightarrow> length (blocks T) \<le> fuel \<Longrightarrow>
    os_ok env \<Longrightarrow> block_off (bt_slot t) (length ns + length (blocks T)) < 2 ^ 64 \<Longrightarrow>
    inserted t ns T (insert_into_subtree fuel env t (page_at (bt_slot t) T) key row)
      (tree_insert (key_rank (bt_key_type t)) T key row (length ns))"
proof (induction T arbitrary: fuel lo hi)
  case (BLeaf k es)
  then obtain f where "fuel = Suc f" by (cases fuel) simp_all
  moreover have "k < length ns" "nd_leaf (ns ! k) \<noteq> 0" using BLeaf.prems(2) by simp_all
  ultimately have "insert_into_subtree fuel env t (page_of (bt_slot t) k) key row = insert_into_leaf_node env t (page_of (bt_slot t) k) key row"
    using read_rep [OF BLeaf.prems(1)] by simp
  with leaf_insert_rep [OF BLeaf.prems(1-4,9)] BLeaf.prems(10) show ?case by simp
next
  case (BInner k cs ss)
  let ?kt = "bt_key_type t" and ?r = "key_rank (bt_key_type t)" and ?ks = "bt_slot t"
  obtain f where fuel: "fuel = Suc f" using BInner.prems(8) by (cases fuel) simp_all
  have ord: "ordered ?r (BInner k cs ss) lo hi" using BInner.prems(3) by (simp add: well_ordered_def)
  obtain xs c ys ss1 ss2 lo' hi' where s: "cs = xs @ c # ys" "ss = ss1 @ ss2" "length xs = child_ix ?r key ss" "length ss1 = child_ix ?r key ss"
      "length ys = length ss2" "ordered ?r c lo' hi'" "lo' \<le> ?r key" "?r key < hi'"
    using child_split [OF ord BInner.prems(5,6)] by metis
  have c: "c \<in> set cs" "cs ! child_ix ?r key ss = c" using s(1,3) by (auto simp: nth_append)
  have wo: "well_ordered ?kt c lo' hi'" using BInner.prems(3) c(1) s(6) by (auto simp: well_ordered_def tree_keys_inner)
  have "length (blocks c) \<le> f" "distinct (blocks c)" using BInner.prems(7,8) fuel s(1) by auto
  moreover have room: "block_off ?ks (Suc (length ns + length (blocks c))) < 2 ^ 64"
    using block_off_mono [of "Suc (length ns + length (blocks c))" "length ns + length (blocks (BInner k cs ss))" ?ks] BInner.prems(10) s(1) by simp
  moreover have "block_off ?ks (length ns + length (blocks c)) < 2 ^ 64" using room by (simp add: block_off_Suc)
  ultimately have ih: "inserted t ns c (insert_into_subtree f env t (page_at ?ks c) key row) (tree_insert ?r c key row (length ns))"
    using BInner.IH [OF c(1) BInner.prems(1) stored_child [OF BInner.prems(2) c(1)] wo BInner.prems(4) s(7,8)] BInner.prems(9) by blast
  obtain c' sp nx1 where c': "tree_insert ?r c key row (length ns) = (c', sp, nx1)" by (cases "tree_insert ?r c key row (length ns)") auto
  with ih obtain t1 ns1 where t1: "insert_into_subtree f env t (page_at ?ks c) key row = BtOk (map_option (\<lambda>(s, d). (s, page_at ?ks d)) sp, t1)"
      "file_rep t1 ns1" "same_tree t t1" "length ns1 = nx1" "length ns \<le> nx1" "stored ?ks ns1 c'"
      "case sp of None \<Rightarrow> True | Some (s, d) \<Rightarrow> stored ?ks ns1 d" "\<forall>j < length ns. j \<notin> set (blocks c) \<longrightarrow> ns1 ! j = ns ! j"
    unfolding inserted_def by auto
  have slot: "bt_slot t1 = ?ks" using t1(3) by (simp add: same_tree_def)
  have small: "small_nodes c" using stored_small [OF stored_child [OF BInner.prems(2) c(1)]] .
  note tb = tree_insert_blocks [OF small c']
  have k: "k < length ns" "k \<notin> set (blocks c)" using BInner.prems(2,7) s(1) by auto
  then have nk: "ns1 ! k = ns ! k" using t1(8) by blast
  obtain T' split nx' where out: "absorb k xs ys ss1 ss2 (c', sp, length ns1) = (T', split, nx')"
    by (cases "absorb k xs ys ss1 ss2 (c', sp, length ns1)") auto
  have sep: "\<forall>s d. sp = Some (s, d) \<longrightarrow> length s = bt_slot t1"
  proof (intro allI impI)
    fix s' d
    assume "sp = Some (s', d)"
    with tree_insert_keys [OF small c'] have "s' \<in> insert key (tree_keys c)" by (auto simp: split_keys_def)
    then have "good_key ?kt s'" using BInner.prems(4) wo by (auto simp: well_ordered_def)
    with BInner.prems(1) slot show "length s' = bt_slot t1" by (simp add: good_key_def file_rep_def)
  qed
  have "nx1 \<le> length ns + length (blocks c)" using tb by blast
  with room block_off_mono [of "Suc nx1" "Suc (length ns + length (blocks c))" ?ks] have last: "block_off (bt_slot t1) (Suc (length ns1)) < 2 ^ 64"
    using t1(4) slot by simp
  have ap: "\<forall>T \<in> set (xs @ c' # split_list sp (\<lambda>d. [d]) @ ys). apart (bt_slot t1) ns1 k T"
    using children_apart [OF BInner.prems(2,7) [unfolded s(1)] c' [folded t1(4)] _ t1(6,7,8)] t1(4,5) slot by simp
  have pre: "k < length ns1" "nd_leaf (ns1 ! k) = 0" "nd_first (ns1 ! k) = page_at (bt_slot t1) (hd (xs @ c # ys))"
      "holds (bt_slot t1) (ss1 @ ss2) (map (page_at (bt_slot t1)) (tl (xs @ c # ys))) (ns1 ! k)" "length ss1 = length xs"
    using BInner.prems(2) k(1) nk t1(4,5) slot s(1-4) by simp_all
  have "block_of c' = block_of c" using tb by blast
  note step = inner_step_rep [OF t1(2) pre s(5) this ap sep BInner.prems(9) last out, unfolded slot nk]
  obtain t' ns' where res: "inner_step env (page_of ?ks k) (length xs) (nd_first (ns ! k)) (map_option (\<lambda>(s, d). (s, page_at ?ks d)) sp, t1) =
        BtOk (map_option (\<lambda>(s, d). (s, page_at ?ks d)) split, t')" "file_rep t' ns'" "same_tree t1 t'" "length ns' = nx'" "length ns1 \<le> nx'"
      "stored ?ks ns' T'" "case split of None \<Rightarrow> True | Some (s, d) \<Rightarrow> stored ?ks ns' d" "\<forall>j < length ns1. j \<noteq> k \<longrightarrow> ns' ! j = ns1 ! j"
    using step by blast
  have "insert_into_subtree fuel env t (page_at ?ks (BInner k cs ss)) key row = BtOk (map_option (\<lambda>(s, d). (s, page_at ?ks d)) split, t')"
    using insert_inner [OF BInner.prems(1-4) refl, of f env row] t1(1) res(1) c(2) s(3) by (simp add: fuel)
  moreover have "tree_insert ?r (BInner k cs ss) key row (length ns) = (T', split, nx')"
    using tree_insert_inner [OF s(1-4)] c' out t1(4) by simp
  moreover have "\<forall>j < length ns. j \<notin> set (blocks (BInner k cs ss)) \<longrightarrow> ns' ! j = ns ! j"
    using res(8) t1(4,5,8) s(1) by auto
  ultimately show ?case
    using res same_tree_trans [OF t1(3) res(3)] t1(4,5) by (auto simp: inserted_def)
qed

end
