(* ===== verification/Btree_Map.thy ===== *)
theory Btree_Map
  imports Btree_Refine
begin

text \<open>
  An index over its life: created, filled, closed or lost with its process, and opened again. It
  is a map from what the keys stand for to rows.
\<close>

section \<open>Entries of an ordered tree\<close>

lemma links_sorted_entries:
  "\<forall>c \<in> set cs. \<forall>l u. ordered r c l u \<longrightarrow> sorted_wrt (\<lambda>a b. r (fst a) < r (fst b)) (entries c) \<Longrightarrow>
    links (map (ordered r) cs) lo bs \<Longrightarrow> sorted_wrt (\<lambda>a b. r (fst a) < r (fst b)) (concat (map entries cs))"
proof (induction cs arbitrary: lo bs)
  case (Cons c cs)
  obtain s ss where bs: "bs = s # ss" using Cons.prems(2) by (cases bs) simp_all
  then have l: "ordered r c lo s" "links (map (ordered r) cs) s ss" using Cons.prems(2) by simp_all
  have "r (fst a) < r (fst b)" if "a \<in> set (entries c)" "b \<in> set (concat (map entries cs))" for a b
    using ordered_bounds [OF l(1) that(1)] links_bounds [OF l(2) that(2)] by simp
  moreover have "sorted_wrt (\<lambda>a b. r (fst a) < r (fst b)) (entries c)" using Cons.prems(1) l(1) by (meson list.set_intros(1))
  moreover have "sorted_wrt (\<lambda>a b. r (fst a) < r (fst b)) (concat (map entries cs))" using Cons.prems(1) by (intro Cons.IH [OF _ l(2)]) simp
  ultimately show ?case by (simp add: sorted_wrt_append)
qed simp

lemma entries_sorted: "ordered r T lo hi \<Longrightarrow> sorted_wrt (\<lambda>a b. r (fst a) < r (fst b)) (entries T)"
proof (induction T arbitrary: lo hi)
  case (BInner k cs ss)
  then have "links (map (ordered r) cs) lo (map r ss @ [hi])" by simp
  with BInner.IH show ?case by (auto intro!: links_sorted_entries)
qed simp

definition entry_map :: "(byte list \<Rightarrow> int) \<Rightarrow> Entry list \<Rightarrow> int \<rightharpoonup> RowId" where
  "entry_map r es = map_of (map (\<lambda>e. (r (fst e), snd e)) es)"

lemma sorted_distinct: "sorted_wrt (\<lambda>a b. (r (fst a) :: int) < r (fst b)) es \<Longrightarrow> distinct (map fst (map (\<lambda>e. (r (fst e), snd e)) es))"
  by (induction es) (auto simp: comp_def)

lemma entry_map_insert:
  assumes "sorted_wrt (\<lambda>a b. r (fst a) < r (fst b)) es" "sorted_wrt (\<lambda>a b. r (fst a) < r (fst b)) es'"
    and "mset es' = add_mset (key, row) (mset es)"
  shows "entry_map r es' = (entry_map r es)(r key \<mapsto> row)"
proof -
  let ?f = "\<lambda>e. (r (fst e), snd e)"
  have "mset es' = mset ((key, row) # es)" using assms(3) by simp
  then have m: "mset (map ?f es') = mset (map ?f ((key, row) # es))" by (simp only: mset_map)
  then have "set (map ?f es') = set (map ?f ((key, row) # es))" by (rule mset_eq_setD)
  moreover have "distinct (map fst (map ?f es'))" by (rule sorted_distinct [OF assms(2)])
  moreover have "mset (map fst (map ?f es')) = mset (map fst (map ?f ((key, row) # es)))" using m by (simp only: mset_map)
  from mset_eq_imp_distinct_iff [OF this] have "distinct (map fst (map ?f ((key, row) # es)))"
    using sorted_distinct [OF assms(2)] by (simp only:)
  ultimately have "map_of (map ?f es') = map_of (map ?f ((key, row) # es))" by (simp only: map_of_inject_set)
  then show ?thesis by (simp add: entry_map_def)
qed

lemma entry_map_search:
  assumes "sorted_wrt (\<lambda>a b. r (fst a) < r (fst b)) es"
  shows "map snd (filter (\<lambda>e. r (fst e) = x) es) = (case entry_map r es x of None \<Rightarrow> [] | Some v \<Rightarrow> [v])"
proof (cases "\<exists>i < length es. r (fst (es ! i)) = x")
  case True
  then obtain i where i: "i < length es" "r (fst (es ! i)) = x" by blast
  then have "(x, snd (es ! i)) \<in> set (map (\<lambda>e. (r (fst e), snd e)) es)" by force
  then have "entry_map r es x = Some (snd (es ! i))"
    unfolding entry_map_def using sorted_distinct [OF assms] by (simp only: map_of_eq_Some_iff)
  with unique_entry [OF assms i(1)] i(2) show ?thesis by simp
next
  case False
  then have no: "\<forall>e \<in> set es. r (fst e) \<noteq> x" by (auto simp: all_set_conv_all_nth)
  then have "entry_map r es x = None" by (auto simp: entry_map_def map_of_eq_None_iff)
  with no show ?thesis by (simp add: filter_empty_conv)
qed

section \<open>The index as a map\<close>

abbreviation rank_of :: "BTree \<Rightarrow> byte list \<Rightarrow> int" where "rank_of t \<equiv> key_rank (bt_key_type t)"

definition index_rep :: "BTree \<Rightarrow> (int \<rightharpoonup> RowId) \<Rightarrow> bool" where
  "index_rep t m \<longleftrightarrow> (\<exists>ns T lo hi. file_rep t ns \<and> stored (bt_slot t) ns T \<and> well_ordered (bt_key_type t) T lo hi \<and>
     distinct (blocks T) \<and> bt_root_off t = page_at (bt_slot t) T \<and> m = entry_map (rank_of t) (entries T))"

lemma widen_order:
  assumes "well_ordered kt T lo hi"
  obtains lo' hi' where "well_ordered kt T lo' hi'" "lo' \<le> x" "x < hi'"
  using assms ordered_widen [of "key_rank kt" T lo hi "min lo x" "max hi (x + 1)"]
  by (intro that [of "min lo x" "max hi (x + 1)"]) (auto simp: well_ordered_def)

lemma blocks_fit:
  assumes "file_rep t ns" "stored (bt_slot t) ns T" "distinct (blocks T)"
  shows "length (blocks T) \<le> length ns" "length (blocks T) \<le> bt_fuel t"
proof -
  have "set (blocks T) \<subseteq> {0..<length ns}" using stored_blocks [OF assms(2)] by auto
  from card_mono [OF _ this] show "length (blocks T) \<le> length ns" using distinct_card [OF assms(3)] by simp
  moreover have "length ns \<le> length ns * node_size (bt_slot t)" by (simp add: node_size_def kNodeHdr_def)
  ultimately show "length (blocks T) \<le> bt_fuel t"
    using file_facts(5) [OF assms(1)] unfolding bt_fuel_def block_off_def by linarith
qed

lemma index_search:
  assumes "index_rep t m" "good_key (bt_key_type t) key"
  shows "bt_search t key = (case m (rank_of t key) of None \<Rightarrow> BtError kNotFound | Some row \<Rightarrow> BtOk [row])"
proof -
  obtain ns T lo0 hi0 where i: "file_rep t ns" "stored (bt_slot t) ns T" "well_ordered (bt_key_type t) T lo0 hi0"
      "distinct (blocks T)" "bt_root_off t = page_at (bt_slot t) T" "m = entry_map (rank_of t) (entries T)"
    using assms(1) unfolding index_rep_def by auto
  obtain lo hi where o: "well_ordered (bt_key_type t) T lo hi" "lo \<le> rank_of t key" "rank_of t key < hi" using widen_order [OF i(3)] .
  then have ord: "ordered (rank_of t) T lo hi" by (simp add: well_ordered_def)
  have "unat (bt_root_off t) \<noteq> 0"
    using page_unat [OF i(1), of "block_of T"] stored_block [OF i(2)] by (simp add: i(5) block_off_def kHeaderSize_def)
  then have "bt_root_off t \<noteq> 0" by auto
  moreover have "mf_fd (bt_file t)" using file_facts [OF i(1)] by simp
  ultimately have "bt_search t key = rows_or_none (tree_search (rank_of t) T key)"
    using search_rep [OF i(1,2) o(1) assms(2) o(2,3) blocks_fit(2) [OF i(1,2,4)]] i(5) by (simp add: bt_search_def)
  also have "tree_search (rank_of t) T key = (case m (rank_of t key) of None \<Rightarrow> [] | Some v \<Rightarrow> [v])"
    using tree_search_entries [OF ord o(2,3)] entry_map_search [OF entries_sorted [OF ord]] i(6) by simp
  finally show ?thesis by (simp add: rows_or_none_def split: option.splits)
qed

section \<open>Insertion\<close>

lemma room_arith: "A < 2 ^ 62 \<Longrightarrow> B \<le> A \<Longrightarrow> N \<le> 2 ^ 14 \<Longrightarrow> 16 + (N + (A + B)) < (2 :: nat) ^ 64"
  by simp

lemma insert_room:
  assumes "file_rep t ns" "mf_size (bt_file t) < 2 ^ 62" "n \<le> length ns"
  shows "block_off (bt_slot t) (Suc (length ns + n)) < 2 ^ 64"
proof -
  have "bt_slot t \<le> 256" using assms(1) by (simp add: file_rep_def slot_key_size_def kMaxSlotKeySize_def)
  then have small: "node_size (bt_slot t) \<le> 2 ^ 14" by (simp add: node_size_def kNodeHdr_def kMaxKeys_def)
  have "length ns * node_size (bt_slot t) < 2 ^ 62" using assms(2) file_facts(5) [OF assms(1)] by (simp add: block_off_def)
  moreover have "n * node_size (bt_slot t) \<le> length ns * node_size (bt_slot t)" using assms(3) by (rule mult_le_mono1)
  moreover have "block_off (bt_slot t) (Suc (length ns + n)) = 16 + (node_size (bt_slot t) + (length ns * node_size (bt_slot t) + n * node_size (bt_slot t)))"
    by (simp add: block_off_def kHeaderSize_def add_mult_distrib)
  ultimately show ?thesis using room_arith [OF _ _ small] by (simp only:)
qed

text \<open>Writing the header: the offset of the root.\<close>

lemma header_rep:
  assumes "file_rep t ns"
  shows "file_rep (bt_poke 0 (put_u64 off) (t\<lparr>bt_root_off := off\<rparr>)) ns"
proof -
  let ?d = "mf_disk (bt_file t)"
  let ?d' = "poke 0 (put_u64 off) ?d"
  note facts = file_facts [OF assms]
  have fits: "0 + length (put_u64 off) \<le> length ?d" using facts(3) by (simp add: block_off_def kHeaderSize_def)
  have blk: "take c (drop k ?d') = take c (drop k ?d)" if "8 \<le> k" for c k using poke_block(2) [OF fits, of k c] that by simp
  have "take 8 ?d' = put_u64 off" using poke_block(3) [OF fits] by simp
  then have "u64_at ?d' 0 = off" "u64_at ?d' 8 = ucast (bt_key_type t)"
    using facts(7) blk [of 8 8] by (simp_all add: header_ok_def u64_at_def)
  moreover have "mmap_inv ((bt_file t)\<lparr>mf_disk := ?d'\<rparr>)" using facts(1) poke_block(4) [OF fits] by (simp add: mmap_inv_def)
  moreover have "node_of_bytes (bt_slot t) (take (bt_node_size t) (drop (block_off (bt_slot t) k) ?d')) = ns ! k" if "k < length ns" for k
    using file_nodes [OF assms that] blk [of "block_off (bt_slot t) k"] by (simp add: bt_block_def block_off_def kHeaderSize_def)
  moreover have "bt_slot t = slot_key_size (bt_key_type t)" using assms by (simp add: file_rep_def)
  ultimately show ?thesis
    unfolding file_rep_def using facts(2-4) poke_block(4) [OF fits] by (simp add: header_ok_def bt_block_def bt_poke_def mf_poke_def)
qed

text \<open>A new root over the two halves of the old one.\<close>

lemma new_root_rep:
  assumes "file_rep t ns" "stored (bt_slot t) ns T" "stored (bt_slot t) ns d" "bt_root_off t = page_at (bt_slot t) T" "length s = bt_slot t"
    and "os_ok env" "block_off (bt_slot t) (Suc (length ns)) < 2 ^ 64"
  shows "\<exists>f t' n. mmap_resize env (mf_size (bt_file t) + bt_node_size t) (bt_file t) = (kOk, f) \<and>
    t' = bt_poke 0 (put_u64 (word_of_nat (mf_size (bt_file t))))
      ((bt_poke (mf_size (bt_file t)) (node_bytes (fresh_node (bt_slot t) 0 (bt_root_off t) [over (bt_slot t) s (replicate (bt_slot t) 0)]
         [page_at (bt_slot t) d])) (t\<lparr>bt_file := f\<rparr>))\<lparr>bt_root_off := word_of_nat (mf_size (bt_file t))\<rparr>) \<and>
    file_rep t' (ns @ [n]) \<and> stored (bt_slot t) (ns @ [n]) (BInner (length ns) [T, d] [s]) \<and>
    bt_slot t' = bt_slot t \<and> bt_key_type t' = bt_key_type t \<and> bt_root_off t' = page_of (bt_slot t) (length ns)"
proof -
  let ?ks = "bt_slot t"
  define rt where "rt = fresh_node ?ks 0 (bt_root_off t) [s] [page_at ?ks d]"
  have over: "over ?ks s (replicate ?ks 0) = s" using assms(5) by (simp add: over_full)
  have h: "holds ?ks [s] [page_at ?ks d] rt" unfolding rt_def using assms(5) by (intro fresh_holds) (simp_all add: kMaxKeys_def)
  then have ok: "node_ok ?ks rt" by (simp add: holds_def)
  have env: "os_ftruncate env = None" "os_mmap env" using assms(6) by (simp_all add: os_ok_def)
  obtain t2 where t2: "append_node env rt t = BtOk (page_of ?ks (length ns), t2)" "file_rep t2 (ns @ [rt])" "same_tree t t2"
    using append_rep [OF assms(1) ok env assms(7)] by blast
  obtain f where f: "mmap_resize env (mf_size (bt_file t) + bt_node_size t) (bt_file t) = (kOk, f)"
    using mmap_resize_fine [OF _ env] file_facts(6) [OF assms(1)] by blast
  have t2': "t2 = bt_poke (mf_size (bt_file t)) (node_bytes rt) (t\<lparr>bt_file := f\<rparr>)"
    using t2(1) f by (simp add: append_node_def Let_def split: if_splits)
  have page: "page_of ?ks (length ns) = word_of_nat (mf_size (bt_file t))" by (simp add: page_of_def file_facts(5) [OF assms(1)])
  have kids: "stored ?ks (ns @ [rt]) c" if "stored ?ks ns c" for c
    using stored_blocks [OF that] by (intro stored_cong [OF that]) (simp_all add: nth_append)
  have st: "stored ?ks (ns @ [rt]) (BInner (length ns) [T, d] [s])"
    using h kids [OF assms(2)] kids [OF assms(3)] assms(4) by (simp add: nth_append) (simp add: rt_def fresh_node_def)
  show ?thesis
    by (intro exI [of _ f] exI [of _ "bt_poke 0 (put_u64 (word_of_nat (mf_size (bt_file t)))) (t2\<lparr>bt_root_off := word_of_nat (mf_size (bt_file t))\<rparr>)"]
        exI [of _ rt] conjI f header_rep [OF t2(2)] st)
      (use t2(3) page over in \<open>simp_all add: t2' rt_def same_tree_def bt_poke_def\<close>)
qed

lemma index_insert:
  assumes "index_rep t m" "good_key (bt_key_type t) key" "m (rank_of t key) = None" "os_ok env" "mf_size (bt_file t) < 2 ^ 62"
  shows "\<exists>t'. bt_insert env t key row = BtOk (kOk, t') \<and> index_rep t' (m(rank_of t key \<mapsto> row)) \<and> bt_key_type t' = bt_key_type t"
proof -
  let ?r = "rank_of t" and ?ks = "bt_slot t" and ?kt = "bt_key_type t"
  obtain ns T lo0 hi0 where i: "file_rep t ns" "stored ?ks ns T" "well_ordered ?kt T lo0 hi0"
      "distinct (blocks T)" "bt_root_off t = page_at ?ks T" "m = entry_map ?r (entries T)"
    using assms(1) unfolding index_rep_def by auto
  obtain lo hi where o: "well_ordered ?kt T lo hi" "lo \<le> ?r key" "?r key < hi" using widen_order [OF i(3)] .
  then have ord: "ordered ?r T lo hi" by (simp add: well_ordered_def)
  note sorted = entries_sorted [OF ord]
  have fresh: "?r key \<notin> (?r \<circ> fst) ` set (entries T)"
    using assms(3) by (auto simp: i(6) entry_map_def map_of_eq_None_iff image_image)
  note fit = blocks_fit [OF i(1,2,4)]
  have room: "block_off ?ks (Suc (length ns + length (blocks T))) < 2 ^ 64" by (rule insert_room [OF i(1) assms(5) fit(1)])
  then have "block_off ?ks (length ns + length (blocks T)) < 2 ^ 64" by (simp add: block_off_Suc)
  note ins = insert_rep [OF i(1,2) o(1) assms(2) o(2,3) i(4) fit(2) assms(4) this, of row]
  obtain T' split nx' where T': "tree_insert ?r T key row (length ns) = (T', split, nx')" by (cases "tree_insert ?r T key row (length ns)") auto
  obtain t' ns' where t': "insert_into_subtree (bt_fuel t) env t (page_at ?ks T) key row = BtOk (map_option (\<lambda>(s, d). (s, page_at ?ks d)) split, t')"
      "file_rep t' ns'" "same_tree t t'" "length ns' = nx'" "length ns \<le> nx'" "stored ?ks ns' T'"
      "case split of None \<Rightarrow> True | Some (s, d) \<Rightarrow> stored ?ks ns' d"
    using ins unfolding T' inserted_def by auto
  have same: "bt_slot t' = ?ks" "bt_key_type t' = ?kt" "bt_root_off t' = page_at ?ks T" using t'(3) i(5) by (simp_all add: same_tree_def)
  note small = stored_small [OF i(2)]
  have res: "split_ok ?r lo hi T' split" "mset (entries T' @ split_list split entries) = add_mset (key, row) (mset (entries T))"
    using tree_insert_ordered [OF ord o(2,3) fresh T'] by blast+
  have tb: "nx' \<le> length ns + length (blocks T)" "block_of T' = block_of T"
      "mset (blocks T' @ split_list split blocks) = mset (blocks T @ [length ns..<nx'])"
    using tree_insert_blocks [OF small T'] by blast+
  have "distinct (blocks T @ [length ns..<nx'])" using i(4) stored_blocks [OF i(2)] by auto
  with mset_eq_imp_distinct_iff [OF tb(3)] have dist: "distinct (blocks T' @ split_list split blocks)" by blast
  have good: "\<forall>k \<in> tree_keys T' \<union> split_keys split. good_key ?kt k"
    using tree_insert_keys [OF small T'] o(1) assms(2) by (auto simp: well_ordered_def)
  show ?thesis
  proof (cases split)
    case None
    have "well_ordered ?kt T' lo hi" using res(1) good None by (simp add: well_ordered_def split_ok_def)
    moreover have "entry_map ?r (entries T') = m(?r key \<mapsto> row)"
      unfolding i(6) using calculation res(2) None
      by (intro entry_map_insert sorted) (auto simp: well_ordered_def split_list_def dest: entries_sorted)
    ultimately have "index_rep t' (m(?r key \<mapsto> row))"
      unfolding index_rep_def using t'(2,6) dist None same tb(2) by (intro exI [of _ ns'] exI [of _ T']) (auto simp: split_list_def)
    with t'(1) None i(5) same show ?thesis by (simp add: bt_insert_def)
  next
    case (Some p)
    obtain s d where p: "p = (s, d)" by (cases p)
    have len: "length s = bt_slot t'" using good Some p same i(1) by (simp add: split_keys_def good_key_def file_rep_def)
    have d: "stored (bt_slot t') ns' d" "stored (bt_slot t') ns' T'" using t'(6,7) Some p same by simp_all
    have "block_off (bt_slot t') (Suc (length ns')) < 2 ^ 64"
      using room block_off_mono [of "Suc nx'" "Suc (length ns + length (blocks T))" ?ks] tb(1) t'(4) same by simp
    from new_root_rep [OF t'(2) d(2,1) _ len assms(4) this] same tb(2)
    obtain f t'' n where r: "mmap_resize env (mf_size (bt_file t') + bt_node_size t') (bt_file t') = (kOk, f)"
        "t'' = bt_poke 0 (put_u64 (word_of_nat (mf_size (bt_file t'))))
          ((bt_poke (mf_size (bt_file t')) (node_bytes (fresh_node (bt_slot t') 0 (bt_root_off t') [over (bt_slot t') s (replicate (bt_slot t') 0)]
             [page_at (bt_slot t') d])) (t'\<lparr>bt_file := f\<rparr>))\<lparr>bt_root_off := word_of_nat (mf_size (bt_file t'))\<rparr>)"
        "file_rep t'' (ns' @ [n])" "stored ?ks (ns' @ [n]) (BInner (length ns') [T', d] [s])" "bt_slot t'' = ?ks" "bt_key_type t'' = ?kt"
        "bt_root_off t'' = page_of ?ks (length ns')" by auto
    let ?T = "BInner (length ns') [T', d] [s]"
    have wo: "well_ordered ?kt ?T lo hi"
      using res(1) good Some p by (auto simp: well_ordered_def split_ok_def split_keys_def tree_keys_inner)
    moreover have "entry_map ?r (entries ?T) = m(?r key \<mapsto> row)"
      unfolding i(6) using entries_sorted [of ?r ?T lo hi] wo res(2) Some p
      by (intro entry_map_insert sorted) (simp_all add: well_ordered_def split_list_def)
    moreover have "distinct (blocks ?T)"
      using dist stored_blocks [OF d(1)] stored_blocks [OF d(2)] Some p by (auto simp: split_list_def)
    ultimately have "index_rep t'' (m(?r key \<mapsto> row))"
      unfolding index_rep_def using r(3-7) by (intro exI [of _ "ns' @ [n]"] exI [of _ ?T]) auto
    moreover have "bt_insert env t key row = BtOk (kOk, t'')"
      using t'(1) i(5) same Some p r(1,2) by (simp add: bt_insert_def Let_def)
    ultimately show ?thesis using r(6) by blast
  qed
qed

section \<open>Creating and opening\<close>

lemma created_disk:
  assumes "length d = 16 + n" "5 \<le> n" "length a = 8" "length b = 8"
  shows "poke 20 [1] (poke 16 (put_u32 0) (poke 16 (replicate n 0) (poke 8 b (poke 0 a d)))) = a @ b @ put_u32 0 @ [1] @ replicate (n - 5) 0"
proof -
  have "poke 8 b (poke 0 a d) = (a @ b) @ drop 16 d" using assms by (simp add: poke_def)
  moreover have "poke 16 (replicate n 0) ((a @ b) @ drop 16 d) = (a @ b) @ replicate n 0" using assms by (simp add: poke_def)
  moreover have "poke 16 (put_u32 0) ((a @ b) @ replicate n 0) = (a @ b @ put_u32 0) @ replicate (n - 4) 0" using assms by (simp add: poke_def)
  moreover have "poke 20 [1] ((a @ b @ put_u32 0) @ replicate (n - 4) 0) = a @ b @ put_u32 0 @ [1] @ replicate (n - 5) 0" using assms by (simp add: poke_def)
  ultimately show ?thesis by simp
qed

lemma index_created:
  assumes "bt_create env contents ct = Inr t"
  shows "index_rep t Map.empty" "bt_key_type t = column_type_tag ct"
proof -
  let ?kt = "column_type_tag ct"
  let ?ks = "slot_key_size ?kt"
  let ?n = "node_size ?ks"
  have n: "5 \<le> ?n" "?n \<le> 2 ^ 14" by (simp_all add: node_size_def kNodeHdr_def slot_key_size_def kMaxKeys_def kMaxSlotKeySize_def)
  obtain f where f: "mmap_open env contents (kHeaderSize + ?n) mmap_init = (False, f)"
    using assms by (auto simp: bt_create_def Let_def split: prod.splits bool.splits)
  then have f': "mmap_inv f" "length (mf_disk f) = 16 + ?n"
    by (auto simp: mmap_open_def mmap_init_def mmap_inv_def kHeaderSize_def Let_def split: if_splits)
  define d where "d = put_u64 16 @ put_u64 (ucast ?kt) @ put_u32 0 @ [1] @ replicate (?n - 5) (0 :: byte)"
  have t: "t = (bt_make f ?kt 16)\<lparr>bt_file := f\<lparr>mf_disk := d\<rparr>\<rparr>"
    using assms f created_disk [OF f'(2) n(1), of "put_u64 16" "put_u64 (ucast ?kt)"]
    by (simp add: bt_create_def Let_def bt_make_def bt_poke_def mf_poke_def d_def kHeaderSize_def)
  have len: "length d = 16 + ?n" using n by (simp add: d_def)
  define nd where "nd = node_of_bytes ?ks (take ?n (drop 16 d))"
  have drop: "drop 16 d = put_u32 0 @ [1] @ replicate (?n - 5) 0" by (simp add: d_def)
  have num: "nd_num nd = 0"
    using at_put(2) [of "[]" 0 "0 :: u32" "take (?n - 4) ([1] @ replicate (?n - 5) 0)"] n(1) by (simp add: nd_def node_of_bytes_def drop)
  have leaf: "nd_leaf nd = 1" using n(1) by (simp add: nd_def node_of_bytes_def drop take_Cons')
  have "node_ok ?ks nd" unfolding nd_def using len by (intro node_ok_of_bytes) simp
  then have holds: "holds ?ks [] [] nd" using num by (simp add: holds_def)
  have off: "block_off ?ks 0 = 16" "block_off ?ks 1 = 16 + ?n" by (simp_all add: block_off_def kHeaderSize_def)
  have "u64_at d 0 = 16" "u64_at d 8 = ucast ?kt"
    using at_put(3) [of "[]" 0 16] at_put(3) [of "put_u64 16" 8 "ucast ?kt"] by (simp_all add: d_def)
  moreover have "mmap_inv (f\<lparr>mf_disk := d\<rparr>)" using f' len by (simp add: mmap_inv_def)
  ultimately have "file_rep t [nd]"
    using len n off by (simp add: file_rep_def t bt_make_def header_ok_def bt_block_def nd_def)
  moreover have "stored (bt_slot t) [nd] (BLeaf 0 [])" using holds leaf by (simp add: t bt_make_def)
  moreover have "bt_root_off t = page_at (bt_slot t) (BLeaf 0 [])" by (simp add: t bt_make_def page_of_def off)
  ultimately show "index_rep t Map.empty"
    unfolding index_rep_def by (intro exI [of _ "[nd]"] exI [of _ "BLeaf 0 []"]) (simp add: well_ordered_def tree_keys_def entry_map_def)
  show "bt_key_type t = ?kt" by (simp add: t bt_make_def)
qed

lemma index_reopened:
  assumes "index_rep t m" "bt_open env (mf_disk (bt_file t)) = Inr t'"
  shows "index_rep t' m" "bt_key_type t' = bt_key_type t"
proof -
  obtain ns T lo hi where i: "file_rep t ns" "stored (bt_slot t) ns T" "well_ordered (bt_key_type t) T lo hi"
      "distinct (blocks T)" "bt_root_off t = page_at (bt_slot t) T" "m = entry_map (rank_of t) (entries T)"
    using assms(1) unfolding index_rep_def by auto
  let ?d = "mf_disk (bt_file t)"
  obtain f where f: "mmap_open env ?d 0 mmap_init = (False, f)"
      and t': "t' = bt_make f (ucast (u64_at (mf_disk f) 8)) (u64_at (mf_disk f) 0)"
    using assms(2) by (auto simp: bt_open_def split: prod.splits bool.splits if_splits)
  have f': "mmap_inv f" "mf_disk f = ?d" using mmap_open_inv [OF f] by simp_all
  have "ucast (ucast (bt_key_type t) :: u64) = bt_key_type t" by (rule bit_word_eqI) (auto simp: bit_simps)
  then have s: "bt_key_type t' = bt_key_type t" "bt_root_off t' = bt_root_off t" "bt_file t' = f"
      "bt_slot t' = slot_key_size (bt_key_type t)" "bt_node_size t' = node_size (slot_key_size (bt_key_type t))"
    using file_facts(7) [OF i(1)] f'(2) by (simp_all add: t' bt_make_def header_ok_def)
  moreover have "bt_slot t = slot_key_size (bt_key_type t)" using i(1) by (simp add: file_rep_def)
  ultimately have "file_rep t' ns" using i(1) f' by (auto simp: file_rep_def header_ok_def bt_block_def)
  with i s \<open>bt_slot t = _\<close> show "index_rep t' m" "bt_key_type t' = bt_key_type t"
    unfolding index_rep_def by auto
qed

lemma index_closed:
  assumes "index_rep t m"
  shows "\<exists>t1. index_rep t1 m \<and> bt_key_type t1 = bt_key_type t \<and> mf_disk (bt_file (bt_close t)) = mf_disk (bt_file t1)"
proof -
  obtain ns T lo hi where i: "file_rep t ns" "stored (bt_slot t) ns T" "well_ordered (bt_key_type t) T lo hi"
      "distinct (blocks T)" "bt_root_off t = page_at (bt_slot t) T" "m = entry_map (rank_of t) (entries T)"
    using assms unfolding index_rep_def by auto
  let ?t1 = "bt_poke 0 (put_u64 (bt_root_off t)) t"
  have "file_rep ?t1 ns" using header_rep [OF i(1), of "bt_root_off t"] by simp
  then have "index_rep ?t1 m" using i(2-6) unfolding index_rep_def by (auto simp: bt_poke_def)
  moreover have "mf_disk (bt_file (bt_close t)) = mf_disk (bt_file ?t1)"
    using file_facts [OF i(1)] by (simp add: bt_close_def mmap_close_def do_munmap_def block_off_def Let_def bt_poke_def)
  ultimately show ?thesis by (intro exI [of _ ?t1]) (simp add: bt_poke_def)
qed

section \<open>The life of an index\<close>

text \<open>The map of an index: it is created, takes keys of the fixed-size types that it does not yet
  have, and is opened again from its file, after it was closed or after its process has died.\<close>

inductive index_history :: "BTree \<Rightarrow> (int \<rightharpoonup> RowId) \<Rightarrow> bool" where
  created: "bt_create env contents ct = Inr t \<Longrightarrow> index_history t Map.empty"
| inserted: "index_history t m \<Longrightarrow> good_key (bt_key_type t) key \<Longrightarrow> m (rank_of t key) = None \<Longrightarrow> os_ok env \<Longrightarrow>
    mf_size (bt_file t) < 2 ^ 62 \<Longrightarrow> bt_insert env t key row = BtOk (st, t') \<Longrightarrow> index_history t' (m(rank_of t key \<mapsto> row))"
| reopened: "index_history t m \<Longrightarrow> bt_open env (mf_disk (bt_file (bt_close t))) = Inr t' \<Longrightarrow> index_history t' m"
| crashed: "index_history t m \<Longrightarrow> bt_open env (mf_disk (bt_file t)) = Inr t' \<Longrightarrow> index_history t' m"

lemma history_index: "index_history t m \<Longrightarrow> index_rep t m"
proof (induction rule: index_history.induct)
  case (created env contents ct t)
  then show ?case by (rule index_created)
next
  case (inserted t m key env row st t')
  from index_insert [OF inserted(7,2-5), of row] obtain t2 where "bt_insert env t key row = BtOk (kOk, t2)"
      "index_rep t2 (m(rank_of t key \<mapsto> row))" by blast
  moreover from this(1) inserted(6) have "t2 = t'" by simp
  ultimately show ?case by blast
next
  case (reopened t m env t')
  from index_closed [OF reopened(3)] obtain t1 where "index_rep t1 m" "mf_disk (bt_file (bt_close t)) = mf_disk (bt_file t1)" by blast
  with reopened(2) index_reopened(1) [of t1 m env t'] show ?case by simp
next
  case (crashed t m env t')
  then show ?case using index_reopened(1) by blast
qed

text \<open>
  C5: An index on a column of fixed size is a map: over any history of creation, insertions of keys
  that it does not have yet, on a file that can grow (with as many node splits as it takes), closing,
  crashes of the process and reopening, a search finds exactly the row that was inserted with an
  equal key, and \<open>kNotFound\<close> if there was none. Not covered are columns of strings (a key that is
  shorter than its slot keeps the end of the key whose slot it takes), the same key inserted twice
  (the search then looks at one leaf only), and insertions whose growth of the file fails.
\<close>

theorem index_is_a_map:
  assumes "index_history t m" "good_key (bt_key_type t) key"
  shows "bt_search t key = (case m (key_rank (bt_key_type t) key) of None \<Rightarrow> BtError kNotFound | Some row \<Rightarrow> BtOk [row])"
  by (rule index_search [OF history_index [OF assms(1)] assms(2)])

text \<open>
  C31: An insertion completes: for a valid new key, as long as the file can grow, the descent ends
  within the fuel, no null pointer is written, and the status is \<open>kOk\<close>.
\<close>

theorem index_insert_completes:
  assumes "index_history t m" "good_key (bt_key_type t) key" "m (key_rank (bt_key_type t) key) = None" "os_ok env" "mf_size (bt_file t) < 2 ^ 62"
  shows "\<exists>t'. bt_insert env t key row = BtOk (kOk, t') \<and> bt_key_type t' = bt_key_type t"
  using index_insert [OF history_index [OF assms(1)] assms(2-5)] by blast

definition sample_index :: BTree where "sample_index = projr (bt_create os_fine [] kInt32)"

lemma sample_index_facts:
  "index_history sample_index Map.empty" "bt_key_type sample_index = column_type_tag kInt32" "mf_size (bt_file sample_index) = 404"
proof -
  obtain f where f: "mmap_open os_fine [] 404 mmap_init = (False, f)" "mf_size f = 404"
    by (simp add: mmap_open_def mmap_init_def os_fine_def Let_def)
  then have c: "bt_create os_fine [] kInt32 = Inr sample_index"
    by (simp add: sample_index_def bt_create_def Let_def kHeaderSize_def node_size_def slot_key_size_def kNodeHdr_def kMaxKeys_def)
  then show "index_history sample_index Map.empty" by (rule index_history.created)
  show "bt_key_type sample_index = column_type_tag kInt32" using index_created(2) [OF c] .
  show "mf_size (bt_file sample_index) = 404"
    unfolding sample_index_def using f
    by (simp add: bt_create_def Let_def bt_make_def bt_poke_def mf_poke_def kHeaderSize_def node_size_def slot_key_size_def kNodeHdr_def kMaxKeys_def)
qed

lemma sample_keys: "good_key (column_type_tag kInt32) [b, 0, 0, 0]" "key_rank (column_type_tag kInt32) [7, 0, 0, 0] = 7"
  "key_rank (column_type_tag kInt32) [8, 0, 0, 0] = 8"
  by (simp add: good_key_def slot_key_size_def, code_simp+)

theorem index_insert_completes_witness: "\<exists>t'. bt_insert os_fine sample_index [7, 0, 0, 0] 3 = BtOk (kOk, t')"
  using index_insert_completes [OF sample_index_facts(1), of "[7, 0, 0, 0]" os_fine 3] sample_index_facts(2,3) sample_keys(1) by auto

theorem index_is_a_map_witness:
  "\<exists>t'. bt_insert os_fine sample_index [7, 0, 0, 0] 3 = BtOk (kOk, t') \<and>
    bt_search t' [7, 0, 0, 0] = BtOk [3] \<and> bt_search t' [8, 0, 0, 0] = BtError kNotFound"
proof -
  note s = sample_index_facts
  obtain t' where t': "bt_insert os_fine sample_index [7, 0, 0, 0] 3 = BtOk (kOk, t')" "bt_key_type t' = bt_key_type sample_index"
    using index_insert [OF history_index [OF s(1)], of "[7, 0, 0, 0]" os_fine 3] s(2,3) sample_keys(1) by auto
  have h: "index_history t' [7 \<mapsto> 3]"
    using index_history.inserted [OF s(1) _ _ _ _ t'(1)] s(2,3) sample_keys by simp
  from index_is_a_map [OF h, of "[7, 0, 0, 0]"] index_is_a_map [OF h, of "[8, 0, 0, 0]"] show ?thesis
    using t' s(2) sample_keys by auto
qed

end
