(* ===== verification/Spec2Isabelle.thy ===== *)
theory Spec2Isabelle
  imports Page Version_Index Wal_Log Row_Filter Sql_Statements Table_History Scan_Rows Gc
    Flush_Handler Exec_Insert Cli Btree_Map
begin

text \<open>
  RawDB, an embedded columnar database in C++ (\<open>src/src\<close>). A statement goes from the shell
  (\<open>cli\<close>) or the C interface (\<open>rawdb.cpp\<close>) to the executor (\<open>query\<close>), which parses it and runs it
  on the database (\<open>db\<close>). The database has a list of tables (\<open>storage\<close>), a clock and a version
  index per table (\<open>mvcc\<close>), a write-ahead log (\<open>recovery\<close>), transactions (\<open>db/transaction\<close>) and
  indexes (\<open>index\<close>). A row is first put into a pending batch of its table. A flush, by the flush
  handler (\<open>buffer\<close>), by a commit or by the garbage collector, writes the batch as a page of a
  mapped file (\<open>memory\<close>) and enters its rows into the version index, which a reader searches with
  its timestamp. Opening a database reads the pages and replays the log.

  \<^bold>\<open>Conventions.\<close> Machine integers are words of their width, structures are records, enumerations
  datatypes with a tag function. Memory that the code copies with \<open>memcpy\<close> is a list of bytes,
  little-endian. \<open>StatusOr\<close> is a sum, \<open>std::optional\<close> an option; an outer option is \<open>None\<close> where
  the code throws, crashes or reads outside of an object. A status is modelled by its code, its
  message is not kept. What the operating system, the file system and the clock answer is an
  argument of the operations (the records \<open>OsEnv\<close>, \<open>WalEnv\<close>, \<open>FileEnv\<close>, \<open>OpenEnv\<close>, \<open>ExecEnv\<close>).

  \<^bold>\<open>Theories and sources.\<close>
  \<^item> \<open>Prelude\<close>, \<open>Core_Types\<close>: byte images, the locales of codecs and orders; \<open>core/*.hpp\<close>.
  \<^item> \<open>Page\<close>: \<open>storage/page.hpp\<close>, \<open>page.cpp\<close>, header and CRC-32C.
  \<^item> \<open>Version_Index\<close>: \<open>mvcc/version_index.*\<close>, with the clock and the watermarks (which
    \<open>timestamp.hpp\<close> and \<open>snapshot.hpp\<close> repeat; nothing includes them); \<open>Gc\<close>: \<open>mvcc/gc.*\<close>.
  \<^item> \<open>Wal\<close>: \<open>recovery/wal.*\<close>; \<open>Wal_Log\<close>: the abstract log and its refinement.
  \<^item> \<open>Cstring\<close>, \<open>Float64\<close>, \<open>Exec_Text\<close>: what the sources use of the C++ library for strings,
    \<open>double\<close>, and the conversions between them.
  \<^item> \<open>Simd\<close>: \<open>query/simd_ops.hpp\<close>; \<open>Row_Filter\<close>: \<open>query/executor_filter.cpp\<close>; \<open>Sql_Values\<close>: what
    values, comparisons and literals mean in SQL, which the filter and the executor are compared with.
  \<^item> \<open>Ast\<close>, \<open>Sql_Lexer\<close>, \<open>Sql_Parser\<close>: \<open>query/parser.*\<close>; \<open>Sql_Printer\<close>, \<open>Sql_Roundtrip\<close>,
    \<open>Sql_Statements\<close>: a printer for statements and the round trip through the parser.
  \<^item> \<open>Mmap_File\<close>: \<open>memory/mmap_file.*\<close>; \<open>Btree\<close>: \<open>index/btree.*\<close>. \<open>Btree_Tree\<close>,
    \<open>Btree_File\<close>, \<open>Btree_Refine\<close>, \<open>Btree_Map\<close>: a functional B+-tree, the nodes of the file as an
    image of it, and the index as a map from keys to rows.
  \<^item> \<open>Table_Store\<close>, \<open>Table_Read\<close>: \<open>storage/table.*\<close>, \<open>table_read.cpp\<close>, \<open>table_vacuum.cpp\<close>;
    \<open>Table_Scan\<close>: \<open>Executor::read_table_columns\<close>. \<open>Table_Rows\<close>, \<open>Table_Refine\<close>, \<open>Table_Vacuum\<close>,
    \<open>Table_History\<close>, \<open>Scan_Rows\<close>: the abstract table, a list of rows, and its refinement;
    \<open>Table_Versions\<close>: its versions as a multiset.
  \<^item> \<open>Database\<close>, \<open>Db_Maintain\<close>, \<open>Db_Recovery\<close>: \<open>db/database.*\<close>, \<open>db/transaction.*\<close>,
    \<open>query/connection.hpp\<close>; \<open>Background\<close>: the threads of the database and of \<open>mvcc/gc.cpp\<close>, one
    function per turn. \<open>Db_Isolation\<close>, \<open>Db_History\<close>, \<open>Db_Steps\<close>, \<open>Db_Snapshots\<close>: the life of
    a database as a step relation and what transactions promise; \<open>Db_Replay\<close>, \<open>Db_Durability\<close>:
    what a restart brings back.
  \<^item> \<open>State_Machine\<close>: the locales of step relations; \<open>Flush_Handler\<close>: \<open>buffer/flush_handler.*\<close>.
  \<^item> \<open>Exec_Values\<close>, \<open>Exec_Select\<close>, \<open>Executor\<close>: \<open>query/executor*.cpp\<close> and \<open>rawdb.cpp\<close>.
    \<open>Exec_Shape\<close>, \<open>Exec_Where\<close>, \<open>Exec_Correct\<close>, \<open>Exec_Insert\<close>: what statements return and store.
  \<^item> \<open>Cli\<close>: \<open>cli/*\<close>.

  \<^bold>\<open>What is shown.\<close> Codecs (page header, log header, version index, schema files, statements) are
  inverse to each other. The checksum is polynomial division. The log gives back what was
  appended to it, also behind a torn write and over several segments, and removing old segments
  keeps what recovery needs. The vectorised filters select the same positions as the scalar
  loop, and the evaluation of a predicate the rows that satisfy it. The parser always ends. A
  table holds the rows of its history over insertions, flushes, vacuums and crashes, reading and
  scanning deliver them, and the version index finds the newest version that a snapshot may
  see. An index file holds a B+-tree and is a map from keys to rows, and an insertion into it
  completes. In every history of a database, snapshots never change, commits and rollbacks are
  all-or-nothing and no uncommitted version is without an owner. Recovery restores the committed
  rows, and an automatic backup leaves a copy of every file. A \<open>SELECT\<close> returns the visible rows
  that its \<open>WHERE\<close> admits, an \<open>INSERT\<close> appends its rows, results are rectangular and are printed
  aligned. A returned \<open>flush_all\<close> means that the rows are in the file.

  \<^bold>\<open>Conditions.\<close> The step relations describe a machine that works, and are narrower than the code:
  in \<open>wal_reach\<close> no append and no flush of the log fails, in \<open>table_history\<close> and \<open>fh_step\<close> every write to a
  file succeeds (\<open>os_ok\<close>) and sizes stay in their fields, \<open>fh_step\<close> has no vacuum, and \<open>db_history\<close> starts
  with an empty directory and ends with the process. Restarts, crashes and torn writes are treated by
  theorems of their own. The index is shown to be a map for columns of fixed size and new keys. The
  properties of versions exclude rows that one transaction inserted and deleted, where two versions have
  one timestamp. The meaning of a \<open>WHERE\<close> in SQL is reached for literals of the type of their column
  (\<open>literal_fits\<close>), without an index and without empty strings. The clock is ahead of the versions in the
  stored indexes only, not of rows that the log brings back.

  \<^bold>\<open>Failures.\<close> Where the code breaks such a promise, a theorem shows what happens instead: the
  log that is applied twice, the record behind a checkpoint, the clock after a rollback and after a replay,
  the torn first page, the failed resize (\<open>failed_flush_destroys_pages\<close>), a failed append or flush of the
  log, a deleted row that pruning brings back, a literal of another type, an unknown column.

  \<^bold>\<open>Bounds and fuel.\<close> \<open>parse_fuel\<close> is four times the length of the text plus twelve; every step of
  the grammar functions that uses up fuel also consumes a character or descends by one of at
  most four levels, and \<open>parse_terminates\<close> shows that it never runs out. \<open>bt_fuel\<close> is the size of
  the index file plus one, more than there are nodes; \<open>index_insert_completes\<close> shows
  that it is enough for every file the code has written; only a damaged file with a cycle
  exhausts it, on which the code does not return. The theorems on tables and databases carry
  the bounds under which the counters of the code (64 bits for rows and timestamps, 32 bits for offsets in a
  page) do not wrap around.

  \<^bold>\<open>Not modelled.\<close> The memory model: every operation runs alone, except that the flush handler's
  steps interleave with those of other threads; the locks of the code make the operations on one
  table exclusive. The sleeping of the background threads only decides when
  their turns run; the turns themselves are modelled and are steps of a database's history.
  Move operations and destructors are transfers of ownership. The Python binding is glue. What
  \<open>operator<<\<close> prints for a status is an argument of the shell.
\<close>

end
